(* ===== verification/Prelude.thy ===== *)
theory Prelude
  imports Main "HOL-Library.Word" "HOL-Library.Multiset"
begin

text \<open>
  What the component theories share.

  Pointers.  The code's intrusive containers link nodes through a pointer member of the
  node.  A node is an address (\<open>addr\<close>), a possibly null pointer is an \<open>addr option\<close>
  (\<open>None\<close> is \<open>nullptr\<close>) and one pointer member of all nodes is a map from addresses to
  pointers (\<open>links\<close>).  \<open>chain nx p xs q\<close> says that following \<open>nx\<close> from \<open>p\<close> visits exactly
  the nodes \<open>xs\<close> and then arrives at \<open>q\<close>.

  Transition systems.  Code that several threads run is an \<open>inductive\<close> step relation on the
  shared state; \<open>reach\<close> is the set of its reachable states.  The locale \<open>safe_system\<close> is
  the contract every such component meets (an invariant that holds at the start and that
  every step keeps), and \<open>refined_system\<close> adds an abstract system that simulates it.

  Collections.  \<open>chain_simps\<close> gathers the rewrite rules on pointer chains and
  \<open>step_defs\<close> the definitions of the atomic actions of the step relations.
\<close>

named_theorems chain_simps "rewrite rules for pointer chains"
named_theorems step_defs "definitions of the atomic actions of step relations"

section \<open>Pointers and pointer chains\<close>

type_synonym addr = nat
type_synonym links = "addr \<Rightarrow> addr option"

primrec chain :: "links \<Rightarrow> addr option \<Rightarrow> addr list \<Rightarrow> addr option \<Rightarrow> bool" where
  "chain nx p [] q \<longleftrightarrow> p = q"
| "chain nx p (x # xs) q \<longleftrightarrow> p = Some x \<and> chain nx (nx x) xs q"

lemma chain_append [chain_simps]:
  "chain nx p (xs @ ys) q \<longleftrightarrow> (\<exists>r. chain nx p xs r \<and> chain nx r ys q)"
  by (induction xs arbitrary: p) auto

lemma chain_upd_other [chain_simps, simp]:
  "a \<notin> set xs \<Longrightarrow> chain (nx(a := v)) p xs q = chain nx p xs q"
  by (induction xs arbitrary: p) auto

lemma chain_cong: "(\<And>a. a \<in> set xs \<Longrightarrow> nx a = nx' a) \<Longrightarrow> chain nx p xs q = chain nx' p xs q"
  by (induction xs arbitrary: p) auto

lemma chain_None_start [chain_simps, simp]: "chain nx None xs q \<longleftrightarrow> xs = [] \<and> q = None"
  by (cases xs) auto

lemma chain_unique: "chain nx p xs None \<Longrightarrow> chain nx p ys None \<Longrightarrow> xs = ys"
proof (induction xs arbitrary: p ys)
  case Nil
  then show ?case by simp
next
  case (Cons x xs)
  then show ?case by (cases ys) auto
qed

text \<open>A chain that ends in the null pointer has no cycle.\<close>

lemma chain_null_distinct: "chain nx p xs None \<Longrightarrow> distinct xs"
proof (induction xs arbitrary: p)
  case Nil
  then show ?case by simp
next
  case (Cons x xs)
  have "x \<notin> set xs"
  proof
    assume "x \<in> set xs"
    then obtain us vs where xs: "xs = us @ x # vs" by (meson split_list)
    with Cons.prems have "chain nx (nx x) (us @ x # vs) None" "chain nx (nx x) vs None"
      by (auto simp: chain_simps)
    then have "us @ x # vs = vs" by (rule chain_unique)
    then have "length (us @ x # vs) = length vs" by (rule arg_cong)
    then show False by simp
  qed
  with Cons show ?case by auto
qed

lemma chain_last_null:
  "chain nx p xs None \<Longrightarrow> xs \<noteq> [] \<Longrightarrow> nx (last xs) = None"
  by (induction xs arbitrary: p) (auto split: if_splits)

lemma chain_inner_not_null:
  "chain nx p xs None \<Longrightarrow> x \<in> set xs \<Longrightarrow> x \<noteq> last xs \<Longrightarrow> nx x \<noteq> None"
proof (induction xs arbitrary: p)
  case (Cons y ys)
  then show ?case by (cases ys) (auto split: if_splits)
qed simp

text \<open>Redirecting the last node of a chain.\<close>

lemma chain_set_last:
  assumes "chain nx p xs q" and "distinct xs" and "xs \<noteq> []"
  shows "chain (nx(last xs := r)) p xs r"
  using assms
proof (induction xs arbitrary: p)
  case Nil
  then show ?case by simp
next
  case (Cons x xs)
  then show ?case by (cases "xs = []") (auto simp: fun_upd_def)
qed

lemma chain_link_last:
  assumes "chain nx p xs q" and "chain nx r ys t" and "distinct xs" and "xs \<noteq> []"
    and "last xs \<notin> set ys"
  shows "chain (nx(last xs := r)) p (xs @ ys) t"
  using chain_set_last [OF assms(1,3,4), of r] assms(2,5) by (auto simp: chain_simps)

definition last_ptr :: "addr list \<Rightarrow> addr option" where
  "last_ptr xs = (if xs = [] then None else Some (last xs))"

lemma last_ptr_simps [simp]:
  "last_ptr [] = None" "last_ptr (x # xs) = Some (last (x # xs))"
  "last_ptr (xs @ [y]) = Some y"
  by (auto simp: last_ptr_def)

lemma last_ptr_None [simp]: "last_ptr xs = None \<longleftrightarrow> xs = []"
  by (simp add: last_ptr_def)

section \<open>Transition systems\<close>

inductive reach :: "('s \<Rightarrow> bool) \<Rightarrow> ('s \<Rightarrow> 's \<Rightarrow> bool) \<Rightarrow> 's \<Rightarrow> bool"
  for init :: "'s \<Rightarrow> bool" and step :: "'s \<Rightarrow> 's \<Rightarrow> bool" where
  reach_init: "init s \<Longrightarrow> reach init step s"
| reach_step: "reach init step s \<Longrightarrow> step s t \<Longrightarrow> reach init step t"

lemma reach_steps: "step\<^sup>*\<^sup>* s t \<Longrightarrow> reach init step s \<Longrightarrow> reach init step t"
  by (induction rule: rtranclp_induct) (auto intro: reach_step)

locale safe_system =
  fixes init :: "'s \<Rightarrow> bool" and step :: "'s \<Rightarrow> 's \<Rightarrow> bool" and inv :: "'s \<Rightarrow> bool"
  assumes init_inv: "init s \<Longrightarrow> inv s"
    and step_inv: "inv s \<Longrightarrow> step s t \<Longrightarrow> inv t"
begin

lemma reach_inv: "reach init step s \<Longrightarrow> inv s"
  by (induction rule: reach.induct) (auto intro: init_inv step_inv)

lemma steps_inv: "step\<^sup>*\<^sup>* s t \<Longrightarrow> inv s \<Longrightarrow> inv t"
  by (induction rule: rtranclp_induct) (auto intro: step_inv)

end

locale refined_system = safe_system init step inv
  for init :: "'s \<Rightarrow> bool" and step :: "'s \<Rightarrow> 's \<Rightarrow> bool" and inv :: "'s \<Rightarrow> bool" +
  fixes ainit :: "'a \<Rightarrow> bool" and astep :: "'a \<Rightarrow> 'a \<Rightarrow> bool" and absf :: "'s \<Rightarrow> 'a"
  assumes init_abs: "init s \<Longrightarrow> ainit (absf s)"
    and step_abs: "inv s \<Longrightarrow> step s t \<Longrightarrow> astep (absf s) (absf t) \<or> absf t = absf s"
begin

lemma reach_abs: "reach init step s \<Longrightarrow> reach ainit astep (absf s)"
proof (induction rule: reach.induct)
  case (reach_init s)
  then show ?case by (simp add: init_abs reach.reach_init)
next
  case (reach_step s t)
  from reach_step.hyps(1) have "inv s" by (rule reach_inv)
  from step_abs [OF this reach_step.hyps(2)] reach_step.IH show ?case
    by (auto intro: reach.reach_step)
qed

end

end
