(* ===== verification/IntrusiveQueue.thy ===== *)
theory IntrusiveQueue
  imports Prelude
begin

text \<open>
  The intrusive FIFO queue \<open>__intrusive_queue\<close> of
  \<^verbatim>\<open>include/stdexec/__detail/__intrusive_queue.hpp\<close>: a head and a tail pointer over nodes linked
  by their \<open>_Next\<close> member (the map \<open>nx\<close>, the whole of the memory the queue touches).
  Operations whose code asserts a precondition, or dereferences a pointer that may be null,
  return an option: \<open>None\<close> is the failed assertion or the null dereference.

  \<open>iq_rep nx q xs\<close> is the abstraction: \<open>q\<close> holds exactly the nodes \<open>xs\<close>, in order.  The locale
  \<open>fifo_queue\<close> is the contract the users of the queue rely on (\<open>rep\<close> is its abstraction), and
  it is interpreted on the operations below.
\<close>

section \<open>State and operations\<close>

record iqueue =
  iq_head :: "addr option"
  iq_tail :: "addr option"

definition iq_init :: iqueue where
  "iq_init = \<lparr>iq_head = None, iq_tail = None\<rparr>"

definition iq_empty :: "iqueue \<Rightarrow> bool" where
  "iq_empty q \<longleftrightarrow> iq_head q = None"

definition iq_clear :: "iqueue \<Rightarrow> iqueue" where
  "iq_clear q = q\<lparr>iq_head := None, iq_tail := None\<rparr>"

text \<open>The move constructor: the new queue and what is left of the old one.\<close>

definition iq_move :: "iqueue \<Rightarrow> iqueue \<times> iqueue" where
  "iq_move other = (\<lparr>iq_head = iq_head other, iq_tail = iq_tail other\<rparr>,
                    other\<lparr>iq_head := None, iq_tail := None\<rparr>)"

text \<open>
  \<open>operator=\<close> takes its argument by value and swaps with it; the argument's destructor
  asserts that what it received (the old contents) is empty.
\<close>

definition iq_assign :: "iqueue \<Rightarrow> iqueue \<Rightarrow> iqueue option" where
  "iq_assign this other = (if iq_empty this then Some other else None)"

text \<open>
  The loops of \<open>make_reversed\<close> and \<open>make\<close> follow the links to a null pointer; on a cyclic
  list they do not return (\<open>None\<close>).
\<close>

partial_function (option) iq_reverse_loop ::
    "links \<Rightarrow> addr option \<Rightarrow> addr option \<Rightarrow> (links \<times> addr option) option" where
  "iq_reverse_loop nx lst new_head =
     (case lst of
        None \<Rightarrow> Some (nx, new_head)
      | Some a \<Rightarrow> iq_reverse_loop (nx(a := new_head)) (nx a) lst)"

definition iq_make_reversed :: "links \<Rightarrow> addr option \<Rightarrow> (iqueue \<times> links) option" where
  "iq_make_reversed nx lst =
     map_option (\<lambda>(nx', h). (\<lparr>iq_head = h, iq_tail = lst\<rparr>, nx')) (iq_reverse_loop nx lst None)"

partial_function (option) iq_find_tail :: "links \<Rightarrow> addr \<Rightarrow> addr option" where
  "iq_find_tail nx t = (case nx t of None \<Rightarrow> Some t | Some t' \<Rightarrow> iq_find_tail nx t')"

definition iq_make :: "links \<Rightarrow> addr option \<Rightarrow> iqueue option" where
  "iq_make nx lst =
     (case lst of
        None \<Rightarrow> Some \<lparr>iq_head = None, iq_tail = None\<rparr>
      | Some a \<Rightarrow> map_option (\<lambda>t. \<lparr>iq_head = lst, iq_tail = Some t\<rparr>) (iq_find_tail nx a))"

definition iq_pop_front :: "iqueue \<Rightarrow> links \<Rightarrow> (addr \<times> iqueue) option" where
  "iq_pop_front q nx =
     (case iq_head q of
        None \<Rightarrow> None
      | Some item \<Rightarrow>
          let q1 = q\<lparr>iq_head := nx item\<rparr>
          in Some (item, if nx item = None then q1\<lparr>iq_tail := None\<rparr> else q1))"

definition iq_push_front :: "addr \<Rightarrow> iqueue \<Rightarrow> links \<Rightarrow> iqueue \<times> links" where
  "iq_push_front item q nx =
     (let nx1 = nx(item := iq_head q); q1 = q\<lparr>iq_head := Some item\<rparr>
      in (if iq_tail q = None then q1\<lparr>iq_tail := Some item\<rparr> else q1, nx1))"

definition iq_push_back :: "addr \<Rightarrow> iqueue \<Rightarrow> links \<Rightarrow> iqueue \<times> links" where
  "iq_push_back item q nx =
     (let nx1 = nx(item := None)
      in case iq_tail q of
           None \<Rightarrow> (q\<lparr>iq_head := Some item, iq_tail := Some item\<rparr>, nx1)
         | Some t \<Rightarrow> (q\<lparr>iq_tail := Some item\<rparr>, nx1(t := Some item)))"

text \<open>
  \<open>append\<close> dereferences the tail of a non-empty queue and \<open>prepend\<close> the tail of the other
  queue; a null tail there is the null dereference.
\<close>

definition iq_append :: "iqueue \<Rightarrow> iqueue \<Rightarrow> links \<Rightarrow> (iqueue \<times> links) option" where
  "iq_append this other nx =
     (if iq_empty other then Some (this, nx)
      else if iq_empty this
           then Some (this\<lparr>iq_head := iq_head other, iq_tail := iq_tail other\<rparr>, nx)
           else case iq_tail this of
                  None \<Rightarrow> None
                | Some t \<Rightarrow> Some (this\<lparr>iq_tail := iq_tail other\<rparr>, nx(t := iq_head other)))"

definition iq_prepend :: "iqueue \<Rightarrow> iqueue \<Rightarrow> links \<Rightarrow> (iqueue \<times> links) option" where
  "iq_prepend this other nx =
     (if iq_empty other then Some (this, nx)
      else case iq_tail other of
             None \<Rightarrow> None
           | Some t \<Rightarrow>
               let nx1 = nx(t := iq_head this); q1 = this\<lparr>iq_head := iq_head other\<rparr>
               in Some (if iq_tail this = None then q1\<lparr>iq_tail := iq_tail other\<rparr> else q1, nx1))"

record iq_iter =
  it_pred :: "addr option"
  it_item :: "addr option"

definition iq_begin :: "iqueue \<Rightarrow> iq_iter" where
  "iq_begin q = \<lparr>it_pred = None, it_item = iq_head q\<rparr>"

definition iq_end :: "iqueue \<Rightarrow> iq_iter" where
  "iq_end q = \<lparr>it_pred = iq_tail q, it_item = None\<rparr>"

definition iq_next :: "links \<Rightarrow> iq_iter \<Rightarrow> iq_iter" where
  "iq_next nx it =
     \<lparr>it_pred = it_item it, it_item = (case it_item it of None \<Rightarrow> None | Some a \<Rightarrow> nx a)\<rparr>"

definition iq_splice ::
    "iqueue \<Rightarrow> iq_iter \<Rightarrow> iqueue \<Rightarrow> iq_iter \<Rightarrow> iq_iter \<Rightarrow> links \<Rightarrow> (iqueue \<times> iqueue \<times> links) option" where
  "iq_splice this pos other fst_it last_it nx =
     (if fst_it = last_it then Some (this, other, nx)
      else case (it_item fst_it, it_pred last_it) of
        (Some f, Some l) \<Rightarrow>
          Option.bind
            (if iq_head other = Some f
             then (let o1 = other\<lparr>iq_head := it_item last_it\<rparr>
                   in Some (if it_item last_it = None then o1\<lparr>iq_tail := None\<rparr> else o1, nx))
             else (case it_pred fst_it of
                     None \<Rightarrow> None
                   | Some p \<Rightarrow> Some (other, (nx(p := it_item last_it))(l := it_item pos))))
            (\<lambda>(o2, nx2).
               if iq_empty this
               then Some (this\<lparr>iq_head := Some f, iq_tail := Some l\<rparr>, o2, nx2)
               else (case it_pred pos of
                       None \<Rightarrow> None
                     | Some p \<Rightarrow>
                         Some (if it_item pos = None then this\<lparr>iq_tail := Some l\<rparr> else this,
                               o2, nx2(p := Some f))))
      | _ \<Rightarrow> None)"


section \<open>Abstraction\<close>

definition iq_rep :: "links \<Rightarrow> iqueue \<Rightarrow> addr list \<Rightarrow> bool" where
  "iq_rep nx q xs \<longleftrightarrow> chain nx (iq_head q) xs None \<and> iq_tail q = last_ptr xs"

lemma iq_rep_distinct: "iq_rep nx q xs \<Longrightarrow> distinct xs"
  by (auto simp: iq_rep_def dest: chain_null_distinct)

lemma iq_rep_unique: "iq_rep nx q xs \<Longrightarrow> iq_rep nx q ys \<Longrightarrow> xs = ys"
  by (auto simp: iq_rep_def dest: chain_unique)

lemma iq_rep_frame: "iq_rep nx q xs \<Longrightarrow> a \<notin> set xs \<Longrightarrow> iq_rep (nx(a := v)) q xs"
  by (simp add: iq_rep_def)

lemma iq_rep_empty_iff: "iq_rep nx q xs \<Longrightarrow> iq_empty q \<longleftrightarrow> xs = []"
  by (cases xs) (auto simp: iq_rep_def iq_empty_def)

lemma iq_rep_init [simp]: "iq_rep nx iq_init []"
  by (simp add: iq_rep_def iq_init_def)

lemma iq_rep_clear [simp]: "iq_rep nx (iq_clear q) []"
  by (simp add: iq_rep_def iq_clear_def)

lemma iq_rep_head: "iq_rep nx q (x # xs) \<Longrightarrow> iq_head q = Some x \<and> chain nx (nx x) xs None"
  by (auto simp: iq_rep_def)

lemma iq_rep_tail: "iq_rep nx q xs \<Longrightarrow> xs \<noteq> [] \<Longrightarrow> iq_tail q = Some (last xs)"
  by (auto simp: iq_rep_def last_ptr_def)

lemma iq_rep_pop:
  assumes "iq_rep nx q (x # xs)"
  shows "\<exists>q'. iq_pop_front q nx = Some (x, q') \<and> iq_rep nx q' xs"
  using assms
  by (cases xs) (auto simp: iq_rep_def iq_pop_front_def Let_def last_ptr_def)

lemma iq_pop_empty: "iq_rep nx q [] \<Longrightarrow> iq_pop_front q nx = None"
  by (simp add: iq_rep_def iq_pop_front_def)

lemma iq_rep_push_back:
  assumes "iq_rep nx q xs" and "x \<notin> set xs" and "iq_push_back x q nx = (q', nx')"
  shows "iq_rep nx' q' (xs @ [x])"
proof (cases "xs = []")
  case True
  with assms show ?thesis by (auto simp: iq_rep_def iq_push_back_def)
next
  case False
  let ?nx = "nx(x := None)"
  from assms(1) have ch: "chain nx (iq_head q) xs None" and t: "iq_tail q = Some (last xs)"
    using False by (auto simp: iq_rep_def last_ptr_def)
  from ch assms(2) have "chain ?nx (iq_head q) xs None" by simp
  moreover have "chain ?nx (Some x) [x] None" by simp
  moreover have "distinct xs" using ch by (rule chain_null_distinct)
  moreover have "last xs \<notin> set [x]" using False assms(2) last_in_set [of xs] by auto
  ultimately have "chain (?nx(last xs := Some x)) (iq_head q) (xs @ [x]) None"
    using False by (blast intro: chain_link_last)
  with t assms(3) show ?thesis by (auto simp: iq_rep_def iq_push_back_def)
qed

lemma iq_push_back_frame:
  assumes "iq_rep nx q xs" and "iq_rep nx r ys" and "x \<notin> set ys" and "set xs \<inter> set ys = {}"
    and "iq_push_back x q nx = (q', nx')"
  shows "iq_rep nx' r ys"
proof (cases "xs = []")
  case True
  with assms show ?thesis by (auto simp: iq_rep_def iq_push_back_def)
next
  case False
  then have "last xs \<notin> set ys" using assms(4) last_in_set by blast
  with assms False show ?thesis
    by (auto simp: iq_rep_def iq_push_back_def last_ptr_def)
qed

lemma iq_rep_push_front:
  assumes "iq_rep nx q xs" and "x \<notin> set xs" and "iq_push_front x q nx = (q', nx')"
  shows "iq_rep nx' q' (x # xs)"
  using assms by (cases xs) (auto simp: iq_rep_def iq_push_front_def Let_def split: if_splits)

lemma iq_rep_append:
  assumes "iq_rep nx q xs" and "iq_rep nx r ys" and "set xs \<inter> set ys = {}"
  shows "\<exists>q' nx'. iq_append q r nx = Some (q', nx') \<and> iq_rep nx' q' (xs @ ys)"
proof (cases "xs = [] \<or> ys = []")
  case True
  then show ?thesis
  proof
    assume "xs = []"
    with assms show ?thesis
      by (cases ys) (auto simp: iq_append_def iq_rep_def iq_empty_def)
  next
    assume "ys = []"
    with assms show ?thesis by (auto simp: iq_append_def iq_rep_def iq_empty_def)
  qed
next
  case False
  from assms False have ne: "\<not> iq_empty q" "\<not> iq_empty r"
    by (auto simp: iq_rep_empty_iff [OF assms(1)] iq_rep_empty_iff [OF assms(2)])
  from assms(1) False have ch: "chain nx (iq_head q) xs None" "iq_tail q = Some (last xs)"
    by (auto simp: iq_rep_def last_ptr_def)
  from assms(2) False have ch2: "chain nx (iq_head r) ys None" "iq_tail r = Some (last ys)"
    by (auto simp: iq_rep_def last_ptr_def)
  have "last xs \<notin> set ys" using False assms(3) last_in_set [of xs] by blast
  then have "chain (nx(last xs := iq_head r)) (iq_head q) (xs @ ys) None"
    using chain_link_last ch(1) ch2(1) chain_null_distinct [OF ch(1)] False by blast
  with ne ch ch2 False show ?thesis
    by (simp add: iq_append_def iq_rep_def last_ptr_def)
qed

lemma iq_rep_prepend:
  assumes "iq_rep nx q xs" and "iq_rep nx r ys" and "set xs \<inter> set ys = {}"
  shows "\<exists>q' nx'. iq_prepend q r nx = Some (q', nx') \<and> iq_rep nx' q' (ys @ xs)"
proof (cases "ys = []")
  case True
  with assms show ?thesis by (auto simp: iq_prepend_def iq_rep_def iq_empty_def)
next
  case False
  from assms(2) False have ne: "\<not> iq_empty r" by (simp add: iq_rep_empty_iff [OF assms(2)])
  from assms(2) False have ch: "chain nx (iq_head r) ys None" "iq_tail r = Some (last ys)"
    by (auto simp: iq_rep_def last_ptr_def)
  from assms(1) have ch2: "chain nx (iq_head q) xs None" "iq_tail q = last_ptr xs"
    by (auto simp: iq_rep_def)
  have "last ys \<notin> set xs" using False assms(3) last_in_set [of ys] by blast
  then have "chain (nx(last ys := iq_head q)) (iq_head r) (ys @ xs) None"
    using chain_link_last ch(1) ch2(1) chain_null_distinct [OF ch(1)] False by blast
  with ne ch ch2 False show ?thesis
    by (auto simp: iq_prepend_def iq_rep_def last_ptr_def Let_def)
qed

subsection \<open>The loops of make and make\_reversed\<close>

lemma iq_reverse_loop_chain:
  assumes "chain nx p xs None" and "chain nx h ys None" and "set xs \<inter> set ys = {}"
  shows "\<exists>nx' h'. iq_reverse_loop nx p h = Some (nx', h') \<and> chain nx' h' (rev xs @ ys) None"
  using assms
proof (induction xs arbitrary: nx p h ys)
  case Nil
  then show ?case by (simp add: iq_reverse_loop.simps)
next
  case (Cons x xs)
  let ?nx = "nx(x := h)"
  from Cons.prems have p: "p = Some x" and dx: "x \<notin> set xs" "x \<notin> set ys"
    using chain_null_distinct by fastforce+
  have "chain ?nx (nx x) xs None" and "chain ?nx (Some x) (x # ys) None"
    and "set xs \<inter> set (x # ys) = {}"
    using Cons.prems dx by auto
  from Cons.IH [OF this] obtain nx' h' where
    "iq_reverse_loop ?nx (nx x) (Some x) = Some (nx', h')"
    and "chain nx' h' (rev xs @ x # ys) None" by blast
  with p show ?case by (subst iq_reverse_loop.simps) simp
qed

text \<open>The reversal writes only the links of the nodes it visits.\<close>

lemma iq_reverse_loop_frame:
  assumes "chain nx p xs None" and "iq_reverse_loop nx p h = Some (nx', h')" and "a \<notin> set xs"
  shows "nx' a = nx a"
  using assms
proof (induction xs arbitrary: nx p h)
  case Nil
  then show ?case by (simp add: iq_reverse_loop.simps)
next
  case (Cons x xs)
  from Cons.prems have p: "p = Some x" and dx: "x \<notin> set xs"
    using chain_null_distinct by fastforce+
  from Cons.prems(2) p have l: "iq_reverse_loop (nx(x := h)) (nx x) p = Some (nx', h')"
    by (subst (asm) iq_reverse_loop.simps) simp
  have "chain (nx(x := h)) (nx x) xs None" using Cons.prems(1) p dx by simp
  from Cons.IH [OF this l] Cons.prems(3) show ?case by simp
qed

lemma iq_make_reversed_frame:
  assumes "chain nx p xs None" and "iq_make_reversed nx p = Some (q, nx')" and "a \<notin> set xs"
  shows "nx' a = nx a"
  using assms iq_reverse_loop_frame by (auto simp: iq_make_reversed_def)

lemma iq_rep_make_reversed:
  assumes "chain nx p xs None"
  shows "\<exists>q nx'. iq_make_reversed nx p = Some (q, nx') \<and> iq_rep nx' q (rev xs)"
proof -
  from iq_reverse_loop_chain [OF assms, of None "[]"]
  obtain nx' h' where "iq_reverse_loop nx p None = Some (nx', h')" "chain nx' h' (rev xs) None"
    by auto
  moreover have "p = last_ptr (rev xs)" using assms by (cases xs) auto
  ultimately show ?thesis by (simp add: iq_make_reversed_def iq_rep_def)
qed

lemma iq_find_tail_chain: "chain nx (Some a) xs None \<Longrightarrow> iq_find_tail nx a = Some (last xs)"
proof (induction xs arbitrary: a)
  case Nil
  then show ?case by simp
next
  case (Cons x xs)
  then show ?case by (cases xs) (auto simp: iq_find_tail.simps [of nx x])
qed

lemma iq_rep_make:
  assumes "chain nx p xs None"
  shows "\<exists>q. iq_make nx p = Some q \<and> iq_rep nx q xs"
proof (cases p)
  case None
  with assms show ?thesis by (simp add: iq_make_def iq_rep_def)
next
  case (Some a)
  with assms have "iq_find_tail nx a = Some (last xs)" and "xs \<noteq> []"
    by (auto intro: iq_find_tail_chain)
  with Some assms show ?thesis by (simp add: iq_make_def iq_rep_def last_ptr_def)
qed


subsection \<open>Iterators and splice\<close>

text \<open>
  The iterator in front of the suffix \<open>zs\<close> of a queue that holds \<open>ys @ zs\<close>: its predecessor
  is the last node of \<open>ys\<close>.
\<close>

definition iq_iter_at :: "addr list \<Rightarrow> addr list \<Rightarrow> iq_iter" where
  "iq_iter_at ys zs = \<lparr>it_pred = last_ptr ys, it_item = (case zs of [] \<Rightarrow> None | z # _ \<Rightarrow> Some z)\<rparr>"

lemma iq_begin_at: "iq_rep nx q xs \<Longrightarrow> iq_begin q = iq_iter_at [] xs"
  by (cases xs) (auto simp: iq_rep_def iq_begin_def iq_iter_at_def)

lemma iq_end_at: "iq_rep nx q xs \<Longrightarrow> iq_end q = iq_iter_at xs []"
  by (auto simp: iq_rep_def iq_end_def iq_iter_at_def)

lemma iq_next_at:
  "iq_rep nx q (ys @ z # zs) \<Longrightarrow> iq_next nx (iq_iter_at ys (z # zs)) = iq_iter_at (ys @ [z]) zs"
  by (cases zs) (auto simp: iq_rep_def iq_next_def iq_iter_at_def chain_simps)

text \<open>
  The only use of \<open>splice\<close> in the library: a prefix \<open>[begin, it)\<close> of \<open>other\<close> is moved into an
  empty queue.  What is left in \<open>other\<close> is exactly the suffix.
\<close>

lemma iq_splice_prefix:
  assumes "iq_rep nx other (ys @ zs)" and "iq_empty this"
  shows "\<exists>this' other'.
    iq_splice this pos other (iq_begin other) (iq_iter_at ys zs) nx = Some (this', other', nx) \<and>
    iq_rep nx other' zs"
proof (cases ys)
  case Nil
  with assms show ?thesis by (simp add: iq_splice_def iq_begin_at [OF assms(1)])
next
  case (Cons y ys')
  have "iq_begin other = iq_iter_at [] (ys @ zs)" by (rule iq_begin_at [OF assms(1)])
  moreover from assms(1) have "chain nx (it_item (iq_iter_at ys zs)) zs None"
    by (cases zs) (auto simp: iq_rep_def iq_iter_at_def chain_simps)
  ultimately show ?thesis using assms Cons
    by (cases zs)
       (auto simp: iq_splice_def iq_iter_at_def iq_rep_def Let_def last_ptr_def)
qed

section \<open>The contract of a FIFO queue\<close>

locale fifo_queue =
  fixes rep :: "'m \<Rightarrow> 'q \<Rightarrow> 'a list \<Rightarrow> bool"
    and emptyq :: "'q"
    and is_empty :: "'q \<Rightarrow> bool"
    and push_back :: "'a \<Rightarrow> 'q \<Rightarrow> 'm \<Rightarrow> 'q \<times> 'm"
    and pop_front :: "'q \<Rightarrow> 'm \<Rightarrow> ('a \<times> 'q) option"
    and append :: "'q \<Rightarrow> 'q \<Rightarrow> 'm \<Rightarrow> ('q \<times> 'm) option"
  assumes rep_emptyq: "rep m emptyq []"
    and rep_distinct: "rep m q xs \<Longrightarrow> distinct xs"
    and rep_unique: "rep m q xs \<Longrightarrow> rep m q ys \<Longrightarrow> xs = ys"
    and rep_is_empty: "rep m q xs \<Longrightarrow> is_empty q \<longleftrightarrow> xs = []"
    and rep_push_back:
      "rep m q xs \<Longrightarrow> x \<notin> set xs \<Longrightarrow> push_back x q m = (q', m') \<Longrightarrow> rep m' q' (xs @ [x])"
    and push_back_frame:
      "rep m q xs \<Longrightarrow> rep m r ys \<Longrightarrow> x \<notin> set ys \<Longrightarrow> set xs \<inter> set ys = {} \<Longrightarrow>
       push_back x q m = (q', m') \<Longrightarrow> rep m' r ys"
    and rep_pop_front:
      "rep m q (x # xs) \<Longrightarrow> \<exists>q'. pop_front q m = Some (x, q') \<and> rep m q' xs"
    and pop_front_empty: "rep m q [] \<Longrightarrow> pop_front q m = None"
    and rep_append:
      "rep m q xs \<Longrightarrow> rep m r ys \<Longrightarrow> set xs \<inter> set ys = {} \<Longrightarrow>
       \<exists>q' m'. append q r m = Some (q', m') \<and> rep m' q' (xs @ ys)"
begin

text \<open>Moving the front of one queue to the back of another, the step of every hand-over loop.\<close>

lemma move_front:
  assumes "rep m src (x # xs)" and "rep m dst ys" and "set (x # xs) \<inter> set ys = {}"
  shows "\<exists>src' dst' m'. pop_front src m = Some (x, src') \<and> push_back x dst m = (dst', m') \<and>
           rep m' src' xs \<and> rep m' dst' (ys @ [x])"
proof -
  from rep_pop_front [OF assms(1)] obtain src' where
    pop: "pop_front src m = Some (x, src')" "rep m src' xs" by blast
  obtain dst' m' where push: "push_back x dst m = (dst', m')" by fastforce
  have "x \<notin> set ys" "x \<notin> set xs" "set ys \<inter> set xs = {}"
    using assms(3) rep_distinct [OF assms(1)] by auto
  then have "rep m' dst' (ys @ [x])" and "rep m' src' xs"
    using rep_push_back [OF assms(2) _ push] push_back_frame [OF assms(2) pop(2) _ _ push] by auto
  with pop push show ?thesis by blast
qed

lemma pop_front_cases:
  assumes "rep m q xs"
  shows "pop_front q m = None \<longleftrightarrow> is_empty q"
  using assms rep_is_empty [OF assms] pop_front_empty [of m q] rep_pop_front [of m q]
  by (cases xs) fastforce+

lemma push_then_pop_empty:
  assumes "push_back x emptyq m = (q, m')"
  shows "\<exists>q'. pop_front q m' = Some (x, q') \<and> rep m' q' []"
  using rep_pop_front [of m' q x "[]"] rep_push_back [OF rep_emptyq _ assms] by auto

end

interpretation iq: fifo_queue iq_rep iq_init iq_empty iq_push_back iq_pop_front iq_append
proof unfold_locales
  fix m q xs x assume "iq_rep m q (x # xs)"
  then show "\<exists>q'. iq_pop_front q m = Some (x, q') \<and> iq_rep m q' xs" by (rule iq_rep_pop)
qed (auto intro: iq_rep_distinct iq_rep_unique iq_rep_push_back iq_push_back_frame
       iq_rep_append iq_pop_empty simp: iq_rep_empty_iff)


section \<open>Properties\<close>

text \<open>
  A client's run: the operations it performs on one queue and what they return, on the
  pointers (\<open>iq_exec\<close>) and on the list the queue stands for (\<open>iq_spec\<close>).  The client may not
  insert a node that is in the queue (\<open>iq_client_ok\<close>).
\<close>

datatype iq_op = PushBack addr | PushFront addr | PopFront

fun iq_exec :: "iq_op list \<Rightarrow> iqueue \<Rightarrow> links \<Rightarrow> addr option list \<times> iqueue \<times> links" where
  "iq_exec [] q nx = ([], q, nx)"
| "iq_exec (PushBack a # ops) q nx =
     (let (q1, nx1) = iq_push_back a q nx in iq_exec ops q1 nx1)"
| "iq_exec (PushFront a # ops) q nx =
     (let (q1, nx1) = iq_push_front a q nx in iq_exec ops q1 nx1)"
| "iq_exec (PopFront # ops) q nx =
     (case iq_pop_front q nx of
        None \<Rightarrow> let (rs, r) = iq_exec ops q nx in (None # rs, r)
      | Some (a, q1) \<Rightarrow> let (rs, r) = iq_exec ops q1 nx in (Some a # rs, r))"

fun iq_spec :: "iq_op list \<Rightarrow> addr list \<Rightarrow> addr option list \<times> addr list" where
  "iq_spec [] xs = ([], xs)"
| "iq_spec (PushBack a # ops) xs = iq_spec ops (xs @ [a])"
| "iq_spec (PushFront a # ops) xs = iq_spec ops (a # xs)"
| "iq_spec (PopFront # ops) xs =
     (case xs of
        [] \<Rightarrow> let (rs, r) = iq_spec ops [] in (None # rs, r)
      | x # xs' \<Rightarrow> let (rs, r) = iq_spec ops xs' in (Some x # rs, r))"

fun iq_client_ok :: "iq_op list \<Rightarrow> addr list \<Rightarrow> bool" where
  "iq_client_ok [] xs = True"
| "iq_client_ok (PushBack a # ops) xs = (a \<notin> set xs \<and> iq_client_ok ops (xs @ [a]))"
| "iq_client_ok (PushFront a # ops) xs = (a \<notin> set xs \<and> iq_client_ok ops (a # xs))"
| "iq_client_ok (PopFront # ops) xs = iq_client_ok ops (tl xs)"

text \<open>
  Claim C2.  On any sequence of \<open>push_back\<close>, \<open>push_front\<close> and \<open>pop_front\<close> the intrusive
  queue returns what the list it stands for returns, and ends in a queue that stands for
  the resulting list.
\<close>

theorem iq_run_refines_list:
  assumes "iq_rep nx q xs" and "iq_client_ok ops xs"
  shows "\<exists>q' nx'. iq_exec ops q nx = (fst (iq_spec ops xs), q', nx') \<and>
           iq_rep nx' q' (snd (iq_spec ops xs))"
  using assms
proof (induction ops arbitrary: q nx xs)
  case Nil
  then show ?case by simp
next
  case (Cons op ops)
  show ?case
  proof (cases op)
    case (PushBack a)
    obtain q1 nx1 where push: "iq_push_back a q nx = (q1, nx1)" by fastforce
    with iq.rep_push_back [OF Cons.prems(1) _ push] Cons.prems(2) PushBack Cons.IH
    show ?thesis by auto
  next
    case (PushFront a)
    obtain q1 nx1 where push: "iq_push_front a q nx = (q1, nx1)" by fastforce
    with iq_rep_push_front [OF Cons.prems(1) _ push] Cons.prems(2) PushFront Cons.IH
    show ?thesis by auto
  next
    case PopFront
    show ?thesis
    proof (cases xs)
      case Nil
      with iq.pop_front_empty Cons PopFront show ?thesis
        by (fastforce split: prod.splits)
    next
      case (Cons x xs')
      with iq.rep_pop_front Cons.prems(1) obtain q1 where
        "iq_pop_front q nx = Some (x, q1)" "iq_rep nx q1 xs'" by blast
      with Cons.IH [of nx q1 xs'] Cons.prems(2) PopFront Cons show ?thesis
        by (auto split: prod.splits)
    qed
  qed
qed

theorem iq_run_refines_list_witness:
  "fst (iq_exec [PushBack 1, PushBack 2, PushFront 3, PopFront, PopFront] iq_init (\<lambda>_. None)) =
     [Some 3, Some 1]"
  using iq_run_refines_list [OF iq_rep_init, of
      "[PushBack 1, PushBack 2, PushFront 3, PopFront, PopFront]" "\<lambda>_. None"]
  by (auto simp: Let_def)

text \<open>
  Splicing the suffix \<open>[it, end)\<close> of a queue to the end of another non-empty queue
  delivers the nodes, but leaves the tail pointer of the source queue at its old last node,
  which now belongs to the other queue: \<open>splice\<close> resets the source's tail only when the
  range starts at its head.
\<close>

lemma iq_splice_suffix_stale_tail:
  assumes "iq_rep nx this xs" and "iq_rep nx other (ys @ zs)"
    and "xs \<noteq> []" and "ys \<noteq> []" and "zs \<noteq> []" and "set xs \<inter> set (ys @ zs) = {}"
  shows "\<exists>this' nx'. iq_splice this (iq_end this) other (iq_iter_at ys zs) (iq_end other) nx =
             Some (this', other, nx') \<and> iq_rep nx' this' (xs @ zs) \<and>
           chain nx' (iq_head other) ys None \<and> iq_tail other = Some (last zs) \<and>
           last zs \<notin> set ys"
proof -
  obtain z zs' where zs: "zs = z # zs'" using assms(5) by (cases zs) auto
  let ?nx1 = "(nx(last ys := None))(last zs := None)"
  let ?nx2 = "?nx1(last xs := Some z)"
  have dist: "distinct xs" "distinct ys" "distinct zs" "set ys \<inter> set zs = {}"
    using iq_rep_distinct [OF assms(1)] iq_rep_distinct [OF assms(2)] by auto
  have lasts: "last xs \<in> set xs" "last ys \<in> set ys" "last zs \<in> set zs" using assms by auto
  have nin: "last zs \<notin> set ys" using lasts dist(4) by blast
  from assms(2) have ch: "chain nx (iq_head other) ys (Some z)" "chain nx (Some z) zs None"
    by (auto simp: iq_rep_def chain_simps zs)
  from assms(1) have chx: "chain nx (iq_head this) xs None" by (simp add: iq_rep_def)
  have nz: "nx (last zs) = None" using chain_last_null [OF ch(2)] zs by simp
  have c1: "chain ?nx1 (iq_head other) ys None"
    using chain_set_last [OF ch(1) dist(2) assms(4), of None] nin by simp
  have "?nx1 = nx(last ys := None)" using nz by auto
  then have c2: "chain ?nx1 (Some z) zs None"
    using ch(2) lasts dist(4) by (metis IntI chain_upd_other empty_iff)
  have "last ys \<notin> set xs" "last zs \<notin> set xs" using lasts assms(6) by auto
  then have "chain ?nx1 (iq_head this) xs None" using chx by simp
  from chain_link_last [OF this c2 dist(1) assms(3)] lasts assms(6)
  have c3: "chain ?nx2 (iq_head this) (xs @ zs) None" by auto
  have "last xs \<notin> set ys" using lasts assms(6) by auto
  with c1 have c4: "chain ?nx2 (iq_head other) ys None" by simp
  have heads: "iq_head other = Some (hd ys)" "hd ys \<noteq> z" "\<not> iq_empty this"
    using ch(1) assms(4) dist(4) zs iq_rep_empty_iff [OF assms(1)] assms(3)
    by (cases ys; auto)+
  have tails: "iq_tail this = Some (last xs)" "iq_tail other = Some (last zs)"
    using iq_rep_tail [OF assms(1)] iq_rep_tail [OF assms(2)] assms by auto
  have "iq_splice this (iq_end this) other (iq_iter_at ys zs) (iq_end other) nx =
          Some (this\<lparr>iq_tail := Some (last zs)\<rparr>, other, ?nx2)"
    using heads tails zs assms(4)
    by (simp add: iq_splice_def iq_end_def iq_iter_at_def last_ptr_def)
  then show ?thesis using c3 c4 tails nin zs by (auto simp: iq_rep_def last_ptr_def)
qed

end
