(* ===== verification/IntrusiveSlist.thy ===== *)
theory IntrusiveSlist
  imports Prelude
begin

text \<open>
  The intrusive stack \<open>__intrusive_slist\<close> of
  \<^verbatim>\<open>include/stdexec/__detail/__intrusive_slist.hpp\<close>: one head pointer over nodes linked by
  their \<open>_Next\<close> member, with removal of an arbitrary node.  \<open>sl_rep nx l xs\<close> says that the
  list holds the nodes \<open>xs\<close>.
\<close>

section \<open>State and operations\<close>

record slist =
  sl_head :: "addr option"

definition sl_init :: slist where
  "sl_init = \<lparr>sl_head = None\<rparr>"

definition sl_move :: "slist \<Rightarrow> slist \<times> slist" where
  "sl_move other = (\<lparr>sl_head = sl_head other\<rparr>, other\<lparr>sl_head := None\<rparr>)"

definition sl_swap :: "slist \<Rightarrow> slist \<Rightarrow> slist \<times> slist" where
  "sl_swap this other = (this\<lparr>sl_head := sl_head other\<rparr>, other\<lparr>sl_head := sl_head this\<rparr>)"

definition sl_assign :: "slist \<Rightarrow> slist \<Rightarrow> slist" where
  "sl_assign this other = fst (sl_swap this other)"

definition sl_empty :: "slist \<Rightarrow> bool" where
  "sl_empty l \<longleftrightarrow> sl_head l = None"

definition sl_clear :: "slist \<Rightarrow> slist" where
  "sl_clear l = l\<lparr>sl_head := None\<rparr>"

definition sl_pop_front :: "slist \<Rightarrow> links \<Rightarrow> (addr \<times> slist) option" where
  "sl_pop_front l nx =
     (case sl_head l of None \<Rightarrow> None | Some a \<Rightarrow> Some (a, l\<lparr>sl_head := nx a\<rparr>))"

definition sl_push_front :: "addr \<Rightarrow> slist \<Rightarrow> links \<Rightarrow> slist \<times> links" where
  "sl_push_front item l nx = (l\<lparr>sl_head := Some item\<rparr>, nx(item := sl_head l))"

text \<open>
  \<open>remove\<close>: the head is popped, any other node is unlinked by its predecessor, which the
  range-for loop over the list looks for.  The result is the node, or null when it is not
  in the list.  \<open>None\<close> is a loop that does not return (a cyclic list).
\<close>

partial_function (option) sl_remove_loop ::
    "addr \<Rightarrow> addr option \<Rightarrow> links \<Rightarrow> (addr option \<times> links) option" where
  "sl_remove_loop item current nx =
     (case current of
        None \<Rightarrow> Some (None, nx)
      | Some c \<Rightarrow> if nx c = Some item then Some (Some item, nx(c := nx item))
                 else sl_remove_loop item (nx c) nx)"

definition sl_remove :: "addr \<Rightarrow> slist \<Rightarrow> links \<Rightarrow> (addr option \<times> slist \<times> links) option" where
  "sl_remove item l nx =
     (if sl_head l = Some item
      then map_option (\<lambda>(a, l'). (Some a, l', nx)) (sl_pop_front l nx)
      else map_option (\<lambda>(r, nx'). (r, l, nx')) (sl_remove_loop item (sl_head l) nx))"

section \<open>Abstraction\<close>

definition sl_rep :: "links \<Rightarrow> slist \<Rightarrow> addr list \<Rightarrow> bool" where
  "sl_rep nx l xs \<longleftrightarrow> chain nx (sl_head l) xs None"

lemma sl_rep_init: "sl_rep nx sl_init []"
  by (simp add: sl_rep_def sl_init_def)

lemma sl_rep_empty: "sl_rep nx l xs \<Longrightarrow> sl_empty l \<longleftrightarrow> xs = []"
  by (cases xs) (auto simp: sl_rep_def sl_empty_def)

lemma sl_rep_push_front:
  "sl_rep nx l xs \<Longrightarrow> x \<notin> set xs \<Longrightarrow> sl_push_front x l nx = (l', nx') \<Longrightarrow> sl_rep nx' l' (x # xs)"
  by (auto simp: sl_rep_def sl_push_front_def)

lemma sl_rep_pop_front:
  "sl_rep nx l (x # xs) \<Longrightarrow> \<exists>l'. sl_pop_front l nx = Some (x, l') \<and> sl_rep nx l' xs"
  by (auto simp: sl_rep_def sl_pop_front_def)

text \<open>
  The loop, started at a node other than the one looked for: it unlinks the node or leaves
  the links as they are.
\<close>

lemma sl_remove_loop_chain:
  assumes "chain nx p xs None" and "p \<noteq> Some item"
  shows "\<exists>nx'. sl_remove_loop item p nx =
           Some (if item \<in> set xs then Some item else None, nx') \<and>
           chain nx' p (remove1 item xs) None \<and> (\<forall>a. a \<notin> set xs \<longrightarrow> nx' a = nx a)"
  using assms
proof (induction xs arbitrary: p)
  case Nil
  then show ?case by (simp add: sl_remove_loop.simps)
next
  case (Cons x xs)
  then have p: "p = Some x" and ch: "chain nx (nx x) xs None" and neq: "x \<noteq> item"
    and dx: "x \<notin> set xs" using chain_null_distinct [OF Cons.prems(1)] by auto
  show ?case
  proof (cases "nx x = Some item")
    case True
    with ch obtain ys where ys: "xs = item # ys" "chain nx (nx item) ys None"
      by (cases xs) auto
    with dx have "chain (nx(x := nx item)) (nx item) ys None" by simp
    with True p neq ys show ?thesis
      by (auto simp: sl_remove_loop.simps [of item "Some x"])
  next
    case False
    from Cons.IH [OF ch False] obtain nx' where
      loop: "sl_remove_loop item (nx x) nx = Some (if item \<in> set xs then Some item else None, nx')"
      and rest: "chain nx' (nx x) (remove1 item xs) None" "\<forall>a. a \<notin> set xs \<longrightarrow> nx' a = nx a"
      by blast
    from rest(2) dx have "nx' x = nx x" by simp
    with loop rest p neq False show ?thesis
      by (auto simp: sl_remove_loop.simps [of item "Some x"])
  qed
qed

section \<open>Properties\<close>

text \<open>
  Claim C3.  \<open>remove\<close> returns on every well-formed list; it takes out exactly the given node
  and keeps the order of the others, or returns null and leaves the list when the node is not
  in it; no link of a node outside the list is written.
\<close>

theorem sl_remove_correct:
  assumes "sl_rep nx l xs"
  shows "\<exists>l' nx'. sl_remove item l nx =
           Some (if item \<in> set xs then Some item else None, l', nx') \<and>
           sl_rep nx' l' (remove1 item xs) \<and> (\<forall>a. a \<notin> set xs \<longrightarrow> nx' a = nx a)"
proof (cases "sl_head l = Some item")
  case True
  with assms obtain ys where "xs = item # ys" "chain nx (nx item) ys None"
    by (cases xs) (auto simp: sl_rep_def)
  with True show ?thesis by (auto simp: sl_remove_def sl_pop_front_def sl_rep_def)
next
  case False
  from assms have "chain nx (sl_head l) xs None" by (simp add: sl_rep_def)
  from sl_remove_loop_chain [OF this False] False show ?thesis
    by (auto simp: sl_remove_def sl_rep_def)
qed

theorem sl_remove_correct_witness:
  "\<exists>l' nx'. sl_remove 2 \<lparr>sl_head = Some 1\<rparr> ((\<lambda>_. None)(1 := Some 2, 2 := Some 3)) =
     Some (Some 2, l', nx') \<and> sl_rep nx' l' [1, 3]"
  using sl_remove_correct [of "(\<lambda>_. None)(1 := Some 2, 2 := Some 3)" "\<lparr>sl_head = Some 1\<rparr>" "[1, 2, 3]" 2]
  by (auto simp: sl_rep_def)

end
