(* ===== verification/AtomicQueue.thy ===== *)
theory AtomicQueue
  imports IntrusiveQueue
begin

text \<open>
  The two lock-free multi-producer queues: \<open>stdexec::__atomic_intrusive_queue\<close>
  (\<^verbatim>\<open>include/stdexec/__detail/__atomic_intrusive_queue.hpp\<close>: \<open>push\<close>, \<open>pop_all\<close>) and
  \<open>exec::__atomic_intrusive_queue\<close> (\<^verbatim>\<open>include/exec/detail/atomic_intrusive_queue.hpp\<close>:
  \<open>try_push_front\<close>, \<open>push_front\<close>, \<open>prepend\<close>, \<open>pop_all\<close>, \<open>pop_all_reversed\<close>).  Both are one atomic
  head pointer over a null-terminated list.

  Any number of threads run the methods, one atomic access per step: \<open>aq_pc\<close> holds the program
  counter of each thread with its local variables.  A weak compare-exchange may fail
  spuriously, so its failing rule has no guard on the head; the strong one of
  \<open>try_push_front\<close> fails only if the head has changed.  Accesses are sequentially consistent.
  The node lists in the program counters and the fields \<open>aq_stack\<close>, \<open>aq_in\<close> and \<open>aq_out\<close>
  are ghost state: the published nodes, every node ever published in the order of the
  successful compare-exchanges, and every node taken by a consumer, oldest first.
\<close>

section \<open>State\<close>

datatype aq_pc =
    AqIdle
  | AqLoaded addr addr "addr list" "addr option"
  | AqStored addr addr "addr list" "addr option"
  | AqTrying addr "addr option"
  | AqResetting "addr option"
  | AqTaken "addr option" "addr list"
  | AqReturned bool bool

record aq_state =
  aq_head :: "addr option"
  aq_next :: links
  aq_pc :: "nat \<Rightarrow> aq_pc"
  aq_stack :: "addr list"
  aq_in :: "addr list"
  aq_out :: "addr list"

definition aq_init :: "aq_state \<Rightarrow> bool" where
  "aq_init s \<longleftrightarrow> aq_head s = None \<and> (\<forall>t. aq_pc s t = AqIdle) \<and> aq_stack s = [] \<and>
     aq_in s = [] \<and> aq_out s = []"

fun aq_owns :: "aq_pc \<Rightarrow> addr list" where
  "aq_owns (AqLoaded h l ns old) = ns"
| "aq_owns (AqStored h l ns old) = ns"
| "aq_owns (AqTrying n old) = [n]"
| "aq_owns (AqTaken p zs) = zs"
| "aq_owns _ = []"

definition aq_fresh :: "addr \<Rightarrow> aq_state \<Rightarrow> bool" where
  "aq_fresh n s \<longleftrightarrow> n \<notin> set (aq_stack s) \<and> (\<forall>t. n \<notin> set (aq_owns (aq_pc s t)))"

definition aq_publish :: "addr \<Rightarrow> addr list \<Rightarrow> aq_state \<Rightarrow> aq_state" where
  "aq_publish h ns s = s\<lparr>aq_head := Some h, aq_stack := ns @ aq_stack s,
                         aq_in := aq_in s @ rev ns\<rparr>"

definition aq_take :: "aq_state \<Rightarrow> aq_state" where
  "aq_take s = s\<lparr>aq_head := None, aq_stack := [], aq_out := aq_out s @ rev (aq_stack s)\<rparr>"

definition aq_goto :: "nat \<Rightarrow> aq_pc \<Rightarrow> aq_state \<Rightarrow> aq_state" where
  "aq_goto t pc s = s\<lparr>aq_pc := (aq_pc s)(t := pc)\<rparr>"

section \<open>The methods\<close>

text \<open>
  \<open>push\<close> of stdexec and \<open>push_front\<close> of exec have the same body: load the head, store it in
  the node, try to swing the head to the node.  The result says whether the queue was empty.
\<close>

inductive aq_push_step :: "nat \<Rightarrow> aq_state \<Rightarrow> aq_state \<Rightarrow> bool" for t where
  push_load: "aq_pc s t = AqIdle \<Longrightarrow> aq_fresh n s \<Longrightarrow>
     aq_push_step t s (aq_goto t (AqLoaded n n [n] (aq_head s)) s)"
| push_link: "aq_pc s t = AqLoaded h l ns old \<Longrightarrow>
     aq_push_step t s (aq_goto t (AqStored h l ns old) (s\<lparr>aq_next := (aq_next s)(l := old)\<rparr>))"
| push_cas: "aq_pc s t = AqStored h l ns old \<Longrightarrow> aq_head s = old \<Longrightarrow>
     aq_push_step t s (aq_goto t (AqReturned True (old = None)) (aq_publish h ns s))"
| push_retry: "aq_pc s t = AqStored h l ns old \<Longrightarrow>
     aq_push_step t s (aq_goto t (AqLoaded h l ns (aq_head s)) s)"
| push_done: "aq_pc s t = AqReturned b c \<Longrightarrow> aq_push_step t s (aq_goto t AqIdle s)"

definition eaq_push_front_step :: "nat \<Rightarrow> aq_state \<Rightarrow> aq_state \<Rightarrow> bool" where
  "eaq_push_front_step = aq_push_step"

text \<open>
  \<open>prepend\<close> publishes a whole queue; after the load it is the loop of \<open>push\<close> on the
  queue's last node.  The caller owns the queue (a well-formed list of fresh nodes).
\<close>

inductive eaq_prepend_step :: "nat \<Rightarrow> aq_state \<Rightarrow> aq_state \<Rightarrow> bool" for t where
  prepend_load: "aq_pc s t = AqIdle \<Longrightarrow> iq_rep (aq_next s) q ns \<Longrightarrow> ns \<noteq> [] \<Longrightarrow>
     (\<forall>n\<in>set ns. aq_fresh n s) \<Longrightarrow> iq_head q = Some h \<Longrightarrow> iq_tail q = Some l \<Longrightarrow>
     eaq_prepend_step t s (aq_goto t (AqLoaded h l ns (aq_head s)) s)"

text \<open>\<open>try_push_front\<close>: one attempt, the result tells whether it succeeded.\<close>

inductive eaq_try_push_step :: "nat \<Rightarrow> aq_state \<Rightarrow> aq_state \<Rightarrow> bool" for t where
  try_load: "aq_pc s t = AqIdle \<Longrightarrow> aq_fresh n s \<Longrightarrow>
     eaq_try_push_step t s
       (aq_goto t (AqTrying n (aq_head s)) (s\<lparr>aq_next := (aq_next s)(n := aq_head s)\<rparr>))"
| try_ok: "aq_pc s t = AqTrying n old \<Longrightarrow> aq_head s = old \<Longrightarrow>
     eaq_try_push_step t s (aq_goto t (AqReturned True (old = None)) (aq_publish n [n] s))"
| try_fail: "aq_pc s t = AqTrying n old \<Longrightarrow> aq_head s \<noteq> old \<Longrightarrow>
     eaq_try_push_step t s (aq_goto t (AqReturned False (aq_head s = None)) s)"

text \<open>
  \<open>pop_all\<close> of stdexec: one exchange takes the list, which is then reversed.  The reversal
  touches nodes of the taken list only, so it is one step.
\<close>

inductive aq_pop_all_step :: "nat \<Rightarrow> aq_state \<Rightarrow> aq_state \<Rightarrow> bool" for t where
  pop_exchange: "aq_pc s t = AqIdle \<Longrightarrow>
     aq_pop_all_step t s (aq_goto t (AqTaken (aq_head s) (aq_stack s)) (aq_take s))"
| pop_reverse: "aq_pc s t = AqTaken p zs \<Longrightarrow> iq_make_reversed (aq_next s) p = Some (q, nx') \<Longrightarrow>
     aq_pop_all_step t s (aq_goto t AqIdle (s\<lparr>aq_next := nx'\<rparr>))"

text \<open>
  \<open>reset_head\<close> of exec: a compare-exchange loop; \<open>pop_all\<close> hands the list out as it is (and
  \<open>pop_all_reversed\<close> as above, by \<open>pop_reverse\<close>).
\<close>

inductive eaq_reset_step :: "nat \<Rightarrow> aq_state \<Rightarrow> aq_state \<Rightarrow> bool" for t where
  reset_load: "aq_pc s t = AqIdle \<Longrightarrow> eaq_reset_step t s (aq_goto t (AqResetting (aq_head s)) s)"
| reset_cas: "aq_pc s t = AqResetting old \<Longrightarrow> aq_head s = old \<Longrightarrow>
     eaq_reset_step t s (aq_goto t (AqTaken old (aq_stack s)) (aq_take s))"
| reset_retry: "aq_pc s t = AqResetting old \<Longrightarrow>
     eaq_reset_step t s (aq_goto t (AqResetting (aq_head s)) s)"

inductive eaq_pop_all_step :: "nat \<Rightarrow> aq_state \<Rightarrow> aq_state \<Rightarrow> bool" for t where
  pop_make: "aq_pc s t = AqTaken p zs \<Longrightarrow> iq_make (aq_next s) p = Some q \<Longrightarrow>
     eaq_pop_all_step t s (aq_goto t AqIdle s)"

inductive aq_step :: "aq_state \<Rightarrow> aq_state \<Rightarrow> bool" where
  by_push: "aq_push_step t s s' \<Longrightarrow> aq_step s s'"
| by_push_front: "eaq_push_front_step t s s' \<Longrightarrow> aq_step s s'"
| by_prepend: "eaq_prepend_step t s s' \<Longrightarrow> aq_step s s'"
| by_try_push: "eaq_try_push_step t s s' \<Longrightarrow> aq_step s s'"
| by_pop_all: "aq_pop_all_step t s s' \<Longrightarrow> aq_step s s'"
| by_reset: "eaq_reset_step t s s' \<Longrightarrow> aq_step s s'"
| by_make: "eaq_pop_all_step t s s' \<Longrightarrow> aq_step s s'"

section \<open>The invariant\<close>

fun aq_pc_ok :: "links \<Rightarrow> aq_pc \<Rightarrow> bool" where
  "aq_pc_ok nx (AqLoaded h l ns old) \<longleftrightarrow>
     ns \<noteq> [] \<and> h = hd ns \<and> l = last ns \<and> distinct ns \<and> (\<exists>r. chain nx (Some h) ns r)"
| "aq_pc_ok nx (AqStored h l ns old) \<longleftrightarrow>
     ns \<noteq> [] \<and> h = hd ns \<and> l = last ns \<and> distinct ns \<and> chain nx (Some h) ns old"
| "aq_pc_ok nx (AqTrying n old) \<longleftrightarrow> nx n = old"
| "aq_pc_ok nx (AqTaken p zs) \<longleftrightarrow> chain nx p zs None"
| "aq_pc_ok nx _ \<longleftrightarrow> True"

definition aq_inv :: "aq_state \<Rightarrow> bool" where
  "aq_inv s \<longleftrightarrow> chain (aq_next s) (aq_head s) (aq_stack s) None \<and>
     (\<forall>t. aq_pc_ok (aq_next s) (aq_pc s t)) \<and>
     (\<forall>t. set (aq_owns (aq_pc s t)) \<inter> set (aq_stack s) = {}) \<and>
     (\<forall>t u. t \<noteq> u \<longrightarrow> set (aq_owns (aq_pc s t)) \<inter> set (aq_owns (aq_pc s u)) = {}) \<and>
     aq_in s = aq_out s @ rev (aq_stack s)"

lemma aq_pc_ok_cong:
  "(\<And>a. a \<in> set (aq_owns pc) \<Longrightarrow> nx a = nx' a) \<Longrightarrow> aq_pc_ok nx pc \<Longrightarrow> aq_pc_ok nx' pc"
  by (cases pc) (auto simp: chain_cong [of _ nx nx'])

text \<open>
  The local step: thread \<open>t\<close> moves to \<open>pc'\<close>, changing only links of nodes it owned before and
  keeping only nodes it owned or fresh ones.
\<close>

lemma aq_inv_local:
  assumes inv: "aq_inv s"
    and mem: "\<And>a. a \<notin> set (aq_owns (aq_pc s t)) \<Longrightarrow> \<not> aq_fresh a s \<Longrightarrow> nx' a = aq_next s a"
    and ok: "aq_pc_ok nx' pc'"
    and owns: "\<And>a. a \<in> set (aq_owns pc') \<Longrightarrow> a \<in> set (aq_owns (aq_pc s t)) \<or> aq_fresh a s"
  shows "aq_inv (aq_goto t pc' (s\<lparr>aq_next := nx'\<rparr>))"
proof -
  have keep: "aq_next s a = nx' a" if "a \<notin> set (aq_owns (aq_pc s t))"
    and "a \<in> set (aq_stack s) \<or> (\<exists>u. a \<in> set (aq_owns (aq_pc s u)))" for a
    using mem [OF that(1)] that(2) by (auto simp: aq_fresh_def)
  have "aq_next s a = nx' a" if "a \<in> set (aq_stack s)" for a
    using inv that by (intro keep) (auto simp: aq_inv_def)
  then have stack: "chain nx' (aq_head s) (aq_stack s) None"
    using inv chain_cong [of "aq_stack s" "aq_next s" nx'] by (simp add: aq_inv_def)
  have sep: "set (aq_owns (aq_pc s t)) \<inter> set (aq_owns (aq_pc s u)) = {}" if "u \<noteq> t" for u
    using inv that by (simp add: aq_inv_def)
  have others: "aq_pc_ok nx' (aq_pc s u)" if "u \<noteq> t" for u
  proof (rule aq_pc_ok_cong)
    show "aq_pc_ok (aq_next s) (aq_pc s u)" using inv by (simp add: aq_inv_def)
    show "aq_next s a = nx' a" if "a \<in> set (aq_owns (aq_pc s u))" for a
      using sep [OF \<open>u \<noteq> t\<close>] that by (intro keep) auto
  qed
  have dis1: "set (aq_owns pc') \<inter> set (aq_stack s) = {}"
    using inv owns by (auto simp: aq_inv_def aq_fresh_def)
  have dis2: "set (aq_owns pc') \<inter> set (aq_owns (aq_pc s u)) = {}" if "u \<noteq> t" for u
    using sep [OF that] owns by (auto simp: aq_fresh_def)
  show ?thesis using inv stack others dis1 dis2 ok
    by (simp add: aq_inv_def aq_goto_def Int_commute)
qed

lemma aq_inv_goto:
  assumes "aq_inv s" and "aq_pc_ok (aq_next s) pc'"
    and "\<And>a. a \<in> set (aq_owns pc') \<Longrightarrow> a \<in> set (aq_owns (aq_pc s t)) \<or> aq_fresh a s"
  shows "aq_inv (aq_goto t pc' s)"
  using aq_inv_local [OF assms(1) _ assms(2,3)] by simp

lemma aq_inv_publish:
  assumes "aq_inv s" and "aq_owns (aq_pc s t) = ns" and "chain (aq_next s) (Some h) ns (aq_head s)"
    and "aq_owns pc' = []" and "aq_pc_ok (aq_next s) pc'"
  shows "aq_inv (aq_goto t pc' (aq_publish h ns s))"
proof -
  have "set (aq_owns (aq_pc s t)) \<inter> set (aq_owns (aq_pc s u)) = {}" if "u \<noteq> t" for u
    using assms(1) that by (simp add: aq_inv_def)
  then have "set ns \<inter> set (aq_owns (aq_pc s u)) = {}" if "u \<noteq> t" for u
    using assms(2) that by simp
  moreover have "chain (aq_next s) (Some h) (ns @ aq_stack s) None"
    using assms(1,3) by (auto simp: aq_inv_def chain_simps)
  moreover have "set (aq_owns (aq_pc s u)) \<inter> set (aq_stack s) = {}" for u
    using assms(1) by (simp add: aq_inv_def)
  ultimately show ?thesis using assms
    by (simp add: aq_inv_def aq_goto_def aq_publish_def Int_Un_distrib Int_commute)
qed

lemma aq_inv_take:
  assumes "aq_inv s" and "aq_owns (aq_pc s t) = []"
  shows "aq_inv (aq_goto t (AqTaken (aq_head s) (aq_stack s)) (aq_take s))"
  using assms by (simp add: aq_inv_def aq_goto_def aq_take_def Int_commute)

lemma aq_inv_pc: "aq_inv s \<Longrightarrow> aq_pc s t = pc \<Longrightarrow> aq_pc_ok (aq_next s) pc"
  by (auto simp: aq_inv_def)

lemma aq_push_step_inv: "aq_push_step t s s' \<Longrightarrow> aq_inv s \<Longrightarrow> aq_inv s'"
proof (induction rule: aq_push_step.induct)
  case (push_load s n)
  then show ?case by (intro aq_inv_goto) auto
next
  case (push_link s h l ns old)
  from aq_inv_pc [OF push_link.prems push_link.hyps] obtain r where
    ns: "ns \<noteq> []" "h = hd ns" "l = last ns" "distinct ns" "chain (aq_next s) (Some h) ns r"
    by auto
  show ?case
  proof (rule aq_inv_local [OF push_link.prems])
    show "aq_pc_ok ((aq_next s)(l := old)) (AqStored h l ns old)"
      using ns chain_set_last [of "aq_next s" "Some h" ns r old] by auto
  qed (use push_link ns in auto)
next
  case (push_cas s h l ns old)
  from aq_inv_pc [OF push_cas.prems push_cas.hyps(1)] push_cas show ?case
    by (intro aq_inv_publish) auto
next
  case (push_retry s h l ns old)
  from aq_inv_pc [OF push_retry.prems push_retry.hyps] push_retry show ?case
    by (intro aq_inv_goto) auto
next
  case (push_done s b c)
  then show ?case by (intro aq_inv_goto) auto
qed

lemma eaq_prepend_step_inv: "eaq_prepend_step t s s' \<Longrightarrow> aq_inv s \<Longrightarrow> aq_inv s'"
proof (induction rule: eaq_prepend_step.induct)
  case (prepend_load s q ns h l)
  from prepend_load.hyps(2,5) have ch: "chain (aq_next s) (Some h) ns None"
    by (simp add: iq_rep_def)
  moreover from ch prepend_load.hyps(3) have "h = hd ns" by (cases ns) auto
  moreover from prepend_load.hyps(2,3,6) have "l = last ns"
    by (simp add: iq_rep_def last_ptr_def)
  ultimately have "aq_pc_ok (aq_next s) (AqLoaded h l ns (aq_head s))"
    using prepend_load.hyps(3) chain_null_distinct [OF ch] by auto
  with prepend_load show ?case by (intro aq_inv_goto) auto
qed

lemma eaq_try_push_step_inv: "eaq_try_push_step t s s' \<Longrightarrow> aq_inv s \<Longrightarrow> aq_inv s'"
proof (induction rule: eaq_try_push_step.induct)
  case (try_load s n)
  show ?case
  proof (rule aq_inv_local [OF try_load.prems])
    fix a assume "\<not> aq_fresh a s"
    with try_load.hyps(2) have "a \<noteq> n" by blast
    then show "((aq_next s)(n := aq_head s)) a = aq_next s a" by simp
  qed (use try_load.hyps in simp_all)
next
  case (try_ok s n old)
  from aq_inv_pc [OF try_ok.prems try_ok.hyps(1)] try_ok show ?case
    by (intro aq_inv_publish) auto
next
  case (try_fail s n old)
  then show ?case by (intro aq_inv_goto) auto
qed

lemma aq_pop_all_step_inv: "aq_pop_all_step t s s' \<Longrightarrow> aq_inv s \<Longrightarrow> aq_inv s'"
proof (induction rule: aq_pop_all_step.induct)
  case (pop_exchange s)
  then show ?case by (intro aq_inv_take) auto
next
  case (pop_reverse s p zs q nx')
  from aq_inv_pc [OF pop_reverse.prems pop_reverse.hyps(1)]
  have "chain (aq_next s) p zs None" by simp
  note same = iq_make_reversed_frame [OF this pop_reverse.hyps(2)]
  show ?case by (rule aq_inv_local [OF pop_reverse.prems]) (use pop_reverse.hyps same in auto)
qed

lemma eaq_reset_step_inv: "eaq_reset_step t s s' \<Longrightarrow> aq_inv s \<Longrightarrow> aq_inv s'"
proof (induction rule: eaq_reset_step.induct)
  case (reset_cas s old)
  then show ?case using aq_inv_take [of s t] by auto
qed (auto intro!: aq_inv_goto)

lemma eaq_pop_all_step_inv: "eaq_pop_all_step t s s' \<Longrightarrow> aq_inv s \<Longrightarrow> aq_inv s'"
  by (induction rule: eaq_pop_all_step.induct) (auto intro!: aq_inv_goto)

lemma aq_step_inv: "aq_step s s' \<Longrightarrow> aq_inv s \<Longrightarrow> aq_inv s'"
  by (induction rule: aq_step.induct)
     (auto simp: eaq_push_front_step_def intro: aq_push_step_inv eaq_prepend_step_inv eaq_try_push_step_inv
        aq_pop_all_step_inv eaq_reset_step_inv eaq_pop_all_step_inv)


section \<open>Refinement of an atomic batch queue\<close>

text \<open>
  What a client sees: publishing some nodes at once and taking all published nodes at once are
  atomic.  A state is the published nodes (newest first) and the two histories.
\<close>

type_synonym abq = "addr list \<times> addr list \<times> addr list"

definition abq_init :: "abq \<Rightarrow> bool" where
  "abq_init a \<longleftrightarrow> a = ([], [], [])"

inductive abq_step :: "abq \<Rightarrow> abq \<Rightarrow> bool" where
  abq_publish: "abq_step (st, i, out) (ns @ st, i @ rev ns, out)"
| abq_take: "abq_step (st, i, out) ([], i, out @ rev st)"

definition aq_abs :: "aq_state \<Rightarrow> abq" where
  "aq_abs s = (aq_stack s, aq_in s, aq_out s)"

lemma aq_abs_simps [simp]:
  "aq_abs (aq_goto t pc s) = aq_abs s" "aq_abs (s\<lparr>aq_next := nx\<rparr>) = aq_abs s"
  by (simp_all add: aq_abs_def aq_goto_def)

lemma abq_step_publish: "abq_step (aq_abs s) (aq_abs (aq_publish h ns s))"
  by (simp add: aq_abs_def aq_publish_def abq_publish)

lemma abq_step_take: "abq_step (aq_abs s) (aq_abs (aq_take s))"
  by (simp add: aq_abs_def aq_take_def abq_take)

lemma aq_step_abs: "aq_step s t \<Longrightarrow> abq_step (aq_abs s) (aq_abs t) \<or> aq_abs t = aq_abs s"
  by (auto elim!: aq_step.cases aq_push_step.cases eaq_prepend_step.cases eaq_try_push_step.cases
      aq_pop_all_step.cases eaq_reset_step.cases eaq_pop_all_step.cases
      simp: eaq_push_front_step_def abq_step_publish abq_step_take)

interpretation aq: refined_system aq_init aq_step aq_inv abq_init abq_step aq_abs
proof unfold_locales
  fix s assume "aq_init s"
  then show "aq_inv s" and "abq_init (aq_abs s)"
    by (auto simp: aq_init_def aq_inv_def abq_init_def aq_abs_def)
next
  fix s t assume "aq_inv s" "aq_step s t"
  then show "aq_inv t" and "abq_step (aq_abs s) (aq_abs t) \<or> aq_abs t = aq_abs s"
    by (auto intro: aq_step_inv dest: aq_step_abs)
qed

section \<open>Properties\<close>

text \<open>
  Claim C1.  However many threads push, prepend and pop concurrently, the head pointer always
  leads through the links to exactly the nodes published and not yet taken; the nodes taken
  by consumers are, oldest first, a prefix of the nodes in the order they were published
  (none lost, none twice); and a consumer that has taken the list gets, from
  \<open>make_reversed\<close>, a well-formed queue of its nodes in the order they were published.
\<close>

theorem aq_concurrent_fifo:
  assumes "reach aq_init aq_step s"
  shows "chain (aq_next s) (aq_head s) (aq_stack s) None \<and>
    aq_in s = aq_out s @ rev (aq_stack s) \<and>
    reach abq_init abq_step (aq_abs s) \<and>
    (\<forall>t p zs. aq_pc s t = AqTaken p zs \<longrightarrow>
       (\<exists>q nx'. iq_make_reversed (aq_next s) p = Some (q, nx') \<and> iq_rep nx' q (rev zs)))"
proof -
  have inv: "aq_inv s" using assms by (rule aq.reach_inv)
  have "\<exists>q nx'. iq_make_reversed (aq_next s) p = Some (q, nx') \<and> iq_rep nx' q (rev zs)"
    if "aq_pc s t = AqTaken p zs" for t p zs
    using aq_inv_pc [OF inv that] iq_rep_make_reversed by simp
  with inv aq.reach_abs [OF assms] show ?thesis by (auto simp: aq_inv_def)
qed

definition aq_example :: "nat \<Rightarrow> aq_state" where
  "aq_example n =
     (let s0 = \<lparr>aq_head = None, aq_next = (\<lambda>_. None), aq_pc = (\<lambda>_. AqIdle), aq_stack = [],
                aq_in = [], aq_out = []\<rparr>;
          s1 = aq_goto 0 (AqLoaded 5 5 [5] None) s0;
          s2 = aq_goto 0 (AqStored 5 5 [5] None) (s1\<lparr>aq_next := (aq_next s1)(5 := None)\<rparr>);
          s3 = aq_goto 0 (AqReturned True True) (aq_publish 5 [5] s2);
          s4 = aq_goto 1 (AqTaken (aq_head s3) (aq_stack s3)) (aq_take s3)
      in [s0, s1, s2, s3, s4] ! n)"

lemma aq_example_reach: "reach aq_init aq_step (aq_example 4)"
proof -
  have "reach aq_init aq_step (aq_example 0)"
    by (rule reach_init) (simp add: aq_example_def aq_init_def)
  moreover have "aq_step (aq_example 0) (aq_example 1)"
    using push_load [of "aq_example 0" 0 5]
    by (auto simp: aq_example_def aq_fresh_def Let_def intro: by_push)
  moreover have "aq_step (aq_example 1) (aq_example 2)"
    using push_link [of "aq_example 1" 0 5 5 "[5]" None]
    by (auto simp: aq_example_def aq_goto_def Let_def numeral_2_eq_2 intro: by_push)
  moreover have "aq_step (aq_example 2) (aq_example 3)"
    using push_cas [of "aq_example 2" 0 5 5 "[5]" None]
    by (auto simp: aq_example_def aq_goto_def Let_def numeral_2_eq_2 numeral_3_eq_3
        intro: by_push)
  moreover have "aq_step (aq_example 3) (aq_example 4)"
    using pop_exchange [of "aq_example 3" 1]
    by (auto simp: aq_example_def aq_goto_def aq_publish_def Let_def intro: by_pop_all)
  ultimately show ?thesis by (blast intro: reach_step)
qed

theorem aq_concurrent_fifo_witness:
  "aq_pc (aq_example 4) 1 = AqTaken (Some 5) [5] \<and> aq_out (aq_example 4) = [5] \<and>
   (\<exists>q nx'. iq_make_reversed (aq_next (aq_example 4)) (Some 5) = Some (q, nx') \<and> iq_rep nx' q [5])"
proof -
  have pc: "aq_pc (aq_example 4) 1 = AqTaken (Some 5) [5]" "aq_out (aq_example 4) = [5]"
    by (simp_all add: aq_example_def aq_goto_def aq_publish_def aq_take_def Let_def)
  from aq_concurrent_fifo [OF aq_example_reach] pc(1)
  have "\<exists>q nx'. iq_make_reversed (aq_next (aq_example 4)) (Some 5) = Some (q, nx') \<and>
          iq_rep nx' q (rev [5])" by blast
  with pc show ?thesis by simp
qed

end
