(* ===== verification/CountingScope.thy ===== *)
theory CountingScope
  imports Prelude
begin

unbundle bit_operations_syntax

text \<open>
  The counting scopes of \<^verbatim>\<open>include/stdexec/__detail/__counting_scopes.hpp\<close>: \<open>__base_scope\<close>,
  which \<open>simple_counting_scope\<close> and \<open>counting_scope\<close> wrap.  A scope is one 64-bit word, the
  number of outstanding associations in the upper 61 bits and three flags below, and an atomic
  pointer to the list of join operations registered with the scope (or the sentinel that says
  the list has been taken for the last time).

  The first section translates the bit-level functions; an assertion that fails is \<open>None\<close>.
  The second gives the abstract scope of the working draft (a count and a phase) and shows that
  each update of the word implements its transition.  The third runs the methods concurrently
  in any number of threads, one atomic access per step, with the invariants that make
  joining safe: a join completes only when no association is left and none can be made, no
  registered join is lost, none completes twice, and no assertion of the code fails.
\<close>

section \<open>The packed word\<close>

type_synonym bits = "64 word"

definition sc_closed :: bits where "sc_closed = 1"
definition sc_join_needed :: bits where "sc_join_needed = 2"
definition sc_join_running :: bits where "sc_join_running = 4"

definition sc_max_associations :: bits where
  "sc_max_associations = drop_bit 3 (- 1)"

definition sc_is_unused :: "bits \<Rightarrow> bool" where
  "sc_is_unused b \<longleftrightarrow> b AND sc_join_needed = 0"

definition sc_is_open :: "bits \<Rightarrow> bool" where
  "sc_is_open b \<longleftrightarrow> b AND sc_closed = 0"

definition sc_is_closed :: "bits \<Rightarrow> bool" where
  "sc_is_closed b \<longleftrightarrow> \<not> sc_is_open b"

definition sc_is_joined :: "bits \<Rightarrow> bool" where
  "sc_is_joined b \<longleftrightarrow> b = sc_closed"

definition sc_is_joining :: "bits \<Rightarrow> bool" where
  "sc_is_joining b \<longleftrightarrow> b AND sc_join_running \<noteq> 0"

definition sc_is_join_needed :: "bits \<Rightarrow> bool" where
  "sc_is_join_needed b \<longleftrightarrow> \<not> sc_is_unused b"

definition sc_destructible :: "bits \<Rightarrow> bool" where
  "sc_destructible b \<longleftrightarrow> b AND NOT sc_closed = 0"

definition sc_count :: "bits \<Rightarrow> bits" where
  "sc_count b = drop_bit 3 b"

definition sc_state :: "bits \<Rightarrow> bits" where
  "sc_state b = b AND 7"

definition sc_make_bits :: "bits \<Rightarrow> bits \<Rightarrow> bits option" where
  "sc_make_bits new_count new_state =
     (if sc_count (push_bit 3 new_count) = new_count \<and> sc_state new_state = new_state
      then Some (push_bit 3 new_count OR sc_state new_state) else None)"

text \<open>The destructor terminates the program unless the scope is destructible.\<close>

datatype sc_outcome = ScDestroyed | ScTerminate

definition sc_destroy :: "bits \<Rightarrow> sc_outcome" where
  "sc_destroy b = (if sc_destructible b then ScDestroyed else ScTerminate)"

definition sc_close_bits :: "bits \<Rightarrow> bits" where
  "sc_close_bits b = b OR sc_closed"

text \<open>The new values the three compare-exchange loops compute from the value they have seen.\<close>

definition sc_assoc_refused :: "bits \<Rightarrow> bool" where
  "sc_assoc_refused b \<longleftrightarrow> sc_is_closed b \<or> sc_count b = sc_max_associations"

definition sc_assoc_bits :: "bits \<Rightarrow> bits option" where
  "sc_assoc_bits b =
     (if \<not> sc_is_closed b \<and> sc_count b < sc_max_associations
      then sc_make_bits (sc_count b + 1) (sc_state b OR sc_join_needed) else None)"

definition sc_disassoc_bits :: "bits \<Rightarrow> bits option" where
  "sc_disassoc_bits b =
     (let new_count = sc_count b - 1;
          new_state = (if new_count = 0 \<and> sc_is_joining b then sc_closed else sc_state b)
      in if new_count < sc_count b then sc_make_bits new_count new_state else None)"

definition sc_join_bits :: "bits \<Rightarrow> bits option" where
  "sc_join_bits b =
     (if sc_count b = 0
      then Option.bind (sc_make_bits (sc_count b) sc_closed)
             (\<lambda>new. if sc_is_joined new then Some new else None)
      else if sc_is_join_needed b \<and> sc_is_joining (b OR sc_join_running)
           then Some (b OR sc_join_running) else None)"

subsection \<open>Reading the word\<close>

lemma and7: "(s :: bits) AND 7 = take_bit 3 s"
  by (simp add: take_bit_eq_mask mask_eq_exp_minus_1)

lemma take_bit_small: "unat (c :: 'a::len word) < 2 ^ k \<Longrightarrow> take_bit k c = c"
  by (metis take_bit_nat_eq_self unsigned_take_bit_eq word_eq_iff_unsigned)

lemma bit_small: "unat (c :: 'a::len word) < 2 ^ k \<Longrightarrow> bit c n \<Longrightarrow> n < k"
  by (metis take_bit_small bit_take_bit_iff)

lemma sc_flags:
  "sc_is_closed b \<longleftrightarrow> bit b 0" "sc_is_join_needed b \<longleftrightarrow> bit b (Suc 0)" "sc_is_joining b \<longleftrightarrow> bit b 2"
  using and_exp_eq_0_iff_not_bit [of b 0] and_exp_eq_0_iff_not_bit [of b "Suc 0"]
    and_exp_eq_0_iff_not_bit [of b 2]
  by (simp_all add: sc_is_closed_def sc_is_open_def sc_closed_def sc_is_join_needed_def
      sc_is_unused_def sc_join_needed_def sc_is_joining_def sc_join_running_def)

lemma sc_bit_consts:
  "bit (sc_closed) n \<longleftrightarrow> n = 0" "bit (sc_join_needed) n \<longleftrightarrow> n = 1"
  "bit (sc_join_running) n \<longleftrightarrow> n = 2"
  using bit_exp_iff [of 1 n, where 'a = bits] bit_exp_iff [of 2 n, where 'a = bits]
  by (auto simp: sc_closed_def sc_join_needed_def sc_join_running_def bit_1_iff)

lemma sc_word_eqI:
  assumes "sc_count a = sc_count b" and "bit a 0 = bit b 0" "bit a (Suc 0) = bit b (Suc 0)" "bit a 2 = bit b 2"
  shows "a = b"
proof (rule bit_word_eqI)
  fix n assume "n < LENGTH(64)"
  show "bit a n = bit b n"
  proof (cases "n < 3")
    case True
    then have "n = 0 \<or> n = 1 \<or> n = 2" by auto
    with assms show ?thesis by auto
  next
    case False
    then have "bit (sc_count a) (n - 3) = bit a n" "bit (sc_count b) (n - 3) = bit b n"
      by (simp_all add: sc_count_def bit_simps)
    with assms(1) show ?thesis by simp
  qed
qed

lemma sc_count_OR [simp]:
  "sc_count (b OR sc_closed) = sc_count b" "sc_count (b OR sc_join_running) = sc_count b"
  "sc_count sc_closed = 0"
  by (rule bit_word_eqI; auto simp: sc_count_def bit_simps sc_bit_consts)+

lemma sc_count_bound: "unat (sc_count b) < 2 ^ 61"
proof -
  have "unat b < 2 ^ 64" using unsigned_less [of b] by simp
  then show ?thesis by (simp add: sc_count_def drop_bit_eq_div unat_div)
qed

lemma sc_max_unat: "unat sc_max_associations = 2 ^ 61 - 1"
  by (simp add: sc_max_associations_def drop_bit_eq_div unat_div)

lemma sc_make_bits_some:
  assumes "unat c < 2 ^ 61" and "sc_state s = s"
  shows "sc_make_bits c s = Some (push_bit 3 c OR s)"
    and "sc_count (push_bit 3 c OR s) = c"
    and "n < 3 \<Longrightarrow> bit (push_bit 3 c OR s) n = bit s n"
proof -
  have s: "take_bit 3 s = s" using assms(2) by (simp add: sc_state_def and7)
  have "drop_bit 3 (push_bit 3 c OR take_bit 3 s) = c"
    by (rule bit_word_eqI) (auto simp: bit_simps dest: bit_small [OF assms(1)])
  then show cnt: "sc_count (push_bit 3 c OR s) = c" using s by (simp add: sc_count_def)
  have "drop_bit 3 (push_bit 3 c) = c"
    by (rule bit_word_eqI) (auto simp: bit_simps dest: bit_small [OF assms(1)])
  then show "sc_make_bits c s = Some (push_bit 3 c OR s)"
    using assms(2) by (simp add: sc_make_bits_def sc_count_def)
  assume "n < 3"
  then show "bit (push_bit 3 c OR s) n = bit s n" by (simp add: bit_simps)
qed

lemma sc_state_idem:
  "sc_state (sc_state b) = sc_state b" "sc_state sc_closed = sc_closed"
  "sc_state (sc_state b OR sc_join_needed) = sc_state b OR sc_join_needed"
  by (rule bit_word_eqI; auto simp: sc_state_def and7 bit_simps sc_bit_consts)+

lemma sc_state_bits:
  "bit (sc_state b) 0 = bit b 0" "bit (sc_state b) (Suc 0) = bit b (Suc 0)" "bit (sc_state b) 2 = bit b 2"
  by (simp_all add: sc_state_def and7 bit_simps)


subsection \<open>What the updates do to the count and the flags\<close>

lemma sc_assoc_effect:
  assumes "\<not> sc_assoc_refused b"
  shows "\<exists>b'. sc_assoc_bits b = Some b' \<and> unat (sc_count b') = unat (sc_count b) + 1 \<and>
    bit b' 0 = bit b 0 \<and> bit b' (Suc 0) \<and> bit b' 2 = bit b 2"
proof -
  let ?c = "sc_count b" and ?s = "sc_state b OR sc_join_needed"
  have "unat ?c \<noteq> unat sc_max_associations"
    using assms by (metis sc_assoc_refused_def word_eq_iff_unsigned)
  then have lt: "unat ?c < 2 ^ 61 - 1" using sc_count_bound [of b] sc_max_unat by linarith
  then have "?c < sc_max_associations" by (simp add: word_less_nat_alt sc_max_unat)
  moreover have cnt: "unat (?c + 1) = unat ?c + 1"
    using lt by (simp add: unat_word_ariths)
  moreover have "unat (?c + 1) < 2 ^ 61" using cnt lt by linarith
  note mk = sc_make_bits_some [OF this sc_state_idem(3) [of b]]
  ultimately show ?thesis using assms mk(1,2) mk(3) [of 0] mk(3) [of "Suc 0"] mk(3) [of 2]
    by (auto simp: sc_assoc_bits_def sc_assoc_refused_def bit_or_iff sc_state_bits sc_bit_consts)
qed

lemma sc_disassoc_effect:
  assumes "sc_count b \<noteq> 0"
  shows "\<exists>b'. sc_disassoc_bits b = Some b' \<and> unat (sc_count b') = unat (sc_count b) - 1 \<and>
    (if unat (sc_count b) = 1 \<and> sc_is_joining b then b' = sc_closed
     else bit b' 0 = bit b 0 \<and> bit b' (Suc 0) = bit b (Suc 0) \<and> bit b' 2 = bit b 2)"
proof -
  let ?c = "sc_count b - 1"
  let ?s = "if ?c = 0 \<and> sc_is_joining b then sc_closed else sc_state b"
  have pos: "0 < unat (sc_count b)" using assms by (simp add: unat_gt_0)
  then have cnt: "unat ?c = unat (sc_count b) - 1"
    by (metis One_nat_def Suc_leI unat_1 unat_sub word_le_nat_alt)
  then have lt: "?c < sc_count b" using pos by (simp add: word_less_nat_alt)
  have z: "?c = 0 \<longleftrightarrow> unat (sc_count b) = 1" using cnt pos by (auto simp: unat_eq_0)
  have "unat ?c < 2 ^ 61" using cnt sc_count_bound [of b] by linarith
  moreover have "sc_state ?s = ?s" by (simp add: sc_state_idem)
  note mk = sc_make_bits_some [OF calculation this]
  have r: "sc_disassoc_bits b = Some (push_bit 3 ?c OR ?s)"
    using mk(1) lt by (simp add: sc_disassoc_bits_def Let_def)
  show ?thesis
  proof (cases "unat (sc_count b) = 1 \<and> sc_is_joining b")
    case True
    then have "push_bit 3 ?c OR ?s = sc_closed" using z by simp
    with r mk(2) cnt True show ?thesis by auto
  next
    case False
    then have "?s = sc_state b" using z by auto
    with r mk(2) mk(3) [of 0] mk(3) [of "Suc 0"] mk(3) [of 2] cnt False show ?thesis
      by (auto simp: sc_state_bits)
  qed
qed

lemma sc_join_effect_zero:
  "sc_count b = 0 \<Longrightarrow> sc_join_bits b = Some sc_closed"
  using sc_make_bits_some(1) [of 0 sc_closed] sc_state_idem(2)
  by (simp add: sc_join_bits_def sc_is_joined_def)

lemma sc_join_effect_pos:
  "sc_count b \<noteq> 0 \<Longrightarrow> sc_is_join_needed b \<Longrightarrow> sc_join_bits b = Some (b OR sc_join_running)"
  by (simp add: sc_join_bits_def sc_flags bit_or_iff sc_bit_consts)

definition sc_wf :: "bits \<Rightarrow> bool" where
  "sc_wf b \<longleftrightarrow> (sc_count b \<noteq> 0 \<longrightarrow> sc_is_join_needed b) \<and> (sc_is_joining b \<longrightarrow> sc_count b \<noteq> 0)"

lemma sc_wf_closed [simp]: "sc_wf sc_closed"
  by (simp add: sc_wf_def sc_flags sc_bit_consts)

lemma sc_wf_close: "sc_wf b \<Longrightarrow> sc_wf (sc_close_bits b)"
  by (simp add: sc_wf_def sc_close_bits_def sc_flags bit_or_iff sc_bit_consts)

lemma sc_wf_assoc: "sc_wf b \<Longrightarrow> \<not> sc_assoc_refused b \<Longrightarrow> sc_assoc_bits b = Some b' \<Longrightarrow> sc_wf b'"
  using sc_assoc_effect [of b] by (auto simp: sc_wf_def sc_flags)

lemma sc_wf_disassoc:
  assumes "sc_wf b" and "sc_count b \<noteq> 0" and "sc_disassoc_bits b = Some b'"
  shows "sc_wf b'"
proof (cases "unat (sc_count b) = 1 \<and> sc_is_joining b")
  case True
  then show ?thesis using assms(2,3) sc_disassoc_effect [OF assms(2)] by auto
next
  case False
  have e: "unat (sc_count b') = unat (sc_count b) - 1"
    "bit b' 0 = bit b 0" "bit b' (Suc 0) = bit b (Suc 0)" "bit b' 2 = bit b 2"
    using assms(3) sc_disassoc_effect [OF assms(2)] False by auto
  have "sc_count b' \<noteq> 0" if "bit b 2"
  proof
    assume "sc_count b' = 0"
    with e(1) have "unat (sc_count b) \<le> 1" by simp
    moreover have "unat (sc_count b) \<noteq> 0" using assms(2) by (simp add: unat_eq_0)
    ultimately have "unat (sc_count b) = 1" by linarith
    with False that show False by (simp add: sc_flags)
  qed
  then show ?thesis using assms(1,2) e by (auto simp: sc_wf_def sc_flags)
qed

lemma sc_wf_join: "sc_wf b \<Longrightarrow> sc_join_bits b = Some b' \<Longrightarrow> sc_wf b'"
  by (cases "sc_count b = 0")
     (auto simp: sc_wf_def sc_join_effect_zero sc_join_effect_pos sc_flags bit_or_iff sc_bit_consts)

section \<open>The abstract scope\<close>

text \<open>
  The phases of [exec.counting.scopes]; \<open>unused-and-closed\<close> and \<open>joined\<close> have one
  representation in the code and one phase here.  The functions are the state changes that the
  comments of the code quote, with the correction they make to the join of an open scope whose
  count is zero.
\<close>

datatype scope_phase = Unused | Open | Closed | OpenAndJoining | ClosedAndJoining | Joined

type_synonym ascope = "nat \<times> scope_phase"

fun spec_close :: "ascope \<Rightarrow> ascope" where
  "spec_close (n, Unused) = (n, Joined)"
| "spec_close (n, Open) = (n, Closed)"
| "spec_close (n, OpenAndJoining) = (n, ClosedAndJoining)"
| "spec_close (n, p) = (n, p)"

fun spec_associate :: "ascope \<Rightarrow> ascope option" where
  "spec_associate (n, p) =
     (if n = 2 ^ 61 - 1 then None
      else case p of
        Unused \<Rightarrow> Some (Suc n, Open)
      | Open \<Rightarrow> Some (Suc n, Open)
      | OpenAndJoining \<Rightarrow> Some (Suc n, OpenAndJoining)
      | _ \<Rightarrow> None)"

fun spec_disassociate :: "ascope \<Rightarrow> ascope" where
  "spec_disassociate (n, p) =
     (n - 1, if n = 1 \<and> (p = OpenAndJoining \<or> p = ClosedAndJoining) then Joined else p)"

fun spec_join :: "ascope \<Rightarrow> ascope" where
  "spec_join (n, p) =
     (if n = 0 then (0, Joined)
      else (n, case p of Open \<Rightarrow> OpenAndJoining | Closed \<Rightarrow> ClosedAndJoining | _ \<Rightarrow> p))"

definition sc_phase :: "bits \<Rightarrow> scope_phase" where
  "sc_phase b =
     (if sc_is_join_needed b
      then (if sc_is_closed b then (if sc_is_joining b then ClosedAndJoining else Closed)
            else (if sc_is_joining b then OpenAndJoining else Open))
      else (if sc_is_closed b then Joined else Unused))"

definition sc_abs :: "bits \<Rightarrow> ascope" where
  "sc_abs b = (unat (sc_count b), sc_phase b)"

section \<open>The scope under concurrency\<close>

text \<open>
  The list of registered join operations: \<open>RegDone\<close> is the sentinel (the address of the scope
  itself), \<open>RegList p\<close> a null-terminated list through the \<open>__next_\<close> members.
\<close>

datatype sc_reg = RegList "addr option" | RegDone

text \<open>
  Program counters, one per thread, with the locals of the method that runs: the word last
  seen by a compare-exchange loop, the join operation, the head last seen by the registration
  loop, the cursor of the completion loop (with the ghost list of what is left to complete).
  \<open>ScFailed\<close> is a failed assertion.
\<close>

datatype sc_pc =
    ScIdle
  | ScAssoc bits
  | ScReturned bool
  | ScDis bits
  | ScDequeue
  | ScIter "addr option" "addr list"
  | ScJoin addr bits
  | ScRegLoad addr
  | ScReg addr sc_reg
  | ScRegLinked addr "addr option"
  | ScInline addr
  | ScFailed

record scope =
  sc_bits :: bits
  sc_reg :: sc_reg
  sc_next :: links
  sc_pc :: "nat \<Rightarrow> sc_pc"
  sc_held :: nat \<comment> \<open>ghost: engaged associations nobody is giving back yet\<close>
  sc_leaving :: "nat set" \<comment> \<open>ghost: threads inside \<open>__disassociate\<close> before its update\<close>
  sc_ops :: "addr list" \<comment> \<open>ghost: the registered join operations\<close>
  sc_started :: "addr set" \<comment> \<open>ghost: the join operations ever started\<close>
  sc_completed :: "addr list" \<comment> \<open>the join operations completed so far\<close>

definition sc_init :: "scope \<Rightarrow> bool" where
  "sc_init s \<longleftrightarrow> sc_bits s = 0 \<and> sc_reg s = RegList None \<and> (\<forall>t. sc_pc s t = ScIdle) \<and>
     sc_held s = 0 \<and> sc_leaving s = {} \<and> sc_ops s = [] \<and> sc_started s = {} \<and> sc_completed s = []"

definition sc_goto :: "nat \<Rightarrow> sc_pc \<Rightarrow> scope \<Rightarrow> scope" where
  "sc_goto t pc s = s\<lparr>sc_pc := (sc_pc s)(t := pc)\<rparr>"

definition sc_complete :: "addr \<Rightarrow> scope \<Rightarrow> scope" where
  "sc_complete op s = s\<lparr>sc_completed := sc_completed s @ [op]\<rparr>"

inductive sc_close_step :: "nat \<Rightarrow> scope \<Rightarrow> scope \<Rightarrow> bool" for t where
  close: "sc_pc s t = ScIdle \<Longrightarrow> sc_close_step t s (s\<lparr>sc_bits := sc_close_bits (sc_bits s)\<rparr>)"

inductive sc_try_associate_step :: "nat \<Rightarrow> scope \<Rightarrow> scope \<Rightarrow> bool" for t where
  assoc_load: "sc_pc s t = ScIdle \<Longrightarrow> sc_try_associate_step t s (sc_goto t (ScAssoc (sc_bits s)) s)"
| assoc_refuse: "sc_pc s t = ScAssoc old \<Longrightarrow> sc_assoc_refused old \<Longrightarrow>
     sc_try_associate_step t s (sc_goto t (ScReturned False) s)"
| assoc_assert: "sc_pc s t = ScAssoc old \<Longrightarrow> \<not> sc_assoc_refused old \<Longrightarrow> sc_assoc_bits old = None \<Longrightarrow>
     sc_try_associate_step t s (sc_goto t ScFailed s)"
| assoc_cas: "sc_pc s t = ScAssoc old \<Longrightarrow> \<not> sc_assoc_refused old \<Longrightarrow> sc_assoc_bits old = Some new \<Longrightarrow>
     sc_bits s = old \<Longrightarrow>
     sc_try_associate_step t s
       (sc_goto t (ScReturned True) (s\<lparr>sc_bits := new, sc_held := Suc (sc_held s)\<rparr>))"
| assoc_retry: "sc_pc s t = ScAssoc old \<Longrightarrow> \<not> sc_assoc_refused old \<Longrightarrow>
     sc_try_associate_step t s (sc_goto t (ScAssoc (sc_bits s)) s)"
| assoc_return: "sc_pc s t = ScReturned r \<Longrightarrow> sc_try_associate_step t s (sc_goto t ScIdle s)"

text \<open>
  \<open>__disassociate\<close>, run by the deleter of an engaged association, and, after the update that
  makes the scope joined, \<open>__complete_registered_join_operations\<close>.
\<close>

inductive sc_disassociate_step :: "nat \<Rightarrow> scope \<Rightarrow> scope \<Rightarrow> bool" for t where
  dis_load: "sc_pc s t = ScIdle \<Longrightarrow> sc_held s \<noteq> 0 \<Longrightarrow>
     sc_disassociate_step t s
       (sc_goto t (if sc_count (sc_bits s) = 0 then ScFailed else ScDis (sc_bits s))
          (s\<lparr>sc_held := sc_held s - 1, sc_leaving := insert t (sc_leaving s)\<rparr>))"
| dis_assert: "sc_pc s t = ScDis old \<Longrightarrow> sc_disassoc_bits old = None \<Longrightarrow>
     sc_disassociate_step t s (sc_goto t ScFailed s)"
| dis_cas: "sc_pc s t = ScDis old \<Longrightarrow> sc_disassoc_bits old = Some new \<Longrightarrow> sc_bits s = old \<Longrightarrow>
     sc_disassociate_step t s
       (sc_goto t (if sc_is_joined new then ScDequeue
                   else if \<not> sc_is_joining new \<or> sc_count new \<noteq> 0 then ScIdle else ScFailed)
          (s\<lparr>sc_bits := new, sc_leaving := sc_leaving s - {t}\<rparr>))"
| dis_retry: "sc_pc s t = ScDis old \<Longrightarrow>
     sc_disassociate_step t s (sc_goto t (ScDis (sc_bits s)) s)"

inductive sc_complete_registered_step :: "nat \<Rightarrow> scope \<Rightarrow> scope \<Rightarrow> bool" for t where
  dequeue: "sc_pc s t = ScDequeue \<Longrightarrow> sc_reg s = RegList p \<Longrightarrow>
     sc_complete_registered_step t s
       (sc_goto t (ScIter p (sc_ops s)) (s\<lparr>sc_reg := RegDone, sc_ops := []\<rparr>))"
| dequeue_assert: "sc_pc s t = ScDequeue \<Longrightarrow> sc_reg s = RegDone \<Longrightarrow>
     sc_complete_registered_step t s (sc_goto t ScFailed s)"
| complete_op: "sc_pc s t = ScIter (Some op) (op # ops) \<Longrightarrow>
     sc_complete_registered_step t s (sc_goto t (ScIter (sc_next s op) ops) (sc_complete op s))"
| complete_end: "sc_pc s t = ScIter None ops \<Longrightarrow> sc_complete_registered_step t s (sc_goto t ScIdle s)"

inductive sc_register_step :: "nat \<Rightarrow> scope \<Rightarrow> scope \<Rightarrow> bool" for t where
  reg_load: "sc_pc s t = ScRegLoad op \<Longrightarrow> sc_register_step t s (sc_goto t (ScReg op (sc_reg s)) s)"
| reg_done: "sc_pc s t = ScReg op RegDone \<Longrightarrow> sc_register_step t s (sc_goto t (ScInline op) s)"
| reg_link: "sc_pc s t = ScReg op (RegList h) \<Longrightarrow>
     sc_register_step t s (sc_goto t (ScRegLinked op h) (s\<lparr>sc_next := (sc_next s)(op := h)\<rparr>))"
| reg_cas: "sc_pc s t = ScRegLinked op h \<Longrightarrow> sc_reg s = RegList h \<Longrightarrow>
     sc_register_step t s
       (sc_goto t ScIdle (s\<lparr>sc_reg := RegList (Some op), sc_ops := op # sc_ops s\<rparr>))"
| reg_retry: "sc_pc s t = ScRegLinked op h \<Longrightarrow>
     sc_register_step t s (sc_goto t (ScReg op (sc_reg s)) s)"

text \<open>\<open>__start_join_sender\<close> and the caller, which completes the operation inline on \<open>true\<close>.\<close>

inductive sc_start_join_step :: "nat \<Rightarrow> scope \<Rightarrow> scope \<Rightarrow> bool" for t where
  join_load: "sc_pc s t = ScIdle \<Longrightarrow> op \<notin> sc_started s \<Longrightarrow>
     sc_start_join_step t s
       (sc_goto t (ScJoin op (sc_bits s)) (s\<lparr>sc_started := insert op (sc_started s)\<rparr>))"
| join_assert: "sc_pc s t = ScJoin op old \<Longrightarrow> sc_join_bits old = None \<Longrightarrow>
     sc_start_join_step t s (sc_goto t ScFailed s)"
| join_cas: "sc_pc s t = ScJoin op old \<Longrightarrow> sc_join_bits old = Some new \<Longrightarrow> sc_bits s = old \<Longrightarrow>
     sc_start_join_step t s
       (sc_goto t (if sc_count old = 0 then ScInline op else ScRegLoad op) (s\<lparr>sc_bits := new\<rparr>))"
| join_retry: "sc_pc s t = ScJoin op old \<Longrightarrow>
     sc_start_join_step t s (sc_goto t (ScJoin op (sc_bits s)) s)"
| join_inline: "sc_pc s t = ScInline op \<Longrightarrow>
     sc_start_join_step t s (sc_goto t ScIdle (sc_complete op s))"

inductive sc_step :: "scope \<Rightarrow> scope \<Rightarrow> bool" where
  by_close: "sc_close_step t s s' \<Longrightarrow> sc_step s s'"
| by_associate: "sc_try_associate_step t s s' \<Longrightarrow> sc_step s s'"
| by_disassociate: "sc_disassociate_step t s s' \<Longrightarrow> sc_step s s'"
| by_complete: "sc_complete_registered_step t s s' \<Longrightarrow> sc_step s s'"
| by_register: "sc_register_step t s s' \<Longrightarrow> sc_step s s'"
| by_join: "sc_start_join_step t s s' \<Longrightarrow> sc_step s s'"

section \<open>Invariants\<close>

text \<open>
  The word: well formed, counting the engaged associations and the threads about to give one
  back; the words the loops of those threads and of joining threads have seen were well formed
  with a positive count where the code relies on it.
\<close>

fun sc_seen_ok :: "sc_pc \<Rightarrow> bool" where
  "sc_seen_ok (ScDis old) \<longleftrightarrow> sc_wf old \<and> sc_count old \<noteq> 0"
| "sc_seen_ok (ScJoin op old) \<longleftrightarrow> sc_wf old"
| "sc_seen_ok ScFailed \<longleftrightarrow> False"
| "sc_seen_ok _ \<longleftrightarrow> True"

definition sc_inv_count :: "scope \<Rightarrow> bool" where
  "sc_inv_count s \<longleftrightarrow> sc_wf (sc_bits s) \<and> finite (sc_leaving s) \<and>
     unat (sc_count (sc_bits s)) = sc_held s + card (sc_leaving s) \<and>
     (\<forall>t. t \<in> sc_leaving s \<longleftrightarrow> (\<exists>old. sc_pc s t = ScDis old)) \<and> (\<forall>t. sc_seen_ok (sc_pc s t))"

text \<open>
  The end of the scope: whoever completes joins, inline or from the list, has seen the scope
  joined; a registered or registering join will be completed by the last disassociation.
\<close>

fun sc_completing :: "sc_pc \<Rightarrow> bool" where
  "sc_completing ScDequeue \<longleftrightarrow> True"
| "sc_completing (ScIter p ops) \<longleftrightarrow> True"
| "sc_completing (ScInline op) \<longleftrightarrow> True"
| "sc_completing (ScReg op RegDone) \<longleftrightarrow> True"
| "sc_completing _ \<longleftrightarrow> False"

fun sc_registering :: "sc_pc \<Rightarrow> bool" where
  "sc_registering (ScRegLoad op) \<longleftrightarrow> True"
| "sc_registering (ScReg op r) \<longleftrightarrow> True"
| "sc_registering (ScRegLinked op h) \<longleftrightarrow> True"
| "sc_registering _ \<longleftrightarrow> False"

definition sc_joined :: "scope \<Rightarrow> bool" where
  "sc_joined s \<longleftrightarrow> sc_bits s = sc_closed"

definition sc_inv_join :: "scope \<Rightarrow> bool" where
  "sc_inv_join s \<longleftrightarrow>
     (sc_completed s \<noteq> [] \<or> sc_reg s = RegDone \<or> (\<exists>t. sc_completing (sc_pc s t)) \<longrightarrow> sc_joined s) \<and>
     (sc_ops s \<noteq> [] \<longrightarrow> sc_is_joining (sc_bits s) \<or> (\<exists>t. sc_pc s t = ScDequeue)) \<and>
     (\<forall>u. sc_registering (sc_pc s u) \<longrightarrow>
        sc_is_joining (sc_bits s) \<or> sc_reg s = RegDone \<or> (\<exists>t. sc_pc s t = ScDequeue)) \<and>
     (\<forall>t. sc_pc s t = ScDequeue \<longrightarrow> sc_reg s \<noteq> RegDone) \<and>
     (\<forall>t u. sc_pc s t = ScDequeue \<longrightarrow> sc_pc s u = ScDequeue \<longrightarrow> t = u)"

text \<open>
  The join operations: every started one is in exactly one place (with a thread, registered,
  or completed), and the pointers lead through the registered ones.
\<close>

fun sc_owns :: "sc_pc \<Rightarrow> addr list" where
  "sc_owns (ScIter p ops) = ops"
| "sc_owns (ScJoin op old) = [op]"
| "sc_owns (ScRegLoad op) = [op]"
| "sc_owns (ScReg op r) = [op]"
| "sc_owns (ScRegLinked op h) = [op]"
| "sc_owns (ScInline op) = [op]"
| "sc_owns _ = []"

fun sc_links_ok :: "links \<Rightarrow> sc_pc \<Rightarrow> bool" where
  "sc_links_ok nx (ScIter p ops) \<longleftrightarrow> chain nx p ops None"
| "sc_links_ok nx (ScRegLinked op h) \<longleftrightarrow> nx op = h"
| "sc_links_ok nx _ \<longleftrightarrow> True"

fun sc_reg_ok :: "links \<Rightarrow> sc_reg \<Rightarrow> addr list \<Rightarrow> bool" where
  "sc_reg_ok nx (RegList p) ops \<longleftrightarrow> chain nx p ops None"
| "sc_reg_ok nx RegDone ops \<longleftrightarrow> ops = []"

definition sc_inv_ops :: "scope \<Rightarrow> bool" where
  "sc_inv_ops s \<longleftrightarrow>
     sc_reg_ok (sc_next s) (sc_reg s) (sc_ops s) \<and>
     (\<forall>t. sc_links_ok (sc_next s) (sc_pc s t)) \<and>
     (\<forall>t. set (sc_owns (sc_pc s t)) \<inter> set (sc_ops s) = {}) \<and>
     (\<forall>t. set (sc_owns (sc_pc s t)) \<inter> set (sc_completed s) = {}) \<and>
     (\<forall>t u. t \<noteq> u \<longrightarrow> set (sc_owns (sc_pc s t)) \<inter> set (sc_owns (sc_pc s u)) = {}) \<and>
     set (sc_ops s) \<inter> set (sc_completed s) = {} \<and> distinct (sc_completed s) \<and>
     sc_started s = set (sc_ops s) \<union> set (sc_completed s) \<union> (\<Union>t. set (sc_owns (sc_pc s t)))"

definition sc_inv :: "scope \<Rightarrow> bool" where
  "sc_inv s \<longleftrightarrow> sc_inv_count s \<and> sc_inv_join s \<and> sc_inv_ops s"


section \<open>Every step keeps the invariants\<close>

lemma sc_goto_simps [simp]:
  "sc_bits (sc_goto t pc s) = sc_bits s" "sc_reg (sc_goto t pc s) = sc_reg s"
  "sc_next (sc_goto t pc s) = sc_next s" "sc_pc (sc_goto t pc s) = (sc_pc s)(t := pc)"
  "sc_held (sc_goto t pc s) = sc_held s" "sc_leaving (sc_goto t pc s) = sc_leaving s"
  "sc_ops (sc_goto t pc s) = sc_ops s" "sc_started (sc_goto t pc s) = sc_started s"
  "sc_completed (sc_goto t pc s) = sc_completed s"
  by (simp_all add: sc_goto_def)

lemma sc_complete_simps [simp]:
  "sc_bits (sc_complete op s) = sc_bits s" "sc_reg (sc_complete op s) = sc_reg s"
  "sc_next (sc_complete op s) = sc_next s" "sc_pc (sc_complete op s) = sc_pc s"
  "sc_held (sc_complete op s) = sc_held s" "sc_leaving (sc_complete op s) = sc_leaving s"
  "sc_ops (sc_complete op s) = sc_ops s" "sc_started (sc_complete op s) = sc_started s"
  "sc_completed (sc_complete op s) = sc_completed s @ [op]"
  by (simp_all add: sc_complete_def)

subsection \<open>The count\<close>

lemma sc_count_pos: "sc_count b \<noteq> 0 \<longleftrightarrow> 0 < unat (sc_count b)"
  by (simp add: unat_gt_0)

lemma sc_leaving_pos:
  assumes "sc_inv_count s" and "sc_pc s t = ScDis old"
  shows "t \<in> sc_leaving s" and "sc_count (sc_bits s) \<noteq> 0"
proof -
  show t: "t \<in> sc_leaving s" using assms by (auto simp: sc_inv_count_def)
  then have "0 < card (sc_leaving s)" using assms(1) by (auto simp: sc_inv_count_def card_gt_0_iff)
  then show "sc_count (sc_bits s) \<noteq> 0"
    using assms(1) by (auto simp: sc_inv_count_def sc_count_pos)
qed

lemma sc_inv_count_goto:
  assumes "sc_inv_count s" and "sc_seen_ok pc" and "\<And>old. sc_pc s t \<noteq> ScDis old"
    and "\<And>old. pc \<noteq> ScDis old" and "sc_bits s' = sc_bits s" "sc_held s' = sc_held s"
      "sc_leaving s' = sc_leaving s" "sc_pc s' = sc_pc s"
  shows "sc_inv_count (sc_goto t pc s')"
  using assms by (simp add: sc_inv_count_def)

lemma sc_count_close: "sc_count (sc_close_bits b) = sc_count b"
  by (simp add: sc_close_bits_def)

lemma sc_close_step_count: "sc_close_step t s s' \<Longrightarrow> sc_inv_count s \<Longrightarrow> sc_inv_count s'"
  by (induction rule: sc_close_step.induct)
     (simp add: sc_inv_count_def sc_wf_close sc_count_close)

lemma sc_try_associate_step_count:
  "sc_try_associate_step t s s' \<Longrightarrow> sc_inv_count s \<Longrightarrow> sc_inv_count s'"
proof (induction rule: sc_try_associate_step.induct)
  case (assoc_assert s old)
  with sc_assoc_effect [OF assoc_assert.hyps(2)] show ?case by auto
next
  case (assoc_cas s old new)
  then have "sc_wf new" using sc_wf_assoc by (auto simp: sc_inv_count_def)
  moreover have "unat (sc_count new) = unat (sc_count old) + 1"
    using sc_assoc_effect [OF assoc_cas.hyps(2)] assoc_cas.hyps(3) by auto
  moreover have "t \<notin> sc_leaving s"
    using assoc_cas.prems assoc_cas.hyps(1) by (simp add: sc_inv_count_def)
  ultimately show ?case using assoc_cas by (auto simp: sc_inv_count_def)
qed (erule sc_inv_count_goto; simp)+

lemma sc_disassociate_step_count:
  "sc_disassociate_step t s s' \<Longrightarrow> sc_inv_count s \<Longrightarrow> sc_inv_count s'"
proof (induction rule: sc_disassociate_step.induct)
  case (dis_load s)
  then have "t \<notin> sc_leaving s" by (simp add: sc_inv_count_def)
  moreover have "sc_count (sc_bits s) \<noteq> 0"
    using dis_load by (auto simp: sc_inv_count_def sc_count_pos)
  ultimately show ?case using dis_load by (auto simp: sc_inv_count_def)
next
  case (dis_assert s old)
  then have "sc_seen_ok (ScDis old)" by (metis sc_inv_count_def)
  with dis_assert.hyps(2) sc_disassoc_effect [of old] show ?case by auto
next
  case (dis_cas s old new)
  have t: "t \<in> sc_leaving s" and c: "sc_count old \<noteq> 0"
    using sc_leaving_pos [OF dis_cas.prems dis_cas.hyps(1)] dis_cas.hyps(3) by auto
  have fin: "finite (sc_leaving s)" and wf: "sc_wf old"
    using dis_cas by (auto simp: sc_inv_count_def)
  have "sc_wf new" by (rule sc_wf_disassoc [OF wf c dis_cas.hyps(2)])
  then have nf: "sc_is_joining new \<longrightarrow> sc_count new \<noteq> 0" by (simp add: sc_wf_def)
  have "unat (sc_count new) = unat (sc_count old) - 1"
    using sc_disassoc_effect [OF c] dis_cas.hyps(2) by auto
  moreover have "0 < card (sc_leaving s)" using t fin card_gt_0_iff by blast
  moreover have "card (sc_leaving s - {t}) = card (sc_leaving s) - 1" using t by simp
  ultimately have "unat (sc_count new) = sc_held s + card (sc_leaving s - {t})"
    using dis_cas by (simp add: sc_inv_count_def)
  with \<open>sc_wf new\<close> nf fin dis_cas show ?case by (auto simp: sc_inv_count_def)
next
  case (dis_retry s old)
  have "t \<in> sc_leaving s" "sc_count (sc_bits s) \<noteq> 0"
    using sc_leaving_pos [OF dis_retry.prems dis_retry.hyps] by auto
  with dis_retry show ?case by (auto simp: sc_inv_count_def)
qed

lemma sc_complete_registered_step_count:
  assumes "sc_complete_registered_step t s s'" and "sc_inv_count s"
    and "sc_pc s t = ScDequeue \<Longrightarrow> sc_reg s \<noteq> RegDone"
  shows "sc_inv_count s'"
  using assms
  by (induction rule: sc_complete_registered_step.induct)
     (simp_all, (erule sc_inv_count_goto; simp)+)

lemma sc_register_step_count: "sc_register_step t s s' \<Longrightarrow> sc_inv_count s \<Longrightarrow> sc_inv_count s'"
  by (induction rule: sc_register_step.induct; erule sc_inv_count_goto; simp)

lemma sc_start_join_step_count:
  "sc_start_join_step t s s' \<Longrightarrow> sc_inv_count s \<Longrightarrow> sc_inv_count s'"
proof (induction rule: sc_start_join_step.induct)
  case (join_assert s op old)
  then have "sc_wf old" by (metis sc_inv_count_def sc_seen_ok.simps(2))
  with join_assert.hyps(2) sc_join_effect_zero sc_join_effect_pos show ?case
    by (cases "sc_count old = 0") (auto simp: sc_wf_def)
next
  case (join_cas s op old new)
  have wf: "sc_wf old" using join_cas by (simp add: sc_inv_count_def)
  have "sc_wf new" using sc_wf_join [OF wf join_cas.hyps(2)] .
  moreover have "sc_count new = sc_count old"
    using wf join_cas.hyps(2) sc_join_effect_zero [of old] sc_join_effect_pos [of old]
    by (cases "sc_count old = 0") (auto simp: sc_wf_def)
  moreover have "t \<notin> sc_leaving s"
    using join_cas.prems join_cas.hyps(1) by (simp add: sc_inv_count_def)
  ultimately show ?case using join_cas by (auto simp: sc_inv_count_def)
next
  case (join_load s op)
  then show ?case
    by (auto simp: sc_inv_count_def)
next
  case (join_retry s op old)
  then show ?case by (auto simp: sc_inv_count_def)
next
  case (join_inline s op)
  then show ?case by (elim sc_inv_count_goto) simp_all
qed


subsection \<open>The end of the scope\<close>

lemma sc_joined_facts:
  assumes "sc_joined s"
  shows "sc_count (sc_bits s) = 0" "sc_is_closed (sc_bits s)" "\<not> sc_is_joining (sc_bits s)"
    "sc_close_bits (sc_bits s) = sc_bits s"
  using assms by (simp_all add: sc_joined_def sc_flags sc_bit_consts sc_close_bits_def)

definition sc_pending :: "scope \<Rightarrow> bool" where
  "sc_pending s \<longleftrightarrow> sc_is_joining (sc_bits s) \<or> sc_reg s = RegDone \<or> (\<exists>t. sc_pc s t = ScDequeue)"

lemma sc_inv_joinD:
  assumes "sc_inv_join s"
  shows "sc_completed s \<noteq> [] \<Longrightarrow> sc_joined s" "sc_reg s = RegDone \<Longrightarrow> sc_joined s"
    "sc_completing (sc_pc s t) \<Longrightarrow> sc_joined s"
    "sc_ops s \<noteq> [] \<Longrightarrow> sc_is_joining (sc_bits s) \<or> (\<exists>t. sc_pc s t = ScDequeue)"
    "sc_registering (sc_pc s t) \<Longrightarrow> sc_pending s"
    "sc_pc s t = ScDequeue \<Longrightarrow> sc_reg s \<noteq> RegDone"
    "sc_pc s t = ScDequeue \<Longrightarrow> sc_pc s u = ScDequeue \<Longrightarrow> t = u"
  using assms unfolding sc_inv_join_def sc_pending_def by blast+

lemma sc_inv_join_goto:
  assumes "sc_inv_join s" and "sc_pc s t \<noteq> ScDequeue" and "pc \<noteq> ScDequeue"
    and "sc_completing pc \<Longrightarrow> sc_joined s" and "sc_registering pc \<Longrightarrow> sc_pending s"
    and "sc_bits s' = sc_bits s" "sc_reg s' = sc_reg s" "sc_ops s' = sc_ops s" "sc_pc s' = sc_pc s"
    and "sc_completed s' = sc_completed s \<or> sc_joined s"
  shows "sc_inv_join (sc_goto t pc s')"
proof -
  have dq: "(\<exists>u. ((sc_pc s)(t := pc)) u = ScDequeue) \<longleftrightarrow> (\<exists>u. sc_pc s u = ScDequeue)"
    using assms(2,3) by (metis fun_upd_apply)
  have j: "sc_joined (sc_goto t pc s') \<longleftrightarrow> sc_joined s" using assms(6) by (simp add: sc_joined_def)
  show ?thesis
    unfolding sc_inv_join_def j sc_goto_simps assms(6-9) dq
    using sc_inv_joinD [OF assms(1)] assms(2-5,10)
    unfolding sc_pending_def by (auto split: if_splits)
qed

lemma sc_close_step_join: "sc_close_step t s s' \<Longrightarrow> sc_inv_join s \<Longrightarrow> sc_inv_join s'"
proof (induction rule: sc_close_step.induct)
  case (close s)
  have "sc_is_joining (sc_close_bits (sc_bits s)) = sc_is_joining (sc_bits s)"
    by (simp add: sc_flags sc_close_bits_def bit_or_iff sc_bit_consts)
  moreover have "sc_joined s \<Longrightarrow> sc_joined (s\<lparr>sc_bits := sc_close_bits (sc_bits s)\<rparr>)"
    using sc_joined_facts(4) by (simp add: sc_joined_def)
  ultimately show ?case using close.prems by (simp add: sc_inv_join_def)
qed

lemma sc_inv_join_not_joined:
  assumes "sc_inv_join s" and "\<not> sc_joined s"
  shows "sc_completed s = []" "sc_reg s \<noteq> RegDone" "\<not> sc_completing (sc_pc s t)" "sc_pc s t \<noteq> ScDequeue"
proof -
  show c: "\<not> sc_completing (sc_pc s t)" using sc_inv_joinD(3) [OF assms(1)] assms(2) by blast
  then show "sc_pc s t \<noteq> ScDequeue" by auto
qed (use sc_inv_joinD(1,2) [OF assms(1)] assms(2) in auto)

text \<open>An update of the word of a scope that is not joined.\<close>

lemma sc_inv_join_update:
  assumes "sc_inv_join s" and "\<not> sc_joined s" and "pc \<noteq> ScDequeue"
    and "sc_completing pc \<Longrightarrow> new = sc_closed"
    and "sc_registering pc \<Longrightarrow> sc_is_joining new"
    and "sc_is_joining (sc_bits s) \<Longrightarrow> sc_is_joining new"
    and "sc_bits s' = new" "sc_reg s' = sc_reg s" "sc_ops s' = sc_ops s" "sc_pc s' = sc_pc s"
      "sc_completed s' = sc_completed s"
  shows "sc_inv_join (sc_goto t pc s')"
  using sc_inv_join_not_joined [OF assms(1,2)] sc_inv_joinD(4,5) [OF assms(1)] assms(3-)
  unfolding sc_inv_join_def sc_pending_def sc_joined_def sc_goto_simps
  by (simp add: fun_upd_apply) blast

lemma sc_try_associate_step_join:
  "sc_try_associate_step t s s' \<Longrightarrow> sc_inv_join s \<Longrightarrow> sc_inv_join s'"
proof (induction rule: sc_try_associate_step.induct)
  case (assoc_cas s old new)
  then have "\<not> sc_joined s" using sc_joined_facts(2) by (auto simp: sc_assoc_refused_def)
  moreover have "sc_is_joining new = sc_is_joining old"
    using sc_assoc_effect [OF assoc_cas.hyps(2)] assoc_cas.hyps(3) by (auto simp: sc_flags)
  ultimately show ?case using assoc_cas by (intro sc_inv_join_update [OF assoc_cas.prems]) auto
qed (erule sc_inv_join_goto; simp)+

lemma sc_disassociate_step_join:
  "sc_disassociate_step t s s' \<Longrightarrow> sc_inv_count s \<Longrightarrow> sc_inv_join s \<Longrightarrow> sc_inv_join s'"
proof (induction rule: sc_disassociate_step.induct)
  case (dis_cas s old new)
  have c: "sc_count old \<noteq> 0" using sc_leaving_pos [OF dis_cas.prems(1) dis_cas.hyps(1)] dis_cas.hyps(3) by auto
  then have nj: "\<not> sc_joined s" using sc_joined_facts(1) dis_cas.hyps(3) by auto
  note none = sc_inv_join_not_joined [OF dis_cas.prems(2) nj]
  show ?case
  proof (cases "sc_is_joined new")
    case True
    then have "new = sc_closed" by (simp add: sc_is_joined_def)
    with True none show ?thesis
      unfolding sc_inv_join_def sc_joined_def sc_goto_simps by (auto split: if_splits)
  next
    case False
    then have "\<not> (unat (sc_count old) = 1 \<and> sc_is_joining old)"
      using sc_disassoc_effect [OF c] dis_cas.hyps(2) by (auto simp: sc_is_joined_def)
    then have "sc_is_joining new = sc_is_joining old"
      using sc_disassoc_effect [OF c] dis_cas.hyps(2) by (auto simp: sc_flags)
    with False nj dis_cas show ?thesis
      by (intro sc_inv_join_update [OF dis_cas.prems(2)]) (auto split: if_splits)
  qed
qed (erule sc_inv_join_goto; simp split: if_splits)+

lemma sc_complete_registered_step_join:
  "sc_complete_registered_step t s s' \<Longrightarrow> sc_inv_join s \<Longrightarrow> sc_inv_join s'"
proof (induction rule: sc_complete_registered_step.induct)
  case (dequeue s p)
  have j: "sc_joined s" using sc_inv_joinD(3) [OF dequeue.prems, of t] dequeue.hyps(1) by simp
  have u: "u = t" if "sc_pc s u = ScDequeue" for u
    using sc_inv_joinD(7) [OF dequeue.prems that dequeue.hyps(1)] .
  with j show ?case unfolding sc_inv_join_def sc_joined_def sc_goto_simps by auto
next
  case (dequeue_assert s)
  then show ?case using sc_inv_joinD(6) by blast
next
  case (complete_op s op ops)
  have "sc_joined s" using sc_inv_joinD(3) [OF complete_op.prems, of t] complete_op.hyps by simp
  with complete_op show ?case by (intro sc_inv_join_goto [OF complete_op.prems]) auto
next
  case (complete_end s ops)
  then show ?case by (intro sc_inv_join_goto [OF complete_end.prems]) auto
qed

lemma sc_register_step_join: "sc_register_step t s s' \<Longrightarrow> sc_inv_join s \<Longrightarrow> sc_inv_join s'"
proof (induction rule: sc_register_step.induct)
  case (reg_load s op)
  have "sc_pending s" using sc_inv_joinD(5) [OF reg_load.prems, of t] reg_load.hyps by simp
  with reg_load sc_inv_joinD(2) [OF reg_load.prems] show ?case
    by (cases "sc_reg s") (intro sc_inv_join_goto [OF reg_load.prems]; simp)+
next
  case (reg_done s op)
  have "sc_joined s" using sc_inv_joinD(3) [OF reg_done.prems, of t] reg_done.hyps by simp
  with reg_done show ?case by (intro sc_inv_join_goto [OF reg_done.prems]) auto
next
  case (reg_link s op h)
  have "sc_pending s" using sc_inv_joinD(5) [OF reg_link.prems, of t] reg_link.hyps by simp
  with reg_link show ?case by (intro sc_inv_join_goto [OF reg_link.prems]) auto
next
  case (reg_cas s op h)
  have "sc_pending s" using sc_inv_joinD(5) [OF reg_cas.prems, of t] reg_cas.hyps by simp
  moreover have "sc_pc s t \<noteq> ScDequeue" using reg_cas.hyps(1) by simp
  ultimately have p: "sc_is_joining (sc_bits s) \<or> (\<exists>u. u \<noteq> t \<and> sc_pc s u = ScDequeue)"
    unfolding sc_pending_def using reg_cas.hyps by (metis sc_reg.distinct(1))
  show ?case
    unfolding sc_inv_join_def sc_joined_def sc_goto_simps
    using sc_inv_joinD [OF reg_cas.prems] p reg_cas.hyps
    unfolding sc_joined_def by (auto split: if_splits)
next
  case (reg_retry s op h)
  have "sc_pending s" using sc_inv_joinD(5) [OF reg_retry.prems, of t] reg_retry.hyps by simp
  with reg_retry sc_inv_joinD(2) [OF reg_retry.prems] show ?case
    by (cases "sc_reg s") (intro sc_inv_join_goto [OF reg_retry.prems]; simp)+
qed

lemma sc_start_join_step_join:
  "sc_start_join_step t s s' \<Longrightarrow> sc_inv_count s \<Longrightarrow> sc_inv_join s \<Longrightarrow> sc_inv_join s'"
proof (induction rule: sc_start_join_step.induct)
  case (join_cas s op old new)
  have wf: "sc_wf old" using join_cas by (simp add: sc_inv_count_def)
  show ?case
  proof (cases "sc_count old = 0")
    case True
    then have new: "new = sc_closed" using join_cas.hyps(2) sc_join_effect_zero by auto
    have "\<not> sc_is_joining old" using wf True by (simp add: sc_wf_def)
    with join_cas.hyps(3) sc_inv_joinD(4,5,6,7) [OF join_cas.prems(2)] True new join_cas.hyps(1)
    show ?thesis
      unfolding sc_inv_join_def sc_joined_def sc_goto_simps sc_pending_def
      by (auto split: if_splits) (metis sc_pc.distinct)+
  next
    case False
    then have new: "new = old OR sc_join_running"
      using join_cas.hyps(2) sc_join_effect_pos wf by (simp add: sc_wf_def)
    then have "sc_is_joining new" by (simp add: sc_flags bit_or_iff sc_bit_consts)
    moreover have "\<not> sc_joined s" using False join_cas.hyps(3) sc_joined_facts(1) by auto
    ultimately show ?thesis using False join_cas
      by (intro sc_inv_join_update [OF join_cas.prems(2)]) auto
  qed
next
  case (join_inline s op)
  have "sc_joined s" using sc_inv_joinD(3) [OF join_inline.prems(2), of t] join_inline.hyps by simp
  with join_inline show ?case by (intro sc_inv_join_goto [OF join_inline.prems(2)]) auto
qed (erule sc_inv_join_goto; simp)+


subsection \<open>The join operations\<close>

lemma sc_inv_ops_sep:
  assumes "sc_inv_ops s"
  shows "set (sc_owns (sc_pc s t)) \<inter> set (sc_ops s) = {}"
    "set (sc_owns (sc_pc s t)) \<inter> set (sc_completed s) = {}"
    "u \<noteq> t \<Longrightarrow> set (sc_owns (sc_pc s t)) \<inter> set (sc_owns (sc_pc s u)) = {}"
    "set (sc_ops s) \<inter> set (sc_completed s) = {}" "distinct (sc_completed s)"
    "sc_links_ok (sc_next s) (sc_pc s t)"
    "set (sc_owns (sc_pc s t)) \<union> set (sc_ops s) \<union> set (sc_completed s) \<subseteq> sc_started s"
proof -
  show "set (sc_owns (sc_pc s t)) \<union> set (sc_ops s) \<union> set (sc_completed s) \<subseteq> sc_started s"
    using assms by (auto simp: sc_inv_ops_def)
  show "u \<noteq> t \<Longrightarrow> set (sc_owns (sc_pc s t)) \<inter> set (sc_owns (sc_pc s u)) = {}"
    using assms by (simp add: sc_inv_ops_def)
qed (use assms in \<open>simp_all add: sc_inv_ops_def\<close>)

lemma sc_links_ok_cong:
  "(\<And>a. a \<in> set (sc_owns pc) \<Longrightarrow> nx' a = nx a) \<Longrightarrow> sc_links_ok nx pc \<Longrightarrow> sc_links_ok nx' pc"
  by (cases pc) (auto simp: chain_cong [of _ nx' nx])

text \<open>
  One thread moves operations between itself, the registered list and the completed ones, and
  may bring in fresh ones (\<open>X\<close>); it writes only links of nodes it holds.
\<close>

lemma sc_inv_ops_move:
  assumes inv: "sc_inv_ops s"
    and mem: "\<And>a. a \<notin> set (sc_owns (sc_pc s t)) \<Longrightarrow> sc_next s1 a = sc_next s a"
    and reg: "sc_reg_ok (sc_next s1) (sc_reg s1) (sc_ops s1)"
    and links: "sc_links_ok (sc_next s1) pc" and pcs: "sc_pc s1 = sc_pc s"
    and total: "set (sc_owns pc) \<union> set (sc_ops s1) \<union> set (sc_completed s1) =
                set (sc_owns (sc_pc s t)) \<union> set (sc_ops s) \<union> set (sc_completed s) \<union> X"
    and fresh: "X \<inter> sc_started s = {}" and started: "sc_started s1 = sc_started s \<union> X"
    and dis: "set (sc_owns pc) \<inter> set (sc_ops s1) = {}" "set (sc_owns pc) \<inter> set (sc_completed s1) = {}"
      "set (sc_ops s1) \<inter> set (sc_completed s1) = {}" "distinct (sc_completed s1)"
  shows "sc_inv_ops (sc_goto t pc s1)"
proof -
  note sep = sc_inv_ops_sep [OF inv]
  have others: "set (sc_owns (sc_pc s u)) \<inter>
      (set (sc_owns pc) \<union> set (sc_ops s1) \<union> set (sc_completed s1)) = {}" if "u \<noteq> t" for u
    unfolding total using sep(1,2,7) [of u] sep(3) [of u t] that fresh by blast
  have lk: "sc_links_ok (sc_next s1) (sc_pc s u)" if "u \<noteq> t" for u
  proof (rule sc_links_ok_cong [OF _ sep(6)])
    fix a assume "a \<in> set (sc_owns (sc_pc s u))"
    then have "a \<notin> set (sc_owns (sc_pc s t))" using sep(3) [of t u] that by blast
    then show "sc_next s1 a = sc_next s a" by (rule mem)
  qed
  have all: "sc_started s = set (sc_ops s) \<union> set (sc_completed s) \<union> (\<Union>u. set (sc_owns (sc_pc s u)))"
    using inv by (simp add: sc_inv_ops_def)
  have un: "(\<Union>u. set (sc_owns (((sc_pc s)(t := pc)) u))) =
      set (sc_owns pc) \<union> (\<Union>u\<in>UNIV - {t}. set (sc_owns (sc_pc s u)))"
    "(\<Union>u. set (sc_owns (sc_pc s u))) =
      set (sc_owns (sc_pc s t)) \<union> (\<Union>u\<in>UNIV - {t}. set (sc_owns (sc_pc s u)))"
    by (auto split: if_splits)
  have st: "sc_started s1 = set (sc_ops s1) \<union> set (sc_completed s1) \<union>
      (\<Union>u. set (sc_owns (((sc_pc s)(t := pc)) u)))"
    unfolding started all un using total by blast
  have pcs2: "\<And>u. u \<noteq> t \<Longrightarrow> set (sc_owns pc) \<inter> set (sc_owns (sc_pc s u)) = {}"
    "\<And>u. u \<noteq> t \<Longrightarrow> set (sc_owns (sc_pc s u)) \<inter> set (sc_owns pc) = {}"
    "\<And>u. u \<noteq> t \<Longrightarrow> set (sc_owns (sc_pc s u)) \<inter> set (sc_ops s1) = {}"
    "\<And>u. u \<noteq> t \<Longrightarrow> set (sc_owns (sc_pc s u)) \<inter> set (sc_completed s1) = {}"
    using others by blast+
  have old: "\<And>u v. u \<noteq> v \<Longrightarrow> set (sc_owns (sc_pc s u)) \<inter> set (sc_owns (sc_pc s v)) = {}"
    using sep(3) by blast
  show ?thesis
    unfolding sc_inv_ops_def sc_goto_simps pcs using reg links lk dis pcs2 old st
    by simp
qed

lemma sc_inv_ops_stay:
  assumes "sc_inv_ops s" and "sc_links_ok (sc_next s) pc" and "set (sc_owns pc) = set (sc_owns (sc_pc s t))"
    and "sc_reg s1 = sc_reg s" "sc_next s1 = sc_next s" "sc_ops s1 = sc_ops s" "sc_pc s1 = sc_pc s"
      "sc_completed s1 = sc_completed s" "sc_started s1 = sc_started s"
  shows "sc_inv_ops (sc_goto t pc s1)"
  by (rule sc_inv_ops_move [where X = "{}", OF assms(1)])
     (use assms sc_inv_ops_sep [OF assms(1)] in \<open>simp_all add: sc_inv_ops_def\<close>)

lemma sc_close_step_ops: "sc_close_step t s s' \<Longrightarrow> sc_inv_ops s \<Longrightarrow> sc_inv_ops s'"
  by (induction rule: sc_close_step.induct) (simp add: sc_inv_ops_def)

lemma sc_try_associate_step_ops: "sc_try_associate_step t s s' \<Longrightarrow> sc_inv_ops s \<Longrightarrow> sc_inv_ops s'"
  by (induction rule: sc_try_associate_step.induct; erule sc_inv_ops_stay; simp)

lemma sc_disassociate_step_ops: "sc_disassociate_step t s s' \<Longrightarrow> sc_inv_ops s \<Longrightarrow> sc_inv_ops s'"
  by (induction rule: sc_disassociate_step.induct; erule sc_inv_ops_stay; simp)

lemma sc_reg_chain: "sc_inv_ops s \<Longrightarrow> sc_reg s = RegList p \<Longrightarrow> chain (sc_next s) p (sc_ops s) None"
  by (simp add: sc_inv_ops_def)

lemma sc_complete_registered_step_ops:
  "sc_complete_registered_step t s s' \<Longrightarrow> sc_inv_ops s \<Longrightarrow> sc_inv_ops s'"
proof (induction rule: sc_complete_registered_step.induct)
  case (dequeue s p)
  note sep = sc_inv_ops_sep [OF dequeue.prems]
  show ?case
    by (rule sc_inv_ops_move [where X = "{}", OF dequeue.prems])
       (use dequeue.hyps sep(4,5) sc_reg_chain [OF dequeue.prems dequeue.hyps(2)] in auto)
next
  case (dequeue_assert s)
  then show ?case by (elim sc_inv_ops_stay) simp_all
next
  case (complete_op s op ops)
  note sep = sc_inv_ops_sep [OF complete_op.prems]
  have ch: "chain (sc_next s) (Some op) (op # ops) None" using sep(6) [of t] complete_op.hyps by simp
  then have "op \<notin> set ops" using chain_null_distinct by fastforce
  moreover have "sc_reg_ok (sc_next s) (sc_reg s) (sc_ops s)"
    using complete_op.prems by (simp add: sc_inv_ops_def)
  ultimately show ?case
    by (intro sc_inv_ops_move [where X = "{}", OF complete_op.prems])
       (use complete_op.hyps sep(1,2) [of t] sep(4,5) ch in auto)
next
  case (complete_end s ops)
  have "ops = []" using sc_inv_ops_sep(6) [OF complete_end.prems, of t] complete_end.hyps by simp
  with complete_end show ?case by (elim sc_inv_ops_stay) simp_all
qed

lemma sc_register_step_ops: "sc_register_step t s s' \<Longrightarrow> sc_inv_ops s \<Longrightarrow> sc_inv_ops s'"
proof (induction rule: sc_register_step.induct)
  case (reg_link s op h)
  note sep = sc_inv_ops_sep [OF reg_link.prems]
  have "op \<notin> set (sc_ops s)" using sep(1) [of t] reg_link.hyps by simp
  then have "sc_reg_ok ((sc_next s)(op := h)) (sc_reg s) (sc_ops s)"
    using reg_link.prems by (cases "sc_reg s") (simp_all add: sc_inv_ops_def)
  with sep(1,2) [of t] sep(4,5) reg_link.hyps show ?case
    by (intro sc_inv_ops_move [where X = "{}", OF reg_link.prems]) auto
next
  case (reg_cas s op h)
  note sep = sc_inv_ops_sep [OF reg_cas.prems]
  have "sc_next s op = h" using sep(6) [of t] reg_cas.hyps by simp
  with sc_reg_chain [OF reg_cas.prems reg_cas.hyps(2)] sep(1,2) [of t] sep(4,5) reg_cas.hyps
  show ?case by (intro sc_inv_ops_move [where X = "{}", OF reg_cas.prems]) auto
qed (erule sc_inv_ops_stay; simp)+

lemma sc_start_join_step_ops:
  "sc_start_join_step t s s' \<Longrightarrow> sc_inv_count s \<Longrightarrow> sc_inv_ops s \<Longrightarrow> sc_inv_ops s'"
proof (induction rule: sc_start_join_step.induct)
  case (join_load s op)
  note sep = sc_inv_ops_sep [OF join_load.prems(2)]
  have "sc_reg_ok (sc_next s) (sc_reg s) (sc_ops s)"
    using join_load.prems(2) by (simp add: sc_inv_ops_def)
  with sep(4,5) sep(7) [of t] join_load.hyps show ?case
    by (intro sc_inv_ops_move [where X = "{op}", OF join_load.prems(2)]) auto
next
  case (join_assert s op old)
  then have "sc_wf old" by (metis sc_inv_count_def sc_seen_ok.simps(2))
  with join_assert.hyps(2) sc_join_effect_zero sc_join_effect_pos show ?case
    by (cases "sc_count old = 0") (auto simp: sc_wf_def)
next
  case (join_inline s op)
  note sep = sc_inv_ops_sep [OF join_inline.prems(2)]
  have "sc_reg_ok (sc_next s) (sc_reg s) (sc_ops s)"
    using join_inline.prems(2) by (simp add: sc_inv_ops_def)
  with sep(1,2) [of t] sep(4,5) join_inline.hyps show ?case
    by (intro sc_inv_ops_move [where X = "{}", OF join_inline.prems(2)]) auto
qed (erule sc_inv_ops_stay; simp)+


lemma sc_step_inv: "sc_step s s' \<Longrightarrow> sc_inv s \<Longrightarrow> sc_inv s'"
proof (induction rule: sc_step.induct)
  case (by_complete t s s')
  then have "sc_pc s t = ScDequeue \<Longrightarrow> sc_reg s \<noteq> RegDone"
    using sc_inv_joinD(6) by (simp add: sc_inv_def)
  with by_complete sc_complete_registered_step_count sc_complete_registered_step_join
    sc_complete_registered_step_ops show ?case by (simp add: sc_inv_def)
qed (auto simp: sc_inv_def intro: sc_close_step_count sc_close_step_join sc_close_step_ops
      sc_try_associate_step_count sc_try_associate_step_join sc_try_associate_step_ops
      sc_disassociate_step_count sc_disassociate_step_join sc_disassociate_step_ops
      sc_register_step_count sc_register_step_join sc_register_step_ops
      sc_start_join_step_count sc_start_join_step_join sc_start_join_step_ops)

lemma sc_init_inv: "sc_init s \<Longrightarrow> sc_inv s"
  by (auto simp: sc_init_def sc_inv_def sc_inv_count_def sc_inv_join_def sc_inv_ops_def sc_wf_def
      sc_flags sc_count_def)

interpretation sc: safe_system sc_init sc_step sc_inv
  by unfold_locales (auto intro: sc_init_inv sc_step_inv)

section \<open>Properties\<close>

text \<open>
  Claim C4.  The packed word implements the abstract scope: on every well-formed word, closing,
  associating, disassociating and joining compute exactly the abstract transition of the count
  and phase it stands for, refusals included, and no assertion on the bits fails.
\<close>

theorem sc_bits_refine:
  assumes "sc_wf b"
  shows "sc_abs (sc_close_bits b) = spec_close (sc_abs b) \<and>
    (if sc_assoc_refused b then spec_associate (sc_abs b) = None
     else map_option sc_abs (sc_assoc_bits b) = spec_associate (sc_abs b) \<and>
          sc_assoc_bits b \<noteq> None) \<and>
    (sc_count b \<noteq> 0 \<longrightarrow>
       map_option sc_abs (sc_disassoc_bits b) = Some (spec_disassociate (sc_abs b))) \<and>
    map_option sc_abs (sc_join_bits b) = Some (spec_join (sc_abs b))"
proof (intro conjI impI)
  note ph = sc_abs_def sc_phase_def sc_flags
  have z: "unat (sc_count b) = 0 \<longleftrightarrow> sc_count b = 0" by (simp add: unat_eq_0)
  show "sc_abs (sc_close_bits b) = spec_close (sc_abs b)"
    by (cases "bit b 0"; cases "bit b (Suc 0)"; cases "bit b 2")
       (simp_all add: sc_close_bits_def ph bit_or_iff sc_bit_consts)
  have m: "sc_count b = sc_max_associations \<longleftrightarrow> unat (sc_count b) = 2 ^ 61 - 1"
    by (metis sc_max_unat word_eq_iff_unsigned)
  show "if sc_assoc_refused b then spec_associate (sc_abs b) = None
     else map_option sc_abs (sc_assoc_bits b) = spec_associate (sc_abs b) \<and> sc_assoc_bits b \<noteq> None"
  proof (cases "sc_assoc_refused b")
    case True
    then show ?thesis using m by (auto simp: sc_assoc_refused_def ph)
  next
    case False
    then have "unat (sc_count b) \<noteq> 2 ^ 61 - 1" "\<not> bit b 0"
      using m by (auto simp: sc_assoc_refused_def sc_flags)
    with sc_assoc_effect [OF False] False assms show ?thesis
      by (auto simp: ph sc_wf_def)
  qed
  show "map_option sc_abs (sc_disassoc_bits b) = Some (spec_disassociate (sc_abs b))"
    if c: "sc_count b \<noteq> 0"
  proof (cases "unat (sc_count b) = 1 \<and> sc_is_joining b")
    case True
    with sc_disassoc_effect [OF c] assms c show ?thesis
      by (auto simp: ph sc_wf_def sc_bit_consts)
  next
    case False
    with sc_disassoc_effect [OF c] obtain b' where b':
      "sc_disassoc_bits b = Some b'" "unat (sc_count b') = unat (sc_count b) - 1"
      "bit b' 0 = bit b 0" "bit b' (Suc 0) = bit b (Suc 0)" "bit b' 2 = bit b 2" by auto
    then have "sc_phase b' = sc_phase b" by (simp add: sc_phase_def sc_flags)
    moreover have "\<not> (unat (sc_count b) = 1 \<and>
        (sc_phase b = OpenAndJoining \<or> sc_phase b = ClosedAndJoining))"
      using False by (auto simp: sc_phase_def split: if_splits)
    ultimately show ?thesis using b'(1,2) by (auto simp: sc_abs_def)
  qed
  show "map_option sc_abs (sc_join_bits b) = Some (spec_join (sc_abs b))"
    using assms z by (cases "sc_count b = 0")
      (auto simp: sc_join_effect_zero sc_join_effect_pos ph sc_wf_def bit_or_iff sc_bit_consts)
qed

theorem sc_bits_refine_witness:
  "sc_abs 14 = (1, OpenAndJoining) \<and> map_option sc_abs (sc_disassoc_bits 14) = Some (0, Joined)"
proof -
  have v: "sc_count 14 = 1" "bit (14 :: bits) 0 = False" "bit (14 :: bits) (Suc 0)" "bit (14 :: bits) 2"
    by (simp_all add: sc_count_def drop_bit_eq_div)
  then have "sc_wf 14" by (simp add: sc_wf_def sc_flags)
  from sc_bits_refine [OF this] v show ?thesis
    by (simp add: sc_abs_def sc_phase_def sc_flags)
qed



text \<open>
  Claim C5.  However the methods of a scope interleave, the count in the word is the number of
  engaged associations plus the threads that are giving one back, and no assertion of the code
  (nor the one that the completion list is taken at most once) ever fails.
\<close>

theorem sc_count_is_associations:
  assumes "reach sc_init sc_step s"
  shows "unat (sc_count (sc_bits s)) = sc_held s + card (sc_leaving s) \<and>
    (\<forall>t. sc_pc s t \<noteq> ScFailed)"
proof -
  have "sc_inv_count s" using sc.reach_inv [OF assms] by (simp add: sc_inv_def)
  then show ?thesis unfolding sc_inv_count_def by (metis sc_seen_ok.simps(3))
qed

text \<open>
  Claim C6.  A join completes only after the end: once any join operation has completed, no
  association is engaged or being given back, the word is the joined state, which refuses every
  further association, and the scope may be destroyed.
\<close>

theorem sc_join_completes_last:
  assumes "reach sc_init sc_step s" and "sc_completed s \<noteq> []"
  shows "sc_held s = 0 \<and> sc_leaving s = {} \<and> sc_is_joined (sc_bits s) \<and>
    sc_assoc_refused (sc_bits s) \<and> sc_destroy (sc_bits s) = ScDestroyed"
proof -
  have inv: "sc_inv_count s" "sc_inv_join s" using sc.reach_inv [OF assms(1)] by (auto simp: sc_inv_def)
  have j: "sc_joined s" using sc_inv_joinD(1) [OF inv(2) assms(2)] .
  from sc_joined_facts(1) [OF j] inv(1) have "sc_held s = 0" "sc_leaving s = {}"
    by (auto simp: sc_inv_count_def)
  moreover have "sc_bits s = 1" using j by (simp add: sc_joined_def sc_closed_def)
  ultimately show ?thesis
    by (simp add: sc_is_joined_def sc_assoc_refused_def sc_is_closed_def sc_is_open_def sc_closed_def
        sc_destroy_def sc_destructible_def)
qed

text \<open>
  Claim C7.  No join is lost and none completes twice: when no thread is inside the scope and
  every association has been given back, exactly the join operations ever started have
  completed, each once.
\<close>

theorem sc_no_join_lost:
  assumes "reach sc_init sc_step s" and "\<And>t. sc_pc s t = ScIdle" and "sc_held s = 0"
  shows "set (sc_completed s) = sc_started s \<and> distinct (sc_completed s)"
proof -
  have inv: "sc_inv_count s" "sc_inv_join s" "sc_inv_ops s"
    using sc.reach_inv [OF assms(1)] by (auto simp: sc_inv_def)
  have "sc_leaving s = {}" using inv(1) assms(2) by (auto simp: sc_inv_count_def)
  then have "sc_count (sc_bits s) = 0" using inv(1) assms(3) by (simp add: sc_inv_count_def unat_eq_0)
  then have "\<not> sc_is_joining (sc_bits s)" using inv(1) by (simp add: sc_inv_count_def sc_wf_def)
  then have "sc_ops s = []" using sc_inv_joinD(4) [OF inv(2)] assms(2) by auto
  with inv(3) assms(2) show ?thesis by (simp add: sc_inv_ops_def)
qed

text \<open>
  A run for the witnesses: thread 0 associates; thread 1 joins with operation 7, which is
  registered; thread 0 gives the association back and completes the join.
\<close>

definition sc_run ::
  "bits \<Rightarrow> sc_reg \<Rightarrow> sc_pc \<Rightarrow> sc_pc \<Rightarrow> nat \<Rightarrow> nat set \<Rightarrow> addr list \<Rightarrow> addr set \<Rightarrow> addr list \<Rightarrow> scope" where
  "sc_run b r p0 p1 h lv ops st done =
     \<lparr>sc_bits = b, sc_reg = r, sc_next = (\<lambda>_. None),
      sc_pc = (\<lambda>t. if t = 0 then p0 else if t = 1 then p1 else ScIdle),
      sc_held = h, sc_leaving = lv, sc_ops = ops, sc_started = st, sc_completed = done\<rparr>"

lemma sc_run_simps [simp]:
  "sc_bits (sc_run b r p0 p1 h lv ops st done) = b"
  "sc_reg (sc_run b r p0 p1 h lv ops st done) = r"
  "sc_next (sc_run b r p0 p1 h lv ops st done) = (\<lambda>_. None)"
  "sc_pc (sc_run b r p0 p1 h lv ops st done) 0 = p0"
  "sc_pc (sc_run b r p0 p1 h lv ops st done) (Suc 0) = p1"
  "sc_held (sc_run b r p0 p1 h lv ops st done) = h"
  "sc_leaving (sc_run b r p0 p1 h lv ops st done) = lv"
  "sc_ops (sc_run b r p0 p1 h lv ops st done) = ops"
  "sc_started (sc_run b r p0 p1 h lv ops st done) = st"
  "sc_completed (sc_run b r p0 p1 h lv ops st done) = done"
  "sc_goto 0 q (sc_run b r p0 p1 h lv ops st done) = sc_run b r q p1 h lv ops st done"
  "sc_goto (Suc 0) q (sc_run b r p0 p1 h lv ops st done) = sc_run b r p0 q h lv ops st done"
  "sc_complete x (sc_run b r p0 p1 h lv ops st done) = sc_run b r p0 p1 h lv ops st (done @ [x])"
  "sc_bits_update f (sc_run b r p0 p1 h lv ops st done) = sc_run (f b) r p0 p1 h lv ops st done"
  "sc_reg_update g (sc_run b r p0 p1 h lv ops st done) = sc_run b (g r) p0 p1 h lv ops st done"
  "sc_held_update k (sc_run b r p0 p1 h lv ops st done) = sc_run b r p0 p1 (k h) lv ops st done"
  "sc_leaving_update l (sc_run b r p0 p1 h lv ops st done) = sc_run b r p0 p1 h (l lv) ops st done"
  "sc_ops_update m (sc_run b r p0 p1 h lv ops st done) = sc_run b r p0 p1 h lv (m ops) st done"
  "sc_started_update n (sc_run b r p0 p1 h lv ops st done) = sc_run b r p0 p1 h lv ops (n st) done"
  "(sc_run b r p0 p1 h lv ops st done)\<lparr>sc_next := (\<lambda>_. None)\<rparr> = sc_run b r p0 p1 h lv ops st done"
  by (auto simp: sc_run_def sc_goto_def sc_complete_def fun_eq_iff)

lemma sc_example_bits:
  "sc_assoc_bits 0 = Some 10" "\<not> sc_assoc_refused 0" "sc_join_bits 10 = Some 14"
  "sc_disassoc_bits 14 = Some 1" "sc_count 10 \<noteq> 0" "sc_count 14 \<noteq> 0" "sc_is_joined 1"
  by (simp_all add: sc_assoc_bits_def sc_assoc_refused_def sc_join_bits_def sc_disassoc_bits_def
      sc_is_closed_def sc_is_open_def sc_is_joined_def sc_is_joining_def sc_is_join_needed_def
      sc_is_unused_def sc_count_def sc_state_def sc_make_bits_def sc_closed_def sc_join_needed_def
      sc_join_running_def sc_max_associations_def drop_bit_eq_div push_bit_eq_mult Let_def)

lemma sc_example_run:
  "\<exists>s::scope. reach sc_init sc_step s \<and> (\<forall>t. sc_pc s t = ScIdle) \<and> sc_held s = 0 \<and>
       sc_started s = {7} \<and> sc_completed s \<noteq> []"
proof -
  have r0: "reach sc_init sc_step (sc_run 0 (RegList None) ScIdle ScIdle 0 {} [] {} [])"
    by (rule reach_init) (simp add: sc_init_def sc_run_def)
  have "sc_step (sc_run 0 (RegList None) ScIdle ScIdle 0 {} [] {} [])
      (sc_run 0 (RegList None) (ScAssoc 0) ScIdle 0 {} [] {} [])"
    using by_associate [OF assoc_load [of "sc_run 0 (RegList None) ScIdle ScIdle 0 {} [] {} []" 0]] by (simp add: sc_example_bits)
  note r1 = reach_step [OF r0 this]
  have "sc_step (sc_run 0 (RegList None) (ScAssoc 0) ScIdle 0 {} [] {} [])
      (sc_run 10 (RegList None) (ScReturned True) ScIdle 1 {} [] {} [])"
    using by_associate [OF assoc_cas [of "sc_run 0 (RegList None) (ScAssoc 0) ScIdle 0 {} [] {} []" 0 0 10]] by (simp add: sc_example_bits)
  note r2 = reach_step [OF r1 this]
  have "sc_step (sc_run 10 (RegList None) (ScReturned True) ScIdle 1 {} [] {} [])
      (sc_run 10 (RegList None) ScIdle ScIdle 1 {} [] {} [])"
    using by_associate [OF assoc_return [of "sc_run 10 (RegList None) (ScReturned True) ScIdle 1 {} [] {} []" 0 True]] by (simp add: sc_example_bits)
  note r3 = reach_step [OF r2 this]
  have "sc_step (sc_run 10 (RegList None) ScIdle ScIdle 1 {} [] {} [])
      (sc_run 10 (RegList None) ScIdle (ScJoin 7 10) 1 {} [] {7} [])"
    using by_join [OF join_load [of "sc_run 10 (RegList None) ScIdle ScIdle 1 {} [] {} []" "Suc 0" 7]] by (simp add: sc_example_bits)
  note r4 = reach_step [OF r3 this]
  have "sc_step (sc_run 10 (RegList None) ScIdle (ScJoin 7 10) 1 {} [] {7} [])
      (sc_run 14 (RegList None) ScIdle (ScRegLoad 7) 1 {} [] {7} [])"
    using by_join [OF join_cas [of "sc_run 10 (RegList None) ScIdle (ScJoin 7 10) 1 {} [] {7} []" "Suc 0" 7 10 14]] by (simp add: sc_example_bits)
  note r5 = reach_step [OF r4 this]
  have "sc_step (sc_run 14 (RegList None) ScIdle (ScRegLoad 7) 1 {} [] {7} [])
      (sc_run 14 (RegList None) ScIdle (ScReg 7 (RegList None)) 1 {} [] {7} [])"
    using by_register [OF reg_load [of "sc_run 14 (RegList None) ScIdle (ScRegLoad 7) 1 {} [] {7} []" "Suc 0" 7]] by (simp add: sc_example_bits)
  note r6 = reach_step [OF r5 this]
  have "sc_step (sc_run 14 (RegList None) ScIdle (ScReg 7 (RegList None)) 1 {} [] {7} [])
      (sc_run 14 (RegList None) ScIdle (ScRegLinked 7 None) 1 {} [] {7} [])"
    using by_register [OF reg_link [of "sc_run 14 (RegList None) ScIdle (ScReg 7 (RegList None)) 1 {} [] {7} []" "Suc 0" 7 None]] by (simp add: sc_example_bits)
  note r7 = reach_step [OF r6 this]
  have "sc_step (sc_run 14 (RegList None) ScIdle (ScRegLinked 7 None) 1 {} [] {7} [])
      (sc_run 14 (RegList (Some 7)) ScIdle ScIdle 1 {} [7] {7} [])"
    using by_register [OF reg_cas [of "sc_run 14 (RegList None) ScIdle (ScRegLinked 7 None) 1 {} [] {7} []" "Suc 0" 7 None]] by (simp add: sc_example_bits)
  note r8 = reach_step [OF r7 this]
  have "sc_step (sc_run 14 (RegList (Some 7)) ScIdle ScIdle 1 {} [7] {7} [])
      (sc_run 14 (RegList (Some 7)) (ScDis 14) ScIdle 0 {0} [7] {7} [])"
    using by_disassociate [OF dis_load [of "sc_run 14 (RegList (Some 7)) ScIdle ScIdle 1 {} [7] {7} []" 0]] by (simp add: sc_example_bits)
  note r9 = reach_step [OF r8 this]
  have "sc_step (sc_run 14 (RegList (Some 7)) (ScDis 14) ScIdle 0 {0} [7] {7} [])
      (sc_run 1 (RegList (Some 7)) ScDequeue ScIdle 0 {} [7] {7} [])"
    using by_disassociate [OF dis_cas [of "sc_run 14 (RegList (Some 7)) (ScDis 14) ScIdle 0 {0} [7] {7} []" 0 14 1]] by (simp add: sc_example_bits)
  note r10 = reach_step [OF r9 this]
  have "sc_step (sc_run 1 (RegList (Some 7)) ScDequeue ScIdle 0 {} [7] {7} [])
      (sc_run 1 RegDone (ScIter (Some 7) [7]) ScIdle 0 {} [] {7} [])"
    using by_complete [OF dequeue [of "sc_run 1 (RegList (Some 7)) ScDequeue ScIdle 0 {} [7] {7} []" 0 "Some 7"]] by (simp add: sc_example_bits)
  note r11 = reach_step [OF r10 this]
  have "sc_step (sc_run 1 RegDone (ScIter (Some 7) [7]) ScIdle 0 {} [] {7} [])
      (sc_run 1 RegDone (ScIter None []) ScIdle 0 {} [] {7} [7])"
    using by_complete [OF complete_op [of "sc_run 1 RegDone (ScIter (Some 7) [7]) ScIdle 0 {} [] {7} []" 0 7 "[]"]] by (simp add: sc_example_bits)
  note r12 = reach_step [OF r11 this]
  have "sc_step (sc_run 1 RegDone (ScIter None []) ScIdle 0 {} [] {7} [7])
      (sc_run 1 RegDone ScIdle ScIdle 0 {} [] {7} [7])"
    using by_complete [OF complete_end [of "sc_run 1 RegDone (ScIter None []) ScIdle 0 {} [] {7} [7]" 0 "[]"]] by (simp add: sc_example_bits)
  note r13 = reach_step [OF r12 this]
  show ?thesis by (intro exI conjI, rule r13) (simp_all add: sc_run_def)
qed

theorem sc_count_is_associations_witness:
  "\<exists>s::scope. sc_completed s \<noteq> [] \<and> unat (sc_count (sc_bits s)) = sc_held s + card (sc_leaving s) \<and>
       (\<forall>t. sc_pc s t \<noteq> ScFailed)"
proof -
  from sc_example_run obtain s :: scope where s: "reach sc_init sc_step s" "sc_completed s \<noteq> []" by blast
  with sc_count_is_associations [OF s(1)] show ?thesis by blast
qed

theorem sc_join_completes_last_witness:
  "\<exists>s::scope. sc_started s = {7} \<and> sc_held s = 0 \<and> sc_is_joined (sc_bits s) \<and>
       sc_destroy (sc_bits s) = ScDestroyed"
proof -
  from sc_example_run obtain s :: scope where s: "reach sc_init sc_step s" "sc_completed s \<noteq> []"
    "sc_started s = {7}" by blast
  with sc_join_completes_last [OF s(1,2)] show ?thesis by blast
qed

theorem sc_no_join_lost_witness: "\<exists>s::scope. set (sc_completed s) = {7} \<and> distinct (sc_completed s)"
proof -
  from sc_example_run obtain s :: scope where s: "reach sc_init sc_step s" "\<forall>t. sc_pc s t = ScIdle"
    "sc_held s = 0" "sc_started s = {7}" by blast
  from sc_no_join_lost [OF s(1) _ s(3)] s(2,4)
  have "set (sc_completed s) = {7} \<and> distinct (sc_completed s)" by simp
  then show ?thesis by blast
qed

end
