(* ===== verification/StopToken.thy ===== *)
theory StopToken
  imports Prelude
begin

unbundle bit_operations_syntax

text \<open>
  \<open>inplace_stop_source\<close>, its tokens and callbacks (\<^verbatim>\<open>include/stdexec/stop_token.hpp\<close>): one
  byte with a stop and a lock flag, and a doubly linked list of callbacks whose back pointers
  address the link that points at the callback (the head or another callback's \<open>__next_\<close>).

  Any number of threads construct and destroy callbacks and request a stop, one atomic access
  per step (a critical section under the lock flag is one step, its unlocking another).  A
  callback may itself call the operations: each thread has, besides the operation it runs, the
  stack of callbacks it is inside of.  An address is used for one callback object only.
\<close>

section \<open>Spinning\<close>

text \<open>\<open>__spin_wait::__wait\<close>: whether it yields, and the new counter.\<close>

definition st_yield_threshold :: "32 word" where "st_yield_threshold = 20"

definition st_spin_wait :: "32 word \<Rightarrow> bool \<times> 32 word" where
  "st_spin_wait c =
     (if c < st_yield_threshold then (False, c + 1)
      else (True, if c + 1 = 0 then st_yield_threshold else c + 1))"

fun st_spin_waits :: "nat \<Rightarrow> 32 word \<Rightarrow> bool list" where
  "st_spin_waits 0 c = []"
| "st_spin_waits (Suc n) c = fst (st_spin_wait c) # st_spin_waits n (snd (st_spin_wait c))"

lemma st_spin_wait_high:
  assumes "st_yield_threshold \<le> c"
  shows "fst (st_spin_wait c)" and "st_yield_threshold \<le> snd (st_spin_wait c)"
proof -
  show "fst (st_spin_wait c)" using assms by (auto simp: st_spin_wait_def)
  have "st_yield_threshold \<le> c + 1" if "c + 1 \<noteq> 0"
    using assms that unfolding st_yield_threshold_def by unat_arith
  with assms show "st_yield_threshold \<le> snd (st_spin_wait c)" by (auto simp: st_spin_wait_def)
qed

lemma st_spin_waits_high: "st_yield_threshold \<le> c \<Longrightarrow> st_spin_waits n c = replicate n True"
  by (induction n arbitrary: c) (simp_all add: st_spin_wait_high)

lemma st_spin_waits_low:
  "unat c + k = 20 \<Longrightarrow> st_spin_waits (k + n) c = replicate k False @ st_spin_waits n 20"
proof (induction k arbitrary: c)
  case 0
  then have "unat c = unat (20 :: 32 word)" by simp
  then have "c = 20" using word_unat_eq_iff by blast
  then show ?case by simp
next
  case (Suc k)
  then have "c < 20" "unat (c + 1) + k = 20" by (simp_all add: word_less_nat_alt unat_word_ariths)
  with Suc.IH [of "c + 1"] show ?case by (simp add: st_spin_wait_def st_yield_threshold_def)
qed

text \<open>
  A waiting thread pauses for its first twenty turns and yields in every later
  one, however long it waits: the wrap-around of the 32-bit counter does not bring the
  pauses back.
\<close>

lemma st_spin_waits_yield: "st_spin_waits (20 + n) 0 = replicate 20 False @ replicate n True"
  using st_spin_waits_low [of 0 20 n] st_spin_waits_high [of 20 n]
  by (simp add: st_yield_threshold_def)

section \<open>Sources, callbacks and threads\<close>

text \<open>The link a back pointer addresses, and the life of a callback object.\<close>

datatype st_link = AtHead | AtNext addr

datatype st_phase =
    Fresh
  | Constructing nat
  | Alive \<comment> \<open>registered: \<open>__source_\<close> is the source\<close>
  | Detached \<comment> \<open>constructed after the stop request: \<open>__source_\<close> is null\<close>
  | Destroying nat
  | Dead

text \<open>
  The locals of the operation a thread runs: the byte last loaded by a spin loop, the callback
  it works on, the byte to restore, the notifying thread read under the lock.
\<close>

datatype st_pc =
    StIdle
  | RqTry "8 word" | RqId | RqLoop | RqStore addr | RqExec addr | RqClear addr | RqDone addr
  | RqLock "8 word" | RqEnd
  | AddTry addr "8 word" | AddLink addr | AddUnlock addr
  | RmLock addr "8 word" | RmLocked addr "8 word" | RmUnlock addr "8 word"
  | RmUnlockWho addr "8 word" "nat option" | RmWho addr "nat option" | RmWait addr

datatype st_call = Notified addr | Inline addr

record stopsource =
  st_state :: "8 word"
  st_callbacks :: "addr option"
  st_notifier :: "nat option"
  st_next :: links
  st_prev :: "addr \<Rightarrow> st_link option" \<comment> \<open>\<open>__prev_ptr_\<close>\<close>
  st_removed_ptr :: "addr \<Rightarrow> bool" \<comment> \<open>\<open>__removed_during_callback_\<close> is not null\<close>
  st_removed :: bool \<comment> \<open>the local of \<open>request_stop\<close> those pointers address\<close>
  st_completed :: "addr \<Rightarrow> bool"
  st_pc :: "nat \<Rightarrow> st_pc"
  st_calls :: "nat \<Rightarrow> st_call list" \<comment> \<open>the callbacks each thread is inside of\<close>
  st_phase :: "addr \<Rightarrow> st_phase" \<comment> \<open>ghost\<close>
  st_list :: "addr list" \<comment> \<open>ghost: the registered callbacks\<close>
  st_cur :: "addr option" \<comment> \<open>ghost: the callback taken by \<open>request_stop\<close> and not done with\<close>
  st_log :: "addr list" \<comment> \<open>the callbacks invoked so far\<close>
  st_answers :: "bool list" \<comment> \<open>what the calls of \<open>request_stop\<close> returned\<close>

definition st_init :: "stopsource \<Rightarrow> bool" where
  "st_init s \<longleftrightarrow> st_state s = 0 \<and> st_callbacks s = None \<and> st_notifier s = None \<and>
     (\<forall>a. st_prev s a = None) \<and> (\<forall>a. \<not> st_removed_ptr s a) \<and> (\<forall>a. \<not> st_completed s a) \<and>
     (\<forall>t. st_pc s t = StIdle) \<and> (\<forall>t. st_calls s t = []) \<and> (\<forall>a. st_phase s a = Fresh) \<and>
     st_list s = [] \<and> st_cur s = None \<and> st_log s = [] \<and> st_answers s = []"

definition st_stop_requested_flag :: "8 word" where "st_stop_requested_flag = 1"
definition st_locked_flag :: "8 word" where "st_locked_flag = 2"

definition st_stop_requested :: "stopsource \<Rightarrow> bool" where
  "st_stop_requested s \<longleftrightarrow> st_state s AND st_stop_requested_flag \<noteq> 0"

definition st_goto :: "nat \<Rightarrow> st_pc \<Rightarrow> stopsource \<Rightarrow> stopsource" where
  "st_goto t pc s = s\<lparr>st_pc := (st_pc s)(t := pc)\<rparr>"

definition st_at :: "addr \<Rightarrow> st_phase \<Rightarrow> stopsource \<Rightarrow> stopsource" where
  "st_at cb ph s = s\<lparr>st_phase := (st_phase s)(cb := ph)\<rparr>"

text \<open>Entering and leaving a callback.\<close>

definition st_enter :: "nat \<Rightarrow> st_call \<Rightarrow> addr \<Rightarrow> stopsource \<Rightarrow> stopsource" where
  "st_enter t c cb s =
     s\<lparr>st_pc := (st_pc s)(t := StIdle), st_calls := (st_calls s)(t := c # st_calls s t),
       st_log := cb # st_log s\<rparr>"

definition st_leave :: "nat \<Rightarrow> st_pc \<Rightarrow> stopsource \<Rightarrow> stopsource" where
  "st_leave t pc s =
     s\<lparr>st_pc := (st_pc s)(t := pc), st_calls := (st_calls s)(t := tl (st_calls s t))\<rparr>"

text \<open>The critical sections: taking the first callback, linking one in, unlinking one.\<close>

definition st_set_link :: "st_link \<Rightarrow> addr option \<Rightarrow> stopsource \<Rightarrow> stopsource" where
  "st_set_link l p s =
     (case l of AtHead \<Rightarrow> s\<lparr>st_callbacks := p\<rparr> | AtNext b \<Rightarrow> s\<lparr>st_next := (st_next s)(b := p)\<rparr>)"

definition st_set_prev :: "addr option \<Rightarrow> st_link option \<Rightarrow> stopsource \<Rightarrow> stopsource" where
  "st_set_prev p l s = (case p of None \<Rightarrow> s | Some a \<Rightarrow> s\<lparr>st_prev := (st_prev s)(a := l)\<rparr>)"

definition st_take :: "addr \<Rightarrow> stopsource \<Rightarrow> stopsource" where
  "st_take cb s =
     (let s1 = st_set_prev (Some cb) None s;
          s2 = s1\<lparr>st_callbacks := st_next s1 cb\<rparr>
      in st_set_prev (st_callbacks s2) (Some AtHead) s2)"

definition st_link_in :: "addr \<Rightarrow> stopsource \<Rightarrow> stopsource" where
  "st_link_in cb s =
     (let s1 = s\<lparr>st_next := (st_next s)(cb := st_callbacks s)\<rparr>;
          s2 = st_set_prev (Some cb) (Some AtHead) s1;
          s3 = st_set_prev (st_callbacks s2) (Some (AtNext cb)) s2
      in s3\<lparr>st_callbacks := Some cb\<rparr>)"

definition st_unlink :: "addr \<Rightarrow> st_link \<Rightarrow> stopsource \<Rightarrow> stopsource" where
  "st_unlink cb l s =
     (let s1 = st_set_link l (st_next s cb) s
      in st_set_prev (st_next s1 cb) (st_prev s1 cb) s1)"

section \<open>The operations\<close>

text \<open>
  \<open>request_stop\<close>.  \<open>RqTry\<close> is the loop of \<open>__try_lock_unless_stop_requested_(true)\<close>, \<open>RqLock\<close>
  that of \<open>__lock_\<close>; a failed compare-exchange, spurious or not, reloads the byte.
\<close>

inductive st_request_stop_step :: "nat \<Rightarrow> stopsource \<Rightarrow> stopsource \<Rightarrow> bool" for t where
  rq_start: "st_pc s t = StIdle \<Longrightarrow> st_request_stop_step t s (st_goto t (RqTry (st_state s)) s)"
| rq_refuse: "st_pc s t = RqTry w \<Longrightarrow> w AND st_stop_requested_flag \<noteq> 0 \<Longrightarrow>
     st_request_stop_step t s (st_goto t StIdle (s\<lparr>st_answers := True # st_answers s\<rparr>))"
| rq_reload: "st_pc s t = RqTry w \<Longrightarrow> w AND st_stop_requested_flag = 0 \<Longrightarrow>
     st_request_stop_step t s (st_goto t (RqTry (st_state s)) s)"
| rq_acquire: "st_pc s t = RqTry 0 \<Longrightarrow> st_state s = 0 \<Longrightarrow>
     st_request_stop_step t s
       (st_goto t RqId (s\<lparr>st_state := st_locked_flag OR st_stop_requested_flag\<rparr>))"
| rq_id: "st_pc s t = RqId \<Longrightarrow> st_request_stop_step t s (st_goto t RqLoop (s\<lparr>st_notifier := Some t\<rparr>))"
| rq_take: "st_pc s t = RqLoop \<Longrightarrow> st_callbacks s = Some cb \<Longrightarrow>
     st_request_stop_step t s
       (st_goto t (RqStore cb) (st_take cb (s\<lparr>st_list := tl (st_list s), st_cur := Some cb\<rparr>)))"
| rq_unlock: "st_pc s t = RqStore cb \<Longrightarrow>
     st_request_stop_step t s (st_goto t (RqExec cb) (s\<lparr>st_state := st_stop_requested_flag\<rparr>))"
| rq_exec: "st_pc s t = RqExec cb \<Longrightarrow>
     st_request_stop_step t s
       (st_enter t (Notified cb) cb
          (s\<lparr>st_removed := False, st_removed_ptr := (st_removed_ptr s)(cb := True)\<rparr>))"
| rq_return: "st_pc s t = StIdle \<Longrightarrow> st_calls s t = Notified cb # cs \<Longrightarrow> \<not> st_removed s \<Longrightarrow>
     st_request_stop_step t s (st_leave t (RqClear cb) s)"
| rq_return_removed: "st_pc s t = StIdle \<Longrightarrow> st_calls s t = Notified cb # cs \<Longrightarrow> st_removed s \<Longrightarrow>
     st_request_stop_step t s (st_leave t (RqLock (st_state s)) (s\<lparr>st_cur := None\<rparr>))"
| rq_clear: "st_pc s t = RqClear cb \<Longrightarrow>
     st_request_stop_step t s
       (st_goto t (RqDone cb) (s\<lparr>st_removed_ptr := (st_removed_ptr s)(cb := False)\<rparr>))"
| rq_done: "st_pc s t = RqDone cb \<Longrightarrow>
     st_request_stop_step t s
       (st_goto t (RqLock (st_state s))
          (s\<lparr>st_completed := (st_completed s)(cb := True), st_cur := None\<rparr>))"
| rq_relock: "st_pc s t = RqLock w \<Longrightarrow>
     st_request_stop_step t s (st_goto t (RqLock (st_state s)) s)"
| rq_locked: "st_pc s t = RqLock w \<Longrightarrow> w AND st_locked_flag = 0 \<Longrightarrow> st_state s = w \<Longrightarrow>
     st_request_stop_step t s (st_goto t RqLoop (s\<lparr>st_state := w OR st_locked_flag\<rparr>))"
| rq_empty: "st_pc s t = RqLoop \<Longrightarrow> st_callbacks s = None \<Longrightarrow>
     st_request_stop_step t s (st_goto t RqEnd s)"
| rq_end: "st_pc s t = RqEnd \<Longrightarrow>
     st_request_stop_step t s
       (st_goto t StIdle (s\<lparr>st_state := st_stop_requested_flag, st_answers := False # st_answers s\<rparr>))"

text \<open>
  The constructor of a callback: \<open>__register_callback_\<close> and \<open>__try_add_callback_\<close>, with the
  loop of \<open>__try_lock_unless_stop_requested_(false)\<close>.  On refusal the callback runs inline.
\<close>

inductive st_construct_step :: "nat \<Rightarrow> stopsource \<Rightarrow> stopsource \<Rightarrow> bool" for t where
  add_start: "st_pc s t = StIdle \<Longrightarrow> st_phase s cb = Fresh \<Longrightarrow>
     st_construct_step t s (st_goto t (AddTry cb (st_state s)) (st_at cb (Constructing t) s))"
| add_refuse: "st_pc s t = AddTry cb w \<Longrightarrow> w AND st_stop_requested_flag \<noteq> 0 \<Longrightarrow>
     st_construct_step t s (st_enter t (Inline cb) cb s)"
| add_inline_return: "st_pc s t = StIdle \<Longrightarrow> st_calls s t = Inline cb # cs \<Longrightarrow>
     st_construct_step t s (st_leave t StIdle (st_at cb Detached s))"
| add_reload: "st_pc s t = AddTry cb w \<Longrightarrow> w AND st_stop_requested_flag = 0 \<Longrightarrow>
     st_construct_step t s (st_goto t (AddTry cb (st_state s)) s)"
| add_acquire: "st_pc s t = AddTry cb 0 \<Longrightarrow> st_state s = 0 \<Longrightarrow>
     st_construct_step t s (st_goto t (AddLink cb) (s\<lparr>st_state := st_locked_flag\<rparr>))"
| add_link: "st_pc s t = AddLink cb \<Longrightarrow>
     st_construct_step t s
       (st_goto t (AddUnlock cb) (st_link_in cb (s\<lparr>st_list := cb # st_list s\<rparr>)))"
| add_unlock: "st_pc s t = AddUnlock cb \<Longrightarrow>
     st_construct_step t s (st_goto t StIdle (st_at cb Alive (s\<lparr>st_state := 0\<rparr>)))"

text \<open>
  The destructor: \<open>__remove_callback_\<close>, unless the source pointer is null.  It is called
  once, after the constructor has returned.
\<close>

inductive st_destroy_step :: "nat \<Rightarrow> stopsource \<Rightarrow> stopsource \<Rightarrow> bool" for t where
  rm_null: "st_pc s t = StIdle \<Longrightarrow> st_phase s cb = Detached \<Longrightarrow> st_destroy_step t s (st_at cb Dead s)"
| rm_start: "st_pc s t = StIdle \<Longrightarrow> st_phase s cb = Alive \<Longrightarrow>
     st_destroy_step t s (st_goto t (RmLock cb (st_state s)) (st_at cb (Destroying t) s))"
| rm_reload: "st_pc s t = RmLock cb w \<Longrightarrow>
     st_destroy_step t s (st_goto t (RmLock cb (st_state s)) s)"
| rm_locked: "st_pc s t = RmLock cb w \<Longrightarrow> w AND st_locked_flag = 0 \<Longrightarrow> st_state s = w \<Longrightarrow>
     st_destroy_step t s (st_goto t (RmLocked cb w) (s\<lparr>st_state := w OR st_locked_flag\<rparr>))"
| rm_unlink: "st_pc s t = RmLocked cb w \<Longrightarrow> st_prev s cb = Some l \<Longrightarrow>
     st_destroy_step t s
       (st_goto t (RmUnlock cb w) (st_unlink cb l (s\<lparr>st_list := remove1 cb (st_list s)\<rparr>)))"
| rm_unlock: "st_pc s t = RmUnlock cb w \<Longrightarrow>
     st_destroy_step t s (st_goto t StIdle (st_at cb Dead (s\<lparr>st_state := w\<rparr>)))"
| rm_executed: "st_pc s t = RmLocked cb w \<Longrightarrow> st_prev s cb = None \<Longrightarrow>
     st_destroy_step t s (st_goto t (RmUnlockWho cb w (st_notifier s)) s)"
| rm_unlock_who: "st_pc s t = RmUnlockWho cb w n \<Longrightarrow>
     st_destroy_step t s (st_goto t (RmWho cb n) (s\<lparr>st_state := w\<rparr>))"
| rm_self: "st_pc s t = RmWho cb (Some t) \<Longrightarrow>
     st_destroy_step t s
       (st_goto t StIdle (st_at cb Dead
          (s\<lparr>st_removed := (if st_removed_ptr s cb then True else st_removed s)\<rparr>)))"
| rm_other: "st_pc s t = RmWho cb n \<Longrightarrow> n \<noteq> Some t \<Longrightarrow>
     st_destroy_step t s (st_goto t (RmWait cb) s)"
| rm_wait: "st_pc s t = RmWait cb \<Longrightarrow> st_completed s cb \<Longrightarrow>
     st_destroy_step t s (st_goto t StIdle (st_at cb Dead s))"

inductive st_step :: "stopsource \<Rightarrow> stopsource \<Rightarrow> bool" where
  by_request: "st_request_stop_step t s s' \<Longrightarrow> st_step s s'"
| by_construct: "st_construct_step t s s' \<Longrightarrow> st_step s s'"
| by_destroy: "st_destroy_step t s s' \<Longrightarrow> st_step s s'"

section \<open>What the updates change\<close>

lemma st_goto_fields [simp]:
  "st_state (st_goto t pc s) = st_state s"
  "st_callbacks (st_goto t pc s) = st_callbacks s"
  "st_notifier (st_goto t pc s) = st_notifier s"
  "st_next (st_goto t pc s) = st_next s"
  "st_prev (st_goto t pc s) = st_prev s"
  "st_removed_ptr (st_goto t pc s) = st_removed_ptr s"
  "st_removed (st_goto t pc s) = st_removed s"
  "st_completed (st_goto t pc s) = st_completed s"
  "st_calls (st_goto t pc s) = st_calls s"
  "st_phase (st_goto t pc s) = st_phase s"
  "st_list (st_goto t pc s) = st_list s"
  "st_cur (st_goto t pc s) = st_cur s"
  "st_log (st_goto t pc s) = st_log s"
  "st_answers (st_goto t pc s) = st_answers s"
  "st_pc (st_goto t pc s) = (st_pc s)(t := pc)"
  by (simp_all add: st_goto_def)

lemma st_at_fields [simp]:
  "st_state (st_at cb ph s) = st_state s"
  "st_callbacks (st_at cb ph s) = st_callbacks s"
  "st_notifier (st_at cb ph s) = st_notifier s"
  "st_next (st_at cb ph s) = st_next s"
  "st_prev (st_at cb ph s) = st_prev s"
  "st_removed_ptr (st_at cb ph s) = st_removed_ptr s"
  "st_removed (st_at cb ph s) = st_removed s"
  "st_completed (st_at cb ph s) = st_completed s"
  "st_pc (st_at cb ph s) = st_pc s"
  "st_calls (st_at cb ph s) = st_calls s"
  "st_list (st_at cb ph s) = st_list s"
  "st_cur (st_at cb ph s) = st_cur s"
  "st_log (st_at cb ph s) = st_log s"
  "st_answers (st_at cb ph s) = st_answers s"
  "st_phase (st_at cb ph s) = (st_phase s)(cb := ph)"
  by (simp_all add: st_at_def)

lemma st_enter_fields [simp]:
  "st_state (st_enter t c cb s) = st_state s"
  "st_callbacks (st_enter t c cb s) = st_callbacks s"
  "st_notifier (st_enter t c cb s) = st_notifier s"
  "st_next (st_enter t c cb s) = st_next s"
  "st_prev (st_enter t c cb s) = st_prev s"
  "st_removed_ptr (st_enter t c cb s) = st_removed_ptr s"
  "st_removed (st_enter t c cb s) = st_removed s"
  "st_completed (st_enter t c cb s) = st_completed s"
  "st_phase (st_enter t c cb s) = st_phase s"
  "st_list (st_enter t c cb s) = st_list s"
  "st_cur (st_enter t c cb s) = st_cur s"
  "st_answers (st_enter t c cb s) = st_answers s"
  "st_pc (st_enter t c cb s) = (st_pc s)(t := StIdle)"
  "st_calls (st_enter t c cb s) = (st_calls s)(t := c # st_calls s t)"
  "st_log (st_enter t c cb s) = cb # st_log s"
  by (simp_all add: st_enter_def)

lemma st_leave_fields [simp]:
  "st_state (st_leave t pc s) = st_state s"
  "st_callbacks (st_leave t pc s) = st_callbacks s"
  "st_notifier (st_leave t pc s) = st_notifier s"
  "st_next (st_leave t pc s) = st_next s"
  "st_prev (st_leave t pc s) = st_prev s"
  "st_removed_ptr (st_leave t pc s) = st_removed_ptr s"
  "st_removed (st_leave t pc s) = st_removed s"
  "st_completed (st_leave t pc s) = st_completed s"
  "st_phase (st_leave t pc s) = st_phase s"
  "st_list (st_leave t pc s) = st_list s"
  "st_cur (st_leave t pc s) = st_cur s"
  "st_log (st_leave t pc s) = st_log s"
  "st_answers (st_leave t pc s) = st_answers s"
  "st_pc (st_leave t pc s) = (st_pc s)(t := pc)"
  "st_calls (st_leave t pc s) = (st_calls s)(t := tl (st_calls s t))"
  by (simp_all add: st_leave_def)

lemma st_set_link_fields [simp]:
  "st_state (st_set_link l p s) = st_state s"
  "st_notifier (st_set_link l p s) = st_notifier s"
  "st_prev (st_set_link l p s) = st_prev s"
  "st_removed_ptr (st_set_link l p s) = st_removed_ptr s"
  "st_removed (st_set_link l p s) = st_removed s"
  "st_completed (st_set_link l p s) = st_completed s"
  "st_pc (st_set_link l p s) = st_pc s"
  "st_calls (st_set_link l p s) = st_calls s"
  "st_phase (st_set_link l p s) = st_phase s"
  "st_list (st_set_link l p s) = st_list s"
  "st_cur (st_set_link l p s) = st_cur s"
  "st_log (st_set_link l p s) = st_log s"
  "st_answers (st_set_link l p s) = st_answers s"
  by (simp_all add: st_set_link_def split: st_link.split)

lemma st_set_prev_fields [simp]:
  "st_state (st_set_prev p pl s) = st_state s"
  "st_callbacks (st_set_prev p pl s) = st_callbacks s"
  "st_notifier (st_set_prev p pl s) = st_notifier s"
  "st_next (st_set_prev p pl s) = st_next s"
  "st_removed_ptr (st_set_prev p pl s) = st_removed_ptr s"
  "st_removed (st_set_prev p pl s) = st_removed s"
  "st_completed (st_set_prev p pl s) = st_completed s"
  "st_pc (st_set_prev p pl s) = st_pc s"
  "st_calls (st_set_prev p pl s) = st_calls s"
  "st_phase (st_set_prev p pl s) = st_phase s"
  "st_list (st_set_prev p pl s) = st_list s"
  "st_cur (st_set_prev p pl s) = st_cur s"
  "st_log (st_set_prev p pl s) = st_log s"
  "st_answers (st_set_prev p pl s) = st_answers s"
  "st_prev (st_set_prev p pl s) a = (if p = Some a then pl else st_prev s a)"
  by (simp_all add: st_set_prev_def split: option.split)

lemma st_take_fields [simp]:
  "st_state (st_take cb s) = st_state s"
  "st_notifier (st_take cb s) = st_notifier s"
  "st_next (st_take cb s) = st_next s"
  "st_removed_ptr (st_take cb s) = st_removed_ptr s"
  "st_removed (st_take cb s) = st_removed s"
  "st_completed (st_take cb s) = st_completed s"
  "st_pc (st_take cb s) = st_pc s"
  "st_calls (st_take cb s) = st_calls s"
  "st_phase (st_take cb s) = st_phase s"
  "st_list (st_take cb s) = st_list s"
  "st_cur (st_take cb s) = st_cur s"
  "st_log (st_take cb s) = st_log s"
  "st_answers (st_take cb s) = st_answers s"
  "st_callbacks (st_take cb s) = st_next s cb"
  by (simp_all add: st_take_def Let_def)

lemma st_link_in_fields [simp]:
  "st_state (st_link_in cb s) = st_state s"
  "st_notifier (st_link_in cb s) = st_notifier s"
  "st_removed_ptr (st_link_in cb s) = st_removed_ptr s"
  "st_removed (st_link_in cb s) = st_removed s"
  "st_completed (st_link_in cb s) = st_completed s"
  "st_pc (st_link_in cb s) = st_pc s"
  "st_calls (st_link_in cb s) = st_calls s"
  "st_phase (st_link_in cb s) = st_phase s"
  "st_list (st_link_in cb s) = st_list s"
  "st_cur (st_link_in cb s) = st_cur s"
  "st_log (st_link_in cb s) = st_log s"
  "st_answers (st_link_in cb s) = st_answers s"
  "st_callbacks (st_link_in cb s) = Some cb"
  "st_next (st_link_in cb s) = (st_next s)(cb := st_callbacks s)"
  by (simp_all add: st_link_in_def Let_def)

lemma st_unlink_fields [simp]:
  "st_state (st_unlink cb l s) = st_state s"
  "st_notifier (st_unlink cb l s) = st_notifier s"
  "st_removed_ptr (st_unlink cb l s) = st_removed_ptr s"
  "st_removed (st_unlink cb l s) = st_removed s"
  "st_completed (st_unlink cb l s) = st_completed s"
  "st_pc (st_unlink cb l s) = st_pc s"
  "st_calls (st_unlink cb l s) = st_calls s"
  "st_phase (st_unlink cb l s) = st_phase s"
  "st_list (st_unlink cb l s) = st_list s"
  "st_cur (st_unlink cb l s) = st_cur s"
  "st_log (st_unlink cb l s) = st_log s"
  "st_answers (st_unlink cb l s) = st_answers s"
  by (simp_all add: st_unlink_def Let_def)

section \<open>The list of callbacks\<close>

text \<open>
  The forward links lead through the list to null; every back pointer addresses the link that
  points at its callback.
\<close>

primrec st_backs :: "(addr \<Rightarrow> st_link option) \<Rightarrow> st_link \<Rightarrow> addr list \<Rightarrow> bool" where
  "st_backs pv l [] \<longleftrightarrow> True"
| "st_backs pv l (a # as) \<longleftrightarrow> pv a = Some l \<and> st_backs pv (AtNext a) as"

definition st_dll :: "stopsource \<Rightarrow> bool" where
  "st_dll s \<longleftrightarrow> chain (st_next s) (st_callbacks s) (st_list s) None \<and> st_backs (st_prev s) AtHead (st_list s)"

lemma st_backs_cong: "(\<And>a. a \<in> set as \<Longrightarrow> pv a = pv' a) \<Longrightarrow> st_backs pv l as = st_backs pv' l as"
  by (induction as arbitrary: l) auto

lemma st_backs_some: "st_backs pv l as \<Longrightarrow> a \<in> set as \<Longrightarrow> pv a \<noteq> None"
  by (induction as arbitrary: l) auto

lemma st_backs_append:
  "st_backs pv l (us @ a # vs) \<longleftrightarrow>
     st_backs pv l us \<and> pv a = Some (if us = [] then l else AtNext (last us)) \<and> st_backs pv (AtNext a) vs"
  by (induction us arbitrary: l) auto

lemma st_take_prev:
  "st_prev (st_take cb s) a = (if st_next s cb = Some a then Some AtHead else if a = cb then None else st_prev s a)"
  by (simp add: st_take_def st_set_prev_def Let_def split: option.split)

lemma st_dll_take:
  assumes "st_dll s" and "st_callbacks s = Some cb"
  obtains xs where "st_list s = cb # xs" and "st_dll (st_take cb (s\<lparr>st_list := xs, st_cur := c\<rparr>))"
    and "\<And>a. st_prev (st_take cb (s\<lparr>st_list := xs, st_cur := c\<rparr>)) a = None \<longleftrightarrow> a = cb \<or> st_prev s a = None"
    and "cb \<notin> set xs"
proof -
  from assms obtain xs where xs: "st_list s = cb # xs" "chain (st_next s) (st_next s cb) xs None"
    "st_backs (st_prev s) (AtNext cb) xs" by (cases "st_list s") (auto simp: st_dll_def)
  have "distinct (st_list s)" using assms(1) chain_null_distinct by (auto simp: st_dll_def)
  then have d: "distinct (cb # xs)" by (simp only: xs(1))
  let ?s = "st_take cb (s\<lparr>st_list := xs, st_cur := c\<rparr>)"
  have "st_backs (st_prev ?s) AtHead xs"
  proof (cases xs)
    case (Cons y ys)
    then have "st_next s cb = Some y" using xs(2) by simp
    moreover have "st_backs (st_prev ?s) (AtNext y) ys = st_backs (st_prev s) (AtNext y) ys"
      using d Cons calculation by (intro st_backs_cong) (auto simp: st_take_prev)
    ultimately show ?thesis using xs(3) Cons by (simp add: st_take_prev)
  qed simp
  then have dll: "st_dll ?s" using xs(2) by (simp add: st_dll_def)
  have "st_prev ?s a = None \<longleftrightarrow> a = cb \<or> st_prev s a = None" for a
    using xs(2,3) d by (cases xs) (auto simp: st_take_prev)
  then show ?thesis using that [OF xs(1) dll] d by simp
qed

lemma st_link_in_prev:
  "cb \<notin> set (st_list s) \<Longrightarrow> st_dll s \<Longrightarrow>
   st_prev (st_link_in cb s) a =
     (if st_callbacks s = Some a then Some (AtNext cb) else if a = cb then Some AtHead else st_prev s a)"
  by (simp add: st_link_in_def st_set_prev_def Let_def split: option.split)

lemma st_dll_link_in:
  assumes "st_dll s" and "cb \<notin> set (st_list s)"
  shows "st_dll (st_link_in cb (s\<lparr>st_list := cb # st_list s\<rparr>))"
    and "st_prev (st_link_in cb (s\<lparr>st_list := cb # st_list s\<rparr>)) a = None \<longleftrightarrow> a \<noteq> cb \<and> st_prev s a = None"
proof -
  let ?s = "st_link_in cb (s\<lparr>st_list := cb # st_list s\<rparr>)"
  have pv: "st_prev ?s b = (if st_callbacks s = Some b then Some (AtNext cb)
      else if b = cb then Some AtHead else st_prev s b)" for b
    by (simp add: st_link_in_def st_set_prev_def Let_def split: option.split)
  have ne: "st_callbacks s \<noteq> Some cb" using assms by (cases "st_list s") (auto simp: st_dll_def)
  have "st_backs (st_prev ?s) (AtNext cb) (st_list s)"
  proof (cases "st_list s")
    case (Cons y ys)
    have h: "st_callbacks s = Some y" using assms(1) Cons by (simp add: st_dll_def)
    have "y \<notin> set ys" "cb \<notin> set ys" "cb \<noteq> y"
      using chain_null_distinct [of "st_next s" "st_callbacks s" "st_list s"] assms Cons
      by (auto simp: st_dll_def)
    then have "st_backs (st_prev ?s) (AtNext y) ys = st_backs (st_prev s) (AtNext y) ys"
      using h by (intro st_backs_cong) (auto simp: pv)
    moreover have "st_prev ?s y = Some (AtNext cb)" using h by (simp add: pv)
    ultimately show ?thesis using assms(1) Cons by (simp add: st_dll_def)
  qed simp
  then show "st_dll ?s" using assms ne by (simp add: st_dll_def pv)
  have "st_prev s b \<noteq> None" if "st_callbacks s = Some b" for b
    using assms(1) that by (cases "st_list s") (auto simp: st_dll_def)
  then show "st_prev ?s a = None \<longleftrightarrow> a \<noteq> cb \<and> st_prev s a = None"
    using ne unfolding pv by auto
qed

lemma st_dll_unlink:
  assumes "st_dll s" and "cb \<in> set (st_list s)" and l: "st_prev s cb = Some l"
  shows "st_dll (st_unlink cb l (s\<lparr>st_list := remove1 cb (st_list s)\<rparr>))"
    and "st_prev (st_unlink cb l (s\<lparr>st_list := remove1 cb (st_list s)\<rparr>)) a = None \<longleftrightarrow> st_prev s a = None"
    and "cb \<notin> set (remove1 cb (st_list s))"
proof -
  let ?s = "st_unlink cb l (s\<lparr>st_list := remove1 cb (st_list s)\<rparr>)"
  have d: "distinct (st_list s)" using assms(1) by (auto simp: st_dll_def intro: chain_null_distinct)
  then show "cb \<notin> set (remove1 cb (st_list s))" by (simp add: set_remove1_eq)
  from assms(2) obtain us vs where uv: "st_list s = us @ cb # vs" by (meson split_list)
  have r: "remove1 cb (st_list s) = us @ vs" using d uv by (simp add: remove1_append)
  have b: "st_backs (st_prev s) AtHead us" "l = (if us = [] then AtHead else AtNext (last us))"
    "st_backs (st_prev s) (AtNext cb) vs"
    using assms(1,3) uv by (auto simp: st_dll_def st_backs_append)
  have c: "chain (st_next s) (st_callbacks s) us (Some cb)" "chain (st_next s) (st_next s cb) vs None"
    using assms(1) uv by (auto simp: st_dll_def chain_simps)
  have ln: "l \<noteq> AtNext cb" using b(2) d uv by (auto split: if_splits)
  have pv: "st_prev ?s b = (if st_next s cb = Some b then Some l else st_prev s b)" for b
    using ln l by (cases l) (auto simp: st_unlink_def st_set_link_def st_set_prev_def Let_def split: option.split)
  show "st_prev ?s a = None \<longleftrightarrow> st_prev s a = None"
    using c(2) b(3) by (cases vs) (auto simp: pv)
  have du: "distinct (us @ cb # vs)" using d by (simp only: uv)
  have "st_backs (st_prev ?s) AtHead us = st_backs (st_prev s) AtHead us"
    using c(2) du by (intro st_backs_cong) (cases vs; auto simp: pv)
  moreover have "st_backs (st_prev ?s) l vs"
  proof (cases vs)
    case (Cons y ys)
    have "st_backs (st_prev ?s) (AtNext y) ys = st_backs (st_prev s) (AtNext y) ys"
      using c(2) du Cons by (intro st_backs_cong) (auto simp: pv)
    then show ?thesis using c(2) b(3) Cons by (simp add: pv)
  qed simp
  moreover have "st_backs pv AtHead (us @ vs) \<longleftrightarrow> st_backs pv AtHead us \<and>
      st_backs pv (if us = [] then AtHead else AtNext (last us)) vs" for pv
    by (cases vs) (auto simp: st_backs_append)
  ultimately have bk: "st_backs (st_prev ?s) AtHead (us @ vs)" using b(1,2) by simp
  have "chain (st_next ?s) (st_callbacks ?s) (us @ vs) None"
  proof (cases "us = []")
    case True
    then show ?thesis using b(2) c(2)
      by (cases "st_next s cb") (auto simp: st_unlink_def st_set_link_def st_set_prev_def)
  next
    case False
    then have "chain ((st_next s)(last us := st_next s cb)) (st_callbacks s) (us @ vs) None"
      using c du by (intro chain_link_last) (auto dest: last_in_set)
    then show ?thesis using b(2) False
      by (cases "st_next s cb") (auto simp: st_unlink_def st_set_link_def st_set_prev_def)
  qed
  with bk show "st_dll ?s" by (simp add: st_dll_def r)
qed

section \<open>Invariants\<close>

text \<open>The states of a thread in a critical section, and of the thread that notifies.\<close>

fun st_crit :: "st_pc \<Rightarrow> bool" where
  "st_crit RqId \<longleftrightarrow> True"
| "st_crit RqLoop \<longleftrightarrow> True"
| "st_crit (RqStore cb) \<longleftrightarrow> True"
| "st_crit RqEnd \<longleftrightarrow> True"
| "st_crit (AddLink cb) \<longleftrightarrow> True"
| "st_crit (AddUnlock cb) \<longleftrightarrow> True"
| "st_crit (RmLocked cb w) \<longleftrightarrow> True"
| "st_crit (RmUnlock cb w) \<longleftrightarrow> True"
| "st_crit (RmUnlockWho cb w n) \<longleftrightarrow> True"
| "st_crit _ \<longleftrightarrow> False"

fun st_rq :: "st_pc \<Rightarrow> bool" where
  "st_rq RqId \<longleftrightarrow> True"
| "st_rq RqLoop \<longleftrightarrow> True"
| "st_rq (RqStore cb) \<longleftrightarrow> True"
| "st_rq (RqExec cb) \<longleftrightarrow> True"
| "st_rq (RqClear cb) \<longleftrightarrow> True"
| "st_rq (RqDone cb) \<longleftrightarrow> True"
| "st_rq (RqLock w) \<longleftrightarrow> True"
| "st_rq RqEnd \<longleftrightarrow> True"
| "st_rq _ \<longleftrightarrow> False"

fun st_notified :: "st_call \<Rightarrow> bool" where
  "st_notified (Notified cb) \<longleftrightarrow> True"
| "st_notified (Inline cb) \<longleftrightarrow> False"

text \<open>How often a thread is inside the part of \<open>request_stop\<close> that notifies.\<close>

definition st_role :: "stopsource \<Rightarrow> nat \<Rightarrow> nat" where
  "st_role s t = (if st_rq (st_pc s t) then 1 else 0) + length (filter st_notified (st_calls s t))"

definition st_inv_lock :: "stopsource \<Rightarrow> bool" where
  "st_inv_lock s \<longleftrightarrow> st_state s \<in> {0, 1, 2, 3} \<and>
     (\<forall>t u. st_crit (st_pc s t) \<longrightarrow> st_crit (st_pc s u) \<longrightarrow> t = u)"

definition st_inv_role :: "stopsource \<Rightarrow> bool" where
  "st_inv_role s \<longleftrightarrow>
     (\<forall>t. st_role s t \<le> 1) \<and>
     (\<forall>t u. 0 < st_role s t \<longrightarrow> 0 < st_role s u \<longrightarrow> t = u) \<and>
     (\<forall>t. 0 < st_role s t \<longrightarrow> (st_state s = 1 \<or> st_state s = 3) \<and> (st_pc s t \<noteq> RqId \<longrightarrow> st_notifier s = Some t)) \<and>
     (\<forall>t. st_pc s t = RqId \<longrightarrow> st_notifier s = None) \<and>
     (st_notifier s \<noteq> None \<longrightarrow> st_state s = 1 \<or> st_state s = 3) \<and>
     (st_cur s \<noteq> None \<or> (st_state s = 1 \<or> st_state s = 3) \<and> st_list s \<noteq> [] \<longrightarrow> (\<exists>t. 0 < st_role s t))"

text \<open>What holds at each program point of thread \<open>t\<close>.\<close>

definition st_new :: "stopsource \<Rightarrow> nat \<Rightarrow> addr \<Rightarrow> bool" where
  "st_new s t cb \<longleftrightarrow> st_phase s cb = Constructing t \<and> cb \<notin> set (st_log s) \<and> cb \<notin> set (st_list s) \<and>
     \<not> st_completed s cb \<and> \<not> st_removed_ptr s cb \<and> st_cur s \<noteq> Some cb"

definition st_held :: "stopsource \<Rightarrow> 8 word \<Rightarrow> bool" where
  "st_held s w \<longleftrightarrow> w = 0 \<and> st_state s = 2 \<or> w = 1 \<and> st_state s = 3"

fun st_pc_ok :: "stopsource \<Rightarrow> nat \<Rightarrow> st_pc \<Rightarrow> bool" where
  "st_pc_ok s t RqId \<longleftrightarrow> st_state s = 3 \<and> st_cur s = None"
| "st_pc_ok s t RqLoop \<longleftrightarrow> st_state s = 3 \<and> st_cur s = None"
| "st_pc_ok s t (RqStore cb) \<longleftrightarrow> st_state s = 3 \<and> st_cur s = Some cb \<and> cb \<notin> set (st_log s) \<and> st_phase s cb \<noteq> Dead"
| "st_pc_ok s t (RqExec cb) \<longleftrightarrow> st_cur s = Some cb \<and> cb \<notin> set (st_log s) \<and> st_phase s cb \<noteq> Dead"
| "st_pc_ok s t (RqClear cb) \<longleftrightarrow> st_cur s = Some cb \<and> cb \<in> set (st_log s) \<and> st_phase s cb \<noteq> Dead"
| "st_pc_ok s t (RqDone cb) \<longleftrightarrow> st_cur s = Some cb \<and> cb \<in> set (st_log s) \<and> st_phase s cb \<noteq> Dead \<and>
     \<not> st_removed_ptr s cb"
| "st_pc_ok s t (RqLock w) \<longleftrightarrow> st_cur s = None"
| "st_pc_ok s t RqEnd \<longleftrightarrow> st_state s = 3 \<and> st_cur s = None \<and> st_list s = []"
| "st_pc_ok s t (AddTry cb w) \<longleftrightarrow> st_new s t cb"
| "st_pc_ok s t (AddLink cb) \<longleftrightarrow> st_new s t cb \<and> st_state s = 2"
| "st_pc_ok s t (AddUnlock cb) \<longleftrightarrow> st_phase s cb = Constructing t \<and> st_state s = 2 \<and> cb \<in> set (st_list s)"
| "st_pc_ok s t (RmLock cb w) \<longleftrightarrow> st_phase s cb = Destroying t \<and>
     (st_prev s cb \<noteq> None \<longrightarrow> cb \<in> set (st_list s))"
| "st_pc_ok s t (RmLocked cb w) \<longleftrightarrow> st_phase s cb = Destroying t \<and> st_held s w \<and>
     (st_prev s cb \<noteq> None \<longrightarrow> cb \<in> set (st_list s))"
| "st_pc_ok s t (RmUnlock cb w) \<longleftrightarrow> st_phase s cb = Destroying t \<and> st_held s w \<and>
     cb \<notin> set (st_list s) \<and> st_prev s cb \<noteq> None"
| "st_pc_ok s t (RmUnlockWho cb w n) \<longleftrightarrow> st_phase s cb = Destroying t \<and> st_held s w \<and>
     st_prev s cb = None \<and> st_notifier s = n \<and> n \<noteq> None"
| "st_pc_ok s t (RmWho cb n) \<longleftrightarrow> st_phase s cb = Destroying t \<and>
     st_prev s cb = None \<and> st_notifier s = n \<and> n \<noteq> None"
| "st_pc_ok s t (RmWait cb) \<longleftrightarrow> st_phase s cb = Destroying t \<and> st_prev s cb = None \<and>
     st_notifier s \<noteq> Some t \<and> st_notifier s \<noteq> None"
| "st_pc_ok s t _ \<longleftrightarrow> True"

definition st_inv_pc :: "stopsource \<Rightarrow> bool" where
  "st_inv_pc s \<longleftrightarrow> (\<forall>t. st_pc_ok s t (st_pc s t))"

definition st_inv_calls :: "stopsource \<Rightarrow> bool" where
  "st_inv_calls s \<longleftrightarrow>
     (\<forall>t cb. Notified cb \<in> set (st_calls s t) \<longrightarrow>
        st_cur s = Some cb \<and> st_removed_ptr s cb \<and> cb \<in> set (st_log s) \<and> (st_removed s \<longleftrightarrow> st_phase s cb = Dead)) \<and>
     (\<forall>t cb. Inline cb \<in> set (st_calls s t) \<longrightarrow> st_phase s cb = Constructing t \<and> cb \<in> set (st_log s)) \<and>
     (\<forall>t. distinct (st_calls s t)) \<and> distinct (st_log s)"

text \<open>Every callback object, by phase.\<close>

fun st_cb_ok :: "stopsource \<Rightarrow> addr \<Rightarrow> st_phase \<Rightarrow> bool" where
  "st_cb_ok s cb Fresh \<longleftrightarrow> cb \<notin> set (st_list s) \<and> cb \<notin> set (st_log s) \<and> \<not> st_completed s cb \<and>
     \<not> st_removed_ptr s cb \<and> st_cur s \<noteq> Some cb"
| "st_cb_ok s cb (Constructing t) \<longleftrightarrow> \<not> st_completed s cb \<and> \<not> st_removed_ptr s cb \<and> st_cur s \<noteq> Some cb \<and>
     (cb \<in> set (st_list s) \<longrightarrow> st_pc s t = AddUnlock cb)"
| "st_cb_ok s cb Alive \<longleftrightarrow> (st_prev s cb \<noteq> None \<longrightarrow> cb \<in> set (st_list s)) \<and>
     (st_prev s cb = None \<longrightarrow> st_notifier s \<noteq> None \<and> (st_completed s cb \<or> st_cur s = Some cb)) \<and>
     (st_removed_ptr s cb \<longrightarrow> st_cur s = Some cb)"
| "st_cb_ok s cb Detached \<longleftrightarrow> cb \<notin> set (st_list s) \<and> st_cur s \<noteq> Some cb \<and> \<not> st_removed_ptr s cb \<and>
     cb \<in> set (st_log s)"
| "st_cb_ok s cb (Destroying t) \<longleftrightarrow>
     (st_prev s cb = None \<longrightarrow> st_notifier s \<noteq> None \<and> (st_completed s cb \<or> st_cur s = Some cb)) \<and>
     (st_removed_ptr s cb \<longrightarrow> st_cur s = Some cb)"
| "st_cb_ok s cb Dead \<longleftrightarrow> cb \<notin> set (st_list s)"

definition st_inv_cb :: "stopsource \<Rightarrow> bool" where
  "st_inv_cb s \<longleftrightarrow>
     (\<forall>cb. st_cb_ok s cb (st_phase s cb)) \<and>
     (\<forall>cb. st_completed s cb \<longrightarrow> st_cur s \<noteq> Some cb \<and> cb \<in> set (st_log s)) \<and>
     (\<forall>cb. st_cur s = Some cb \<longrightarrow> st_prev s cb = None)"

definition st_inv_list :: "stopsource \<Rightarrow> bool" where
  "st_inv_list s \<longleftrightarrow> st_dll s \<and> set (st_list s) \<inter> set (st_log s) = {}"

definition st_inv :: "stopsource \<Rightarrow> bool" where
  "st_inv s \<longleftrightarrow> st_inv_lock s \<and> st_inv_role s \<and> st_inv_pc s \<and> st_inv_calls s \<and> st_inv_cb s \<and> st_inv_list s"

lemma st_inv_init: "st_init s \<Longrightarrow> st_inv s"
  by (simp add: st_init_def st_inv_def st_inv_lock_def st_inv_role_def st_role_def st_inv_pc_def
      st_inv_calls_def st_inv_cb_def st_inv_list_def st_dll_def)

lemmas st_flags = st_stop_requested_flag_def st_locked_flag_def

lemma st_invD:
  assumes "st_inv s"
  shows "st_inv_lock s" "st_inv_role s" "st_inv_pc s" "st_inv_calls s" "st_inv_cb s" "st_inv_list s"
  using assms by (simp_all add: st_inv_def)

lemma st_ok: "st_inv s \<Longrightarrow> st_pc_ok s t (st_pc s t)"
  by (simp add: st_inv_def st_inv_pc_def)

lemma st_state_cases: "st_inv s \<Longrightarrow> st_state s = 0 \<or> st_state s = 1 \<or> st_state s = 2 \<or> st_state s = 3"
  by (simp add: st_inv_def st_inv_lock_def)

lemma st_crit_state: "st_inv s \<Longrightarrow> st_crit (st_pc s t) \<Longrightarrow> st_state s = 2 \<or> st_state s = 3"
  using st_ok [of s t] by (cases "st_pc s t") (auto simp: st_held_def)

lemma st_crit_unique: "st_inv s \<Longrightarrow> st_crit (st_pc s t) \<Longrightarrow> st_crit (st_pc s u) \<Longrightarrow> t = u"
  by (simp add: st_inv_def st_inv_lock_def)

subsection \<open>The lock\<close>

lemma st_inv_lockI:
  assumes "st_inv s" and "st_state s' \<in> {0, 1, 2, 3}" and "\<And>u. u \<noteq> t \<Longrightarrow> st_pc s' u = st_pc s u"
    and "st_crit (st_pc s' t) \<Longrightarrow> st_crit (st_pc s t) \<or> st_state s = 0 \<or> st_state s = 1"
  shows "st_inv_lock s'"
proof -
  have "u = v" if "st_crit (st_pc s' u)" "st_crit (st_pc s' v)" for u v
  proof (cases "u = t \<or> v = t")
    case True
    with that assms(4) have "st_crit (st_pc s t) \<or> st_state s = 0 \<or> st_state s = 1" by auto
    moreover have "st_crit (st_pc s w) \<Longrightarrow> st_state s \<noteq> 0 \<and> st_state s \<noteq> 1" for w
      using st_crit_state [OF assms(1), of w] by auto
    ultimately show ?thesis using True that assms(3) st_crit_unique [OF assms(1)] by metis
  next
    case False
    then show ?thesis using that assms(3) st_crit_unique [OF assms(1), of u v] by simp
  qed
  then show ?thesis using assms(2) by (simp add: st_inv_lock_def)
qed

lemma st_or_locked:
  "(w :: 8 word) = 0 \<or> w = 1 \<or> w = 2 \<or> w = 3 \<Longrightarrow> w OR 2 = 2 \<or> w OR 2 = 3"
  by auto

lemma st_unlocked: "(w :: 8 word) AND 2 = 0 \<Longrightarrow> w = 0 \<or> w = 1 \<or> w = 2 \<or> w = 3 \<Longrightarrow> w = 0 \<or> w = 1"
  by auto

lemma st_inv_lock_request:
  assumes "st_request_stop_step t s s'" and "st_inv s"
  shows "st_inv_lock s'"
proof -
  note m = st_state_cases [OF assms(2)]
  show ?thesis using assms(1)
    by cases (rule st_inv_lockI [OF assms(2), where t = t];
      use m st_or_locked [OF m] in \<open>simp add: st_flags st_unlocked\<close>)+
qed

lemma st_inv_lock_construct:
  assumes "st_construct_step t s s'" and "st_inv s"
  shows "st_inv_lock s'"
proof -
  note m = st_state_cases [OF assms(2)]
  show ?thesis using assms(1)
    by cases (rule st_inv_lockI [OF assms(2), where t = t];
      use m st_or_locked [OF m] in \<open>simp add: st_flags st_unlocked\<close>)+
qed

lemma st_inv_lock_destroy:
  assumes "st_destroy_step t s s'" and "st_inv s"
  shows "st_inv_lock s'"
proof -
  note m = st_state_cases [OF assms(2)] and ok = st_ok [OF assms(2), of t]
  show ?thesis using assms(1)
    by cases (rule st_inv_lockI [OF assms(2), where t = t];
      use m ok st_or_locked [OF m] in \<open>simp add: st_flags st_unlocked\<close>;
      use m ok in \<open>auto simp: st_held_def\<close>)+
qed

subsection \<open>The notifying thread\<close>

lemma st_roleD:
  assumes "st_inv s"
  shows "st_role s t \<le> 1" "0 < st_role s t \<Longrightarrow> 0 < st_role s u \<Longrightarrow> t = u"
    "0 < st_role s t \<Longrightarrow> st_state s = 1 \<or> st_state s = 3"
    "0 < st_role s t \<Longrightarrow> st_pc s t \<noteq> RqId \<Longrightarrow> st_notifier s = Some t"
    "st_pc s t = RqId \<Longrightarrow> st_notifier s = None" "st_notifier s \<noteq> None \<Longrightarrow> st_state s = 1 \<or> st_state s = 3"
    "st_cur s \<noteq> None \<or> (st_state s = 1 \<or> st_state s = 3) \<and> st_list s \<noteq> [] \<Longrightarrow> \<exists>t. 0 < st_role s t"
  using st_invD(2) [OF assms] unfolding st_inv_role_def by blast+

lemma st_inv_roleI:
  assumes inv: "st_inv s"
    and oth: "\<And>u. u \<noteq> t \<Longrightarrow> st_pc s' u = st_pc s u \<and> st_calls s' u = st_calls s u"
    and le: "st_role s' t \<le> st_role s t \<or> st_state s = 0 \<and> st_role s' t = 1"
    and mono: "st_state s = 1 \<or> st_state s = 3 \<Longrightarrow> st_state s' = 1 \<or> st_state s' = 3"
    and new: "0 < st_role s' t \<Longrightarrow> st_state s' = 1 \<or> st_state s' = 3"
    and notif: "st_notifier s' = st_notifier s \<or> st_pc s t = RqId \<and> st_notifier s' = Some t"
    and me: "0 < st_role s' t \<Longrightarrow> st_pc s' t \<noteq> RqId \<Longrightarrow> st_notifier s' = Some t"
    and id: "st_pc s' t = RqId \<Longrightarrow> st_notifier s' = None"
    and ex: "st_cur s' \<noteq> None \<or> (st_state s' = 1 \<or> st_state s' = 3) \<and> st_list s' \<noteq> [] \<Longrightarrow>
      0 < st_role s' t \<or>
      (st_cur s \<noteq> None \<or> (st_state s = 1 \<or> st_state s = 3) \<and> st_list s \<noteq> []) \<and> st_role s t = 0"
  shows "st_inv_role s'"
proof -
  note D = st_roleD [OF inv]
  have r: "st_role s' u = st_role s u" if "u \<noteq> t" for u using oth [OF that] by (simp add: st_role_def)
  have z: "st_role s u = 0" if "st_state s = 0" for u using D(3) [of u] that by (cases "st_role s u") auto
  have le': "0 < st_role s' t \<Longrightarrow> 0 < st_role s t \<or> st_state s = 0" using le by auto
  have idr: "st_pc s u = RqId \<Longrightarrow> 0 < st_role s u" for u by (simp add: st_role_def)
  have a: "st_role s' u \<le> 1" for u using D(1) [of u] le r [of u] by (cases "u = t") auto
  have b: "u = v" if "0 < st_role s' u" "0 < st_role s' v" for u v
    using that r le' z D(2) by (metis less_numeral_extra(3))
  have c: "st_state s' = 1 \<or> st_state s' = 3" if "0 < st_role s' u" for u
    using that r [of u] new mono D(3) [of u] by (cases "u = t") auto
  have d: "st_notifier s' = Some u" if "0 < st_role s' u" "st_pc s' u \<noteq> RqId" for u
  proof (cases "u = t")
    case False
    then have "0 < st_role s u" "st_pc s u \<noteq> RqId" using that r oth by simp_all
    then have "st_notifier s = Some u" "st_pc s t \<noteq> RqId" using D(4) D(2) [of u t] idr False by auto
    then show ?thesis using notif by simp
  qed (use that me in simp)
  have e: "st_notifier s' = None" if "st_pc s' u = RqId" for u
  proof (cases "u = t")
    case False
    then have "st_pc s u = RqId" using that oth by simp
    then have "st_notifier s = None" "st_pc s t \<noteq> RqId" using D(5) D(2) [of u t] idr False by auto
    then show ?thesis using notif by simp
  qed (use that id in simp)
  have f: "st_state s' = 1 \<or> st_state s' = 3" if "st_notifier s' \<noteq> None"
    using notif that D(3) [of t] D(6) idr [of t] mono by auto
  have g: "\<exists>u. 0 < st_role s' u" if "st_cur s' \<noteq> None \<or> (st_state s' = 1 \<or> st_state s' = 3) \<and> st_list s' \<noteq> []"
  proof (cases "0 < st_role s' t")
    case False
    with ex [OF that] have ex': "\<exists>u. 0 < st_role s u" and 0: "st_role s t = 0" using D(7) by simp_all
    from ex' obtain u where u: "0 < st_role s u" by blast
    with 0 have "u \<noteq> t" by auto
    then have "0 < st_role s' u" using r [of u] u by simp
    then show ?thesis by blast
  qed blast
  show ?thesis unfolding st_inv_role_def using a b c d e f g by simp
qed

lemma st_role_no_stop:
  assumes "st_inv s" and "st_state s = 0"
  shows "filter st_notified (st_calls s t) = []" and "st_notifier s = None"
  using st_roleD(3) [OF assms(1), of t] assms(2) st_roleD(6) [OF assms(1)]
  by (auto simp: st_role_def) (metis not_None_eq zero_neq_one zero_neq_numeral)

lemma st_inv_role_request:
  assumes "st_request_stop_step t s s'" and "st_inv s"
  shows "st_inv_role s'"
proof -
  note D = st_roleD [OF assms(2)]
  note f = D(1,3,4) [of t, unfolded st_role_def] D(5) [of t] D(6) st_ok [OF assms(2), of t]
    st_role_no_stop [OF assms(2)]
  show ?thesis using assms(1)
    by cases (rule st_inv_roleI [OF assms(2), where t = t];
      (use f in \<open>simp add: st_flags st_role_def; fail\<close> | use f in \<open>auto simp: st_flags st_role_def\<close>))+
qed

lemma st_inv_role_construct:
  assumes "st_construct_step t s s'" and "st_inv s"
  shows "st_inv_role s'"
proof -
  note D = st_roleD [OF assms(2)]
  note f = D(1,3,4) [of t, unfolded st_role_def] D(5) [of t] D(6) st_ok [OF assms(2), of t]
    st_state_cases [OF assms(2)]
  show ?thesis using assms(1)
    by cases (rule st_inv_roleI [OF assms(2), where t = t];
      (use f in \<open>simp add: st_flags st_role_def; fail\<close> | use f in \<open>auto simp: st_flags st_role_def\<close>))+
qed

lemma st_inv_role_destroy:
  assumes "st_destroy_step t s s'" and "st_inv s"
  shows "st_inv_role s'"
proof -
  note D = st_roleD [OF assms(2)]
  note f = D(1,3,4) [of t, unfolded st_role_def] D(5) [of t] D(6) st_ok [OF assms(2), of t]
    st_state_cases [OF assms(2)]
  show ?thesis using assms(1)
    by cases (rule st_inv_roleI [OF assms(2), where t = t];
      (use f in \<open>simp add: st_flags st_role_def; fail\<close> | use f in \<open>auto simp: st_flags st_role_def st_held_def\<close>))+
qed

lemma st_role_call: "Notified cb \<in> set (st_calls s t) \<Longrightarrow> 0 < st_role s t"
proof -
  assume "Notified cb \<in> set (st_calls s t)"
  then have "Notified cb \<in> set (filter st_notified (st_calls s t))" by simp
  then have "filter st_notified (st_calls s t) \<noteq> []" by force
  then show ?thesis by (simp add: st_role_def)
qed

lemma st_rq_no_call:
  assumes "st_inv s" and "st_rq (st_pc s t)"
  shows "Notified cb \<notin> set (st_calls s u)"
proof
  assume a: "Notified cb \<in> set (st_calls s u)"
  then have n: "Notified cb \<in> set (filter st_notified (st_calls s u))" by simp
  have "0 < st_role s u" using st_role_call [OF a] .
  moreover have "0 < st_role s t" using assms(2) by (simp add: st_role_def)
  ultimately have "t = u" using st_roleD(2) [OF assms(1)] by blast
  moreover have "filter st_notified (st_calls s u) \<noteq> []" using n by force
  ultimately show False using assms(2) st_roleD(1) [OF assms(1), of t] by (simp add: st_role_def)
qed

lemma st_call_unique:
  assumes "st_inv s" and "st_calls s t = Notified cb # cs" and "Notified cb' \<in> set (st_calls s u)"
  shows "u = t" and "Notified cb'' \<notin> set cs"
proof -
  have "0 < st_role s u" "0 < st_role s t" using assms by (auto intro: st_role_call)
  then show "u = t" using st_roleD(2) [OF assms(1)] by blast
  show "Notified cb'' \<notin> set cs"
    using st_roleD(1) [OF assms(1), of t] assms(2) by (auto simp: st_role_def filter_empty_conv split: if_splits)
qed

lemma st_rq_unique: "st_inv s \<Longrightarrow> st_rq (st_pc s t) \<Longrightarrow> st_rq (st_pc s u) \<Longrightarrow> t = u"
  using st_roleD(2) [of s t u] by (simp add: st_role_def)

lemma st_rq_notifier: "st_inv s \<Longrightarrow> st_rq (st_pc s t) \<Longrightarrow> st_pc s t \<noteq> RqId \<Longrightarrow> st_notifier s = Some t"
  using st_roleD(4) [of s t] by (simp add: st_role_def)

lemma st_call_notifier: "st_inv s \<Longrightarrow> Notified cb \<in> set (st_calls s t) \<Longrightarrow> st_pc s t \<noteq> RqId \<Longrightarrow> st_notifier s = Some t"
  by (rule st_roleD(4) [OF _ st_role_call])

subsection \<open>The list and the log\<close>

lemma st_dll_cong:
  "st_callbacks s' = st_callbacks s \<Longrightarrow> st_next s' = st_next s \<Longrightarrow> st_prev s' = st_prev s \<Longrightarrow>
   st_list s' = st_list s \<Longrightarrow> st_dll s \<Longrightarrow> st_dll s'"
  by (simp add: st_dll_def)

lemma st_cbD:
  assumes "st_inv s"
  shows "st_cb_ok s cb (st_phase s cb)"
    and "st_completed s cb \<Longrightarrow> st_cur s \<noteq> Some cb \<and> cb \<in> set (st_log s)"
    and "st_cur s = Some cb \<Longrightarrow> st_prev s cb = None"
  using st_invD(5) [OF assms] by (simp_all add: st_inv_cb_def)

lemma st_listD:
  assumes "st_inv s"
  shows "st_dll s" and "cb \<in> set (st_list s) \<Longrightarrow> cb \<notin> set (st_log s)"
    and "cb \<in> set (st_list s) \<Longrightarrow> st_prev s cb \<noteq> None"
    and "cb \<in> set (st_list s) \<Longrightarrow> st_cur s \<noteq> Some cb"
proof -
  show d: "st_dll s" "cb \<in> set (st_list s) \<Longrightarrow> cb \<notin> set (st_log s)"
    using st_invD(6) [OF assms] by (auto simp: st_inv_list_def)
  show pv: "cb \<in> set (st_list s) \<Longrightarrow> st_prev s cb \<noteq> None"
    using d(1) st_backs_some [of "st_prev s" AtHead "st_list s" cb] by (simp add: st_dll_def)
  show "cb \<in> set (st_list s) \<Longrightarrow> st_cur s \<noteq> Some cb" using pv st_cbD(3) [OF assms] by auto
qed

lemma st_take_facts:
  assumes "st_inv s" and "st_callbacks s = Some cb"
  defines "s1 \<equiv> st_take cb (s\<lparr>st_list := tl (st_list s), st_cur := Some cb\<rparr>)"
  shows "st_dll s1" and "st_list s = cb # tl (st_list s)" and "cb \<notin> set (tl (st_list s))"
    and "st_prev s1 a = None \<longleftrightarrow> a = cb \<or> st_prev s a = None"
proof -
  obtain xs where "st_list s = cb # xs" "st_dll (st_take cb (s\<lparr>st_list := xs, st_cur := Some cb\<rparr>))"
    "\<And>a. st_prev (st_take cb (s\<lparr>st_list := xs, st_cur := Some cb\<rparr>)) a = None \<longleftrightarrow> a = cb \<or> st_prev s a = None"
    "cb \<notin> set xs" by (rule st_dll_take [OF st_listD(1) [OF assms(1)] assms(2), where c = "Some cb"]) blast
  then show "st_dll s1" "st_list s = cb # tl (st_list s)" "cb \<notin> set (tl (st_list s))"
    "st_prev s1 a = None \<longleftrightarrow> a = cb \<or> st_prev s a = None" by (simp_all add: s1_def)
qed

lemma st_inv_list_request:
  assumes "st_request_stop_step t s s'" and "st_inv s"
  shows "st_inv_list s'"
proof -
  note L = st_listD [OF assms(2)] and ok = st_ok [OF assms(2), of t] and T = st_take_facts [OF assms(2)]
  have d: "set (st_list s) \<inter> set (st_log s) = {}" using L(2) by blast
  show ?thesis using assms(1) unfolding st_inv_list_def
  proof cases
    case (rq_take cb)
    from rq_take(3) obtain xs where "st_list s = cb # xs" using T(2) [of cb] by blast
    then show "st_dll s' \<and> set (st_list s') \<inter> set (st_log s') = {}"
      using rq_take T(1) [of cb] d by (auto simp: st_dll_def) 
  next
    case (rq_exec cb)
    then show "st_dll s' \<and> set (st_list s') \<inter> set (st_log s') = {}"
      using L(1,4) ok d by (auto simp: st_dll_def)
  qed (use L(1) d in \<open>auto simp: st_dll_def\<close>)
qed

lemma st_inv_list_construct:
  assumes "st_construct_step t s s'" and "st_inv s"
  shows "st_inv_list s'"
proof -
  note L = st_listD [OF assms(2)] and ok = st_ok [OF assms(2), of t]
  have d: "set (st_list s) \<inter> set (st_log s) = {}" using L(2) by blast
  show ?thesis using assms(1) unfolding st_inv_list_def
  proof cases
    case (add_link cb)
    then have "st_new s t cb" using ok by simp
    then show "st_dll s' \<and> set (st_list s') \<inter> set (st_log s') = {}"
      using st_dll_link_in(1) [OF L(1), of cb] d add_link by (auto simp: st_dll_def st_new_def)
  next
    case (add_refuse cb w)
    then show "st_dll s' \<and> set (st_list s') \<inter> set (st_log s') = {}"
      using L(1,4) ok d by (auto simp: st_dll_def st_new_def)
  qed (use L(1) d in \<open>auto simp: st_dll_def\<close>)
qed

lemma st_inv_list_destroy:
  assumes "st_destroy_step t s s'" and "st_inv s"
  shows "st_inv_list s'"
proof -
  note L = st_listD [OF assms(2)] and ok = st_ok [OF assms(2), of t]
  have d: "set (st_list s) \<inter> set (st_log s) = {}" using L(2) by blast
  show ?thesis using assms(1) unfolding st_inv_list_def
  proof cases
    case (rm_unlink cb w l)
    then have "cb \<in> set (st_list s)" using ok by simp
    then show "st_dll s' \<and> set (st_list s') \<inter> set (st_log s') = {}"
      using st_dll_unlink(1) [OF L(1), of cb l] d rm_unlink set_remove1_subset [of cb "st_list s"]
      by (auto simp: st_dll_def)
  qed (use L(1) d in \<open>auto simp: st_dll_def\<close>)
qed

subsection \<open>Callbacks in progress\<close>

lemma st_callsD:
  assumes "st_inv s"
  shows "Notified cb \<in> set (st_calls s t) \<Longrightarrow> st_cur s = Some cb \<and> st_removed_ptr s cb \<and>
      cb \<in> set (st_log s) \<and> (st_removed s \<longleftrightarrow> st_phase s cb = Dead)"
    and "Inline cb \<in> set (st_calls s t) \<Longrightarrow> st_phase s cb = Constructing t \<and> cb \<in> set (st_log s)"
    and "distinct (st_calls s t)" and "distinct (st_log s)"
  using st_invD(4) [OF assms] by (simp_all add: st_inv_calls_def)

lemma st_inv_callsI:
  assumes "\<And>u cb. Notified cb \<in> set (st_calls s' u) \<Longrightarrow> st_cur s' = Some cb \<and> st_removed_ptr s' cb \<and>
      cb \<in> set (st_log s') \<and> (st_removed s' \<longleftrightarrow> st_phase s' cb = Dead)"
    and "\<And>u cb. Inline cb \<in> set (st_calls s' u) \<Longrightarrow> st_phase s' cb = Constructing u \<and> cb \<in> set (st_log s')"
    and "\<And>u. distinct (st_calls s' u)" and "distinct (st_log s')"
  shows "st_inv_calls s'"
  using assms by (simp add: st_inv_calls_def)

lemma st_inv_calls_request:
  assumes "st_request_stop_step t s s'" and "st_inv s"
  shows "st_inv_calls s'"
proof -
  note C = st_callsD [OF assms(2)] and ok = st_ok [OF assms(2), of t]
    and N = st_rq_no_call [OF assms(2), of t]
  show ?thesis using assms(1)
  proof cases
    case (rq_return cb cs)
    have sub: "x \<in> set (st_calls s' u) \<Longrightarrow> x \<in> set (st_calls s u)" for x u
      using rq_return by (auto split: if_splits)
    show ?thesis
    proof (rule st_inv_callsI)
      fix u show "distinct (st_calls s' u)" using C(3) [of u] rq_return by auto
    qed (use C(4) C(1) [OF sub] C(2) [OF sub] rq_return(1) in simp_all)
  next
    case (rq_return_removed cb cs)
    have sub: "x \<in> set (st_calls s' u) \<Longrightarrow> x \<in> set (st_calls s u)" for x u
      using rq_return_removed by (auto split: if_splits)
    have n: "Notified x \<notin> set (st_calls s' u)" for x u
    proof
      assume a: "Notified x \<in> set (st_calls s' u)"
      from st_call_unique(1) [OF assms(2) rq_return_removed(3) sub [OF a]] have "u = t" .
      with a st_call_unique(2) [OF assms(2) rq_return_removed(3) sub [OF a]] rq_return_removed
      show False by simp
    qed
    show ?thesis
    proof (rule st_inv_callsI)
      fix u show "distinct (st_calls s' u)" using C(3) [of u] rq_return_removed by auto
    qed (use C(4) C(2) [OF sub] n rq_return_removed(1) in simp_all)
  next
    case (rq_exec cb)
    have "Inline cb \<notin> set (st_calls s u)" for u using C(2) [of cb u] ok rq_exec by auto
    then show ?thesis
      by (intro st_inv_callsI) (use rq_exec C ok N in \<open>auto split: if_splits\<close>)
  qed (rule st_inv_callsI; use C ok N in \<open>auto split: if_splits\<close>)+
qed

lemma st_inv_calls_construct:
  assumes "st_construct_step t s s'" and "st_inv s"
  shows "st_inv_calls s'"
proof -
  note C = st_callsD [OF assms(2)] and ok = st_ok [OF assms(2), of t]
    and cbok = st_cbD(1) [OF assms(2)]
  show ?thesis using assms(1)
  proof cases
    case (add_start cb)
    have "Notified cb \<notin> set (st_calls s u)" "Inline cb \<notin> set (st_calls s u)" for u
      using C(1,2) [of cb u] add_start cbok [of cb] by auto
    then show ?thesis
      by (intro st_inv_callsI) (use add_start C in \<open>auto split: if_splits\<close>)
  next
    case (add_refuse cb w)
    have "Notified cb \<notin> set (st_calls s u)" "Inline cb \<notin> set (st_calls s u)" "cb \<notin> set (st_log s)" for u
      using C(1,2) [of cb u] add_refuse ok by (auto simp: st_new_def)
    then show ?thesis
      by (intro st_inv_callsI) (use add_refuse C ok in \<open>auto simp: st_new_def split: if_splits\<close>)
  next
    case (add_inline_return cb cs)
    have "Notified cb \<notin> set (st_calls s u)" for u
      using C(1) [of cb u] C(2) [of cb t] add_inline_return cbok [of cb] by auto
    moreover have "Inline cb \<notin> set (st_calls s' u)" for u
      using C(2) [of cb u] C(2) [of cb t] C(3) [of t] add_inline_return by (cases "u = t") auto
    moreover have sub: "x \<in> set (st_calls s' u) \<Longrightarrow> x \<in> set (st_calls s u)" for x u
      using add_inline_return by (auto split: if_splits)
    moreover have "st_phase s' x = st_phase s x" if "x \<noteq> cb" for x using add_inline_return that by simp
    ultimately have ph: "Notified x \<in> set (st_calls s' u) \<or> Inline x \<in> set (st_calls s' u) \<Longrightarrow>
        st_phase s' x = st_phase s x" for x u by metis
    have e: "st_log s' = st_log s" "st_cur s' = st_cur s" "st_removed_ptr s' = st_removed_ptr s"
      "st_removed s' = st_removed s" using add_inline_return by simp_all
    show ?thesis
    proof (rule st_inv_callsI)
      fix u show "distinct (st_calls s' u)" using C(3) [of u] add_inline_return by auto
    next
      show "distinct (st_log s')" using C(4) e by simp
    next
      fix u x assume a: "Notified x \<in> set (st_calls s' u)"
      show "st_cur s' = Some x \<and> st_removed_ptr s' x \<and> x \<in> set (st_log s') \<and>
          (st_removed s' \<longleftrightarrow> st_phase s' x = Dead)"
        using C(1) [OF sub [OF a]] ph [OF disjI1, OF a] e by simp
    next
      fix u x assume a: "Inline x \<in> set (st_calls s' u)"
      show "st_phase s' x = Constructing u \<and> x \<in> set (st_log s')"
        using C(2) [OF sub [OF a]] ph [OF disjI2, OF a] e by simp
    qed
  next
    case (add_unlock cb)
    have "Notified cb \<notin> set (st_calls s u)" "Inline cb \<notin> set (st_calls s u)" for u
      using C(1,2) [of cb u] add_unlock ok cbok [of cb] st_listD(2) [OF assms(2), of cb] by auto
    then show ?thesis
      by (intro st_inv_callsI) (use add_unlock C in \<open>auto split: if_splits\<close>)
  qed (rule st_inv_callsI; use C ok in \<open>auto simp: st_new_def split: if_splits\<close>)+
qed

lemma st_inv_calls_destroy:
  assumes "st_destroy_step t s s'" and "st_inv s"
  shows "st_inv_calls s'"
proof -
  note C = st_callsD [OF assms(2)] and ok = st_ok [OF assms(2), of t]
    and cb = st_cbD [OF assms(2)] and L = st_listD [OF assms(2)]
  have st: "st_calls s' = st_calls s \<and> st_log s' = st_log s \<and> st_cur s' = st_cur s \<and>
      st_removed_ptr s' = st_removed_ptr s" using assms(1) by cases simp_all
  have r: "st_removed s' \<longleftrightarrow> st_phase s' x = Dead" if n: "Notified x \<in> set (st_calls s u)" for x u
    using assms(1)
  proof cases
    case (rm_null c)
    then show ?thesis using C(1) [OF n] cb(1) [of c] by auto
  next
    case (rm_start c)
    then show ?thesis using C(1) [OF n] by auto
  next
    case (rm_unlock c w)
    then show ?thesis using C(1) [OF n] cb(3) [of c] ok by auto
  next
    case (rm_self c)
    then show ?thesis using C(1) [OF n] cb(1) [of c] ok by auto
  next
    case (rm_wait c)
    then show ?thesis using C(1) [OF n] cb(2) [of c] by auto
  qed (use C(1) [OF n] in simp_all)
  have i: "st_phase s' x = Constructing u" if n: "Inline x \<in> set (st_calls s u)" for x u
    using assms(1)
  proof cases
  qed (use C(2) [OF n] ok in auto)
  show ?thesis by (rule st_inv_callsI) (use st C r i in auto)
qed

subsection \<open>The callback objects\<close>

lemma st_inv_cbI:
  assumes "\<And>cb. st_cb_ok s' cb (st_phase s' cb)"
    and "\<And>cb. st_completed s' cb \<Longrightarrow> st_cur s' \<noteq> Some cb \<and> cb \<in> set (st_log s')"
    and "\<And>cb. st_cur s' = Some cb \<Longrightarrow> st_prev s' cb = None"
  shows "st_inv_cb s'"
  using assms by (simp add: st_inv_cb_def)

lemma st_cb_same:
  assumes "st_cb_ok s x p" and "x \<in> set (st_list s') \<longleftrightarrow> x \<in> set (st_list s)"
    and "st_completed s' x = st_completed s x" and "st_removed_ptr s' x = st_removed_ptr s x"
    and "st_cur s' = Some x \<longleftrightarrow> st_cur s = Some x" and "st_prev s' x = None \<longleftrightarrow> st_prev s x = None"
    and "st_notifier s \<noteq> None \<Longrightarrow> st_notifier s' \<noteq> None"
    and "x \<in> set (st_log s') \<longleftrightarrow> x \<in> set (st_log s)"
    and "\<And>u. st_pc s u = AddUnlock x \<Longrightarrow> st_pc s' u = AddUnlock x"
  shows "st_cb_ok s' x p"
  using assms by (cases p) auto

lemma st_inv_cb_frame:
  assumes "st_inv s" and "st_list s' = st_list s" "st_completed s' = st_completed s"
    "st_removed_ptr s' = st_removed_ptr s" "st_cur s' = st_cur s" "st_prev s' = st_prev s"
    "st_log s' = st_log s" "st_phase s' = st_phase s"
    and "st_notifier s \<noteq> None \<Longrightarrow> st_notifier s' \<noteq> None"
    and "\<And>u x. st_pc s u = AddUnlock x \<Longrightarrow> st_pc s' u = AddUnlock x"
  shows "st_inv_cb s'"
proof (rule st_inv_cbI)
  fix x
  show "st_cb_ok s' x (st_phase s' x)" unfolding assms(8)
    by (rule st_cb_same [OF st_cbD(1) [OF assms(1)]]) (use assms(2-7,9,10) in auto)
qed (use st_cbD(2,3) [OF assms(1)] assms(2-7) in auto)

lemma st_inv_cb_destroy:
  assumes "st_destroy_step t s s'" and "st_inv s"
  shows "st_inv_cb s'"
proof -
  note ok = st_ok [OF assms(2), of t] and B = st_cbD [OF assms(2)] and L = st_listD [OF assms(2)]
  have st: "st_completed s' = st_completed s \<and> st_cur s' = st_cur s \<and> st_log s' = st_log s \<and>
      st_removed_ptr s' = st_removed_ptr s \<and> st_notifier s' = st_notifier s"
    using assms(1) by cases simp_all
  have pv: "st_prev s' x = None \<longleftrightarrow> st_prev s x = None" for x using assms(1)
  proof cases
    case (rm_unlink c w l)
    then show ?thesis using st_dll_unlink(2) [OF L(1), of c l x] ok by simp
  qed simp_all
  have au: "st_pc s u = AddUnlock x \<Longrightarrow> st_pc s' u = AddUnlock x" for u x
    using assms(1) by cases auto
  have ph: "st_cb_ok s' x (st_phase s' x)" if "st_phase s' x \<noteq> st_phase s x" for x
    using assms(1)
  proof cases
    case (rm_start c)
    then show ?thesis using that B(1) [of c] by (auto split: if_splits)
  next
    case (rm_unlock c w)
    then show ?thesis using that ok by (auto split: if_splits)
  next
    case (rm_null c)
    then show ?thesis using that B(1) [of c] by (auto split: if_splits)
  next
    case (rm_self c)
    then show ?thesis using that ok L(3) [of c] by (auto split: if_splits)
  next
    case (rm_wait c)
    then show ?thesis using that ok L(3) [of c] by (auto split: if_splits)
  qed (use that in auto)
  have li: "st_cb_ok s' x (st_phase s' x)" if e: "st_phase s' x = st_phase s x" for x
  proof (cases "x \<in> set (st_list s') \<longleftrightarrow> x \<in> set (st_list s)")
    case True
    then show ?thesis unfolding e by (intro st_cb_same [OF B(1)]) (simp_all add: st pv au)
  next
    case False
    have "\<exists>w. st_pc s t = RmLocked x w \<and> st_prev s x \<noteq> None"
      using assms(1)
    proof cases
      case (rm_unlink c w l)
      then have "x = c" using False by (cases "x = c") simp_all
      then show ?thesis using rm_unlink by auto
    qed (use False in simp_all)
    then obtain w where w: "st_pc s t = RmLocked x w" "st_prev s x \<noteq> None" by blast
    then have "st_phase s' x = Destroying t" using e ok by simp
    then show ?thesis using w(2) pv [of x] B(1) [of x] e st by auto
  qed
  show ?thesis by (rule st_inv_cbI) (use ph li in blast, use st pv B in auto)
qed

lemma st_inv_cb_construct:
  assumes "st_construct_step t s s'" and "st_inv s"
  shows "st_inv_cb s'"
proof -
  note ok = st_ok [OF assms(2), of t] and B = st_cbD [OF assms(2)] and L = st_listD [OF assms(2)]
    and C = st_callsD [OF assms(2)]
  show ?thesis using assms(1)
  proof cases
    case (add_link cb)
    note P = st_dll_link_in(2) [OF L(1), of cb]
    have n: "st_new s t cb" using ok add_link by simp
    have "st_cb_ok s' x (st_phase s' x)" for x
    proof (cases "x = cb")
      case True
      then show ?thesis using n add_link by (simp add: st_new_def)
    next
      case False
      then have "st_prev s' x = None \<longleftrightarrow> st_prev s x = None" using n add_link P by (simp add: st_new_def)
      then show ?thesis using False add_link
        by (auto intro!: st_cb_same [OF B(1)])
    qed
    then show ?thesis by (rule st_inv_cbI) (use B n P add_link in \<open>auto simp: st_new_def\<close>)
  next
    case (add_inline_return cb cs)
    have "st_cb_ok s' x (st_phase s' x)" for x
    proof (cases "x = cb")
      case True
      then show ?thesis using add_inline_return C(2) [of cb t] B(1) [of cb] L(2) [of cb] by auto
    next
      case False
      then show ?thesis using add_inline_return
        by (auto intro!: st_cb_same [OF B(1)])
    qed
    then show ?thesis by (rule st_inv_cbI) (use B add_inline_return in auto)
  next
    case (add_refuse cb w)
    have "st_cb_ok s' x (st_phase s' x)" for x
    proof (cases "x = cb")
      case True
      then show ?thesis using add_refuse ok B(1) [of cb] by (auto simp: st_new_def)
    next
      case False
      then show ?thesis using add_refuse
        by (auto intro!: st_cb_same [OF B(1)])
    qed
    then show ?thesis by (rule st_inv_cbI) (use B add_refuse in auto)
  next
    case (add_start cb)
    have "st_cb_ok s' x (st_phase s' x)" for x
    proof (cases "x = cb")
      case True
      then show ?thesis using add_start B(1) [of cb] by auto
    next
      case False
      then show ?thesis using add_start
        by (auto intro!: st_cb_same [OF B(1)])
    qed
    then show ?thesis by (rule st_inv_cbI) (use B add_start in auto)
  next
    case (add_unlock cb)
    have "st_cb_ok s' x (st_phase s' x)" for x
    proof (cases "x = cb")
      case True
      then show ?thesis using add_unlock ok B(1) [of cb] L(3) [of cb] by auto
    next
      case False
      then show ?thesis using add_unlock
        by (auto intro!: st_cb_same [OF B(1)])
    qed
    then show ?thesis by (rule st_inv_cbI) (use B add_unlock in auto)
  qed (rule st_inv_cb_frame [OF assms(2)]; auto)+
qed

lemma st_inv_cb_request:
  assumes "st_request_stop_step t s s'" and "st_inv s"
  shows "st_inv_cb s'"
proof -
  note ok = st_ok [OF assms(2), of t] and B = st_cbD [OF assms(2)] and L = st_listD [OF assms(2)]
    and C = st_callsD [OF assms(2)] and N = st_rq_notifier [OF assms(2), of t]
  show ?thesis using assms(1)
  proof cases
    case (rq_take cb)
    note T = st_take_facts [OF assms(2) rq_take(3)]
    have l: "cb \<in> set (st_list s)" by (subst T(2)) simp
    have nc: "st_phase s cb \<noteq> Constructing u" for u
      using B(1) [of cb] l st_crit_unique [OF assms(2), of t u] rq_take(2) by auto
    have f: "st_phase s' = st_phase s" "st_list s' = tl (st_list s)" "st_cur s' = Some cb"
      "st_completed s' = st_completed s" "st_removed_ptr s' = st_removed_ptr s"
      "st_notifier s' = st_notifier s" "st_log s' = st_log s" using rq_take(1) by simp_all
    have pv: "st_prev s' x = None \<longleftrightarrow> x = cb \<or> st_prev s x = None" for x
      using rq_take(1) T(4) [of x] by simp
    have n: "st_notifier s \<noteq> None" using N rq_take(2) by simp
    have c: "st_cur s = None" using ok rq_take(2) by simp
    have "st_cb_ok s' x (st_phase s' x)" for x
    proof (cases "x = cb")
      case True
      then show ?thesis using f B(1) [of cb] l nc n T(3) pv [of cb] by (cases "st_phase s cb") auto
    next
      case False
      moreover have "x \<in> set (tl (st_list s)) \<longleftrightarrow> x \<in> set (st_list s)"
        using False T(2) by (metis set_ConsD list.set_intros(2))
      moreover have "st_pc s u = AddUnlock x \<Longrightarrow> st_pc s' u = AddUnlock x" for u
        using rq_take(1,2) by auto
      ultimately show ?thesis unfolding f(1) by (intro st_cb_same [OF B(1)]) (simp_all add: f pv c)
    qed
    moreover have "\<not> st_completed s cb" using B(2) [of cb] L(2) [of cb] l by auto
    ultimately show ?thesis by (intro st_inv_cbI) (use B f pv in auto)
  next
    case (rq_exec cb)
    have "st_cb_ok s' x (st_phase s' x)" for x
    proof (cases "x = cb")
      case True
      then show ?thesis using rq_exec ok B(1) [of cb] by (cases "st_phase s cb") auto
    next
      case False
      then show ?thesis using rq_exec by (auto intro!: st_cb_same [OF B(1)])
    qed
    then show ?thesis by (rule st_inv_cbI) (use B rq_exec in auto)
  next
    case (rq_return_removed cb cs)
    then have d: "st_cur s = Some cb" "st_phase s cb = Dead" using C(1) [of cb t] by auto
    have "st_cb_ok s' x (st_phase s' x)" for x
    proof (cases "x = cb")
      case True
      then show ?thesis using rq_return_removed d B(1) [of cb] by simp
    next
      case False
      then show ?thesis using rq_return_removed d by (auto intro!: st_cb_same [OF B(1)])
    qed
    then show ?thesis by (rule st_inv_cbI) (use B rq_return_removed in auto)
  next
    case (rq_clear cb)
    have "st_cb_ok s' x (st_phase s' x)" for x
    proof (cases "x = cb")
      case True
      then show ?thesis using rq_clear ok B(1) [of cb] by (cases "st_phase s cb") auto
    next
      case False
      then show ?thesis using rq_clear by (auto intro!: st_cb_same [OF B(1)])
    qed
    then show ?thesis by (rule st_inv_cbI) (use B rq_clear in auto)
  next
    case (rq_done cb)
    have "st_cb_ok s' x (st_phase s' x)" for x
    proof (cases "x = cb")
      case True
      then show ?thesis using rq_done ok B(1) [of cb] by (cases "st_phase s cb") auto
    next
      case False
      then show ?thesis using rq_done ok by (auto intro!: st_cb_same [OF B(1)])
    qed
    then show ?thesis by (rule st_inv_cbI) (use B rq_done ok in \<open>auto split: if_splits\<close>)
  qed (rule st_inv_cb_frame [OF assms(2)]; auto)+
qed

subsection \<open>Program points\<close>

text \<open>
  A step of one thread keeps the assertions of the others: whoever is in a critical section, or
  notifies, excludes the steps that would interfere, and the phase of a callback names the
  thread that works on it.
\<close>

lemma st_inv_pcI:
  assumes "\<And>u. u \<noteq> t \<Longrightarrow> st_pc s' u = st_pc s u" and "st_pc_ok s' t (st_pc s' t)"
    and "\<And>u. u \<noteq> t \<Longrightarrow> st_pc_ok s' u (st_pc s u)"
  shows "st_inv_pc s'"
  using assms by (metis st_inv_pc_def)

fun st_pc_cb :: "st_pc \<Rightarrow> addr option" where
  "st_pc_cb (RqStore cb) = Some cb"
| "st_pc_cb (RqExec cb) = Some cb"
| "st_pc_cb (RqClear cb) = Some cb"
| "st_pc_cb (RqDone cb) = Some cb"
| "st_pc_cb (AddTry cb w) = Some cb"
| "st_pc_cb (AddLink cb) = Some cb"
| "st_pc_cb (AddUnlock cb) = Some cb"
| "st_pc_cb (RmLock cb w) = Some cb"
| "st_pc_cb (RmLocked cb w) = Some cb"
| "st_pc_cb (RmUnlock cb w) = Some cb"
| "st_pc_cb (RmUnlockWho cb w n) = Some cb"
| "st_pc_cb (RmWho cb n) = Some cb"
| "st_pc_cb (RmWait cb) = Some cb"
| "st_pc_cb _ = None"

lemma st_mention:
  assumes "st_inv s" and "st_pc_cb (st_pc s u) = Some x"
  shows "st_phase s x = Constructing u \<and> st_cur s \<noteq> Some x \<or> st_phase s x = Destroying u \<or>
    st_cur s = Some x \<and> st_phase s x \<noteq> Dead \<and> (\<forall>v. st_phase s x \<noteq> Constructing v) \<and>
      st_phase s x \<noteq> Fresh \<and> st_phase s x \<noteq> Detached \<and> st_rq (st_pc s u) \<and> st_notifier s = Some u"
  using st_ok [OF assms(1), of u] st_cbD(1) [OF assms(1), of x] st_rq_notifier [OF assms(1), of u] assms(2)
  by (cases "st_pc s u"; cases "st_phase s x") (auto simp: st_new_def)

lemma st_pc_same:
  assumes "st_inv s" and "p = st_pc s u"
    and "st_crit p \<Longrightarrow> st_state s' = st_state s \<and> st_list s' = st_list s"
    and "st_rq p \<Longrightarrow> st_cur s' = st_cur s"
    and "st_notifier s' = st_notifier s \<or> st_notifier s = None"
    and "\<And>x. st_pc_cb p = Some x \<Longrightarrow>
      (st_phase s' x = st_phase s x \<or> st_rq p \<and> st_phase s' x \<noteq> Dead) \<and>
      (x \<in> set (st_list s') \<longleftrightarrow> x \<in> set (st_list s)) \<and> (st_prev s' x = None \<longleftrightarrow> st_prev s x = None)"
    and "\<And>x. st_pc_cb p = Some x \<Longrightarrow> st_rq p \<or> st_phase s x \<noteq> Destroying u \<Longrightarrow>
      (x \<in> set (st_log s') \<longleftrightarrow> x \<in> set (st_log s)) \<and> st_completed s' x = st_completed s x \<and>
      st_removed_ptr s' x = st_removed_ptr s x \<and> (st_cur s' = Some x \<longleftrightarrow> st_cur s = Some x)"
  shows "st_pc_ok s' u p"
proof -
  have "st_pc_ok s u p" using st_ok [OF assms(1), of u] assms(2) by simp
  then show ?thesis using assms(3-7) by (cases p) (auto simp: st_new_def st_held_def)
qed

lemma st_inv_pc_construct:
  assumes "st_construct_step t s s'" and "st_inv s"
  shows "st_inv_pc s'"
proof -
  note ok = st_ok [OF assms(2)] and B = st_cbD [OF assms(2)] and L = st_listD [OF assms(2)]
    and C = st_callsD [OF assms(2)] and M = st_mention [OF assms(2)]
  note X = st_crit_unique [OF assms(2), of t] and S = st_crit_state [OF assms(2)]
  have oth: "st_pc s' u = st_pc s u" if "u \<noteq> t" for u using assms(1) that by cases auto
  have me: "st_pc_ok s' t (st_pc s' t)" using assms(1)
  proof cases
    case (add_start cb)
    then show ?thesis using B(1) [of cb] by (auto simp: st_new_def)
  qed (use ok [of t] in \<open>auto simp: st_new_def st_flags\<close>)
  have "st_pc_ok s' u (st_pc s u)" if "u \<noteq> t" for u
    using assms(1)
  proof cases
    case (add_link cb)
    note P = st_dll_link_in(2) [OF L(1), of cb]
    have n: "st_new s t cb" using ok [of t] add_link by simp
    have x: "x \<noteq> cb" if "st_pc_cb (st_pc s u) = Some x" for x
      using M [OF that] n \<open>u \<noteq> t\<close> by (auto simp: st_new_def)
    show ?thesis
      by (rule st_pc_same [OF assms(2) refl]) (use add_link x n P X [of u] that in \<open>auto simp: st_new_def\<close>)
  next
    case (add_start cb)
    have x: "x \<noteq> cb" if "st_pc_cb (st_pc s u) = Some x" for x
      using M [OF that] add_start by auto
    show ?thesis by (rule st_pc_same [OF assms(2) refl]) (use add_start x in auto)
  next
    case (add_refuse cb w)
    have x: "x \<noteq> cb" if "st_pc_cb (st_pc s u) = Some x" for x
      using M [OF that] ok [of t] add_refuse \<open>u \<noteq> t\<close> by (auto simp: st_new_def)
    show ?thesis by (rule st_pc_same [OF assms(2) refl]) (use add_refuse x in auto)
  next
    case (add_inline_return cb cs)
    have x: "x \<noteq> cb" if "st_pc_cb (st_pc s u) = Some x" for x
      using M [OF that] C(2) [of cb t] add_inline_return \<open>u \<noteq> t\<close> by auto
    show ?thesis by (rule st_pc_same [OF assms(2) refl]) (use add_inline_return x in auto)
  next
    case (add_unlock cb)
    have x: "x \<noteq> cb" if "st_pc_cb (st_pc s u) = Some x" for x
      using M [OF that] ok [of t] add_unlock \<open>u \<noteq> t\<close> by auto
    show ?thesis by (rule st_pc_same [OF assms(2) refl]) (use add_unlock x X [of u] that in auto)
  next
    case (add_acquire cb)
    show ?thesis by (rule st_pc_same [OF assms(2) refl]) (use add_acquire S [of u] in auto)
  qed (rule st_pc_same [OF assms(2) refl]; simp)+
  with me oth show ?thesis by (intro st_inv_pcI) auto
qed

lemma st_inv_pc_destroy:
  assumes "st_destroy_step t s s'" and "st_inv s"
  shows "st_inv_pc s'"
proof -
  note ok = st_ok [OF assms(2)] and B = st_cbD [OF assms(2)] and L = st_listD [OF assms(2)]
    and C = st_callsD [OF assms(2)] and M = st_mention [OF assms(2)]
  note X = st_crit_unique [OF assms(2), of t] and S = st_crit_state [OF assms(2)]
  have oth: "st_pc s' u = st_pc s u" if "u \<noteq> t" for u using assms(1) that by cases auto
  have me: "st_pc_ok s' t (st_pc s' t)" using assms(1)
  proof cases
    case (rm_start cb)
    then show ?thesis using B(1) [of cb] by auto
  next
    case (rm_locked cb w)
    then show ?thesis using ok [of t] st_state_cases [OF assms(2)] by (auto simp: st_flags st_held_def)
  next
    case (rm_executed cb w)
    then show ?thesis using ok [of t] B(1) [of cb] by (auto simp: st_held_def)
  next
    case (rm_unlink cb w l)
    then have "cb \<in> set (st_list s)" using ok [of t] by simp
    with rm_unlink show ?thesis
      using ok [of t] st_dll_unlink(2,3) [OF L(1), of cb l] by (auto simp: st_held_def)
  qed (use ok [of t] in auto)
  have "st_pc_ok s' u (st_pc s u)" if "u \<noteq> t" for u
    using assms(1)
  proof cases
    case (rm_unlink c w l)
    then have c: "c \<in> set (st_list s)" using ok [of t] by simp
    have x: "x \<noteq> c" if "st_pc_cb (st_pc s u) = Some x" for x
      using M [OF that] L(4) [OF c] ok [of t] rm_unlink \<open>u \<noteq> t\<close> by auto
    show ?thesis
      by (rule st_pc_same [OF assms(2) refl])
        (use rm_unlink x X [of u] that st_dll_unlink(2) [OF L(1) c rm_unlink(3)] in auto)
  next
    case (rm_null c)
    have x: "x \<noteq> c" if "st_pc_cb (st_pc s u) = Some x" for x
      using M [OF that] rm_null by auto
    show ?thesis by (rule st_pc_same [OF assms(2) refl]) (use rm_null x in auto)
  next
    case (rm_start c)
    have x: "x = c \<Longrightarrow> st_rq (st_pc s u)" if "st_pc_cb (st_pc s u) = Some x" for x
      using M [OF that] rm_start by auto
    show ?thesis by (rule st_pc_same [OF assms(2) refl]) (use rm_start x in auto)
  next
    case (rm_unlock c w)
    have x: "x \<noteq> c" if "st_pc_cb (st_pc s u) = Some x" for x
      using M [OF that] ok [of t] B(3) [of c] rm_unlock \<open>u \<noteq> t\<close> by auto
    show ?thesis by (rule st_pc_same [OF assms(2) refl]) (use rm_unlock x X [of u] that in auto)
  next
    case (rm_self c)
    have x: "x \<noteq> c" if "st_pc_cb (st_pc s u) = Some x" for x
      using M [OF that] ok [of t] rm_self \<open>u \<noteq> t\<close> by auto
    show ?thesis by (rule st_pc_same [OF assms(2) refl]) (use rm_self x in auto)
  next
    case (rm_wait c)
    have x: "x \<noteq> c" if "st_pc_cb (st_pc s u) = Some x" for x
      using M [OF that] ok [of t] B(2) [of c] rm_wait \<open>u \<noteq> t\<close> by auto
    show ?thesis by (rule st_pc_same [OF assms(2) refl]) (use rm_wait x in auto)
  next
    case (rm_locked c w)
    then have "st_state s \<noteq> 2 \<and> st_state s \<noteq> 3" by (auto simp: st_flags)
    then show ?thesis using S [of u] by (intro st_pc_same [OF assms(2) refl]) (use rm_locked in auto)
  next
    case (rm_unlock_who c w n)
    show ?thesis by (rule st_pc_same [OF assms(2) refl]) (use rm_unlock_who X [of u] that in auto)
  qed (rule st_pc_same [OF assms(2) refl]; simp)+
  with me oth show ?thesis by (intro st_inv_pcI) auto
qed

lemma st_inv_pc_request:
  assumes "st_request_stop_step t s s'" and "st_inv s"
  shows "st_inv_pc s'"
proof -
  note ok = st_ok [OF assms(2)] and B = st_cbD [OF assms(2)] and L = st_listD [OF assms(2)]
    and C = st_callsD [OF assms(2)] and M = st_mention [OF assms(2)]
  note X = st_crit_unique [OF assms(2), of t] and S = st_crit_state [OF assms(2)]
    and R = st_rq_unique [OF assms(2), of t] and N = st_rq_no_call [OF assms(2)]
  have oth: "st_pc s' u = st_pc s u" if "u \<noteq> t" for u using assms(1) that by cases auto
  have no_cur: "st_cur s = None" if "st_state s = 0"
    using st_roleD(3,7) [OF assms(2)] that by fastforce
  have me: "st_pc_ok s' t (st_pc s' t)" using assms(1)
  proof cases
    case rq_acquire
    then show ?thesis using no_cur by (simp add: st_flags)
  next
    case (rq_take cb)
    note T = st_take_facts [OF assms(2) rq_take(3)]
    have "cb \<in> set (st_list s)" by (subst T(2)) simp
    then show ?thesis using rq_take ok [of t] L(2) [of cb] B(1) [of cb] by (auto simp: st_flags)
  next
    case (rq_locked w)
    then have "st_state s = 1" using st_roleD(3) [OF assms(2), of t] by (auto simp: st_role_def st_flags)
    then show ?thesis using rq_locked ok [of t] by (simp add: st_flags)
  next
    case (rq_return cb cs)
    then show ?thesis using C(1) [of cb t] by auto
  next
    case rq_empty
    then have "st_list s = []" using L(1) by (simp add: st_dll_def)
    then show ?thesis using rq_empty ok [of t] by simp
  qed (use ok [of t] in \<open>auto simp: st_flags\<close>)
  have "st_pc_ok s' u (st_pc s u)" if "u \<noteq> t" for u
    using assms(1)
  proof cases
    case rq_acquire
    show ?thesis by (rule st_pc_same [OF assms(2) refl]) (use rq_acquire S [of u] in auto)
  next
    case rq_id
    then show ?thesis using st_roleD(5) [OF assms(2), of t]
      by (intro st_pc_same [OF assms(2) refl]) simp_all
  next
    case (rq_take cb)
    note T = st_take_facts [OF assms(2) rq_take(3)]
    have l: "cb \<in> set (st_list s)" by (subst T(2)) simp
    have tl: "x \<in> set (tl (st_list s)) \<longleftrightarrow> x \<in> set (st_list s)" if "x \<noteq> cb" for x
      using that T(2) by (metis set_ConsD list.set_intros(2))
    have nrq: "\<not> st_rq (st_pc s u)" "\<not> st_crit (st_pc s u)" using R [of u] X [of u] rq_take(2) that by auto
    show ?thesis
    proof (cases "st_pc_cb (st_pc s u) = Some cb")
      case True
      from M [OF this] nrq(1) B(1) [of cb] l nrq(2) have "st_phase s cb = Destroying u" by auto
      moreover have "st_prev s cb \<noteq> None" using L(3) l by simp
      ultimately show ?thesis using True nrq ok [of u] T(4) [of cb] rq_take
        by (cases "st_pc s u") (auto simp: st_new_def)
    next
      case False
      show ?thesis by (rule st_pc_same [OF assms(2) refl]) (use nrq False ok [of t] rq_take T(4) tl in auto)
    qed
  next
    case (rq_unlock cb)
    show ?thesis by (rule st_pc_same [OF assms(2) refl]) (use rq_unlock X [of u] that in auto)
  next
    case (rq_exec cb)
    have "x \<noteq> cb" if "st_pc_cb (st_pc s u) = Some x" "st_rq (st_pc s u) \<or> st_phase s x \<noteq> Destroying u" for x
      using M [OF that(1)] that(2) R [of u] ok [of t] \<open>u \<noteq> t\<close> rq_exec by auto
    then show ?thesis by (intro st_pc_same [OF assms(2) refl]) (use rq_exec in auto)
  next
    case (rq_return_removed cb cs)
    then have c: "st_cur s = Some cb" "\<not> st_rq (st_pc s u)" using C(1) [of cb t] N [of u cb t] by auto
    have "x \<noteq> cb" if "st_pc_cb (st_pc s u) = Some x" "st_rq (st_pc s u) \<or> st_phase s x \<noteq> Destroying u" for x
      using M [OF that(1)] that(2) c by auto
    then show ?thesis using c by (intro st_pc_same [OF assms(2) refl]) (use rq_return_removed in auto)
  next
    case (rq_clear cb)
    have "x \<noteq> cb" if "st_pc_cb (st_pc s u) = Some x" "st_rq (st_pc s u) \<or> st_phase s x \<noteq> Destroying u" for x
      using M [OF that(1)] that(2) R [of u] ok [of t] \<open>u \<noteq> t\<close> rq_clear by auto
    then show ?thesis by (intro st_pc_same [OF assms(2) refl]) (use rq_clear in auto)
  next
    case (rq_done cb)
    have nrq: "\<not> st_rq (st_pc s u)" using R [of u] rq_done(2) that by auto
    have "x \<noteq> cb" if "st_pc_cb (st_pc s u) = Some x" "st_rq (st_pc s u) \<or> st_phase s x \<noteq> Destroying u" for x
      using M [OF that(1)] that(2) nrq ok [of t] rq_done by auto
    then show ?thesis using nrq ok [of t] by (intro st_pc_same [OF assms(2) refl]) (use rq_done in auto)
  next
    case (rq_locked w)
    then have "st_state s \<noteq> 2 \<and> st_state s \<noteq> 3" by (auto simp: st_flags)
    then show ?thesis using S [of u] by (intro st_pc_same [OF assms(2) refl]) (use rq_locked in auto)
  next
    case rq_end
    show ?thesis by (rule st_pc_same [OF assms(2) refl]) (use rq_end X [of u] that in auto)
  qed (rule st_pc_same [OF assms(2) refl]; simp)+
  with me oth show ?thesis by (intro st_inv_pcI) auto
qed

lemma st_inv_step: "st_inv s \<Longrightarrow> st_step s s' \<Longrightarrow> st_inv s'"
  unfolding st_inv_def [of s']
  by (erule st_step.cases)
    (auto intro: st_inv_lock_request st_inv_lock_construct st_inv_lock_destroy
      st_inv_role_request st_inv_role_construct st_inv_role_destroy
      st_inv_pc_request st_inv_pc_construct st_inv_pc_destroy
      st_inv_calls_request st_inv_calls_construct st_inv_calls_destroy
      st_inv_cb_request st_inv_cb_construct st_inv_cb_destroy
      st_inv_list_request st_inv_list_construct st_inv_list_destroy)

interpretation stk: safe_system st_init st_step st_inv
  by unfold_locales (auto intro: st_inv_init st_inv_step)

section \<open>Properties\<close>

text \<open>
  Claim C10.  However constructors, destructors and stop requests interleave, every callback is
  invoked at most once, no callback still on the list has been invoked, and the list stays a
  well-formed doubly linked list.
\<close>

theorem st_callbacks_once:
  assumes "reach st_init st_step s"
  shows "distinct (st_log s) \<and> set (st_list s) \<inter> set (st_log s) = {} \<and> st_dll s"
  using stk.reach_inv [OF assms] by (simp add: st_inv_def st_inv_calls_def st_inv_list_def)

text \<open>
  Claim C8.  The destructor of a callback returns only when the callback is not running on
  another thread: if a thread is inside the callback when its destructor finishes, it is the
  thread that runs the destructor.
\<close>

theorem st_destructor_waits:
  assumes "reach st_init st_step s" and "st_destroy_step t s s'"
    and "st_phase s cb \<noteq> Dead" and "st_phase s' cb = Dead" and "Notified cb \<in> set (st_calls s u)"
  shows "u = t"
proof -
  have inv: "st_inv s" using stk.reach_inv [OF assms(1)] .
  note c = st_callsD(1) [OF inv assms(5)] and B = st_cbD [OF inv, of cb] and ok = st_ok [OF inv, of t]
  have "st_pc s u \<noteq> RqId" using st_rq_no_call [OF inv, of u cb u] assms(5) by auto
  then have "st_notifier s = Some u" using st_call_notifier [OF inv assms(5)] by simp
  with assms(2) show ?thesis
    by cases (use c B ok assms(3,4) in \<open>auto split: if_splits\<close>)
qed

text \<open>
  Claim C9.  Once its destructor has returned, nothing refers to a callback any more: it is not
  on the list, and the notifying thread neither is about to invoke it nor will write to it; if
  that thread is still inside the invocation, it has been told that the callback is gone.
\<close>

theorem st_dead_untouched:
  assumes "reach st_init st_step s" and "st_phase s cb = Dead"
  shows "cb \<notin> set (st_list s) \<and>
    (\<forall>t. st_pc s t \<noteq> RqStore cb \<and> st_pc s t \<noteq> RqExec cb \<and> st_pc s t \<noteq> RqClear cb \<and> st_pc s t \<noteq> RqDone cb) \<and>
    (\<forall>t. Notified cb \<in> set (st_calls s t) \<longrightarrow> st_removed s \<and> st_notifier s = Some t)"
proof -
  have inv: "st_inv s" using stk.reach_inv [OF assms(1)] .
  have "cb \<notin> set (st_list s)" using st_cbD(1) [OF inv, of cb] assms(2) by simp
  moreover have "st_pc s t \<noteq> RqStore cb \<and> st_pc s t \<noteq> RqExec cb \<and> st_pc s t \<noteq> RqClear cb \<and> st_pc s t \<noteq> RqDone cb" for t
    using st_ok [OF inv, of t] assms(2) by auto
  moreover have "st_removed s \<and> st_notifier s = Some t" if n: "Notified cb \<in> set (st_calls s t)" for t
  proof -
    have "st_pc s t \<noteq> RqId" using st_rq_no_call [OF inv, of t cb t] n by auto
    then show ?thesis using st_callsD(1) [OF inv n] assms(2) st_call_notifier [OF inv n] by simp
  qed
  ultimately show ?thesis by blast
qed

text \<open>
  Claim C11.  No stop notification is lost: when a stop has been requested and no thread is
  inside an operation or a callback any more, the list is empty and every callback that is
  still registered has been invoked.
\<close>

theorem st_all_notified:
  assumes "reach st_init st_step s" and "st_stop_requested s"
    and "\<And>t. st_pc s t = StIdle" and "\<And>t. st_calls s t = []"
  shows "st_list s = [] \<and> (\<forall>cb. st_phase s cb = Alive \<longrightarrow> cb \<in> set (st_log s))"
proof -
  have inv: "st_inv s" using stk.reach_inv [OF assms(1)] .
  have r: "st_role s t = 0" for t using assms(3,4) by (simp add: st_role_def)
  have "st_state s = 1 \<or> st_state s = 3"
    using assms(2) st_state_cases [OF inv] by (auto simp: st_stop_requested_def st_flags)
  then have l: "st_list s = []" and c: "st_cur s = None" using st_roleD(7) [OF inv] r by force+
  have "cb \<in> set (st_log s)" if "st_phase s cb = Alive" for cb
    using st_cbD(1,2) [OF inv, of cb] that l c by auto
  with l show ?thesis by blast
qed

text \<open>
  A destructor waits only for an invocation on another thread: the waiting thread is
  not the notifying one, so a callback that destroys itself does not deadlock, and what it waits
  for has finished or is the callback the notifying thread is busy with.
\<close>

lemma st_wait_for_other:
  assumes "reach st_init st_step s" and "st_pc s t = RmWait cb"
  shows "st_notifier s \<noteq> None \<and> st_notifier s \<noteq> Some t \<and>
    (st_completed s cb \<or> st_cur s = Some cb \<and> (\<exists>u. st_notifier s = Some u \<and> u \<noteq> t \<and> 0 < st_role s u))"
proof -
  have inv: "st_inv s" using stk.reach_inv [OF assms(1)] .
  have ok: "st_phase s cb = Destroying t" "st_prev s cb = None" "st_notifier s \<noteq> Some t" "st_notifier s \<noteq> None"
    using st_ok [OF inv, of t] assms(2) by simp_all
  then have "st_completed s cb \<or> st_cur s = Some cb" using st_cbD(1) [OF inv, of cb] by simp
  moreover have "\<exists>u. st_notifier s = Some u \<and> u \<noteq> t \<and> 0 < st_role s u" if "st_cur s = Some cb"
  proof -
    have "st_cur s \<noteq> None" using that by simp
    then obtain u where u: "0 < st_role s u" using st_roleD(7) [OF inv] by blast
    then have "st_notifier s = Some u" using st_roleD(4,5) [OF inv, of u] ok(4) by auto
    with u ok(3) show ?thesis by blast
  qed
  ultimately show ?thesis using ok by blast
qed

text \<open>What the calls of \<open>request_stop\<close> return.\<close>

definition st_stopped :: "stopsource \<Rightarrow> bool" where
  "st_stopped s \<longleftrightarrow> st_state s = 1 \<or> st_state s = 3"

definition st_inv_answers :: "stopsource \<Rightarrow> bool" where
  "st_inv_answers s \<longleftrightarrow>
     (\<not> st_stopped s \<longrightarrow> st_answers s = []) \<and>
     (\<forall>t w. st_pc s t = RqTry w \<longrightarrow> w AND 1 \<noteq> 0 \<longrightarrow> st_stopped s) \<and>
     (st_stopped s \<longrightarrow>
        count_list (st_answers s) False = (if \<exists>t. 0 < st_role s t then 0 else 1))"

lemma st_answers_frame:
  assumes "st_inv_answers s" and "st_stopped s' \<longleftrightarrow> st_stopped s" and "st_answers s' = st_answers s"
    and "\<And>u. st_role s' u = st_role s u" and "\<And>u w. st_pc s' u = RqTry w \<Longrightarrow> w AND 1 \<noteq> 0 \<Longrightarrow> st_pc s u = RqTry w \<or> st_stopped s"
  shows "st_inv_answers s'"
  using assms unfolding st_inv_answers_def by metis

lemma st_answers_other:
  assumes "st_construct_step t s s' \<or> st_destroy_step t s s'" and "st_inv s" and "st_inv_answers s"
  shows "st_inv_answers s'"
proof -
  note ok = st_ok [OF assms(2), of t] and m = st_state_cases [OF assms(2)] 
  have "st_stopped s' \<longleftrightarrow> st_stopped s"
    using assms(1)
  proof (elim disjE)
    assume "st_construct_step t s s'"
    then show ?thesis by cases (use ok in \<open>auto simp: st_stopped_def st_flags\<close>)
  next
    assume "st_destroy_step t s s'"
    then show ?thesis by cases (use ok m in \<open>auto simp: st_stopped_def st_flags st_held_def\<close>)
  qed
  moreover have "st_answers s' = st_answers s"
    using assms(1)
  proof (elim disjE)
    assume "st_construct_step t s s'"
    then show ?thesis by cases (simp_all)
  next
    assume "st_destroy_step t s s'"
    then show ?thesis by cases (simp_all)
  qed
  moreover have "st_role s' u = st_role s u" for u
    using assms(1)
  proof (elim disjE)
    assume "st_construct_step t s s'"
    then show ?thesis by cases (auto simp: st_role_def)
  next
    assume "st_destroy_step t s s'"
    then show ?thesis by cases (auto simp: st_role_def)
  qed
  moreover have "st_pc s u = RqTry w" if "st_pc s' u = RqTry w" for u w
    using assms(1)
  proof (elim disjE)
    assume "st_construct_step t s s'"
    then show ?thesis by cases (use that in \<open>auto split: if_splits\<close>)
  next
    assume "st_destroy_step t s s'"
    then show ?thesis by cases (use that in \<open>auto split: if_splits\<close>)
  qed
  ultimately show ?thesis using st_answers_frame [OF assms(3)] by blast
qed

lemma st_answers_request:
  assumes "st_request_stop_step t s s'" and "st_inv s" and "st_inv_answers s"
  shows "st_inv_answers s'"
proof -
  note ok = st_ok [OF assms(2), of t] and m = st_state_cases [OF assms(2)] and D = st_roleD [OF assms(2)]
  have r: "st_role s' u = st_role s u" if "u \<noteq> t" for u
    using assms(1) that by cases (simp_all add: st_role_def)
  have w: "st_state s AND 1 \<noteq> 0 \<Longrightarrow> st_stopped s" using m by (auto simp: st_stopped_def)
  show ?thesis using assms(1)
  proof cases
    case (rq_refuse w)
    then have "st_stopped s" using assms(3) by (auto simp: st_inv_answers_def st_flags)
    moreover have "st_role s' u = st_role s u" for u using rq_refuse by (simp add: st_role_def)
    ultimately show ?thesis using rq_refuse assms(3) by (auto simp: st_inv_answers_def st_stopped_def)
  next
    case rq_acquire
    then have "st_answers s = []" using assms(3) by (simp add: st_inv_answers_def st_stopped_def)
    moreover have "0 < st_role s' t" using rq_acquire by (simp add: st_role_def)
    ultimately show ?thesis using rq_acquire by (auto simp: st_inv_answers_def st_stopped_def st_flags)
  next
    case rq_end
    then have rt: "0 < st_role s t" by (simp add: st_role_def)
    have "st_role s t = 1" using D(1) [of t] rt by simp
    then have "st_role s' t = 0" using rq_end by (simp add: st_role_def)
    moreover have "st_role s' u = 0" if "u \<noteq> t" for u using D(2) [of t u] rt r [OF that] that by auto
    ultimately have "\<not> (\<exists>u. 0 < st_role s' u)" by (metis less_numeral_extra(3))
    moreover have "st_stopped s" using D(3) [OF rt] by (simp add: st_stopped_def)
    ultimately show ?thesis using rt rq_end assms(3)
      by (auto simp: st_inv_answers_def st_stopped_def st_flags)
  next
    case (rq_locked w)
    have "st_role s' u = st_role s u" for u using rq_locked by (simp add: st_role_def)
    then show ?thesis using rq_locked m
      by (intro st_answers_frame [OF assms(3)]) (auto simp: st_stopped_def st_flags split: if_splits)
  next
    case (rq_unlock cb)
    have "st_role s' u = st_role s u" for u using rq_unlock by (simp add: st_role_def)
    then show ?thesis using rq_unlock ok
      by (intro st_answers_frame [OF assms(3)]) (auto simp: st_stopped_def st_flags split: if_splits)
  next
    case (rq_exec cb)
    have "st_role s' u = st_role s u" for u using rq_exec by (simp add: st_role_def)
    then show ?thesis using rq_exec
      by (intro st_answers_frame [OF assms(3)]) (auto simp: st_stopped_def split: if_splits)
  next
    case (rq_return cb cs)
    have "st_role s' u = st_role s u" for u using rq_return by (simp add: st_role_def)
    then show ?thesis using rq_return
      by (intro st_answers_frame [OF assms(3)]) (auto simp: st_stopped_def split: if_splits)
  next
    case (rq_return_removed cb cs)
    have "st_role s' u = st_role s u" for u using rq_return_removed by (simp add: st_role_def)
    then show ?thesis using rq_return_removed
      by (intro st_answers_frame [OF assms(3)]) (auto simp: st_stopped_def split: if_splits)
  qed (rule st_answers_frame [OF assms(3)]; use w in \<open>auto simp: st_stopped_def st_role_def split: if_splits\<close>)+
qed

lemma st_answers_inv: "reach st_init st_step s \<Longrightarrow> st_inv_answers s"
proof (induction rule: reach.induct)
  case (reach_init s)
  then show ?case by (simp add: st_init_def st_inv_answers_def st_stopped_def)
next
  case (reach_step s s')
  from reach_step.hyps(1) have "st_inv s" by (rule stk.reach_inv)
  with reach_step.hyps(2) reach_step.IH show ?case
    by (auto elim: st_step.cases intro: st_answers_request st_answers_other)
qed

text \<open>
  Claim C12.  \<open>request_stop\<close> answers \<open>false\<close> to exactly one caller, the one that made the request
  and ran the callbacks, and \<open>true\<close> to all that come later: the opposite of the standard's
  \<open>request_stop\<close>, which returns \<open>true\<close> if the call changed the stop state.
\<close>

theorem st_request_stop_answers:
  assumes "reach st_init st_step s" and "\<And>t. st_pc s t = StIdle" and "\<And>t. st_calls s t = []"
  shows "if st_stop_requested s then count_list (st_answers s) False = 1 else st_answers s = []"
proof -
  have inv: "st_inv s" using stk.reach_inv [OF assms(1)] .
  have r: "st_role s t = 0" for t using assms(2,3) by (simp add: st_role_def)
  have "st_stop_requested s \<longleftrightarrow> st_stopped s"
    using st_state_cases [OF inv] by (auto simp: st_stop_requested_def st_stopped_def st_flags)
  then show ?thesis using st_answers_inv [OF assms(1)] r by (simp add: st_inv_answers_def)
qed

text \<open>
  A run for the witnesses: thread 0 constructs callback 5, thread 1 requests the stop and
  invokes it, then thread 0 destroys it.
\<close>

definition st_run ::
  "8 word \<Rightarrow> addr option \<Rightarrow> nat option \<Rightarrow> st_link option \<Rightarrow> bool \<Rightarrow> bool \<Rightarrow> st_pc \<Rightarrow> st_pc \<Rightarrow>
   st_call list \<Rightarrow> st_phase \<Rightarrow> addr list \<Rightarrow> addr option \<Rightarrow> addr list \<Rightarrow> bool list \<Rightarrow> stopsource" where
  "st_run w h n pv rp co p0 p1 cl ph ls cu lg an =
     \<lparr>st_state = w, st_callbacks = h, st_notifier = n, st_next = (\<lambda>_. None),
      st_prev = (\<lambda>_. None)(5 := pv), st_removed_ptr = (\<lambda>_. False)(5 := rp), st_removed = False,
      st_completed = (\<lambda>_. False)(5 := co), st_pc = (\<lambda>_. StIdle)(0 := p0, 1 := p1),
      st_calls = (\<lambda>_. [])(1 := cl), st_phase = (\<lambda>_. Fresh)(5 := ph), st_list = ls, st_cur = cu,
      st_log = lg, st_answers = an\<rparr>"

lemma st_run_simps [simp]:
  "st_state (st_run w h n pv rp co p0 p1 cl ph ls cu lg an) = w"
  "st_callbacks (st_run w h n pv rp co p0 p1 cl ph ls cu lg an) = h"
  "st_notifier (st_run w h n pv rp co p0 p1 cl ph ls cu lg an) = n"
  "st_list (st_run w h n pv rp co p0 p1 cl ph ls cu lg an) = ls"
  "st_cur (st_run w h n pv rp co p0 p1 cl ph ls cu lg an) = cu"
  "st_log (st_run w h n pv rp co p0 p1 cl ph ls cu lg an) = lg"
  "st_answers (st_run w h n pv rp co p0 p1 cl ph ls cu lg an) = an"
  "st_prev (st_run w h n pv rp co p0 p1 cl ph ls cu lg an) 5 = pv"
  "st_removed_ptr (st_run w h n pv rp co p0 p1 cl ph ls cu lg an) 5 = rp"
  "st_completed (st_run w h n pv rp co p0 p1 cl ph ls cu lg an) 5 = co"
  "st_pc (st_run w h n pv rp co p0 p1 cl ph ls cu lg an) 0 = p0"
  "st_pc (st_run w h n pv rp co p0 p1 cl ph ls cu lg an) (Suc 0) = p1"
  "st_calls (st_run w h n pv rp co p0 p1 cl ph ls cu lg an) (Suc 0) = cl"
  "st_calls (st_run w h n pv rp co p0 p1 cl ph ls cu lg an) 0 = []"
  "st_phase (st_run w h n pv rp co p0 p1 cl ph ls cu lg an) 5 = ph"
  "st_next (st_run w h n pv rp co p0 p1 cl ph ls cu lg an) 5 = None"
  "st_removed (st_run w h n pv rp co p0 p1 cl ph ls cu lg an) = False"
  "st_goto 0 q (st_run w h n pv rp co p0 p1 cl ph ls cu lg an) = st_run w h n pv rp co q p1 cl ph ls cu lg an"
  "st_goto (Suc 0) q (st_run w h n pv rp co p0 p1 cl ph ls cu lg an) = st_run w h n pv rp co p0 q cl ph ls cu lg an"
  "st_at 5 qh (st_run w h n pv rp co p0 p1 cl ph ls cu lg an) = st_run w h n pv rp co p0 p1 cl qh ls cu lg an"
  "st_enter (Suc 0) c 5 (st_run w h n pv rp co p0 p1 cl ph ls cu lg an) = st_run w h n pv rp co p0 StIdle (c # cl) ph ls cu (5 # lg) an"
  "st_leave (Suc 0) q (st_run w h n pv rp co p0 p1 cl ph ls cu lg an) = st_run w h n pv rp co p0 q (tl cl) ph ls cu lg an"
  "st_state_update fstate (st_run w h n pv rp co p0 p1 cl ph ls cu lg an) = st_run (fstate w) h n pv rp co p0 p1 cl ph ls cu lg an"
  "st_callbacks_update fcallbacks (st_run w h n pv rp co p0 p1 cl ph ls cu lg an) = st_run w (fcallbacks h) n pv rp co p0 p1 cl ph ls cu lg an"
  "st_notifier_update fnotifier (st_run w h n pv rp co p0 p1 cl ph ls cu lg an) = st_run w h (fnotifier n) pv rp co p0 p1 cl ph ls cu lg an"
  "st_list_update flist (st_run w h n pv rp co p0 p1 cl ph ls cu lg an) = st_run w h n pv rp co p0 p1 cl ph (flist ls) cu lg an"
  "st_cur_update fcur (st_run w h n pv rp co p0 p1 cl ph ls cu lg an) = st_run w h n pv rp co p0 p1 cl ph ls (fcur cu) lg an"
  "st_answers_update fanswers (st_run w h n pv rp co p0 p1 cl ph ls cu lg an) = st_run w h n pv rp co p0 p1 cl ph ls cu lg (fanswers an)"
  "(st_run w h n pv rp co p0 p1 cl ph ls cu lg an)\<lparr>st_removed := False\<rparr> = st_run w h n pv rp co p0 p1 cl ph ls cu lg an"
  "(st_run w h n pv rp co p0 p1 cl ph ls cu lg an)\<lparr>st_removed_ptr := (st_removed_ptr (st_run w h n pv rp co p0 p1 cl ph ls cu lg an))(5 := qb)\<rparr> = st_run w h n pv qb co p0 p1 cl ph ls cu lg an"
  "(st_run w h n pv rp co p0 p1 cl ph ls cu lg an)\<lparr>st_completed := (st_completed (st_run w h n pv rp co p0 p1 cl ph ls cu lg an))(5 := qb)\<rparr> = st_run w h n pv rp qb p0 p1 cl ph ls cu lg an"
  "st_take 5 (st_run w h n pv rp co p0 p1 cl ph ls cu lg an) = st_run w None n None rp co p0 p1 cl ph ls cu lg an"
  "h = None \<Longrightarrow> st_link_in 5 (st_run w h n pv rp co p0 p1 cl ph ls cu lg an) = st_run w (Some 5) n (Some AtHead) rp co p0 p1 cl ph ls cu lg an"
  by (simp_all add: st_run_def st_goto_def st_at_def st_enter_def st_leave_def st_take_def st_link_in_def
      st_set_prev_def Let_def fun_upd_twist fun_eq_iff)

lemma st_example_runs:
  shows st_run_notified: "reach st_init st_step (st_run 1 None (Some 1) None False True StIdle StIdle [] Alive [] None [5] [False])" (is ?A)
    and st_run_waiting: "reach st_init st_step (st_run 1 None (Some 1) None False True (RmWait 5) StIdle [] (Destroying 0) [] None [5] [False])" (is ?B)
    and st_run_inside: "reach st_init st_step (st_run 1 None (Some 1) None True False StIdle StIdle ([Notified 5]) Alive [] (Some 5) [5] [])" (is ?D)
    and st_run_dead: "reach st_init st_step (st_run 1 None (Some 1) None False True StIdle StIdle [] Dead [] None [5] [False])" (is ?C)
proof -
  note fl = st_flags
  have r0: "reach st_init st_step (st_run 0 None None None False False StIdle StIdle [] Fresh [] None [] [])"
    by (rule reach_init) (simp add: st_init_def st_run_def)
  have "st_step (st_run 0 None None None False False StIdle StIdle [] Fresh [] None [] [])
      (st_run 0 None None None False False (AddTry 5 0) StIdle [] (Constructing 0) [] None [] [])"
    using by_construct [OF add_start [of "st_run 0 None None None False False StIdle StIdle [] Fresh [] None [] []" 0 5]] by (simp add: fl)
  note r1 = reach_step [OF r0 this]
  have "st_step (st_run 0 None None None False False (AddTry 5 0) StIdle [] (Constructing 0) [] None [] [])
      (st_run 2 None None None False False (AddLink 5) StIdle [] (Constructing 0) [] None [] [])"
    using by_construct [OF add_acquire [of "st_run 0 None None None False False (AddTry 5 0) StIdle [] (Constructing 0) [] None [] []" 0 5]] by (simp add: fl)
  note r2 = reach_step [OF r1 this]
  have "st_step (st_run 2 None None None False False (AddLink 5) StIdle [] (Constructing 0) [] None [] [])
      (st_run 2 (Some 5) None (Some AtHead) False False (AddUnlock 5) StIdle [] (Constructing 0) [5] None [] [])"
    using by_construct [OF add_link [of "st_run 2 None None None False False (AddLink 5) StIdle [] (Constructing 0) [] None [] []" 0 5]] by (simp add: fl)
  note r3 = reach_step [OF r2 this]
  have "st_step (st_run 2 (Some 5) None (Some AtHead) False False (AddUnlock 5) StIdle [] (Constructing 0) [5] None [] [])
      (st_run 0 (Some 5) None (Some AtHead) False False StIdle StIdle [] Alive [5] None [] [])"
    using by_construct [OF add_unlock [of "st_run 2 (Some 5) None (Some AtHead) False False (AddUnlock 5) StIdle [] (Constructing 0) [5] None [] []" 0 5]] by (simp add: fl)
  note r4 = reach_step [OF r3 this]
  have "st_step (st_run 0 (Some 5) None (Some AtHead) False False StIdle StIdle [] Alive [5] None [] [])
      (st_run 0 (Some 5) None (Some AtHead) False False StIdle (RqTry 0) [] Alive [5] None [] [])"
    using by_request [OF rq_start [of "st_run 0 (Some 5) None (Some AtHead) False False StIdle StIdle [] Alive [5] None [] []" "Suc 0"]] by (simp add: fl)
  note r5 = reach_step [OF r4 this]
  have "st_step (st_run 0 (Some 5) None (Some AtHead) False False StIdle (RqTry 0) [] Alive [5] None [] [])
      (st_run 3 (Some 5) None (Some AtHead) False False StIdle RqId [] Alive [5] None [] [])"
    using by_request [OF rq_acquire [of "st_run 0 (Some 5) None (Some AtHead) False False StIdle (RqTry 0) [] Alive [5] None [] []" "Suc 0"]] by (simp add: fl)
  note r6 = reach_step [OF r5 this]
  have "st_step (st_run 3 (Some 5) None (Some AtHead) False False StIdle RqId [] Alive [5] None [] [])
      (st_run 3 (Some 5) (Some 1) (Some AtHead) False False StIdle RqLoop [] Alive [5] None [] [])"
    using by_request [OF rq_id [of "st_run 3 (Some 5) None (Some AtHead) False False StIdle RqId [] Alive [5] None [] []" "Suc 0"]] by (simp add: fl)
  note r7 = reach_step [OF r6 this]
  have "st_step (st_run 3 (Some 5) (Some 1) (Some AtHead) False False StIdle RqLoop [] Alive [5] None [] [])
      (st_run 3 None (Some 1) None False False StIdle (RqStore 5) [] Alive [] (Some 5) [] [])"
    using by_request [OF rq_take [of "st_run 3 (Some 5) (Some 1) (Some AtHead) False False StIdle RqLoop [] Alive [5] None [] []" "Suc 0" 5]] by (simp add: fl)
  note r8 = reach_step [OF r7 this]
  have "st_step (st_run 3 None (Some 1) None False False StIdle (RqStore 5) [] Alive [] (Some 5) [] [])
      (st_run 1 None (Some 1) None False False StIdle (RqExec 5) [] Alive [] (Some 5) [] [])"
    using by_request [OF rq_unlock [of "st_run 3 None (Some 1) None False False StIdle (RqStore 5) [] Alive [] (Some 5) [] []" "Suc 0" 5]] by (simp add: fl)
  note r9 = reach_step [OF r8 this]
  have "st_step (st_run 1 None (Some 1) None False False StIdle (RqExec 5) [] Alive [] (Some 5) [] [])
      (st_run 1 None (Some 1) None True False StIdle StIdle ([Notified 5]) Alive [] (Some 5) [5] [])"
    using by_request [OF rq_exec [of "st_run 1 None (Some 1) None False False StIdle (RqExec 5) [] Alive [] (Some 5) [] []" "Suc 0" 5]] by (simp add: fl)
  note r10 = reach_step [OF r9 this]
  have "st_step (st_run 1 None (Some 1) None True False StIdle StIdle ([Notified 5]) Alive [] (Some 5) [5] [])
      (st_run 1 None (Some 1) None True False StIdle (RqClear 5) [] Alive [] (Some 5) [5] [])"
    using by_request [OF rq_return [of "st_run 1 None (Some 1) None True False StIdle StIdle ([Notified 5]) Alive [] (Some 5) [5] []" "Suc 0" 5 "[]"]] by (simp add: fl)
  note r11 = reach_step [OF r10 this]
  have "st_step (st_run 1 None (Some 1) None True False StIdle (RqClear 5) [] Alive [] (Some 5) [5] [])
      (st_run 1 None (Some 1) None False False StIdle (RqDone 5) [] Alive [] (Some 5) [5] [])"
    using by_request [OF rq_clear [of "st_run 1 None (Some 1) None True False StIdle (RqClear 5) [] Alive [] (Some 5) [5] []" "Suc 0" 5]] by (simp add: fl)
  note r12 = reach_step [OF r11 this]
  have "st_step (st_run 1 None (Some 1) None False False StIdle (RqDone 5) [] Alive [] (Some 5) [5] [])
      (st_run 1 None (Some 1) None False True StIdle (RqLock 1) [] Alive [] None [5] [])"
    using by_request [OF rq_done [of "st_run 1 None (Some 1) None False False StIdle (RqDone 5) [] Alive [] (Some 5) [5] []" "Suc 0" 5]] by (simp add: fl)
  note r13 = reach_step [OF r12 this]
  have "st_step (st_run 1 None (Some 1) None False True StIdle (RqLock 1) [] Alive [] None [5] [])
      (st_run 3 None (Some 1) None False True StIdle RqLoop [] Alive [] None [5] [])"
    using by_request [OF rq_locked [of "st_run 1 None (Some 1) None False True StIdle (RqLock 1) [] Alive [] None [5] []" "Suc 0" 1]] by (simp add: fl)
  note r14 = reach_step [OF r13 this]
  have "st_step (st_run 3 None (Some 1) None False True StIdle RqLoop [] Alive [] None [5] [])
      (st_run 3 None (Some 1) None False True StIdle RqEnd [] Alive [] None [5] [])"
    using by_request [OF rq_empty [of "st_run 3 None (Some 1) None False True StIdle RqLoop [] Alive [] None [5] []" "Suc 0"]] by (simp add: fl)
  note r15 = reach_step [OF r14 this]
  have "st_step (st_run 3 None (Some 1) None False True StIdle RqEnd [] Alive [] None [5] [])
      (st_run 1 None (Some 1) None False True StIdle StIdle [] Alive [] None [5] [False])"
    using by_request [OF rq_end [of "st_run 3 None (Some 1) None False True StIdle RqEnd [] Alive [] None [5] []" "Suc 0"]] by (simp add: fl)
  note r16 = reach_step [OF r15 this]
  have "st_step (st_run 1 None (Some 1) None False True StIdle StIdle [] Alive [] None [5] [False])
      (st_run 1 None (Some 1) None False True (RmLock 5 1) StIdle [] (Destroying 0) [] None [5] [False])"
    using by_destroy [OF rm_start [of "st_run 1 None (Some 1) None False True StIdle StIdle [] Alive [] None [5] [False]" 0 5]] by (simp add: fl)
  note r17 = reach_step [OF r16 this]
  have "st_step (st_run 1 None (Some 1) None False True (RmLock 5 1) StIdle [] (Destroying 0) [] None [5] [False])
      (st_run 3 None (Some 1) None False True (RmLocked 5 1) StIdle [] (Destroying 0) [] None [5] [False])"
    using by_destroy [OF rm_locked [of "st_run 1 None (Some 1) None False True (RmLock 5 1) StIdle [] (Destroying 0) [] None [5] [False]" 0 5 1]] by (simp add: fl)
  note r18 = reach_step [OF r17 this]
  have "st_step (st_run 3 None (Some 1) None False True (RmLocked 5 1) StIdle [] (Destroying 0) [] None [5] [False])
      (st_run 3 None (Some 1) None False True (RmUnlockWho 5 1 (Some 1)) StIdle [] (Destroying 0) [] None [5] [False])"
    using by_destroy [OF rm_executed [of "st_run 3 None (Some 1) None False True (RmLocked 5 1) StIdle [] (Destroying 0) [] None [5] [False]" 0 5 1]] by (simp add: fl)
  note r19 = reach_step [OF r18 this]
  have "st_step (st_run 3 None (Some 1) None False True (RmUnlockWho 5 1 (Some 1)) StIdle [] (Destroying 0) [] None [5] [False])
      (st_run 1 None (Some 1) None False True (RmWho 5 (Some 1)) StIdle [] (Destroying 0) [] None [5] [False])"
    using by_destroy [OF rm_unlock_who [of "st_run 3 None (Some 1) None False True (RmUnlockWho 5 1 (Some 1)) StIdle [] (Destroying 0) [] None [5] [False]" 0 5 1 "Some 1"]] by (simp add: fl)
  note r20 = reach_step [OF r19 this]
  have "st_step (st_run 1 None (Some 1) None False True (RmWho 5 (Some 1)) StIdle [] (Destroying 0) [] None [5] [False])
      (st_run 1 None (Some 1) None False True (RmWait 5) StIdle [] (Destroying 0) [] None [5] [False])"
    using by_destroy [OF rm_other [of "st_run 1 None (Some 1) None False True (RmWho 5 (Some 1)) StIdle [] (Destroying 0) [] None [5] [False]" 0 5 "Some 1"]] by (simp add: fl)
  note r21 = reach_step [OF r20 this]
  have "st_step (st_run 1 None (Some 1) None False True (RmWait 5) StIdle [] (Destroying 0) [] None [5] [False])
      (st_run 1 None (Some 1) None False True StIdle StIdle [] Dead [] None [5] [False])"
    using by_destroy [OF rm_wait [of "st_run 1 None (Some 1) None False True (RmWait 5) StIdle [] (Destroying 0) [] None [5] [False]" 0 5]] by (simp add: fl)
  note r22 = reach_step [OF r21 this]
  show ?A by (rule r16)
  show ?B by (rule r21)
  show ?C by (rule r22)
  show ?D by (rule r10)
qed

lemma st_run_self:
  "reach st_init st_step (st_run 1 None (Some 1) None True False StIdle (RmWho 5 (Some 1)) ([Notified 5]) (Destroying 1) [] (Some 5) [5] [])"
proof -
  note fl = st_flags and r0 = st_run_inside
  have "st_step (st_run 1 None (Some 1) None True False StIdle StIdle ([Notified 5]) Alive [] (Some 5) [5] [])
      (st_run 1 None (Some 1) None True False StIdle (RmLock 5 1) ([Notified 5]) (Destroying 1) [] (Some 5) [5] [])"
    using by_destroy [OF rm_start [of "st_run 1 None (Some 1) None True False StIdle StIdle ([Notified 5]) Alive [] (Some 5) [5] []" "Suc 0" 5]] by (simp add: fl)
  note r1 = reach_step [OF r0 this]
  have "st_step (st_run 1 None (Some 1) None True False StIdle (RmLock 5 1) ([Notified 5]) (Destroying 1) [] (Some 5) [5] [])
      (st_run 3 None (Some 1) None True False StIdle (RmLocked 5 1) ([Notified 5]) (Destroying 1) [] (Some 5) [5] [])"
    using by_destroy [OF rm_locked [of "st_run 1 None (Some 1) None True False StIdle (RmLock 5 1) ([Notified 5]) (Destroying 1) [] (Some 5) [5] []" "Suc 0" 5 1]] by (simp add: fl)
  note r2 = reach_step [OF r1 this]
  have "st_step (st_run 3 None (Some 1) None True False StIdle (RmLocked 5 1) ([Notified 5]) (Destroying 1) [] (Some 5) [5] [])
      (st_run 3 None (Some 1) None True False StIdle (RmUnlockWho 5 1 (Some 1)) ([Notified 5]) (Destroying 1) [] (Some 5) [5] [])"
    using by_destroy [OF rm_executed [of "st_run 3 None (Some 1) None True False StIdle (RmLocked 5 1) ([Notified 5]) (Destroying 1) [] (Some 5) [5] []" "Suc 0" 5 1]] by (simp add: fl)
  note r3 = reach_step [OF r2 this]
  have "st_step (st_run 3 None (Some 1) None True False StIdle (RmUnlockWho 5 1 (Some 1)) ([Notified 5]) (Destroying 1) [] (Some 5) [5] [])
      (st_run 1 None (Some 1) None True False StIdle (RmWho 5 (Some 1)) ([Notified 5]) (Destroying 1) [] (Some 5) [5] [])"
    using by_destroy [OF rm_unlock_who [of "st_run 3 None (Some 1) None True False StIdle (RmUnlockWho 5 1 (Some 1)) ([Notified 5]) (Destroying 1) [] (Some 5) [5] []" "Suc 0" 5 1 "Some 1"]] by (simp add: fl)
  note r4 = reach_step [OF r3 this]
  show ?thesis by (rule r4)
qed

theorem st_destructor_waits_witness:
  "\<exists>s s'. reach st_init st_step s \<and> st_destroy_step 1 s s' \<and> Notified 5 \<in> set (st_calls s 1) \<and>
     (\<forall>u. Notified 5 \<in> set (st_calls s u) \<longrightarrow> u = 1)"
proof -
  let ?s = "st_run 1 None (Some 1) None True False StIdle (RmWho 5 (Some 1)) ([Notified 5]) (Destroying 1) [] (Some 5) [5] []"
  have "st_destroy_step 1 ?s (st_goto 1 StIdle (st_at 5 Dead
      (?s\<lparr>st_removed := (if st_removed_ptr ?s 5 then True else st_removed ?s)\<rparr>)))"
    by (rule rm_self) simp
  note d = this st_destructor_waits [OF st_run_self this, of 5]
  have "u = 1" if "Notified 5 \<in> set (st_calls ?s u)" for u
    using d(2) [of u] that by simp
  then show ?thesis using d(1) st_run_self by (intro exI conjI) (rule st_run_self, assumption, simp_all)
qed

theorem st_callbacks_once_witness: "distinct [5 :: addr] \<and> st_dll (st_run 1 None (Some 1) None False True StIdle StIdle [] Dead [] None [5] [False])"
  using st_callbacks_once [OF st_run_dead] by simp

theorem st_dead_untouched_witness: "5 \<notin> set (st_list (st_run 1 None (Some 1) None False True StIdle StIdle [] Dead [] None [5] [False]))"
  using st_dead_untouched [OF st_run_dead, of 5] by simp

theorem st_all_notified_witness: "st_list (st_run 1 None (Some 1) None False True StIdle StIdle [] Alive [] None [5] [False]) = []"
  using st_all_notified [OF st_run_notified] by (simp add: st_stop_requested_def st_run_def st_flags)

theorem st_request_stop_answers_witness: "count_list (st_answers (st_run 1 None (Some 1) None False True StIdle StIdle [] Alive [] None [5] [False])) False = 1"
  using st_request_stop_answers [OF st_run_notified] by (simp add: st_stop_requested_def st_run_def st_flags)

end
