(* ===== verification/Completions.thy ===== *)
theory Completions
  imports Prelude
begin

text \<open>
  Completion signatures and completions: the vocabulary of the sender algorithms.  A sender
  completes with values, with one error or as stopped (\<^verbatim>\<open>set_value\<close>, \<^verbatim>\<open>set_error\<close>,
  \<^verbatim>\<open>set_stopped\<close>), and the types with which it may do so are computed at compile time as its
  completion signatures.  Here are the computations on signatures
  (\<^verbatim>\<open>__transform_completion_signatures.hpp\<close>), with a compile-time error as \<open>None\<close>, and the
  completion of a receiver with the result of a call (\<^verbatim>\<open>__receivers.hpp\<close>).

  User types are opaque: a type is a number, whether it can be copied without throwing and
  whether a value converts to \<^verbatim>\<open>bool\<close> is given by a \<open>universe\<close>, a parameter of the model with
  the contract \<open>universe_ok\<close> (an operation declared \<^verbatim>\<open>noexcept\<close> does not throw).  A callable is
  a record of its result types, its exception specification and its effect on the world, with
  the contract \<open>callable_ok\<close>.
\<close>

section \<open>Types, values, signatures\<close>

datatype set_tag = ValueTag | ErrorTag | StoppedTag

datatype ty =
    TObj nat
  | TExn \<comment> \<open>\<open>std::exception_ptr\<close>\<close>
  | TTag set_tag
  | TTuple "ty list"
  | TVariant "ty list list"
  | TOptional ty

datatype obj =
    Obj nat int
  | Exn int
  | Tag set_tag
  | Tuple "obj list"
  | Variant "ty list list" "obj list" \<comment> \<open>the alternatives, and the tuple held\<close>
  | Optional ty "obj option"

fun ty_of :: "obj \<Rightarrow> ty" where
  "ty_of (Obj n i) = TObj n"
| "ty_of (Exn e) = TExn"
| "ty_of (Tag t) = TTag t"
| "ty_of (Tuple xs) = TTuple (map ty_of xs)"
| "ty_of (Variant tss xs) = TVariant tss"
| "ty_of (Optional t x) = TOptional t"

datatype sig = SigValue "ty list" | SigError ty | SigStopped

datatype compl = SetValue "obj list" | SetError obj | SetStopped

fun sig_of :: "compl \<Rightarrow> sig" where
  "sig_of (SetValue xs) = SigValue (map ty_of xs)"
| "sig_of (SetError x) = SigError (ty_of x)"
| "sig_of SetStopped = SigStopped"

fun compl_args :: "compl \<Rightarrow> obj list" where
  "compl_args (SetValue xs) = xs"
| "compl_args (SetError x) = [x]"
| "compl_args SetStopped = []"

fun sig_args :: "sig \<Rightarrow> ty list" where
  "sig_args (SigValue ts) = ts"
| "sig_args (SigError t) = [t]"
| "sig_args SigStopped = []"

lemma sig_args_of [simp]: "sig_args (sig_of c) = map ty_of (compl_args c)"
  by (cases c) simp_all

fun sig_tag :: "sig \<Rightarrow> set_tag" where
  "sig_tag (SigValue ts) = ValueTag"
| "sig_tag (SigError t) = ErrorTag"
| "sig_tag SigStopped = StoppedTag"

text \<open>\<open>__sends\<close>\<close>

definition sends :: "set_tag \<Rightarrow> sig list \<Rightarrow> bool" where
  "sends t cs \<longleftrightarrow> list_ex (\<lambda>s. sig_tag s = t) cs"

section \<open>User types and callables\<close>

datatype bool_type = AlwaysTrue | AlwaysFalse | Convertible bool \<comment> \<open>nothrow\<close> | NotBool

record universe =
  nothrow_copy :: "ty \<Rightarrow> bool"
  copy_throws :: "obj \<Rightarrow> int option"
  bool_type_of :: "ty \<Rightarrow> bool_type"
  to_bool :: "obj \<Rightarrow> int + bool"

definition universe_ok :: "universe \<Rightarrow> bool" where
  "universe_ok U \<longleftrightarrow>
     (\<forall>x. nothrow_copy U (ty_of x) \<longrightarrow> copy_throws U x = None) \<and>
     (\<forall>x. bool_type_of U (ty_of x) = AlwaysTrue \<longrightarrow> to_bool U x = Inr True) \<and>
     (\<forall>x. bool_type_of U (ty_of x) = AlwaysFalse \<longrightarrow> to_bool U x = Inr False) \<and>
     (\<forall>x. bool_type_of U (ty_of x) = Convertible True \<longrightarrow> (\<exists>b. to_bool U x = Inr b))"

text \<open>Decay-copying a pack of arguments into an operation state, left to right.\<close>

fun copy_args :: "universe \<Rightarrow> obj list \<Rightarrow> int option" where
  "copy_args U [] = None"
| "copy_args U (x # xs) = (case copy_throws U x of Some e \<Rightarrow> Some e | None \<Rightarrow> copy_args U xs)"

definition nothrow_copy_args :: "universe \<Rightarrow> ty list \<Rightarrow> bool" where
  "nothrow_copy_args U ts \<longleftrightarrow> list_all (nothrow_copy U) ts"

lemma copy_args_nothrow:
  "universe_ok U \<Longrightarrow> nothrow_copy_args U (map ty_of xs) \<Longrightarrow> copy_args U xs = None"
  by (induction xs) (auto simp: nothrow_copy_args_def universe_ok_def split: option.split)

record 'u world =
  ctx :: nat \<comment> \<open>the execution context the current code runs on\<close>
  stops :: "nat \<Rightarrow> bool" \<comment> \<open>the stop sources on which stop has been requested\<close>
  usr :: 'u

type_synonym 'u outcome = "compl \<times> 'u world"

record 'u callable =
  c_call :: "obj list \<Rightarrow> 'u world \<Rightarrow> (int + obj option) \<times> 'u world"
  c_result :: "ty list \<Rightarrow> ty option option" \<comment> \<open>\<open>None\<close>: not invocable; \<open>Some None\<close>: \<open>void\<close>\<close>
  c_nothrow :: "ty list \<Rightarrow> bool"

definition callable_ok :: "'u callable \<Rightarrow> bool" where
  "callable_ok f \<longleftrightarrow> (\<forall>xs w r. c_result f (map ty_of xs) = Some r \<longrightarrow>
     (case fst (c_call f xs w) of
        Inl e \<Rightarrow> \<not> c_nothrow f (map ty_of xs)
      | Inr v \<Rightarrow> map_option ty_of v = r) \<and> ctx (snd (c_call f xs w)) = ctx w)"

section \<open>Transforming completion signatures\<close>

definition eptr_sig :: sig where "eptr_sig = SigError TExn"

definition eptr_unless :: "bool \<Rightarrow> sig list" where
  "eptr_unless nothrow = (if nothrow then [] else [eptr_sig])"

definition concat_signatures :: "sig list list \<Rightarrow> sig list" where
  "concat_signatures css = remdups (concat css)"

fun single_value_sig :: "ty option \<Rightarrow> sig" where
  "single_value_sig None = SigValue []"
| "single_value_sig (Some t) = SigValue [t]"

fun transform_one ::
  "(ty list \<Rightarrow> sig list option) \<Rightarrow> (ty \<Rightarrow> sig list option) \<Rightarrow> sig list option \<Rightarrow> sig \<Rightarrow> sig list option" where
  "transform_one vf ef sf (SigValue ts) = vf ts"
| "transform_one vf ef sf (SigError t) = ef t"
| "transform_one vf ef sf SigStopped = sf"

definition transform_all :: "(sig \<Rightarrow> sig list option) \<Rightarrow> sig list \<Rightarrow> sig list option" where
  "transform_all tx cs = map_option concat_signatures (those (map tx cs))"

definition transform_signatures ::
  "sig list \<Rightarrow> (ty list \<Rightarrow> sig list option) \<Rightarrow> (ty \<Rightarrow> sig list option) \<Rightarrow> sig list option \<Rightarrow> sig list \<Rightarrow>
   sig list option" where
  "transform_signatures cs vf ef sf extra =
     map_option (\<lambda>l. concat_signatures [l, extra]) (transform_all (transform_one vf ef sf) cs)"

text \<open>The transformations the algorithms use.\<close>

definition keep_value :: "ty list \<Rightarrow> sig list option" where "keep_value ts = Some [SigValue ts]"
definition keep_error :: "ty \<Rightarrow> sig list option" where "keep_error t = Some [SigError t]"
definition keep_stopped :: "sig list option" where "keep_stopped = Some [SigStopped]"
definition ignore_value :: "ty list \<Rightarrow> sig list option" where "ignore_value ts = Some []"

definition decay_values :: "universe \<Rightarrow> ty list \<Rightarrow> sig list option" where
  "decay_values U ts = Some (concat_signatures [[SigValue ts], eptr_unless (nothrow_copy_args U ts)])"

definition decay_errors :: "universe \<Rightarrow> ty \<Rightarrow> sig list option" where
  "decay_errors U t = Some (concat_signatures [[SigError t], eptr_unless (nothrow_copy_args U [t])])"

definition nothrow_copy_results :: "universe \<Rightarrow> sig list \<Rightarrow> bool" where
  "nothrow_copy_results U cs \<longleftrightarrow> list_all (\<lambda>s. nothrow_copy_args U (sig_args s)) cs"

lemma set_concat_signatures [simp]: "set (concat_signatures css) = (\<Union>cs \<in> set css. set cs)"
  by (simp add: concat_signatures_def)

lemma those_Some: "those xs = Some ys \<longleftrightarrow> xs = map Some ys"
proof (induction xs arbitrary: ys)
  case (Cons x xs)
  then show ?case by (cases x; cases ys) auto
qed auto

lemma transform_signatures_mem:
  assumes "transform_signatures cs vf ef sf extra = Some ds" and "s \<in> set cs"
  obtains l where "transform_one vf ef sf s = Some l" and "set l \<subseteq> set ds" and "set extra \<subseteq> set ds"
proof -
  from assms(1) obtain ls where ls: "those (map (transform_one vf ef sf) cs) = Some ls"
    "ds = concat_signatures [concat_signatures ls, extra]"
    by (auto simp: transform_signatures_def transform_all_def)
  then have m: "map (transform_one vf ef sf) cs = map Some ls" by (simp add: those_Some)
  from assms(2) have "transform_one vf ef sf s \<in> set (map (transform_one vf ef sf) cs)" by simp
  then obtain l where "l \<in> set ls" "transform_one vf ef sf s = Some l" unfolding m by auto
  with ls(2) show ?thesis using that by auto
qed

lemma transform_signatures_extra:
  "transform_signatures cs vf ef sf extra = Some ds \<Longrightarrow> set extra \<subseteq> set ds"
  by (auto simp: transform_signatures_def)

text \<open>A signature the transformation yields comes from a signature of the child or is extra.\<close>

lemma transform_signatures_from:
  assumes "transform_signatures cs vf ef sf extra = Some ds" and "d \<in> set ds"
  shows "d \<in> set extra \<or> (\<exists>s \<in> set cs. \<exists>l. transform_one vf ef sf s = Some l \<and> d \<in> set l)"
proof -
  from assms(1) obtain ls where ls: "those (map (transform_one vf ef sf) cs) = Some ls"
    "ds = concat_signatures [concat_signatures ls, extra]"
    by (auto simp: transform_signatures_def transform_all_def)
  then have m: "map (transform_one vf ef sf) cs = map Some ls" by (simp add: those_Some)
  show ?thesis
  proof (cases "d \<in> set extra")
    case False
    then obtain l where l: "l \<in> set ls" "d \<in> set l" using assms(2) ls(2) by auto
    then have "Some l \<in> set (map (transform_one vf ef sf) cs)" unfolding m by simp
    with l show ?thesis by auto
  qed simp
qed

section \<open>Completing a receiver with the result of a call\<close>

text \<open>\<open>__set_value_from\<close>\<close>

definition set_value_from :: "'u callable \<Rightarrow> obj list \<Rightarrow> 'u world \<Rightarrow> 'u outcome" where
  "set_value_from f xs w =
     (case c_call f xs w of
        (Inl e, w') \<Rightarrow> (SetError (Exn e), w')
      | (Inr None, w') \<Rightarrow> (SetValue [], w')
      | (Inr (Some v), w') \<Rightarrow> (SetValue [v], w'))"

text \<open>The signatures of that completion (\<open>__transform_value_completion\<close> of \<open>then\<close> and its kin).\<close>

definition invoke_signatures :: "'u callable \<Rightarrow> ty list \<Rightarrow> sig list option" where
  "invoke_signatures f ts =
     (case c_result f ts of
        None \<Rightarrow> None
      | Some r \<Rightarrow> Some (single_value_sig r # eptr_unless (c_nothrow f ts)))"

lemma set_value_from_ok:
  assumes "callable_ok f" and "invoke_signatures f (map ty_of xs) = Some l"
  shows "sig_of (fst (set_value_from f xs w)) \<in> set l" and "ctx (snd (set_value_from f xs w)) = ctx w"
proof -
  obtain r where r: "c_result f (map ty_of xs) = Some r"
    "l = single_value_sig r # eptr_unless (c_nothrow f (map ty_of xs))"
    using assms(2) by (auto simp: invoke_signatures_def split: option.splits)
  obtain r' w' where c: "c_call f xs w = (r', w')" by force
  have ok: "case fst (c_call f xs w) of Inl e \<Rightarrow> \<not> c_nothrow f (map ty_of xs)
      | Inr v \<Rightarrow> map_option ty_of v = r" "ctx w' = ctx w"
    using assms(1) [unfolded callable_ok_def, rule_format, OF r(1), of w] c by simp_all
  then show "sig_of (fst (set_value_from f xs w)) \<in> set l" "ctx (snd (set_value_from f xs w)) = ctx w"
    using c r(2) by (auto simp: set_value_from_def eptr_unless_def eptr_sig_def split: sum.splits option.splits)
qed

end
