(* ===== verification/Senders.thy ===== *)
theory Senders
  imports Completions
begin

text \<open>
  The sender algorithms of \<^verbatim>\<open>include/stdexec/__detail\<close> and \<^verbatim>\<open>include/exec\<close>.  A sender is a record
  of its completion signatures in an environment (\<open>None\<close>: the program is ill-formed), of
  whether connecting it is declared \<^verbatim>\<open>noexcept\<close> and throws, and of what its operation does when
  it is started in an environment and a world: the completion it delivers to its receiver and
  the world then, or \<open>None\<close> when it never completes.  The world holds the execution context the
  completion is delivered on and the user's state.

  Each algorithm is translated twice, as the source has it: its compile-time half computes
  signatures, its run-time half is the \<^verbatim>\<open>__complete\<close> function or the receivers of its operation
  state.  Moves do not throw, nor does copying a sender that is connected more than once
  (\<^verbatim>\<open>repeat_n\<close>, \<^verbatim>\<open>repeat_until\<close>): what may throw is connecting it.  A sender is connected and
  started once per use.  Where the source lets an exception escape from a \<^verbatim>\<open>noexcept\<close> function, so
  that the program terminates, the operation has no completion.
\<close>

section \<open>Senders\<close>

record env =
  e_sched :: "nat option" \<comment> \<open>the start scheduler\<close>
  e_token :: "nat option" \<comment> \<open>the stop token; \<open>None\<close>: an unstoppable token\<close>
  e_value :: "nat \<Rightarrow> obj option"

definition e_stoppable :: "env \<Rightarrow> bool" where
  "e_stoppable e \<longleftrightarrow> e_token e \<noteq> None"

definition stop_requested :: "env \<Rightarrow> 'u world \<Rightarrow> bool" where
  "stop_requested e w = (case e_token e of None \<Rightarrow> False | Some k \<Rightarrow> stops w k)"

record 'u sender =
  sn_sigs :: "env \<Rightarrow> sig list option"
  sn_nothrow :: "env \<Rightarrow> bool"
  sn_connect :: "env \<Rightarrow> int option"
  sn_run :: "env \<Rightarrow> 'u world \<Rightarrow> 'u outcome option"
  sn_sched :: "set_tag \<Rightarrow> env \<Rightarrow> nat option"

text \<open>
  The last field is what the sender's attributes answer to \<^verbatim>\<open>get_completion_scheduler\<close> for a
  channel in an environment.  It decides the environment in which a second sender runs that is
  started from a completion of the first (\<^verbatim>\<open>__mk_secondary_env_t\<close>): the completion scheduler is
  known if exactly one of the channels that start the second sender is ever used.
\<close>

definition child_sigs :: "'u sender \<Rightarrow> env \<Rightarrow> sig list" where
  "child_sigs s e = (case sn_sigs s e of None \<Rightarrow> [] | Some cs \<Rightarrow> cs)"

definition secondary_env :: "'u sender \<Rightarrow> set_tag list \<Rightarrow> env \<Rightarrow> env" where
  "secondary_env s tags e =
     (case filter (\<lambda>t. sends t (child_sigs s e)) tags of
        [t] \<Rightarrow> (case sn_sched s t e of Some k \<Rightarrow> e\<lparr>e_sched := Some k\<rparr> | None \<Rightarrow> e)
      | _ \<Rightarrow> e)"

text \<open>What a correct sender promises: it completes only as its signatures say.\<close>

definition sender_ok :: "'u sender \<Rightarrow> bool" where
  "sender_ok s \<longleftrightarrow> (\<forall>e cs. sn_sigs s e = Some cs \<longrightarrow>
     (sn_nothrow s e \<longrightarrow> sn_connect s e = None) \<and>
     (\<forall>w c w'. sn_run s e w = Some (c, w') \<longrightarrow> sig_of c \<in> set cs))"

lemma sender_okI:
  assumes "\<And>e cs. sn_sigs s e = Some cs \<Longrightarrow> sn_nothrow s e \<Longrightarrow> sn_connect s e = None"
    and "\<And>e cs w c w'. sn_sigs s e = Some cs \<Longrightarrow> sn_run s e w = Some (c, w') \<Longrightarrow> sig_of c \<in> set cs"
  shows "sender_ok s"
  using assms by (simp add: sender_ok_def)

lemma sender_okD:
  assumes "sender_ok s" and "sn_sigs s e = Some cs"
  shows "sn_nothrow s e \<Longrightarrow> sn_connect s e = None"
    and "sn_run s e w = Some (c, w') \<Longrightarrow> sig_of c \<in> set cs"
  using assms unfolding sender_ok_def by blast+

section \<open>Factories\<close>

text \<open>\<open>just\<close>, \<open>just_error\<close>, \<open>just_stopped\<close>: one implementation over the tag and the tuple.\<close>

definition just_impl :: "compl \<Rightarrow> 'u sender" where
  "just_impl c = \<lparr>sn_sigs = (\<lambda>e. Some [sig_of c]), sn_nothrow = (\<lambda>e. True), sn_connect = (\<lambda>e. None),
                  sn_run = (\<lambda>e w. Some (c, w)),
                  sn_sched = (\<lambda>t e. if t = sig_tag (sig_of c) then e_sched e else None)\<rparr>"

definition just :: "obj list \<Rightarrow> 'u sender" where "just xs = just_impl (SetValue xs)"
definition just_error :: "obj \<Rightarrow> 'u sender" where "just_error x = just_impl (SetError x)"
definition just_stopped :: "'u sender" where "just_stopped = just_impl SetStopped"

lemma just_ok: "sender_ok (just_impl c)"
  by (rule sender_okI) (auto simp: just_impl_def)

text \<open>\<open>read_env\<close>: a query is a callable on the environment.\<close>

record query =
  q_type :: "env \<Rightarrow> ty option" \<comment> \<open>\<open>None\<close>: the environment does not answer the query\<close>
  q_nothrow :: "env \<Rightarrow> bool"
  q_call :: "env \<Rightarrow> int + obj"

definition query_ok :: "query \<Rightarrow> bool" where
  "query_ok q \<longleftrightarrow> (\<forall>e t. q_type q e = Some t \<longrightarrow>
     (case q_call q e of Inl x \<Rightarrow> \<not> q_nothrow q e | Inr v \<Rightarrow> ty_of v = t))"

definition read_env :: "query \<Rightarrow> 'u sender" where
  "read_env q =
     \<lparr>sn_sigs = (\<lambda>e. case q_type q e of
          None \<Rightarrow> None
        | Some t \<Rightarrow> Some (SigValue [t] # eptr_unless (q_nothrow q e))),
      sn_nothrow = (\<lambda>e. True), sn_connect = (\<lambda>e. None),
      sn_run = (\<lambda>e w. Some (case q_call q e of Inl x \<Rightarrow> SetError (Exn x) | Inr v \<Rightarrow> SetValue [v], w)),
      sn_sched = (\<lambda>t e. e_sched e)\<rparr>"

lemma read_env_ok: "query_ok q \<Longrightarrow> sender_ok (read_env q)"
  by (rule sender_okI)
    (fastforce simp: read_env_def query_ok_def eptr_unless_def eptr_sig_def split: option.splits sum.splits)+

text \<open>\<open>write_env\<close>: the child sees the joined environment.\<close>

definition write_env :: "(env \<Rightarrow> env) \<Rightarrow> 'u sender \<Rightarrow> 'u sender" where
  "write_env f s =
     \<lparr>sn_sigs = (\<lambda>e. sn_sigs s (f e)), sn_nothrow = (\<lambda>e. sn_nothrow s (f e)),
      sn_connect = (\<lambda>e. sn_connect s (f e)), sn_run = (\<lambda>e w. sn_run s (f e) w),
      sn_sched = sn_sched s\<rparr>"

lemma write_env_ok: "sender_ok s \<Longrightarrow> sender_ok (write_env f s)"
  by (simp add: sender_ok_def write_env_def)

section \<open>Adaptors that react to the child's completion\<close>

text \<open>
  A basic adaptor connects its child and hands the child's completion to its \<open>__complete\<close>
  function.
\<close>

definition basic_adaptor ::
  "(env \<Rightarrow> sig list \<Rightarrow> sig list option) \<Rightarrow> (compl \<Rightarrow> 'u world \<Rightarrow> 'u outcome) \<Rightarrow> 'u sender \<Rightarrow> 'u sender" where
  "basic_adaptor tx complete s =
     \<lparr>sn_sigs = (\<lambda>e. Option.bind (sn_sigs s e) (tx e)), sn_nothrow = sn_nothrow s,
      sn_connect = sn_connect s,
      sn_run = (\<lambda>e w. map_option (\<lambda>(c, w'). complete c w') (sn_run s e w)),
      sn_sched = sn_sched s\<rparr>"

lemma basic_adaptor_ok:
  assumes "sender_ok s"
    and "\<And>e cs ds c w. tx e cs = Some ds \<Longrightarrow> sig_of c \<in> set cs \<Longrightarrow> sig_of (fst (complete c w)) \<in> set ds"
  shows "sender_ok (basic_adaptor tx complete s)"
proof (rule sender_okI)
  fix e cs assume "sn_sigs (basic_adaptor tx complete s) e = Some cs"
  then obtain cs0 where c0: "sn_sigs s e = Some cs0" "tx e cs0 = Some cs"
    by (auto simp: basic_adaptor_def bind_eq_Some_conv)
  then show "sn_nothrow (basic_adaptor tx complete s) e \<Longrightarrow> sn_connect (basic_adaptor tx complete s) e = None"
    using sender_okD(1) [OF assms(1) c0(1)] by (simp add: basic_adaptor_def)
  fix w c w' assume "sn_run (basic_adaptor tx complete s) e w = Some (c, w')"
  then obtain c0' w0 where "sn_run s e w = Some (c0', w0)" "complete c0' w0 = (c, w')"
    by (auto simp: basic_adaptor_def)
  with sender_okD(2) [OF assms(1) c0(1)] assms(2) [OF c0(2)] show "sig_of c \<in> set cs"
    by (metis fst_conv)
qed

subsection \<open>\<open>then\<close>, \<open>upon_error\<close>, \<open>upon_stopped\<close>\<close>

definition then_complete :: "'u callable \<Rightarrow> compl \<Rightarrow> 'u world \<Rightarrow> 'u outcome" where
  "then_complete f c w = (case c of SetValue xs \<Rightarrow> set_value_from f xs w | _ \<Rightarrow> (c, w))"

definition then_signatures :: "'u callable \<Rightarrow> sig list \<Rightarrow> sig list option" where
  "then_signatures f cs = transform_signatures cs (invoke_signatures f) keep_error keep_stopped []"

definition then_sender :: "'u callable \<Rightarrow> 'u sender \<Rightarrow> 'u sender" where
  "then_sender f = basic_adaptor (\<lambda>e. then_signatures f) (then_complete f)"

definition upon_error_complete :: "'u callable \<Rightarrow> compl \<Rightarrow> 'u world \<Rightarrow> 'u outcome" where
  "upon_error_complete f c w = (case c of SetError x \<Rightarrow> set_value_from f [x] w | _ \<Rightarrow> (c, w))"

definition upon_error_signatures :: "'u callable \<Rightarrow> sig list \<Rightarrow> sig list option" where
  "upon_error_signatures f cs =
     transform_signatures cs keep_value (\<lambda>t. invoke_signatures f [t]) keep_stopped []"

definition upon_error :: "'u callable \<Rightarrow> 'u sender \<Rightarrow> 'u sender" where
  "upon_error f = basic_adaptor (\<lambda>e. upon_error_signatures f) (upon_error_complete f)"

definition upon_stopped_complete :: "'u callable \<Rightarrow> compl \<Rightarrow> 'u world \<Rightarrow> 'u outcome" where
  "upon_stopped_complete f c w = (case c of SetStopped \<Rightarrow> set_value_from f [] w | _ \<Rightarrow> (c, w))"

definition upon_stopped_signatures :: "'u callable \<Rightarrow> sig list \<Rightarrow> sig list option" where
  "upon_stopped_signatures f cs =
     (case c_result f [] of
        None \<Rightarrow> None
      | Some r \<Rightarrow> transform_signatures cs keep_value keep_error (Some [single_value_sig r])
                    (eptr_unless (c_nothrow f [])))"

definition upon_stopped :: "'u callable \<Rightarrow> 'u sender \<Rightarrow> 'u sender" where
  "upon_stopped f = basic_adaptor (\<lambda>e. upon_stopped_signatures f) (upon_stopped_complete f)"

lemma keeps [simp]:
  "keep_value ts = Some l \<longleftrightarrow> l = [SigValue ts]" "keep_error t = Some l \<longleftrightarrow> l = [SigError t]"
  "keep_stopped = Some l \<longleftrightarrow> l = [SigStopped]" "ignore_value ts = Some l \<longleftrightarrow> l = []"
  by (auto simp: keep_value_def keep_error_def keep_stopped_def ignore_value_def)

lemma then_ok:
  assumes "callable_ok f" and "sender_ok s"
  shows "sender_ok (then_sender f s)"
  unfolding then_sender_def
proof (rule basic_adaptor_ok [OF assms(2)])
  fix cs ds c and w :: "'a world"
  assume "then_signatures f cs = Some ds" "sig_of c \<in> set cs"
  then obtain l where "transform_one (invoke_signatures f) keep_error keep_stopped (sig_of c) = Some l" "set l \<subseteq> set ds"
    unfolding then_signatures_def by (rule transform_signatures_mem)
  then show "sig_of (fst (then_complete f c w)) \<in> set ds"
    using set_value_from_ok(1) [OF assms(1)] by (cases c) (auto simp: then_complete_def)
qed

lemma upon_error_ok:
  assumes "callable_ok f" and "sender_ok s"
  shows "sender_ok (upon_error f s)"
  unfolding upon_error_def
proof (rule basic_adaptor_ok [OF assms(2)])
  fix cs ds c and w :: "'a world"
  assume "upon_error_signatures f cs = Some ds" "sig_of c \<in> set cs"
  then obtain l where "transform_one keep_value (\<lambda>t. invoke_signatures f [t]) keep_stopped (sig_of c) = Some l" "set l \<subseteq> set ds"
    unfolding upon_error_signatures_def by (rule transform_signatures_mem)
  then show "sig_of (fst (upon_error_complete f c w)) \<in> set ds"
    using set_value_from_ok(1) [OF assms(1), of "compl_args c"] by (cases c) (auto simp: upon_error_complete_def)
qed

lemma upon_stopped_ok:
  assumes "callable_ok f" and "sender_ok s"
  shows "sender_ok (upon_stopped f s)"
  unfolding upon_stopped_def
proof (rule basic_adaptor_ok [OF assms(2)])
  fix cs ds c and w :: "'a world"
  assume a: "upon_stopped_signatures f cs = Some ds" and m: "sig_of c \<in> set cs"
  then obtain r where r: "c_result f [] = Some r" and tx: "transform_signatures cs keep_value keep_error
      (Some [single_value_sig r]) (eptr_unless (c_nothrow f [])) = Some ds"
    by (auto simp: upon_stopped_signatures_def split: option.splits)
  from transform_signatures_mem [OF tx m] obtain l where
    l: "transform_one keep_value keep_error (Some [single_value_sig r]) (sig_of c) = Some l" "set l \<subseteq> set ds"
      "set (eptr_unless (c_nothrow f [])) \<subseteq> set ds" by blast
  have "invoke_signatures f (map ty_of []) = Some (single_value_sig r # eptr_unless (c_nothrow f []))"
    using r by (simp add: invoke_signatures_def)
  note ok = set_value_from_ok(1) [OF assms(1) this, of w]
  show "sig_of (fst (upon_stopped_complete f c w)) \<in> set ds"
    using l ok by (cases c) (auto simp: upon_stopped_complete_def)
qed

subsection \<open>\<open>into_variant\<close>, \<open>into_tuple\<close>, \<open>stopped_as_optional\<close>\<close>

text \<open>The decayed value tuples of a child, in order and without repetition.\<close>

definition value_types :: "sig list \<Rightarrow> ty list list" where
  "value_types cs = remdups (map sig_args (filter (\<lambda>s. sig_tag s = ValueTag) cs))"

text \<open>
  These algorithms take the type they construct from the child's signatures; constructing it
  copies the arguments and may throw.
\<close>

definition collecting_adaptor ::
  "(sig list \<Rightarrow> sig list option) \<Rightarrow> (sig list \<Rightarrow> compl \<Rightarrow> compl) \<Rightarrow> 'u sender \<Rightarrow> 'u sender" where
  "collecting_adaptor tx complete s =
     \<lparr>sn_sigs = (\<lambda>e. Option.bind (sn_sigs s e) tx), sn_nothrow = sn_nothrow s, sn_connect = sn_connect s,
      sn_run = (\<lambda>e w. map_option (\<lambda>(c, w'). (complete (child_sigs s e) c, w')) (sn_run s e w)),
      sn_sched = sn_sched s\<rparr>"

definition or_throw :: "universe \<Rightarrow> obj list \<Rightarrow> compl \<Rightarrow> compl" where
  "or_throw U xs c = (case copy_args U xs of Some x \<Rightarrow> SetError (Exn x) | None \<Rightarrow> c)"

definition into_variant_complete :: "universe \<Rightarrow> sig list \<Rightarrow> compl \<Rightarrow> compl" where
  "into_variant_complete U cs c =
     (case c of SetValue xs \<Rightarrow> or_throw U xs (SetValue [Variant (value_types cs) xs]) | _ \<Rightarrow> c)"

definition into_variant_signatures :: "sig list \<Rightarrow> sig list option" where
  "into_variant_signatures cs = transform_signatures cs ignore_value keep_error keep_stopped
     [SigValue [TVariant (value_types cs)], eptr_sig]"

definition into_variant :: "universe \<Rightarrow> 'u sender \<Rightarrow> 'u sender" where
  "into_variant U = collecting_adaptor into_variant_signatures (into_variant_complete U)"

definition into_tuple_complete :: "universe \<Rightarrow> sig list \<Rightarrow> compl \<Rightarrow> compl" where
  "into_tuple_complete U cs c =
     (case c of SetValue xs \<Rightarrow> or_throw U xs (SetValue [Tuple xs]) | _ \<Rightarrow> c)"

definition into_tuple_signatures :: "sig list \<Rightarrow> sig list option" where
  "into_tuple_signatures cs =
     (case value_types cs of
        [ts] \<Rightarrow> transform_signatures cs ignore_value keep_error keep_stopped [eptr_sig, SigValue [TTuple ts]]
      | _ \<Rightarrow> None)"

definition into_tuple :: "universe \<Rightarrow> 'u sender \<Rightarrow> 'u sender" where
  "into_tuple U = collecting_adaptor into_tuple_signatures (into_tuple_complete U)"

text \<open>The value type of a child with one value completion of one argument.\<close>

definition single_value_type :: "sig list \<Rightarrow> ty option" where
  "single_value_type cs = (case value_types cs of [[t]] \<Rightarrow> Some t | _ \<Rightarrow> None)"

definition stopped_as_optional_complete :: "universe \<Rightarrow> sig list \<Rightarrow> compl \<Rightarrow> compl" where
  "stopped_as_optional_complete U cs c =
     (let t = (case single_value_type cs of Some t \<Rightarrow> t | None \<Rightarrow> TExn) in
      case c of
        SetValue xs \<Rightarrow> or_throw U xs (SetValue [Optional t (Some (hd xs))])
      | SetError x \<Rightarrow> SetError x
      | SetStopped \<Rightarrow> SetValue [Optional t None])"

definition stopped_as_optional_signatures :: "sig list \<Rightarrow> sig list option" where
  "stopped_as_optional_signatures cs =
     (case single_value_type cs of
        None \<Rightarrow> None
      | Some t \<Rightarrow> transform_signatures cs (\<lambda>ts. Some [SigValue (map TOptional ts)]) keep_error (Some []) [eptr_sig])"

definition stopped_as_optional :: "universe \<Rightarrow> 'u sender \<Rightarrow> 'u sender" where
  "stopped_as_optional U = collecting_adaptor stopped_as_optional_signatures (stopped_as_optional_complete U)"

lemma collecting_adaptor_ok:
  assumes "sender_ok s"
    and "\<And>cs ds c. tx cs = Some ds \<Longrightarrow> sig_of c \<in> set cs \<Longrightarrow> sig_of (complete cs c) \<in> set ds"
  shows "sender_ok (collecting_adaptor tx complete s)"
proof (rule sender_okI)
  fix e cs assume "sn_sigs (collecting_adaptor tx complete s) e = Some cs"
  then obtain cs0 where c0: "sn_sigs s e = Some cs0" "tx cs0 = Some cs"
    by (auto simp: collecting_adaptor_def bind_eq_Some_conv)
  then show "sn_nothrow (collecting_adaptor tx complete s) e \<Longrightarrow> sn_connect (collecting_adaptor tx complete s) e = None"
    using sender_okD(1) [OF assms(1) c0(1)] by (simp add: collecting_adaptor_def)
  fix w c w' assume "sn_run (collecting_adaptor tx complete s) e w = Some (c, w')"
  then obtain d where "sn_run s e w = Some (d, w')" "c = complete cs0 d"
    using c0(1) by (auto simp: collecting_adaptor_def child_sigs_def)
  with sender_okD(2) [OF assms(1) c0(1)] assms(2) [OF c0(2)] show "sig_of c \<in> set cs" by simp
qed

lemma or_throw_sig: "sig_of (or_throw U xs c) = eptr_sig \<or> or_throw U xs c = c"
  by (auto simp: or_throw_def eptr_sig_def split: option.split)

lemma value_types_mem: "SigValue ts \<in> set cs \<Longrightarrow> ts \<in> set (value_types cs)"
  by (force simp: value_types_def)

lemma into_variant_ok: "sender_ok s \<Longrightarrow> sender_ok (into_variant U s)"
  unfolding into_variant_def
proof (rule collecting_adaptor_ok)
  fix cs ds c assume tx: "into_variant_signatures cs = Some ds" and m: "sig_of c \<in> set cs"
  obtain l where "transform_one ignore_value keep_error keep_stopped (sig_of c) = Some l" "set l \<subseteq> set ds"
    "set [SigValue [TVariant (value_types cs)], eptr_sig] \<subseteq> set ds"
    by (rule transform_signatures_mem [OF tx [unfolded into_variant_signatures_def] m])
  then show "sig_of (into_variant_complete U cs c) \<in> set ds"
    using or_throw_sig [of U "compl_args c" "SetValue [Variant (value_types cs) (compl_args c)]"]
    by (cases c) (auto simp: into_variant_complete_def)
qed

lemma into_tuple_ok: "sender_ok s \<Longrightarrow> sender_ok (into_tuple U s)"
  unfolding into_tuple_def
proof (rule collecting_adaptor_ok)
  fix cs ds c assume tx: "into_tuple_signatures cs = Some ds" and m: "sig_of c \<in> set cs"
  from tx obtain ts where ts: "value_types cs = [ts]"
    "transform_signatures cs ignore_value keep_error keep_stopped [eptr_sig, SigValue [TTuple ts]] = Some ds"
    by (auto simp: into_tuple_signatures_def split: list.splits)
  obtain l where "transform_one ignore_value keep_error keep_stopped (sig_of c) = Some l" "set l \<subseteq> set ds"
    "set [eptr_sig, SigValue [TTuple ts]] \<subseteq> set ds" by (rule transform_signatures_mem [OF ts(2) m])
  with m ts(1) show "sig_of (into_tuple_complete U cs c) \<in> set ds"
    using or_throw_sig [of U "compl_args c" "SetValue [Tuple (compl_args c)]"] value_types_mem [of "sig_args (sig_of c)" cs]
    by (cases c) (auto simp: into_tuple_complete_def)
qed

lemma single_value_type_mem:
  assumes "single_value_type cs = Some t" and "SigValue ts \<in> set cs"
  shows "ts = [t]"
proof -
  have "value_types cs = [[t]]" using assms(1) by (auto simp: single_value_type_def split: list.splits)
  with value_types_mem [OF assms(2)] show ?thesis by simp
qed

lemma stopped_as_optional_complete_sig:
  assumes "stopped_as_optional_signatures cs = Some ds" and m: "sig_of c \<in> set cs \<or> c = SetStopped"
    and st: "c = SetStopped \<Longrightarrow> \<exists>ts. SigValue ts \<in> set cs"
  shows "sig_of (stopped_as_optional_complete U cs c) \<in> set ds"
proof -
  from assms(1) obtain t where t: "single_value_type cs = Some t"
    and tx: "transform_signatures cs (\<lambda>ts. Some [SigValue (map TOptional ts)]) keep_error (Some []) [eptr_sig] = Some ds"
    by (auto simp: stopped_as_optional_signatures_def split: option.splits)
  show ?thesis
  proof (cases c)
    case (SetValue xs)
    with m have "SigValue (map ty_of xs) \<in> set cs" by simp
    from transform_signatures_mem [OF tx this] single_value_type_mem [OF t this] obtain x where
      x: "xs = [x]" "ty_of x = t" "SigValue [TOptional t] \<in> set ds" "eptr_sig \<in> set ds" by auto
    then show ?thesis using or_throw_sig [of U xs "SetValue [Optional t (Some (hd xs))]"] SetValue t
      by (auto simp: stopped_as_optional_complete_def)
  next
    case (SetError y)
    then show ?thesis using m transform_signatures_mem [OF tx, of "SigError (ty_of y)"]
      by (auto simp: stopped_as_optional_complete_def)
  next
    case SetStopped
    then obtain ts where "SigValue ts \<in> set cs" using st by blast
    from transform_signatures_mem [OF tx this] single_value_type_mem [OF t this]
    show ?thesis using SetStopped t by (auto simp: stopped_as_optional_complete_def)
  qed
qed

lemma single_value_type_sends: "single_value_type cs = Some t \<Longrightarrow> \<exists>ts. SigValue ts \<in> set cs"
proof -
  assume "single_value_type cs = Some t"
  then have "value_types cs = [[t]]" by (auto simp: single_value_type_def split: list.splits)
  then have "[t] \<in> set (map sig_args (filter (\<lambda>s. sig_tag s = ValueTag) cs))"
    unfolding value_types_def by (metis list.set_intros(1) set_remdups)
  then obtain s where "s \<in> set cs" "sig_tag s = ValueTag" by auto
  moreover from this(2) have "s = SigValue (sig_args s)" by (cases s) simp_all
  ultimately have "SigValue (sig_args s) \<in> set cs" by simp
  then show ?thesis by blast
qed

lemma stopped_as_optional_ok: "sender_ok s \<Longrightarrow> sender_ok (stopped_as_optional U s)"
  unfolding stopped_as_optional_def
proof (rule collecting_adaptor_ok)
  fix cs ds c assume a: "stopped_as_optional_signatures cs = Some ds" and m: "sig_of c \<in> set cs"
  have "\<exists>ts. SigValue ts \<in> set cs"
    using a single_value_type_sends by (auto simp: stopped_as_optional_signatures_def split: option.splits)
  with stopped_as_optional_complete_sig [OF a] m show "sig_of (stopped_as_optional_complete U cs c) \<in> set ds"
    by blast
qed

section \<open>Adaptors that start a second sender\<close>

subsection \<open>\<open>let_value\<close>, \<open>let_error\<close>, \<open>let_stopped\<close>\<close>

text \<open>
  The function of a \<open>let\<close> algorithm returns a sender; its type fixes the sender's signatures
  and whether connecting it throws.
\<close>

record 'u let_fun =
  l_call :: "obj list \<Rightarrow> 'u world \<Rightarrow> (int + 'u sender) \<times> 'u world"
  l_sigs :: "ty list \<Rightarrow> env \<Rightarrow> sig list option"
  l_nothrow :: "ty list \<Rightarrow> bool"
  l_nothrow_connect :: "ty list \<Rightarrow> env \<Rightarrow> bool"

definition let_fun_ok :: "'u let_fun \<Rightarrow> bool" where
  "let_fun_ok f \<longleftrightarrow> (\<forall>xs w.
     case fst (l_call f xs w) of
       Inl x \<Rightarrow> \<not> l_nothrow f (map ty_of xs)
     | Inr s \<Rightarrow> sender_ok s \<and> (\<forall>e. sn_sigs s e = l_sigs f (map ty_of xs) e) \<and>
         (\<forall>e. l_nothrow_connect f (map ty_of xs) e \<longrightarrow> sn_connect s e = None))"

text \<open>\<open>__opstate_base::__impl\<close> with \<open>__start_next\<close>.\<close>

definition let_complete ::
  "universe \<Rightarrow> set_tag \<Rightarrow> 'u let_fun \<Rightarrow> env \<Rightarrow> compl \<Rightarrow> 'u world \<Rightarrow> 'u outcome option" where
  "let_complete U tag f e c w =
     (if sig_tag (sig_of c) = tag
      then case copy_args U (compl_args c) of
        Some x \<Rightarrow> Some (SetError (Exn x), w)
      | None \<Rightarrow>
          (case l_call f (compl_args c) w of
             (Inl x, w') \<Rightarrow> Some (SetError (Exn x), w')
           | (Inr s, w') \<Rightarrow>
               (case sn_connect s e of
                  Some x \<Rightarrow> Some (SetError (Exn x), w')
                | None \<Rightarrow> sn_run s e w'))
      else Some (c, w))"

definition let_transform :: "universe \<Rightarrow> set_tag \<Rightarrow> 'u let_fun \<Rightarrow> env \<Rightarrow> sig \<Rightarrow> sig list option" where
  "let_transform U tag f e s =
     (if sig_tag s \<noteq> tag then Some [s]
      else case l_sigs f (sig_args s) e of
        None \<Rightarrow> None
      | Some cs \<Rightarrow> Some (cs @ eptr_unless (nothrow_copy_args U (sig_args s) \<and> l_nothrow f (sig_args s) \<and>
                                          l_nothrow_connect f (sig_args s) e)))"

definition let_impl :: "universe \<Rightarrow> set_tag \<Rightarrow> 'u let_fun \<Rightarrow> 'u sender \<Rightarrow> 'u sender" where
  "let_impl U tag f s =
     \<lparr>sn_sigs = (\<lambda>e. Option.bind (sn_sigs s e) (transform_all (let_transform U tag f (secondary_env s [tag] e)))),
      sn_nothrow = sn_nothrow s, sn_connect = sn_connect s,
      sn_run = (\<lambda>e w. Option.bind (sn_run s e w) (\<lambda>(c, w'). let_complete U tag f (secondary_env s [tag] e) c w')),
      sn_sched = sn_sched s\<rparr>"

definition let_value :: "universe \<Rightarrow> 'u let_fun \<Rightarrow> 'u sender \<Rightarrow> 'u sender" where
  "let_value U = let_impl U ValueTag"
definition let_error :: "universe \<Rightarrow> 'u let_fun \<Rightarrow> 'u sender \<Rightarrow> 'u sender" where
  "let_error U = let_impl U ErrorTag"
definition let_stopped :: "universe \<Rightarrow> 'u let_fun \<Rightarrow> 'u sender \<Rightarrow> 'u sender" where
  "let_stopped U = let_impl U StoppedTag"

definition stopped_error_fun :: "obj \<Rightarrow> 'u let_fun" where
  "stopped_error_fun err =
     \<lparr>l_call = (\<lambda>xs w. (Inr (just_error err), w)), l_sigs = (\<lambda>ts e. Some [SigError (ty_of err)]),
      l_nothrow = (\<lambda>ts. True), l_nothrow_connect = (\<lambda>ts e. True)\<rparr>"

definition stopped_as_error :: "universe \<Rightarrow> obj \<Rightarrow> 'u sender \<Rightarrow> 'u sender" where
  "stopped_as_error U err s = let_stopped U (stopped_error_fun err) s"

lemma transform_all_mem:
  assumes "transform_all tx cs = Some ds" and "s \<in> set cs"
  obtains l where "tx s = Some l" and "set l \<subseteq> set ds"
proof -
  from assms(1) obtain ls where ls: "those (map tx cs) = Some ls" "ds = concat_signatures ls"
    by (auto simp: transform_all_def)
  then have m: "map tx cs = map Some ls" by (simp add: those_Some)
  have "tx s \<in> set (map tx cs)" using assms(2) by simp
  then obtain l where "l \<in> set ls" "tx s = Some l" unfolding m by auto
  with ls(2) show ?thesis using that by auto
qed

lemma let_complete_ok:
  assumes U: "universe_ok U" and f: "let_fun_ok f"
    and tx: "let_transform U tag f e (sig_of c) = Some l"
    and r: "let_complete U tag f e c w = Some (c', w')"
  shows "sig_of c' \<in> set l"
proof (cases "sig_tag (sig_of c) = tag")
  case False
  then show ?thesis using tx r by (auto simp: let_complete_def let_transform_def)
next
  case True
  let ?ts = "sig_args (sig_of c)"
  from True tx obtain cs where cs: "l_sigs f ?ts e = Some cs"
    "l = cs @ eptr_unless (nothrow_copy_args U ?ts \<and> l_nothrow f ?ts \<and> l_nothrow_connect f ?ts e)"
    by (auto simp: let_transform_def split: option.splits)
  have ep: "SigError TExn \<in> set l" if "\<not> (nothrow_copy_args U ?ts \<and> l_nothrow f ?ts \<and> l_nothrow_connect f ?ts e)"
    using cs(2) that by (auto simp: eptr_unless_def eptr_sig_def)
  obtain res w1 where call: "l_call f (compl_args c) w = (res, w1)" by force
  note fo = f [unfolded let_fun_ok_def, rule_format, of "compl_args c" w]
  show ?thesis
  proof (cases "copy_args U (compl_args c)")
    case (Some x)
    then have "\<not> nothrow_copy_args U ?ts" using copy_args_nothrow [OF U, of "compl_args c"] by auto
    with ep r True Some show ?thesis by (auto simp: let_complete_def)
  next
    case None
    show ?thesis
    proof (cases res)
      case (Inl x)
      then have "\<not> l_nothrow f ?ts" using fo call by simp
      with ep r True None call Inl show ?thesis by (auto simp: let_complete_def)
    next
      case (Inr s)
      then have s: "sender_ok s" "sn_sigs s e = Some cs" "l_nothrow_connect f ?ts e \<longrightarrow> sn_connect s e = None"
        using fo call cs(1) by simp_all
      show ?thesis
      proof (cases "sn_connect s e")
        case (Some x)
        with ep r True None call Inr s(3) show ?thesis by (auto simp: let_complete_def)
      next
        case no: None
        with r True None call Inr have "sn_run s e w1 = Some (c', w')" by (simp add: let_complete_def)
        with sender_okD(2) [OF s(1,2)] cs(2) show ?thesis by simp
      qed
    qed
  qed
qed

lemma let_impl_ok:
  assumes "universe_ok U" and "let_fun_ok f" and "sender_ok s"
  shows "sender_ok (let_impl U tag f s)"
proof (rule sender_okI)
  fix e cs assume "sn_sigs (let_impl U tag f s) e = Some cs"
  then obtain cs0 where c0: "sn_sigs s e = Some cs0" "transform_all (let_transform U tag f (secondary_env s [tag] e)) cs0 = Some cs"
    by (auto simp: let_impl_def bind_eq_Some_conv)
  then show "sn_nothrow (let_impl U tag f s) e \<Longrightarrow> sn_connect (let_impl U tag f s) e = None"
    using sender_okD(1) [OF assms(3) c0(1)] by (simp add: let_impl_def)
  fix w c w' assume "sn_run (let_impl U tag f s) e w = Some (c, w')"
  then obtain c1 w1 where r: "sn_run s e w = Some (c1, w1)" "let_complete U tag f (secondary_env s [tag] e) c1 w1 = Some (c, w')"
    by (auto simp: let_impl_def bind_eq_Some_conv)
  from sender_okD(2) [OF assms(3) c0(1) r(1)] have "sig_of c1 \<in> set cs0" .
  from transform_all_mem [OF c0(2) this] obtain l where "let_transform U tag f (secondary_env s [tag] e) (sig_of c1) = Some l" "set l \<subseteq> set cs" .
  with let_complete_ok [OF assms(1,2) this(1) r(2)] show "sig_of c \<in> set cs" by blast
qed

lemma stopped_as_error_ok: "universe_ok U \<Longrightarrow> sender_ok s \<Longrightarrow> sender_ok (stopped_as_error U err s)"
  unfolding stopped_as_error_def let_stopped_def
  by (rule let_impl_ok)
    (simp_all add: let_fun_ok_def stopped_error_fun_def just_error_def just_ok, simp_all add: just_impl_def)

subsection \<open>\<open>sequence\<close>\<close>

text \<open>
  \<open>__seq::__sndr\<close> of two senders: the first one's value (which must be of no arguments) starts
  the second, connecting which may throw.  More senders nest to the left.
\<close>

definition eat_value_signatures :: "ty list \<Rightarrow> sig list option" where
  "eat_value_signatures ts = (if ts = [] then Some [] else None)"

definition sequence_signatures :: "'u sender \<Rightarrow> 'u sender \<Rightarrow> env \<Rightarrow> sig list option" where
  "sequence_signatures s1 s2 e =
     Option.bind (sn_sigs s1 e) (\<lambda>cs1.
       if \<not> sends ValueTag cs1 then Some cs1
       else Option.bind (transform_signatures cs1 eat_value_signatures keep_error keep_stopped []) (\<lambda>ds1.
            let e2 = secondary_env s1 [ValueTag] e in
            Option.bind (sn_sigs s2 e2) (\<lambda>cs2.
              Some (concat_signatures [ds1, cs2, eptr_unless (sn_nothrow s2 e2)]))))"

text \<open>The receivers of the two operations, with \<open>__start_next\<close>.\<close>

definition sequence_start_next :: "'u sender \<Rightarrow> env \<Rightarrow> 'u world \<Rightarrow> 'u outcome option" where
  "sequence_start_next s2 e w =
     (case sn_connect s2 e of Some x \<Rightarrow> Some (SetError (Exn x), w) | None \<Rightarrow> sn_run s2 e w)"

definition sequence_receive1 :: "'u sender \<Rightarrow> env \<Rightarrow> compl \<Rightarrow> 'u world \<Rightarrow> 'u outcome option" where
  "sequence_receive1 s2 e c w =
     (case c of SetValue xs \<Rightarrow> sequence_start_next s2 e w | _ \<Rightarrow> Some (c, w))"

text \<open>\<open>__seq::__attrs\<close>\<close>

definition sequence_sched :: "'u sender \<Rightarrow> 'u sender \<Rightarrow> set_tag \<Rightarrow> env \<Rightarrow> nat option" where
  "sequence_sched s1 s2 t e =
     (let e2 = secondary_env s1 [ValueTag] e;
          k1 = (if sends t (child_sigs s1 e) then sn_sched s1 t e else None);
          k2 = (if sends t (child_sigs s2 e2) then sn_sched s2 t e2 else None)
      in if t = ValueTag then k2
         else case (k1, k2) of (Some k, None) \<Rightarrow> Some k | (None, Some k) \<Rightarrow> Some k | _ \<Rightarrow> None)"

definition sequence2 :: "'u sender \<Rightarrow> 'u sender \<Rightarrow> 'u sender" where
  "sequence2 s1 s2 =
     \<lparr>sn_sigs = sequence_signatures s1 s2, sn_nothrow = sn_nothrow s1, sn_connect = sn_connect s1,
      sn_run = (\<lambda>e w. Option.bind (sn_run s1 e w) (\<lambda>(c, w'). sequence_receive1 s2 (secondary_env s1 [ValueTag] e) c w')),
      sn_sched = sequence_sched s1 s2\<rparr>"

text \<open>\<open>__sequence_t::transform_sender\<close>\<close>

fun sequence :: "'u sender list \<Rightarrow> 'u sender" where
  "sequence [] = just []"
| "sequence [s] = s"
| "sequence (s1 # s2 # ss) = sequence (sequence2 s1 s2 # ss)"

lemma sequence2_ok:
  assumes "sender_ok s1" and "sender_ok s2"
  shows "sender_ok (sequence2 s1 s2)"
proof (rule sender_okI)
  fix e cs assume "sn_sigs (sequence2 s1 s2) e = Some cs"
  let ?e2 = "secondary_env s1 [ValueTag] e"
  note \<open>sn_sigs (sequence2 s1 s2) e = Some cs\<close>
  then have sg: "sequence_signatures s1 s2 e = Some cs" by (simp add: sequence2_def)
  then obtain cs1 where c1: "sn_sigs s1 e = Some cs1"
    by (auto simp: sequence_signatures_def bind_eq_Some_conv)
  then show "sn_nothrow (sequence2 s1 s2) e \<Longrightarrow> sn_connect (sequence2 s1 s2) e = None"
    using sender_okD(1) [OF assms(1) c1] by (simp add: sequence2_def)
  fix w c w' assume "sn_run (sequence2 s1 s2) e w = Some (c, w')"
  then obtain d w1 where r: "sn_run s1 e w = Some (d, w1)" "sequence_receive1 s2 ?e2 d w1 = Some (c, w')"
    by (auto simp: sequence2_def bind_eq_Some_conv)
  have d: "sig_of d \<in> set cs1" by (rule sender_okD(2) [OF assms(1) c1 r(1)])
  show "sig_of c \<in> set cs"
  proof (cases "sends ValueTag cs1")
    case False
    then have "cs = cs1" using sg c1 by (simp add: sequence_signatures_def)
    moreover have "\<forall>xs. d \<noteq> SetValue xs" using False d by (auto simp: sends_def list_ex_iff)
    ultimately show ?thesis using r(2) d by (cases d) (auto simp: sequence_receive1_def)
  next
    case True
    then obtain ds1 cs2 where s: "transform_signatures cs1 eat_value_signatures keep_error keep_stopped [] = Some ds1"
      "sn_sigs s2 ?e2 = Some cs2" "cs = concat_signatures [ds1, cs2, eptr_unless (sn_nothrow s2 ?e2)]"
      using sg c1 by (auto simp: sequence_signatures_def Let_def bind_eq_Some_conv)
    obtain l where l: "transform_one eat_value_signatures keep_error keep_stopped (sig_of d) = Some l" "set l \<subseteq> set ds1"
      by (rule transform_signatures_mem [OF s(1) d])
    show ?thesis
    proof (cases "\<exists>xs. d = SetValue xs")
      case True
      then have n: "sequence_start_next s2 ?e2 w1 = Some (c, w')" using r(2) by (auto simp: sequence_receive1_def)
      show ?thesis
      proof (cases "sn_connect s2 ?e2")
        case None
        with n sender_okD(2) [OF assms(2) s(2)] s(3) show ?thesis by (auto simp: sequence_start_next_def)
      next
        case (Some x)
        then have "\<not> sn_nothrow s2 ?e2" using sender_okD(1) [OF assms(2) s(2)] by auto
        with n Some s(3) show ?thesis by (auto simp: sequence_start_next_def eptr_unless_def eptr_sig_def)
      qed
    next
      case False
      then show ?thesis using r(2) l s(3) by (cases d) (auto simp: sequence_receive1_def)
    qed
  qed
qed

lemma sequence_ok: "\<forall>s \<in> set ss. sender_ok s \<Longrightarrow> sender_ok (sequence ss)"
  by (induction ss rule: sequence.induct) (auto simp: just_def just_ok sequence2_ok)

subsection \<open>\<open>finally\<close>\<close>

text \<open>
  The initial operation's completion is stored, copying its arguments, unless the final sender
  never completes with a value; then the final sender runs, and on its value the stored
  completion is delivered.  Both operations are connected up front, the final one first.
\<close>

definition final_complete :: "compl \<Rightarrow> compl \<Rightarrow> compl" where
  "final_complete stored c = (case c of SetValue xs \<Rightarrow> stored | _ \<Rightarrow> c)"

definition finally_env :: "'u sender \<Rightarrow> env \<Rightarrow> env" where
  "finally_env s e = secondary_env s [ValueTag, ErrorTag, StoppedTag] e"

definition finally_store_and_start ::
  "universe \<Rightarrow> 'u sender \<Rightarrow> env \<Rightarrow> env \<Rightarrow> compl \<Rightarrow> 'u world \<Rightarrow> 'u outcome option" where
  "finally_store_and_start U fin e e2 c w =
     (if \<not> sends ValueTag (child_sigs fin e) then sn_run fin e2 w
      else case copy_args U (compl_args c) of
        Some x \<Rightarrow> Some (SetError (Exn x), w)
      | None \<Rightarrow> map_option (\<lambda>(d, w'). (final_complete c d, w')) (sn_run fin e2 w))"

definition finally_signatures :: "universe \<Rightarrow> sig list \<Rightarrow> sig list \<Rightarrow> sig list option" where
  "finally_signatures U ics fcs =
     (if \<not> sends ValueTag fcs then transform_signatures ics ignore_value keep_error keep_stopped fcs
      else if SigValue [] \<notin> set fcs \<or> (\<exists>s \<in> set fcs. sig_tag s = ValueTag \<and> s \<noteq> SigValue []) then None
      else Option.bind (transform_signatures ics (decay_values U) keep_error keep_stopped []) (\<lambda>ds.
           Option.bind (transform_signatures fcs ignore_value keep_error keep_stopped []) (\<lambda>fs.
             Some (concat_signatures [ds, fs]))))"

text \<open>
  Connecting is declared \<^verbatim>\<open>noexcept\<close> whatever the children's connects do: an exception of
  either terminates the program, so there is no operation and no completion.  The model shows that when the
  operation is started, not already when it is connected.
\<close>

definition finally_connects :: "'u sender \<Rightarrow> 'u sender \<Rightarrow> env \<Rightarrow> bool" where
  "finally_connects s fin e \<longleftrightarrow> sn_connect fin (finally_env s e) = None \<and> sn_connect s e = None"

definition finally_sender :: "universe \<Rightarrow> 'u sender \<Rightarrow> 'u sender \<Rightarrow> 'u sender" where
  "finally_sender U s fin =
     \<lparr>sn_sigs = (\<lambda>e. Option.bind (sn_sigs s e) (\<lambda>ics. Option.bind (sn_sigs fin (finally_env s e)) (finally_signatures U ics))),
      sn_nothrow = (\<lambda>e. True), sn_connect = (\<lambda>e. None),
      sn_run = (\<lambda>e w.
        if finally_connects s fin e
        then Option.bind (sn_run s e w) (\<lambda>(c, w'). finally_store_and_start U fin e (finally_env s e) c w')
        else None),
      sn_sched = (\<lambda>t e. None)\<rparr>"

text \<open>
  The stored errors are copied too, but only the value signatures are decayed with the
  exception they may raise: the signatures are right if copying errors does not throw.
\<close>

definition nothrow_copy_errors :: "universe \<Rightarrow> sig list \<Rightarrow> bool" where
  "nothrow_copy_errors U cs \<longleftrightarrow> (\<forall>t. SigError t \<in> set cs \<longrightarrow> nothrow_copy_args U [t])"

lemma finally_ok:
  assumes U: "universe_ok U" and s: "sender_ok s" and fin: "sender_ok fin"
    and ne: "\<And>e ics. sn_sigs s e = Some ics \<Longrightarrow> nothrow_copy_errors U ics"
    and ag: "\<And>e. sends ValueTag (child_sigs fin e) \<longleftrightarrow> sends ValueTag (child_sigs fin (finally_env s e))"
  shows "sender_ok (finally_sender U s fin)"
proof (rule sender_okI)
  fix e cs w c w'
  assume "sn_sigs (finally_sender U s fin) e = Some cs" and "sn_run (finally_sender U s fin) e w = Some (c, w')"
  then obtain ics fcs d w1 where i: "sn_sigs s e = Some ics" and f: "sn_sigs fin (finally_env s e) = Some fcs"
    and cs: "finally_signatures U ics fcs = Some cs"
    and r: "sn_run s e w = Some (d, w1)" "finally_store_and_start U fin e (finally_env s e) d w1 = Some (c, w')"
    by (auto simp: finally_sender_def bind_eq_Some_conv split: if_splits)
  have d: "sig_of d \<in> set ics" by (rule sender_okD(2) [OF s i r(1)])
  have cf: "child_sigs fin (finally_env s e) = fcs" using f by (simp add: child_sigs_def)
  show "sig_of c \<in> set cs"
  proof (cases "sends ValueTag fcs")
    case False
    then have "sn_run fin (finally_env s e) w1 = Some (c, w')" using r(2) cf ag [of e] by (simp add: finally_store_and_start_def)
    then have "sig_of c \<in> set fcs" by (rule sender_okD(2) [OF fin f])
    moreover have "set fcs \<subseteq> set cs"
      using cs False by (intro transform_signatures_extra) (simp add: finally_signatures_def)
    ultimately show ?thesis by blast
  next
    case True
    then obtain ds fs where ds: "transform_signatures ics (decay_values U) keep_error keep_stopped [] = Some ds"
      and fs: "transform_signatures fcs ignore_value keep_error keep_stopped [] = Some fs"
      and cc: "cs = concat_signatures [ds, fs]"
      using cs by (auto simp: finally_signatures_def bind_eq_Some_conv split: if_splits)
    obtain l where l: "transform_one (decay_values U) keep_error keep_stopped (sig_of d) = Some l" "set l \<subseteq> set ds"
      by (rule transform_signatures_mem [OF ds d])
    show ?thesis
    proof (cases "copy_args U (compl_args d)")
      case (Some x)
      then have nn: "\<not> nothrow_copy_args U (map ty_of (compl_args d))" using copy_args_nothrow [OF U] by fastforce
      then have "\<exists>xs. d = SetValue xs"
        using ne [OF i] d by (cases d) (auto simp: nothrow_copy_errors_def nothrow_copy_args_def)
      then have "eptr_sig \<in> set l" using l(1) nn by (auto simp: decay_values_def eptr_unless_def)
      then show ?thesis using l(2) cc r(2) Some True cf ag [of e]
        by (auto simp: finally_store_and_start_def eptr_sig_def)
    next
      case None
      then obtain g where g: "sn_run fin (finally_env s e) w1 = Some (g, w')" "c = final_complete d g"
        using r(2) True cf ag [of e] by (auto simp: finally_store_and_start_def)
      have gm: "sig_of g \<in> set fcs" by (rule sender_okD(2) [OF fin f g(1)])
      obtain m where m: "transform_one ignore_value keep_error keep_stopped (sig_of g) = Some m" "set m \<subseteq> set fs"
        by (rule transform_signatures_mem [OF fs gm])
      have "sig_of d \<in> set ds" using l by (cases d) (auto simp: decay_values_def)
      then show ?thesis using g(2) m cc by (cases g) (auto simp: final_complete_def)
    qed
  qed
qed (simp add: finally_sender_def)

section \<open>Schedulers\<close>

text \<open>
  A scheduler is given by the sender \<open>schedule\<close> returns: on its value it has moved to the
  scheduler's execution context (\<open>schedules_on\<close>).
\<close>

definition schedules_on :: "nat \<Rightarrow> 'u sender \<Rightarrow> bool" where
  "schedules_on k sch \<longleftrightarrow> sender_ok sch \<and>
     (\<forall>e w xs w'. sn_run sch e w = Some (SetValue xs, w') \<longrightarrow> ctx w' = k)"

subsection \<open>\<open>continues_on\<close>, \<open>starts_on\<close>, \<open>on\<close>\<close>

definition continues_on_complete ::
  "universe \<Rightarrow> 'u sender \<Rightarrow> env \<Rightarrow> compl \<Rightarrow> 'u world \<Rightarrow> 'u outcome option" where
  "continues_on_complete U sch e c w =
     (case copy_args U (compl_args c) of
        Some x \<Rightarrow> Some (SetError (Exn x), w)
      | None \<Rightarrow> map_option (\<lambda>(d, w'). (case d of SetValue xs \<Rightarrow> c | _ \<Rightarrow> d, w')) (sn_run sch e w))"

definition continues_on_signatures :: "universe \<Rightarrow> sig list \<Rightarrow> sig list \<Rightarrow> sig list option" where
  "continues_on_signatures U ccs scs =
     Option.bind (transform_signatures ccs (decay_values U) (decay_errors U) keep_stopped []) (\<lambda>ds.
     Option.bind (transform_signatures scs ignore_value keep_error keep_stopped []) (\<lambda>ss.
       Some (concat_signatures [ds, ss, eptr_unless (nothrow_copy_results U ds)])))"

text \<open>\<open>__trnsfr::__attrs\<close>\<close>

definition continues_on_sched :: "universe \<Rightarrow> 'u sender \<Rightarrow> 'u sender \<Rightarrow> set_tag \<Rightarrow> env \<Rightarrow> nat option" where
  "continues_on_sched U sch s t e =
     (let ccs = child_sigs s e;
          decay_errors = (t = ErrorTag \<and> (\<exists>c \<in> set ccs. sig_tag c = ValueTag \<and> \<not> nothrow_copy_args U (sig_args c)));
          from_sched = ((t = ValueTag \<or> \<not> sends t ccs) \<and> \<not> decay_errors);
          from_child = (\<not> sends t (child_sigs sch e))
      in if from_sched \<and> \<not> from_child then sn_sched sch t e
         else if from_child \<and> \<not> from_sched then sn_sched s t e else None)"

definition continues_on :: "universe \<Rightarrow> 'u sender \<Rightarrow> 'u sender \<Rightarrow> 'u sender" where
  "continues_on U sch s =
     \<lparr>sn_sigs = (\<lambda>e. Option.bind (sn_sigs s e) (\<lambda>ccs. Option.bind (sn_sigs sch e) (continues_on_signatures U ccs))),
      sn_nothrow = (\<lambda>e. sn_nothrow sch e \<and> sn_nothrow s e),
      sn_connect = (\<lambda>e. case sn_connect sch e of Some x \<Rightarrow> Some x | None \<Rightarrow> sn_connect s e),
      sn_run = (\<lambda>e w. Option.bind (sn_run s e w) (\<lambda>(c, w'). continues_on_complete U sch e c w')),
      sn_sched = continues_on_sched U sch s\<rparr>"

definition starts_on :: "universe \<Rightarrow> 'u sender \<Rightarrow> 'u sender \<Rightarrow> 'u sender" where
  "starts_on U sch s = sequence2 (continues_on U sch (just [])) s"

text \<open>
  \<open>on(sch, sndr)\<close>: the scheduler to return to is the start scheduler of the environment; in the
  root environment it is the inline scheduler.
\<close>

definition inline_schedule :: "'u sender" where "inline_schedule = just []"

definition on_sender :: "universe \<Rightarrow> (nat \<Rightarrow> 'u sender) \<Rightarrow> nat \<Rightarrow> 'u sender \<Rightarrow> env \<Rightarrow> 'u sender" where
  "on_sender U schedule k s e =
     continues_on U (case e_sched e of Some old \<Rightarrow> schedule old | None \<Rightarrow> inline_schedule)
       (starts_on U (schedule k) s)"

lemma continues_on_ok:
  assumes U: "universe_ok U" and s: "sender_ok s" and sch: "sender_ok sch"
  shows "sender_ok (continues_on U sch s)"
proof (rule sender_okI)
  fix e cs assume "sn_sigs (continues_on U sch s) e = Some cs"
  then obtain ccs scs where c: "sn_sigs s e = Some ccs" "sn_sigs sch e = Some scs"
    "continues_on_signatures U ccs scs = Some cs"
    by (auto simp: continues_on_def bind_eq_Some_conv)
  show "sn_nothrow (continues_on U sch s) e \<Longrightarrow> sn_connect (continues_on U sch s) e = None"
    using sender_okD(1) [OF s c(1)] sender_okD(1) [OF sch c(2)] by (simp add: continues_on_def)
  from c(3) obtain ds ss where t: "transform_signatures ccs (decay_values U) (decay_errors U) keep_stopped [] = Some ds"
    "transform_signatures scs ignore_value keep_error keep_stopped [] = Some ss"
    "cs = concat_signatures [ds, ss, eptr_unless (nothrow_copy_results U ds)]"
    by (auto simp: continues_on_signatures_def bind_eq_Some_conv)
  fix w c w' assume "sn_run (continues_on U sch s) e w = Some (c, w')"
  then obtain d w1 where r: "sn_run s e w = Some (d, w1)" "continues_on_complete U sch e d w1 = Some (c, w')"
    by (auto simp: continues_on_def bind_eq_Some_conv)
  have dm: "sig_of d \<in> set ccs" by (rule sender_okD(2) [OF s c(1) r(1)])
  obtain l where l: "transform_one (decay_values U) (decay_errors U) keep_stopped (sig_of d) = Some l" "set l \<subseteq> set ds"
    by (rule transform_signatures_mem [OF t(1) dm])
  show "sig_of c \<in> set cs"
  proof (cases "copy_args U (compl_args d)")
    case (Some x)
    then have "\<not> nothrow_copy_args U (map ty_of (compl_args d))" using copy_args_nothrow [OF U] by fastforce
    then have "eptr_sig \<in> set l" using l(1)
      by (cases d) (auto simp: decay_values_def decay_errors_def eptr_unless_def nothrow_copy_args_def)
    then show ?thesis using Some r(2) t(3) l(2) by (auto simp: continues_on_complete_def eptr_sig_def)
  next
    case None
    then obtain g where g: "sn_run sch e w1 = Some (g, w')" "c = (case g of SetValue xs \<Rightarrow> d | _ \<Rightarrow> g)"
      using r(2) by (auto simp: continues_on_complete_def)
    have gm: "sig_of g \<in> set scs" by (rule sender_okD(2) [OF sch c(2) g(1)])
    obtain m where m: "transform_one ignore_value keep_error keep_stopped (sig_of g) = Some m" "set m \<subseteq> set ss"
      by (rule transform_signatures_mem [OF t(2) gm])
    have "sig_of d \<in> set ds" using l by (cases d) (auto simp: decay_values_def decay_errors_def)
    then show ?thesis using g(2) m t(3) by (cases g) auto
  qed
qed

lemma starts_on_ok: "universe_ok U \<Longrightarrow> sender_ok s \<Longrightarrow> sender_ok sch \<Longrightarrow> sender_ok (starts_on U sch s)"
  by (simp add: starts_on_def sequence2_ok continues_on_ok just_def just_ok)

lemma on_sender_ok:
  "universe_ok U \<Longrightarrow> sender_ok s \<Longrightarrow> (\<And>k. sender_ok (schedule k)) \<Longrightarrow> sender_ok (on_sender U schedule k s e)"
  by (simp add: on_sender_def continues_on_ok starts_on_ok inline_schedule_def just_def just_ok split: option.split)

section \<open>Bulk algorithms\<close>

text \<open>
  The function gets the values by reference: it returns what it leaves in them.  A function on
  a range is a \<open>chunk_fun\<close>, one on an index an \<open>index_fun\<close>.
\<close>

type_synonym 'u bulk_result = "(int option \<times> obj list) \<times> 'u world"

record 'u chunk_fun =
  ch_call :: "nat \<Rightarrow> nat \<Rightarrow> obj list \<Rightarrow> 'u world \<Rightarrow> 'u bulk_result"
  ch_callable :: "ty list \<Rightarrow> bool"
  ch_nothrow :: "ty list \<Rightarrow> bool"

record 'u index_fun =
  ix_call :: "nat \<Rightarrow> obj list \<Rightarrow> 'u world \<Rightarrow> 'u bulk_result"
  ix_callable :: "ty list \<Rightarrow> bool"
  ix_nothrow :: "ty list \<Rightarrow> bool"

definition bulk_result_ok :: "bool \<Rightarrow> obj list \<Rightarrow> 'u bulk_result \<Rightarrow> bool" where
  "bulk_result_ok nothrow xs r \<longleftrightarrow> map ty_of (snd (fst r)) = map ty_of xs \<and> (nothrow \<longrightarrow> fst (fst r) = None)"

definition chunk_fun_ok :: "'u chunk_fun \<Rightarrow> bool" where
  "chunk_fun_ok f \<longleftrightarrow> (\<forall>b n xs w. bulk_result_ok (ch_nothrow f (map ty_of xs)) xs (ch_call f b n xs w))"

definition index_fun_ok :: "'u index_fun \<Rightarrow> bool" where
  "index_fun_ok f \<longleftrightarrow> (\<forall>i xs w. bulk_result_ok (ix_nothrow f (map ty_of xs)) xs (ix_call f i xs w))"

definition bulk_deliver :: "'u bulk_result \<Rightarrow> 'u outcome" where
  "bulk_deliver r = (case r of ((Some x, xs), w) \<Rightarrow> (SetError (Exn x), w) | ((None, xs), w) \<Rightarrow> (SetValue xs, w))"

definition bulk_signatures :: "(ty list \<Rightarrow> bool) \<Rightarrow> (ty list \<Rightarrow> bool) \<Rightarrow> sig list \<Rightarrow> sig list option" where
  "bulk_signatures callable nothrow cs =
     (if list_all callable (value_types cs)
      then transform_signatures cs keep_value keep_error keep_stopped
             (eptr_unless (list_all nothrow (value_types cs)))
      else None)"

definition bulk_chunked_complete :: "nat \<Rightarrow> 'u chunk_fun \<Rightarrow> compl \<Rightarrow> 'u world \<Rightarrow> 'u outcome" where
  "bulk_chunked_complete shape f c w =
     (case c of SetValue xs \<Rightarrow> bulk_deliver (ch_call f 0 shape xs w) | _ \<Rightarrow> (c, w))"

definition bulk_chunked :: "nat \<Rightarrow> 'u chunk_fun \<Rightarrow> 'u sender \<Rightarrow> 'u sender" where
  "bulk_chunked shape f =
     basic_adaptor (\<lambda>e. bulk_signatures (ch_callable f) (ch_nothrow f)) (bulk_chunked_complete shape f)"

fun bulk_loop :: "'u index_fun \<Rightarrow> nat list \<Rightarrow> obj list \<Rightarrow> 'u world \<Rightarrow> 'u bulk_result" where
  "bulk_loop f [] xs w = ((None, xs), w)"
| "bulk_loop f (i # is) xs w =
     (case ix_call f i xs w of
        ((Some x, xs'), w') \<Rightarrow> ((Some x, xs'), w')
      | ((None, xs'), w') \<Rightarrow> bulk_loop f is xs' w')"

definition bulk_unchunked_complete :: "nat \<Rightarrow> 'u index_fun \<Rightarrow> compl \<Rightarrow> 'u world \<Rightarrow> 'u outcome" where
  "bulk_unchunked_complete shape f c w =
     (case c of SetValue xs \<Rightarrow> bulk_deliver (bulk_loop f [0..<shape] xs w) | _ \<Rightarrow> (c, w))"

definition bulk_unchunked :: "nat \<Rightarrow> 'u index_fun \<Rightarrow> 'u sender \<Rightarrow> 'u sender" where
  "bulk_unchunked shape f =
     basic_adaptor (\<lambda>e. bulk_signatures (ix_callable f) (ix_nothrow f)) (bulk_unchunked_complete shape f)"

text \<open>\<open>__as_bulk_chunked_fn\<close>, and \<open>bulk\<close> as its lowering to \<open>bulk_chunked\<close>.\<close>

definition as_bulk_chunked_fn :: "'u index_fun \<Rightarrow> 'u chunk_fun" where
  "as_bulk_chunked_fn f =
     \<lparr>ch_call = (\<lambda>b n xs w. bulk_loop f [b..<n] xs w), ch_callable = ix_callable f, ch_nothrow = ix_nothrow f\<rparr>"

definition bulk :: "nat \<Rightarrow> 'u index_fun \<Rightarrow> 'u sender \<Rightarrow> 'u sender" where
  "bulk shape f = bulk_chunked shape (as_bulk_chunked_fn f)"

lemma bulk_signatures_complete:
  assumes sg: "bulk_signatures ca nt cs = Some ds" and d: "SigValue (map ty_of xs) \<in> set cs"
    and r: "bulk_result_ok (nt (map ty_of xs)) xs r"
  shows "sig_of (fst (bulk_deliver r)) \<in> set ds"
proof -
  have tx: "transform_signatures cs keep_value keep_error keep_stopped
      (eptr_unless (list_all nt (value_types cs))) = Some ds"
    using sg by (auto simp: bulk_signatures_def split: if_splits)
  obtain l where l: "transform_one keep_value keep_error keep_stopped (SigValue (map ty_of xs)) = Some l"
    "set l \<subseteq> set ds" "set (eptr_unless (list_all nt (value_types cs))) \<subseteq> set ds"
    by (rule transform_signatures_mem [OF tx d])
  obtain ex xs' w where rr: "r = ((ex, xs'), w)" by (metis surj_pair)
  show ?thesis
  proof (cases ex)
    case None
    then show ?thesis using l(1,2) r rr by (auto simp: bulk_deliver_def bulk_result_ok_def)
  next
    case (Some x)
    then have "\<not> nt (map ty_of xs)" using r rr by (auto simp: bulk_result_ok_def)
    then have "\<not> list_all nt (value_types cs)" using value_types_mem [OF d] by (auto simp: list_all_iff)
    then show ?thesis using l(3) rr Some by (auto simp: bulk_deliver_def eptr_unless_def eptr_sig_def)
  qed
qed

lemma bulk_signatures_keep:
  assumes sg: "bulk_signatures ca nt cs = Some ds" and d: "sg \<in> set cs"
  shows "sg \<in> set ds"
proof -
  have tx: "transform_signatures cs keep_value keep_error keep_stopped
      (eptr_unless (list_all nt (value_types cs))) = Some ds"
    using assms(1) by (auto simp: bulk_signatures_def split: if_splits)
  obtain l where l: "transform_one keep_value keep_error keep_stopped sg = Some l" "set l \<subseteq> set ds"
    by (rule transform_signatures_mem [OF tx d])
  then show ?thesis by (cases sg) auto
qed

lemma bulk_loop_ok:
  assumes "index_fun_ok f"
  shows "bulk_result_ok (ix_nothrow f (map ty_of xs)) xs (bulk_loop f is xs w)"
proof (induction "is" arbitrary: xs w)
  case Nil
  then show ?case by (simp add: bulk_result_ok_def)
next
  case (Cons i "is")
  obtain ex xs' w' where r: "ix_call f i xs w = ((ex, xs'), w')" by (metis surj_pair)
  have "bulk_result_ok (ix_nothrow f (map ty_of xs)) xs ((ex, xs'), w')"
    using assms r unfolding index_fun_ok_def by metis
  then show ?case using r Cons.IH [of xs' w'] by (cases ex) (auto simp: bulk_result_ok_def)
qed

lemma bulk_chunked_ok:
  assumes "chunk_fun_ok f" and "sender_ok s"
  shows "sender_ok (bulk_chunked shape f s)"
  unfolding bulk_chunked_def
proof (rule basic_adaptor_ok [OF assms(2)])
  fix cs ds c and w :: "'a world"
  assume a: "bulk_signatures (ch_callable f) (ch_nothrow f) cs = Some ds" "sig_of c \<in> set cs"
  show "sig_of (fst (bulk_chunked_complete shape f c w)) \<in> set ds"
  proof (cases c)
    case (SetValue xs)
    have "bulk_result_ok (ch_nothrow f (map ty_of xs)) xs (ch_call f 0 shape xs w)"
      using assms(1) by (simp add: chunk_fun_ok_def)
    then show ?thesis
      using bulk_signatures_complete [OF a(1)] a(2) SetValue by (simp add: bulk_chunked_complete_def)
  qed (use bulk_signatures_keep [OF a] in \<open>simp_all add: bulk_chunked_complete_def\<close>)
qed

lemma bulk_unchunked_ok:
  assumes "index_fun_ok f" and "sender_ok s"
  shows "sender_ok (bulk_unchunked shape f s)"
  unfolding bulk_unchunked_def
proof (rule basic_adaptor_ok [OF assms(2)])
  fix cs ds c and w :: "'a world"
  assume a: "bulk_signatures (ix_callable f) (ix_nothrow f) cs = Some ds" "sig_of c \<in> set cs"
  show "sig_of (fst (bulk_unchunked_complete shape f c w)) \<in> set ds"
  proof (cases c)
    case (SetValue xs)
    then show ?thesis
      using bulk_signatures_complete [OF a(1) _ bulk_loop_ok [OF assms(1)]] a(2)
      by (simp add: bulk_unchunked_complete_def)
  qed (use bulk_signatures_keep [OF a] in \<open>simp_all add: bulk_unchunked_complete_def\<close>)
qed

lemma bulk_ok: "index_fun_ok f \<Longrightarrow> sender_ok s \<Longrightarrow> sender_ok (bulk shape f s)"
  by (simp add: bulk_def bulk_chunked_ok chunk_fun_ok_def as_bulk_chunked_fn_def bulk_loop_ok)

end
