(* ===== verification/SenderLoops.thy ===== *)
theory SenderLoops
  imports Senders
begin

text \<open>
  Senders that run their child again and again (\<^verbatim>\<open>exec/repeat_n.hpp\<close>, \<^verbatim>\<open>exec/repeat_until.hpp\<close>),
  that turn completions into values and back (\<^verbatim>\<open>exec/materialize.hpp\<close>) and that poll the stop
  token (\<^verbatim>\<open>exec/unless_stop_requested.hpp\<close>).
\<close>

section \<open>Repetition\<close>

text \<open>
  The child is started again from its own completion, bouncing through the trampoline
  scheduler (\<^verbatim>\<open>exec/trampoline_scheduler.hpp\<close>), whose operation polls the stop token and
  otherwise completes; the \<^verbatim>\<open>Trampoline\<close> theory models how it bounds the recursion.  Every
  iteration connects a copy of the child, after the bounce; making that copy is taken not to
  throw, so an exception there is one of connecting the child (\<open>bouncy_run\<close>).
\<close>

definition trampoline_execute :: "env \<Rightarrow> 'u world \<Rightarrow> compl" where
  "trampoline_execute e w = (if stop_requested e w then SetStopped else SetValue [])"

definition trampoline_schedule :: "'u sender" where
  "trampoline_schedule =
     \<lparr>sn_sigs = (\<lambda>e. Some (SigValue [] # (if e_stoppable e then [SigStopped] else []))),
      sn_nothrow = (\<lambda>e. True), sn_connect = (\<lambda>e. None),
      sn_run = (\<lambda>e w. Some (trampoline_execute e w, w)),
      sn_sched = (\<lambda>t e. if t = ErrorTag then None else e_sched e)\<rparr>"

definition bouncy :: "'u sender \<Rightarrow> 'u sender" where
  "bouncy s = sequence2 trampoline_schedule s"

lemma trampoline_schedule_sel:
  "sn_sigs trampoline_schedule e = Some (SigValue [] # (if e_stoppable e then [SigStopped] else []))"
  "sn_nothrow trampoline_schedule e" "sn_connect trampoline_schedule e = None"
  "sn_run trampoline_schedule e w = Some (trampoline_execute e w, w)"
  "sn_sched trampoline_schedule t e = (if t = ErrorTag then None else e_sched e)"
  by (simp_all add: trampoline_schedule_def)

lemma trampoline_schedule_ok: "sender_ok trampoline_schedule"
  by (rule sender_okI)
    (auto simp: trampoline_schedule_def trampoline_execute_def stop_requested_def e_stoppable_def split: option.splits)

lemma bouncy_ok: "sender_ok s \<Longrightarrow> sender_ok (bouncy s)"
  by (simp add: bouncy_def sequence2_ok trampoline_schedule_ok)

lemma bouncy_connect [simp]: "sn_connect (bouncy s) e = None" "sn_nothrow (bouncy s) e"
  by (simp_all add: bouncy_def sequence2_def trampoline_schedule_def)

lemma trampoline_sends: "sends ValueTag (child_sigs trampoline_schedule e)"
  by (simp add: sends_def child_sigs_def trampoline_schedule_sel)

lemma secondary_env_trampoline [simp]: "secondary_env trampoline_schedule [ValueTag] e = e"
  by (cases e) (simp add: secondary_env_def trampoline_sends trampoline_schedule_sel split: option.split)

lemma bouncy_run:
  "sn_run (bouncy s) e w =
     (if stop_requested e w then Some (SetStopped, w)
      else case sn_connect s e of Some x \<Rightarrow> Some (SetError (Exn x), w) | None \<Rightarrow> sn_run s e w)"
  by (simp add: bouncy_def sequence2_def sequence_receive1_def sequence_start_next_def)
    (simp add: trampoline_schedule_sel trampoline_execute_def sequence_receive1_def sequence_start_next_def)

definition repeat_set_error :: "universe \<Rightarrow> obj \<Rightarrow> compl" where
  "repeat_set_error U x = or_throw U [x] (SetError x)"

fun repeat_n_loop :: "universe \<Rightarrow> 'u sender \<Rightarrow> env \<Rightarrow> nat \<Rightarrow> 'u world \<Rightarrow> 'u outcome option" where
  "repeat_n_loop U bc e 0 w = Some (SetValue [], w)"
| "repeat_n_loop U bc e (Suc n) w =
     (case sn_run bc e w of
        None \<Rightarrow> None
      | Some (SetValue xs, w') \<Rightarrow>
          (if n = 0 then Some (SetValue [], w')
           else case sn_connect bc e of
             Some x \<Rightarrow> Some (SetError (Exn x), w')
           | None \<Rightarrow> repeat_n_loop U bc e n w')
      | Some (SetError x, w') \<Rightarrow> Some (repeat_set_error U x, w')
      | Some (SetStopped, w') \<Rightarrow> Some (SetStopped, w'))"

definition repeat_n_signatures :: "universe \<Rightarrow> 'u sender \<Rightarrow> env \<Rightarrow> sig list option" where
  "repeat_n_signatures U bc e =
     Option.bind (sn_sigs bc e) (\<lambda>cs.
     Option.bind (transform_signatures cs (\<lambda>ts. if ts = [] then Some [SigValue []] else None)
                    (decay_errors U) keep_stopped []) (\<lambda>ds.
       Some (if eptr_sig \<in> set ds \<or> sn_nothrow bc e then ds else concat_signatures [ds, [eptr_sig]])))"

definition repeat_n :: "universe \<Rightarrow> nat \<Rightarrow> 'u sender \<Rightarrow> 'u sender" where
  "repeat_n U n s =
     \<lparr>sn_sigs = repeat_n_signatures U (bouncy s),
      sn_nothrow = sn_nothrow (bouncy s),
      sn_connect = (\<lambda>e. if n = 0 then None else sn_connect (bouncy s) e),
      sn_run = (\<lambda>e w. repeat_n_loop U (bouncy s) e n w),
      sn_sched = sn_sched (bouncy s)\<rparr>"

partial_function (option) repeat_until_loop ::
  "universe \<Rightarrow> 'u sender \<Rightarrow> env \<Rightarrow> 'u world \<Rightarrow> 'u outcome option" where
  "repeat_until_loop U bc e w =
     Option.bind (sn_run bc e w) (\<lambda>(c, w').
       case c of
         SetValue xs \<Rightarrow>
           (case to_bool U (hd xs) of
              Inl x \<Rightarrow> Some (SetError (Exn x), w')
            | Inr b \<Rightarrow>
                if b then Some (SetValue [], w')
                else (case sn_connect bc e of
                        Some x \<Rightarrow> Some (SetError (Exn x), w')
                      | None \<Rightarrow> repeat_until_loop U bc e w'))
       | SetError x \<Rightarrow> Some (repeat_set_error U x, w')
       | SetStopped \<Rightarrow> Some (SetStopped, w'))"

definition repeat_until_values :: "universe \<Rightarrow> ty list \<Rightarrow> sig list option" where
  "repeat_until_values U ts =
     (case ts of
        [t] \<Rightarrow>
          (case bool_type_of U t of
             NotBool \<Rightarrow> None
           | AlwaysFalse \<Rightarrow> Some []
           | AlwaysTrue \<Rightarrow> Some [SigValue []]
           | Convertible nothrow \<Rightarrow> Some (SigValue [] # eptr_unless nothrow))
      | _ \<Rightarrow> None)"

definition repeat_until_errors :: "universe \<Rightarrow> ty \<Rightarrow> sig list option" where
  "repeat_until_errors U t = Some (SigError t # eptr_unless (nothrow_copy U t \<or> t = TExn))"

definition repeat_until_signatures :: "universe \<Rightarrow> 'u sender \<Rightarrow> env \<Rightarrow> sig list option" where
  "repeat_until_signatures U s e =
     Option.bind (sn_sigs s e) (\<lambda>cs.
     Option.bind (transform_signatures cs (repeat_until_values U) (repeat_until_errors U) keep_stopped []) (\<lambda>ds.
     Option.bind (sn_sigs (trampoline_schedule :: 'u sender) e) (\<lambda>ts.
     Option.bind (transform_signatures ts ignore_value keep_error keep_stopped []) (\<lambda>bs.
       Some (concat_signatures [ds, eptr_unless (sn_nothrow s e), bs])))))"

definition repeat_until :: "universe \<Rightarrow> 'u sender \<Rightarrow> 'u sender" where
  "repeat_until U s =
     \<lparr>sn_sigs = repeat_until_signatures U s,
      sn_nothrow = sn_nothrow (bouncy s),
      sn_connect = sn_connect (bouncy s),
      sn_run = repeat_until_loop U (bouncy s), sn_sched = sn_sched (bouncy s)\<rparr>"

subsection \<open>Soundness of the signatures\<close>

lemma repeat_n_loop_ok:
  assumes U: "universe_ok U" and b: "sender_ok bc" and cs: "sn_sigs bc e = Some cs"
    and tx: "transform_signatures cs (\<lambda>ts. if ts = [] then Some [SigValue []] else None)
      (decay_errors U) keep_stopped [] = Some ds"
    and ct: "sn_connect bc e = None"
    and n: "n \<noteq> 0 \<or> SigValue [] \<in> set ds"
    and r: "repeat_n_loop U bc e n w = Some (c, w')"
  shows "sig_of c \<in> set ds"
  using n r
proof (induction n arbitrary: w)
  case (Suc n)
  obtain d w1 where d: "sn_run bc e w = Some (d, w1)" using Suc.prems(2) by (auto split: option.splits)
  have m: "sig_of d \<in> set cs" by (rule sender_okD(2) [OF b cs d])
  obtain l where l: "transform_one (\<lambda>ts. if ts = [] then Some [SigValue []] else None)
      (decay_errors U) keep_stopped (sig_of d) = Some l" "set l \<subseteq> set ds"
    by (rule transform_signatures_mem [OF tx m])
  show ?case
  proof (cases d)
    case (SetValue xs)
    then have v: "SigValue [] \<in> set ds" using l by (auto split: if_splits)
    then show ?thesis using Suc d SetValue ct by (cases "n = 0") simp_all
  next
    case (SetError x)
    then have "c = repeat_set_error U x" using Suc.prems(2) d by simp
    moreover have "copy_throws U x \<noteq> None \<Longrightarrow> \<not> nothrow_copy_args U [ty_of x]"
      using U by (auto simp: universe_ok_def nothrow_copy_args_def)
    ultimately show ?thesis using l SetError
      by (auto simp: repeat_set_error_def or_throw_def decay_errors_def eptr_unless_def eptr_sig_def split: option.splits)
  next
    case SetStopped
    then show ?thesis using Suc.prems(2) d l by simp
  qed
qed auto

lemma bouncy_sigsE:
  assumes "sn_sigs (bouncy s) e = Some cs"
  obtains ss ds where "sn_sigs s e = Some ss" and "cs = concat_signatures [ds, ss, eptr_unless (sn_nothrow s e)]"
proof -
  have "sends ValueTag (SigValue [] # (if e_stoppable e then [SigStopped] else []))" by (simp add: sends_def)
  then show ?thesis using assms that
    by (auto simp: bouncy_def sequence2_def sequence_signatures_def trampoline_schedule_sel Let_def bind_eq_Some_conv
        simp del: set_concat_signatures)
qed

lemma repeat_n_ok:
  assumes U: "universe_ok U" and s: "sender_ok s"
    and n: "n \<noteq> 0 \<or> (\<forall>e cs. sn_sigs s e = Some cs \<longrightarrow> SigValue [] \<in> set cs)"
  shows "sender_ok (repeat_n U n s)"
proof (rule sender_okI)
  fix e cs w c w'
  assume "sn_sigs (repeat_n U n s) e = Some cs" and r: "sn_run (repeat_n U n s) e w = Some (c, w')"
  then obtain bs where bs: "sn_sigs (bouncy s) e = Some bs" and tx: "transform_signatures bs
      (\<lambda>ts. if ts = [] then Some [SigValue []] else None) (decay_errors U) keep_stopped [] = Some cs"
    by (auto simp: repeat_n_def repeat_n_signatures_def bind_eq_Some_conv)
  have v: "n \<noteq> 0 \<or> SigValue [] \<in> set cs"
  proof (cases "n = 0")
    case True
    obtain ss ds where ss: "sn_sigs s e = Some ss" "bs = concat_signatures [ds, ss, eptr_unless (sn_nothrow s e)]"
      by (rule bouncy_sigsE [OF bs])
    then have "SigValue [] \<in> set bs" using n True by auto
    from transform_signatures_mem [OF tx this] show ?thesis by auto
  qed simp
  show "sig_of c \<in> set cs"
    using repeat_n_loop_ok [OF U bouncy_ok [OF s] bs tx _ v] r by (simp add: repeat_n_def)
qed (simp add: repeat_n_def)

text \<open>What a completion of \<open>repeat_until\<close> looks like, whatever the number of iterations.\<close>

definition repeat_until_done :: "universe \<Rightarrow> 'u sender \<Rightarrow> env \<Rightarrow> compl \<Rightarrow> bool" where
  "repeat_until_done U bc e c \<longleftrightarrow> (\<exists>d w w'. sn_run bc e w = Some (d, w') \<and>
     (case d of
        SetValue xs \<Rightarrow> (case to_bool U (hd xs) of Inl x \<Rightarrow> c = SetError (Exn x) | Inr b \<Rightarrow> b \<and> c = SetValue [])
      | SetError x \<Rightarrow> c = repeat_set_error U x
      | SetStopped \<Rightarrow> c = SetStopped))"

lemma repeat_until_loop_done:
  assumes "repeat_until_loop U bc e w = Some r" and "sn_connect bc e = None"
  shows "repeat_until_done U bc e (fst r)"
proof -
  have "sn_connect bc e = None \<longrightarrow> repeat_until_done U bc e (fst r)"
  proof (rule repeat_until_loop.raw_induct [OF _ assms(1), where P = "\<lambda>U bc e w r.
      sn_connect bc e = None \<longrightarrow> repeat_until_done U bc e (fst r)"], rule impI)
    fix loop U e w r and bc :: "'a sender"
    assume ih: "\<And>U (bc :: 'a sender) e w r. loop U bc e w = Some r \<Longrightarrow>
        sn_connect bc e = None \<longrightarrow> repeat_until_done U bc e (fst r)"
      and r: "Option.bind (sn_run bc e w) (\<lambda>(c, w').
        case c of
          SetValue xs \<Rightarrow>
            (case to_bool U (hd xs) of
               Inl x \<Rightarrow> Some (SetError (Exn x), w')
             | Inr b \<Rightarrow>
                 if b then Some (SetValue [], w')
                 else (case sn_connect bc e of
                         None \<Rightarrow> loop U bc e w'
                       | Some x \<Rightarrow> Some (SetError (Exn x), w')))
        | SetError x \<Rightarrow> Some (repeat_set_error U x, w')
        | SetStopped \<Rightarrow> Some (SetStopped, w')) = Some r"
      and n: "sn_connect bc e = None"
    then obtain d w1 where d: "sn_run bc e w = Some (d, w1)" by (auto simp: bind_eq_Some_conv)
    show "repeat_until_done U bc e (fst r)"
    proof (cases "\<exists>xs. d = SetValue xs \<and> to_bool U (hd xs) = Inr False")
      case True
      then have "loop U bc e w1 = Some r" using r d n by auto
      then show ?thesis using ih n by blast
    next
      case False
      then show ?thesis using r d unfolding repeat_until_done_def
        by (intro exI [of _ d] exI [of _ w] exI [of _ w1]) (auto split: compl.splits sum.splits if_splits)
    qed
  qed
  with assms(2) show ?thesis by blast
qed

lemma bouncy_done:
  assumes s: "sender_ok s" and ss: "sn_sigs s e = Some ss" and r: "sn_run (bouncy s) e w = Some (d, w')"
  shows "sig_of d \<in> set ss \<or> (d = SetStopped \<and> e_stoppable e) \<or> (\<exists>x. d = SetError (Exn x) \<and> \<not> sn_nothrow s e)"
  using r sender_okD [OF s ss]
  by (auto simp: bouncy_run stop_requested_def e_stoppable_def split: if_splits option.splits)

lemma repeat_until_ok:
  assumes U: "universe_ok U" and s: "sender_ok s"
  shows "sender_ok (repeat_until U s)"
proof (rule sender_okI)
  fix e cs w c w'
  assume sg: "sn_sigs (repeat_until U s) e = Some cs" and "sn_run (repeat_until U s) e w = Some (c, w')"
  then have "repeat_until_loop U (bouncy s) e w = Some (c, w')" by (simp add: repeat_until_def)
  from repeat_until_loop_done [OF this] have "repeat_until_done U (bouncy s) e c" by simp
  then obtain d v v' where d: "sn_run (bouncy s) e v = Some (d, v')" and c: "case d of
        SetValue xs \<Rightarrow> (case to_bool U (hd xs) of Inl x \<Rightarrow> c = SetError (Exn x) | Inr b \<Rightarrow> b \<and> c = SetValue [])
      | SetError x \<Rightarrow> c = repeat_set_error U x
      | SetStopped \<Rightarrow> c = SetStopped"
    unfolding repeat_until_done_def by blast
  obtain ss ds bs where ss: "sn_sigs s e = Some ss"
    and ds: "transform_signatures ss (repeat_until_values U) (repeat_until_errors U) keep_stopped [] = Some ds"
    and bs: "transform_signatures (SigValue [] # (if e_stoppable e then [SigStopped] else []))
      ignore_value keep_error keep_stopped [] = Some bs"
    and cs: "cs = concat_signatures [ds, eptr_unless (sn_nothrow s e), bs]"
    using sg by (auto simp: repeat_until_def repeat_until_signatures_def trampoline_schedule_def bind_eq_Some_conv
        simp del: set_concat_signatures)
  consider "sig_of d \<in> set ss" | "d = SetStopped" "e_stoppable e" | x where "d = SetError (Exn x)" "\<not> sn_nothrow s e"
    using bouncy_done [OF s ss d] by blast
  then show "sig_of c \<in> set cs"
  proof cases
    case 1
    obtain l where l: "transform_one (repeat_until_values U) (repeat_until_errors U) keep_stopped (sig_of d) = Some l"
      "set l \<subseteq> set ds" by (rule transform_signatures_mem [OF ds 1])
    then have "sig_of c \<in> set l" using c U
      by (cases d) (auto simp: repeat_until_values_def repeat_until_errors_def repeat_set_error_def or_throw_def
          eptr_unless_def eptr_sig_def universe_ok_def split: sum.splits list.splits bool_type.splits option.splits if_splits)
    then show ?thesis using l(2) cs by auto
  next
    case 2
    then have "SigStopped \<in> set bs" using transform_signatures_mem [OF bs, of SigStopped] by auto
    then show ?thesis using 2 c cs by simp
  next
    case 3
    then have "sig_of c = SigError TExn" using c by (auto simp: repeat_set_error_def or_throw_def split: option.splits)
    then show ?thesis using 3 cs by (simp add: eptr_unless_def eptr_sig_def)
  qed
qed (simp add: repeat_until_def)

section \<open>Materialising completions\<close>

definition materialize_complete :: "compl \<Rightarrow> 'u world \<Rightarrow> 'u outcome" where
  "materialize_complete c w = (SetValue (Tag (sig_tag (sig_of c)) # compl_args c), w)"

definition materialize_signatures :: "sig list \<Rightarrow> sig list option" where
  "materialize_signatures cs = Some (map (\<lambda>s. SigValue (TTag (sig_tag s) # sig_args s)) cs)"

definition materialize :: "'u sender \<Rightarrow> 'u sender" where
  "materialize s = (basic_adaptor (\<lambda>e. materialize_signatures) materialize_complete s)\<lparr>sn_sched := (\<lambda>t e. None)\<rparr>"

fun dematerialize_complete :: "compl \<Rightarrow> 'u world \<Rightarrow> 'u outcome" where
  "dematerialize_complete (SetValue (Tag ValueTag # xs)) w = (SetValue xs, w)"
| "dematerialize_complete (SetValue [Tag ErrorTag, x]) w = (SetError x, w)"
| "dematerialize_complete (SetValue [Tag StoppedTag]) w = (SetStopped, w)"
| "dematerialize_complete c w = (c, w)"

fun dematerialize_value :: "ty list \<Rightarrow> sig list option" where
  "dematerialize_value (TTag ValueTag # ts) = Some [SigValue ts]"
| "dematerialize_value [TTag ErrorTag, t] = Some [SigError t]"
| "dematerialize_value [TTag StoppedTag] = Some [SigStopped]"
| "dematerialize_value _ = None"

definition dematerialize :: "'u sender \<Rightarrow> 'u sender" where
  "dematerialize s = (basic_adaptor
     (\<lambda>e cs. transform_signatures cs dematerialize_value keep_error keep_stopped []) dematerialize_complete s)
     \<lparr>sn_sched := (\<lambda>t e. None)\<rparr>"

section \<open>\<open>unless_stop_requested\<close>\<close>

definition unless_stop_requested :: "'u sender \<Rightarrow> 'u sender" where
  "unless_stop_requested s =
     \<lparr>sn_sigs = (\<lambda>e. Option.bind (sn_sigs s e) (\<lambda>cs.
          transform_signatures cs keep_value keep_error keep_stopped (if e_stoppable e then [SigStopped] else []))),
      sn_nothrow = sn_nothrow s, sn_connect = sn_connect s,
      sn_run = (\<lambda>e w. if stop_requested e w then Some (SetStopped, w) else sn_run s e w),
      sn_sched = sn_sched s\<rparr>"

section \<open>Soundness of the others\<close>

lemma sender_ok_sched [simp]: "sender_ok (s\<lparr>sn_sched := k\<rparr>) \<longleftrightarrow> sender_ok s"
  by (simp add: sender_ok_def)

lemma materialize_ok: "sender_ok s \<Longrightarrow> sender_ok (materialize s)"
  unfolding materialize_def sender_ok_sched
proof (rule basic_adaptor_ok)
  fix cs ds c and w :: "'a world"
  assume "materialize_signatures cs = Some ds" and m: "sig_of c \<in> set cs"
  then have "ds = map (\<lambda>s. SigValue (TTag (sig_tag s) # sig_args s)) cs" by (simp add: materialize_signatures_def)
  moreover have "sig_of (fst (materialize_complete c w)) = SigValue (TTag (sig_tag (sig_of c)) # sig_args (sig_of c))"
    by (simp add: materialize_complete_def)
  ultimately show "sig_of (fst (materialize_complete c w)) \<in> set ds" using m by auto
qed

lemma ty_of_tag: "ty_of x = TTag t \<longleftrightarrow> x = Tag t"
  by (cases x) auto

lemma dematerialize_value_sig:
  assumes "dematerialize_value (map ty_of xs) = Some l"
  shows "sig_of (fst (dematerialize_complete (SetValue xs) w)) \<in> set l"
proof -
  obtain x ys where xs: "xs = x # ys" using assms by (cases xs) auto
  then obtain t where t: "x = Tag t" using assms by (cases x) auto
  show ?thesis
  proof (cases t)
    case ValueTag
    then show ?thesis using assms xs t by auto
  next
    case ErrorTag
    then show ?thesis using assms xs t
      by (cases ys rule: remdups_adj.cases) auto
  next
    case StoppedTag
    then show ?thesis using assms xs t by (cases ys) auto
  qed
qed

lemma dematerialize_ok: "sender_ok s \<Longrightarrow> sender_ok (dematerialize s)"
  unfolding dematerialize_def sender_ok_sched
proof (rule basic_adaptor_ok)
  fix cs ds c and w :: "'a world"
  assume tx: "transform_signatures cs dematerialize_value keep_error keep_stopped [] = Some ds" and m: "sig_of c \<in> set cs"
  obtain l where l: "transform_one dematerialize_value keep_error keep_stopped (sig_of c) = Some l" "set l \<subseteq> set ds"
    by (rule transform_signatures_mem [OF tx m])
  then show "sig_of (fst (dematerialize_complete c w)) \<in> set ds"
    using dematerialize_value_sig by (cases c) auto
qed

lemma unless_stop_requested_ok:
  assumes "sender_ok s"
  shows "sender_ok (unless_stop_requested s)"
proof (rule sender_okI)
  fix e cs assume "sn_sigs (unless_stop_requested s) e = Some cs"
  then obtain ss where ss: "sn_sigs s e = Some ss" and tx: "transform_signatures ss keep_value keep_error keep_stopped
      (if e_stoppable e then [SigStopped] else []) = Some cs"
    by (auto simp: unless_stop_requested_def bind_eq_Some_conv)
  show "sn_nothrow (unless_stop_requested s) e \<Longrightarrow> sn_connect (unless_stop_requested s) e = None"
    using sender_okD(1) [OF assms ss] by (simp add: unless_stop_requested_def)
  fix w c w' assume "sn_run (unless_stop_requested s) e w = Some (c, w')"
  then consider "c = SetStopped" "e_stoppable e" | "sn_run s e w = Some (c, w')"
    by (auto simp: unless_stop_requested_def stop_requested_def e_stoppable_def split: if_splits option.splits)
  then show "sig_of c \<in> set cs"
  proof cases
    case 1
    then show ?thesis using transform_signatures_extra [OF tx] by simp
  next
    case 2
    obtain l where "transform_one keep_value keep_error keep_stopped (sig_of c) = Some l" "set l \<subseteq> set cs"
      by (rule transform_signatures_mem [OF tx sender_okD(2) [OF assms ss 2]])
    then show ?thesis by (cases c) auto
  qed
qed

end
