(* ===== verification/SenderLaws.thy ===== *)
theory SenderLaws
  imports SenderLoops
begin

text \<open>
  What the sender algorithms promise together: every sender built from them completes as its
  signatures say, and the algebraic laws that the algorithms' documentation relies on.
\<close>

section \<open>Type soundness of sender expressions\<close>

definition let_fun_typed :: "'u let_fun \<Rightarrow> bool" where
  "let_fun_typed f \<longleftrightarrow> (\<forall>xs w.
     case fst (l_call f xs w) of
       Inl x \<Rightarrow> \<not> l_nothrow f (map ty_of xs)
     | Inr s \<Rightarrow> (\<forall>e. sn_sigs s e = l_sigs f (map ty_of xs) e) \<and>
         (\<forall>e. l_nothrow_connect f (map ty_of xs) e \<longrightarrow> sn_connect s e = None))"

lemma let_fun_okI:
  "let_fun_typed f \<Longrightarrow> (\<And>xs w s. fst (l_call f xs w) = Inr s \<Longrightarrow> sender_ok s) \<Longrightarrow> let_fun_ok f"
  unfolding let_fun_typed_def let_fun_ok_def by (fastforce split: sum.splits)

text \<open>
  Senders built from the factories and adaptors over user-written senders that keep their own
  promise (\<open>user\<close>), user callables and the schedulers.  Three rules have a side condition the
  signatures of the algorithm need: \<open>finally\<close> is used where copying the initial sender's errors is
  declared not to throw (its signatures do not account for it) and where the final sender's value
  channel is the same in the two environments the source looks it up in; \<open>repeat_n\<close> has a positive
  count or a child that sends an empty value (a count of zero completes with one).
\<close>

inductive sender_expr :: "universe \<Rightarrow> (nat \<Rightarrow> 'u sender) \<Rightarrow> 'u sender \<Rightarrow> bool" for U sched where
  user: "sender_ok s \<Longrightarrow> sender_expr U sched s"
| just: "sender_expr U sched (just xs)"
| just_error: "sender_expr U sched (just_error x)"
| just_stopped: "sender_expr U sched just_stopped"
| read_env: "query_ok q \<Longrightarrow> sender_expr U sched (read_env q)"
| schedule: "sender_expr U sched (sched k)"
| write_env: "sender_expr U sched s \<Longrightarrow> sender_expr U sched (write_env f s)"
| then_sender: "callable_ok f \<Longrightarrow> sender_expr U sched s \<Longrightarrow> sender_expr U sched (then_sender f s)"
| upon_error: "callable_ok f \<Longrightarrow> sender_expr U sched s \<Longrightarrow> sender_expr U sched (upon_error f s)"
| upon_stopped: "callable_ok f \<Longrightarrow> sender_expr U sched s \<Longrightarrow> sender_expr U sched (upon_stopped f s)"
| into_variant: "sender_expr U sched s \<Longrightarrow> sender_expr U sched (into_variant U s)"
| into_tuple: "sender_expr U sched s \<Longrightarrow> sender_expr U sched (into_tuple U s)"
| stopped_as_optional: "sender_expr U sched s \<Longrightarrow> sender_expr U sched (stopped_as_optional U s)"
| stopped_as_error: "sender_expr U sched s \<Longrightarrow> sender_expr U sched (stopped_as_error U x s)"
| let_impl: "let_fun_typed f \<Longrightarrow> (\<And>xs w s. fst (l_call f xs w) = Inr s \<Longrightarrow> sender_expr U sched s) \<Longrightarrow>
    sender_expr U sched s \<Longrightarrow> sender_expr U sched (let_impl U tag f s)"
| sequence: "(\<And>s. s \<in> set ss \<Longrightarrow> sender_expr U sched s) \<Longrightarrow> sender_expr U sched (sequence ss)"
| finally_sender: "sender_expr U sched s \<Longrightarrow> sender_expr U sched fin \<Longrightarrow>
    (\<And>e ics. sn_sigs s e = Some ics \<Longrightarrow> nothrow_copy_errors U ics) \<Longrightarrow>
    (\<And>e. sends ValueTag (child_sigs fin e) \<longleftrightarrow> sends ValueTag (child_sigs fin (finally_env s e))) \<Longrightarrow>
    sender_expr U sched (finally_sender U s fin)"
| continues_on: "sender_expr U sched s \<Longrightarrow> sender_expr U sched (continues_on U (sched k) s)"
| starts_on: "sender_expr U sched s \<Longrightarrow> sender_expr U sched (starts_on U (sched k) s)"
| on_sender: "sender_expr U sched s \<Longrightarrow> sender_expr U sched (on_sender U sched k s e)"
| bulk: "index_fun_ok f \<Longrightarrow> sender_expr U sched s \<Longrightarrow> sender_expr U sched (bulk n f s)"
| bulk_unchunked: "index_fun_ok f \<Longrightarrow> sender_expr U sched s \<Longrightarrow> sender_expr U sched (bulk_unchunked n f s)"
| bulk_chunked: "chunk_fun_ok g \<Longrightarrow> sender_expr U sched s \<Longrightarrow> sender_expr U sched (bulk_chunked n g s)"
| repeat_n: "n \<noteq> 0 \<or> (\<forall>e cs. sn_sigs s e = Some cs \<longrightarrow> SigValue [] \<in> set cs) \<Longrightarrow> sender_expr U sched s \<Longrightarrow>
    sender_expr U sched (repeat_n U n s)"
| repeat_until: "sender_expr U sched s \<Longrightarrow> sender_expr U sched (repeat_until U s)"
| materialize: "sender_expr U sched s \<Longrightarrow> sender_expr U sched (materialize s)"
| dematerialize: "sender_expr U sched s \<Longrightarrow> sender_expr U sched (dematerialize s)"
| unless_stop_requested: "sender_expr U sched s \<Longrightarrow> sender_expr U sched (unless_stop_requested s)"

lemmas sender_algorithms_ok = read_env_ok write_env_ok then_ok upon_error_ok upon_stopped_ok
  into_variant_ok into_tuple_ok stopped_as_optional_ok stopped_as_error_ok let_impl_ok sequence_ok finally_ok
  continues_on_ok starts_on_ok on_sender_ok bulk_ok bulk_unchunked_ok bulk_chunked_ok repeat_n_ok
  repeat_until_ok materialize_ok dematerialize_ok unless_stop_requested_ok

text \<open>
  Claim C13.  A sender expression of the grammar \<open>sender_expr\<close>, over user senders, callables, queries
  and schedulers that keep their own promises, completes, when it is started in an environment in
  which it is well-formed, with one of the completion signatures computed for it there; and
  connecting it does not throw where that is declared.  The grammar has every factory and adaptor
  modelled; its side conditions are that \<open>finally\<close> is used over an initial sender whose errors are
  declared to copy without throwing and a final sender that sends values in both of the
  environments it is examined in or in neither, and that \<open>repeat_n\<close> with count zero is used
  over a child that sends an empty value.
\<close>

theorem sn_expression_sound:
  assumes "universe_ok U" and "\<forall>k. sender_ok (sched k)" and "sender_expr U sched s"
    and "sn_sigs s e = Some cs"
  shows "(sn_nothrow s e \<longrightarrow> sn_connect s e = None) \<and>
    (\<forall>w. case sn_run s e w of None \<Rightarrow> True | Some (c, w') \<Rightarrow> sig_of c \<in> set cs)"
proof -
  have "sender_ok s"
    using assms(3) by induction
      (use assms(1,2) in \<open>simp_all add: sender_algorithms_ok let_fun_okI just_def just_error_def just_stopped_def just_ok\<close>)
  from sender_okD [OF this assms(4)] show ?thesis by (auto split: option.splits)
qed

section \<open>Composition laws\<close>

text \<open>The composition of two callables: the second gets what the first returned.\<close>

definition c_compose :: "'u callable \<Rightarrow> 'u callable \<Rightarrow> 'u callable" where
  "c_compose f g =
     \<lparr>c_call = (\<lambda>xs w. case c_call g xs w of
        (Inl x, w') \<Rightarrow> (Inl x, w')
      | (Inr v, w') \<Rightarrow> c_call f (case v of None \<Rightarrow> [] | Some y \<Rightarrow> [y]) w'),
      c_result = (\<lambda>ts. Option.bind (c_result g ts) (\<lambda>r. c_result f (case r of None \<Rightarrow> [] | Some t \<Rightarrow> [t]))),
      c_nothrow = (\<lambda>ts. c_nothrow g ts \<and>
        (case c_result g ts of Some r \<Rightarrow> c_nothrow f (case r of None \<Rightarrow> [] | Some t \<Rightarrow> [t]) | None \<Rightarrow> True))\<rparr>"

lemma then_complete_compose:
  "then_complete (c_compose f g) c w = (case then_complete g c w of (d, w') \<Rightarrow> then_complete f d w')"
  by (cases c) (auto simp: then_complete_def set_value_from_def c_compose_def split: sum.splits option.splits prod.splits)

text \<open>
  Two \<open>then\<close> adaptors in a row behave as one with the composed function, on every
  channel, exceptions included: the second function is called with what the first returned, only
  if it returned, and the completions that are not values pass both unchanged.
\<close>

lemma sn_then_fusion:
  "sn_run (then_sender f (then_sender g s)) e w = sn_run (then_sender (c_compose f g) s) e w"
  by (cases "sn_run s e w")
    (auto simp: then_sender_def basic_adaptor_def then_complete_compose split: prod.splits)

subsection \<open>\<open>let_value\<close>\<close>

definition let_compose :: "universe \<Rightarrow> 'u let_fun \<Rightarrow> 'u let_fun \<Rightarrow> 'u let_fun" where
  "let_compose U g f = f\<lparr>l_call := (\<lambda>xs w. case l_call f xs w of
     (Inl x, w') \<Rightarrow> (Inl x, w') | (Inr s, w') \<Rightarrow> (Inr (let_value U g s), w'))\<rparr>"

definition let_just :: "'u let_fun" where
  "let_just = \<lparr>l_call = (\<lambda>xs w. (Inr (just xs), w)), l_sigs = (\<lambda>ts e. Some [SigValue ts]),
     l_nothrow = (\<lambda>ts. True), l_nothrow_connect = (\<lambda>ts e. True)\<rparr>"

lemma let_complete_other: "sig_tag (sig_of c) \<noteq> tag \<Longrightarrow> let_complete U tag f e c w = Some (c, w)"
  by (simp add: let_complete_def)

lemma let_run:
  "sn_run (let_impl U tag f s) e w =
     Option.bind (sn_run s e w) (\<lambda>(c, w'). let_complete U tag f (secondary_env s [tag] e) c w')"
  by (simp add: let_impl_def)

lemma let_complete_compose:
  assumes "\<And>xs w s w'. l_call f xs w = (Inr s, w') \<Longrightarrow> secondary_env s [ValueTag] e = e2"
  shows "let_complete U ValueTag (let_compose U g f) e c w =
    Option.bind (let_complete U ValueTag f e c w) (\<lambda>(d, w'). let_complete U ValueTag g e2 d w')"
proof (cases "sig_tag (sig_of c) = ValueTag \<and> copy_args U (compl_args c) = None")
  case False
  then show ?thesis by (auto simp: let_complete_def split: option.split)
next
  case True
  obtain r w1 where r: "l_call f (compl_args c) w = (r, w1)" by force
  show ?thesis
  proof (cases r)
    case (Inl x)
    then show ?thesis using True r by (auto simp: let_complete_def let_compose_def)
  next
    case (Inr s)
    have "sn_connect (let_value U g s) e = sn_connect s e" by (simp add: let_value_def let_impl_def)
    moreover have "l_call (let_compose U g f) (compl_args c) w = (Inr (let_value U g s), w1)"
      using r Inr by (simp add: let_compose_def)
    ultimately have "let_complete U ValueTag (let_compose U g f) e c w =
        (case sn_connect s e of Some x \<Rightarrow> Some (SetError (Exn x), w1) | None \<Rightarrow> sn_run (let_value U g s) e w1)"
      using True by (simp add: let_complete_def)
    moreover have "let_complete U ValueTag f e c w =
        (case sn_connect s e of Some x \<Rightarrow> Some (SetError (Exn x), w1) | None \<Rightarrow> sn_run s e w1)"
      using True r Inr by (simp add: let_complete_def)
    ultimately show ?thesis using assms [OF r [unfolded Inr]]
      by (simp add: let_value_def let_run let_complete_other split: option.split)
  qed
qed

lemma secondary_env_just: "secondary_env (just xs) [ValueTag] e = e"
  by (cases e) (simp add: secondary_env_def just_def just_impl_def child_sigs_def sends_def split: option.split)

lemma let_complete_just:
  "let_complete U ValueTag let_just e c w = Some (case c of SetValue xs \<Rightarrow> or_throw U xs c | _ \<Rightarrow> c, w)"
  by (cases c) (simp_all add: let_complete_def let_just_def or_throw_def just_def just_impl_def split: option.split)

text \<open>
  Claim C14.  \<open>let_value\<close> is a monadic bind on the value channel, up to the copies it makes.  \<open>just\<close>
  is its right unit: every completion of the sender passes, except that a value whose copy throws
  becomes that exception.  \<open>just\<close> is its left unit: the values are copied, and then the function is
  called and its sender connected and run, each of the three ending it with the exception it
  throws.  It is associative, on every channel and with every exception of a copy, the function
  or a connect, if the senders the first function returns name for what they start the environment
  that the outer \<open>let_value\<close> names (which the attributes of \<open>let_value\<close> do not guarantee).
\<close>

theorem sn_let_value_laws:
  assumes "\<forall>xs w. case l_call f xs w of (Inl x, w') \<Rightarrow> True | (Inr s', w') \<Rightarrow>
      secondary_env s' [ValueTag] (secondary_env s [ValueTag] e) = secondary_env (let_value U f s) [ValueTag] e"
  shows "sn_run (let_value U g (let_value U f s)) e w = sn_run (let_value U (let_compose U g f) s) e w \<and>
    sn_run (let_value U let_just t) e2 w =
      (case sn_run t e2 w of
         None \<Rightarrow> None
       | Some (SetValue xs, w') \<Rightarrow> (case copy_args U xs of None \<Rightarrow> Some (SetValue xs, w') | Some x \<Rightarrow> Some (SetError (Exn x), w'))
       | Some (SetError x, w') \<Rightarrow> Some (SetError x, w')
       | Some (SetStopped, w') \<Rightarrow> Some (SetStopped, w')) \<and>
    sn_run (let_value U h (just xs)) e2 w =
      (case copy_args U xs of
         Some x \<Rightarrow> Some (SetError (Exn x), w)
       | None \<Rightarrow>
           (case l_call h xs w of
              (Inl x, w') \<Rightarrow> Some (SetError (Exn x), w')
            | (Inr s', w') \<Rightarrow>
                (case sn_connect s' e2 of Some x \<Rightarrow> Some (SetError (Exn x), w') | None \<Rightarrow> sn_run s' e2 w')))"
proof (intro conjI)
  have "secondary_env s' [ValueTag] (secondary_env s [ValueTag] e) = secondary_env (let_impl U ValueTag f s) [ValueTag] e"
    if "l_call f xs w1 = (Inr s', w2)" for xs w1 s' w2
    using assms [rule_format, of xs w1] that by (simp add: let_value_def)
  then have "let_complete U ValueTag (let_compose U g f) (secondary_env s [ValueTag] e) c w =
      Option.bind (let_complete U ValueTag f (secondary_env s [ValueTag] e) c w)
        (\<lambda>(d, w'). let_complete U ValueTag g (secondary_env (let_impl U ValueTag f s) [ValueTag] e) d w')" for c w
    by (rule let_complete_compose)
  then show "sn_run (let_value U g (let_value U f s)) e w = sn_run (let_value U (let_compose U g f) s) e w"
    by (cases "sn_run s e w") (auto simp: let_value_def let_run)
  show "sn_run (let_value U let_just t) e2 w =
      (case sn_run t e2 w of
         None \<Rightarrow> None
       | Some (SetValue xs, w') \<Rightarrow> (case copy_args U xs of None \<Rightarrow> Some (SetValue xs, w') | Some x \<Rightarrow> Some (SetError (Exn x), w'))
       | Some (SetError x, w') \<Rightarrow> Some (SetError x, w')
       | Some (SetStopped, w') \<Rightarrow> Some (SetStopped, w'))"
    by (auto simp: let_value_def let_run let_complete_just or_throw_def split: option.splits compl.splits)
  show "sn_run (let_value U h (just xs)) e2 w =
      (case copy_args U xs of
         Some x \<Rightarrow> Some (SetError (Exn x), w)
       | None \<Rightarrow>
           (case l_call h xs w of
              (Inl x, w') \<Rightarrow> Some (SetError (Exn x), w')
            | (Inr s', w') \<Rightarrow>
                (case sn_connect s' e2 of Some x \<Rightarrow> Some (SetError (Exn x), w') | None \<Rightarrow> sn_run s' e2 w')))"
    by (cases "copy_args U xs")
      (simp_all add: let_value_def let_run secondary_env_just, simp_all add: just_def just_impl_def let_complete_def)
qed

definition hop_sender :: "nat \<Rightarrow> 'u sender" where
  "hop_sender k = \<lparr>sn_sigs = (\<lambda>e. Some [SigValue []]), sn_nothrow = (\<lambda>e. True), sn_connect = (\<lambda>e. None),
     sn_run = (\<lambda>e w. Some (SetValue [], w\<lparr>ctx := k\<rparr>)), sn_sched = (\<lambda>t e. Some k)\<rparr>"

definition hop_fun :: "nat \<Rightarrow> 'u let_fun" where
  "hop_fun k = \<lparr>l_call = (\<lambda>xs w. (Inr (hop_sender k), w)), l_sigs = (\<lambda>ts e. Some [SigValue []]),
     l_nothrow = (\<lambda>ts. True), l_nothrow_connect = (\<lambda>ts e. True)\<rparr>"

definition scheduler_query :: query where
  "scheduler_query = \<lparr>q_type = (\<lambda>e. Some (TObj 0)), q_nothrow = (\<lambda>e. True),
     q_call = (\<lambda>e. Inr (Obj 0 (case e_sched e of Some k \<Rightarrow> int k | None \<Rightarrow> - 1)))\<rparr>"

definition plain_universe :: universe where
  "plain_universe = \<lparr>nothrow_copy = (\<lambda>t. True), copy_throws = (\<lambda>x. None),
     bool_type_of = (\<lambda>t. NotBool), to_bool = (\<lambda>x. Inr True)\<rparr>"

lemma let_sigs_hop:
  assumes "sn_sigs s e = Some [SigValue ts]"
  shows "sends ValueTag (child_sigs (let_value U (hop_fun j) s) e)"
  using assms by (simp add: let_value_def let_impl_def transform_all_def let_transform_def hop_fun_def child_sigs_def
      concat_signatures_def sends_def list_ex_iff eptr_unless_def eptr_sig_def)

text \<open>
  Claim C15.  The attributes of a \<open>let_value\<close> sender are those of its child, although it completes
  where the sender its function returns completes.  So whenever the child's attributes name a
  scheduler for its values and all goes well (no copy and no connect throws, both senders send
  values), a sender sequenced after the \<open>let_value\<close> is told the child's scheduler as the one it
  starts on, whatever context \<open>ctx w3\<close> the returned sender left it on: with a function whose sender
  moves to any context \<open>j\<close> it is told \<open>k\<close> and runs on \<open>j\<close>.
\<close>

theorem sn_let_attributes_wrong:
  assumes "sn_sched s ValueTag e = Some k"
    and "sn_run s e w = Some (SetValue xs, w1)" and "copy_args U xs = None"
  shows "(\<forall>f s' w2 ys w3 s2. l_call f xs w1 = (Inr s', w2) \<longrightarrow>
      sn_connect s' (secondary_env s [ValueTag] e) = None \<longrightarrow>
      sn_run s' (secondary_env s [ValueTag] e) w2 = Some (SetValue ys, w3) \<longrightarrow>
      sends ValueTag (child_sigs (let_value U f s) e) \<longrightarrow> sn_connect s2 (e\<lparr>e_sched := Some k\<rparr>) = None \<longrightarrow>
      sn_run (sequence2 (let_value U f s) s2) e w = sn_run s2 (e\<lparr>e_sched := Some k\<rparr>) w3) \<and>
    (sn_sigs s e = Some [SigValue (map ty_of xs)] \<longrightarrow>
      sn_run (sequence2 (let_value U (hop_fun j) s) (read_env scheduler_query)) e w
        = Some (SetValue [Obj 0 (int k)], w1\<lparr>ctx := j\<rparr>))"
proof -
  have main: "sn_run (sequence2 (let_value U f s) s2) e w = sn_run s2 (e\<lparr>e_sched := Some k\<rparr>) w3"
    if f: "l_call f xs w1 = (Inr s', w2)" "sn_connect s' (secondary_env s [ValueTag] e) = None"
      "sn_run s' (secondary_env s [ValueTag] e) w2 = Some (SetValue ys, w3)"
    and v: "sends ValueTag (child_sigs (let_value U f s) e)" and c: "sn_connect s2 (e\<lparr>e_sched := Some k\<rparr>) = None"
    for f s' w2 ys w3 s2
  proof -
    have "sn_sched (let_value U f s) ValueTag e = Some k" using assms(1) by (simp add: let_value_def let_impl_def)
    then have env: "secondary_env (let_value U f s) [ValueTag] e = e\<lparr>e_sched := Some k\<rparr>"
      using v by (simp add: secondary_env_def)
    have "sn_run (let_value U f s) e w = Some (SetValue ys, w3)"
      using assms(2,3) f by (simp add: let_value_def let_run let_complete_def)
    with env c show ?thesis by (simp add: sequence2_def sequence_receive1_def sequence_start_next_def)
  qed
  moreover have "sn_run (sequence2 (let_value U (hop_fun j) s) (read_env scheduler_query)) e w
      = sn_run (read_env scheduler_query) (e\<lparr>e_sched := Some k\<rparr>) (w1\<lparr>ctx := j\<rparr>)"
    if "sn_sigs s e = Some [SigValue (map ty_of xs)]"
    by (rule main [where f = "hop_fun j" and s' = "hop_sender j" and ys = "[]" and ?w2.0 = w1])
      (simp_all add: let_sigs_hop [OF that], simp_all add: hop_fun_def hop_sender_def read_env_def)
  ultimately show ?thesis by (simp add: read_env_def scheduler_query_def)
qed

subsection \<open>\<open>sequence\<close>\<close>

text \<open>
  The reference: run the senders in order until one does not complete with a value, each in the
  receiver's environment with the scheduler that the attributes of the sender before it name
  for its values as the start scheduler; connecting a sender after the first may throw.
\<close>

definition sequence_env :: "env \<Rightarrow> 'u sender \<Rightarrow> env \<Rightarrow> env" where
  "sequence_env e s ei = (case sn_sched s ValueTag ei of Some k \<Rightarrow> e\<lparr>e_sched := Some k\<rparr> | None \<Rightarrow> e)"

fun sequence_rest :: "env \<Rightarrow> env \<Rightarrow> 'u sender list \<Rightarrow> 'u outcome option \<Rightarrow> 'u outcome option" where
  "sequence_rest e e2 (s # ss) (Some (SetValue xs, w)) =
     sequence_rest e (sequence_env e s e2) ss
       (case sn_connect s e2 of Some x \<Rightarrow> Some (SetError (Exn x), w) | None \<Rightarrow> sn_run s e2 w)"
| "sequence_rest e e2 ss r = r"

lemma sender_ok_sends:
  assumes "sender_ok s" and "sn_sigs s e = Some cs" and "sn_run s e w = Some (SetValue xs, w')"
  shows "sends ValueTag cs"
  using sender_okD(2) [OF assms] by (auto simp: sends_def list_ex_iff intro: bexI [of _ "SigValue (map ty_of xs)"])

lemma secondary_env_value:
  assumes "sender_ok s" and "sn_sigs s e = Some cs" and "sn_run s e w = Some (SetValue xs, w')"
  shows "secondary_env s [ValueTag] e = sequence_env e s e"
  using sender_ok_sends [OF assms] assms(2) by (simp add: secondary_env_def sequence_env_def child_sigs_def)

lemma sequence_sigs_first: "sn_sigs (sequence (s # ss)) e = Some cs \<Longrightarrow> \<exists>cs1. sn_sigs s e = Some cs1"
proof (induction ss arbitrary: s)
  case (Cons s2 ss)
  then obtain cs1 where "sn_sigs (sequence2 s s2) e = Some cs1" by fastforce
  then show ?case by (auto simp: sequence2_def sequence_signatures_def bind_eq_Some_conv)
qed simp

text \<open>The environment of the third sender of a nested sequence does not depend on the first.\<close>

lemma sequence2_env:
  assumes ok: "sender_ok s" "sender_ok s2" and sg: "sn_sigs (sequence2 s s2) e = Some cs"
    and r: "sn_run (sequence2 s s2) e w = Some (SetValue xs, w')"
  shows "sequence_env e (sequence2 s s2) e = sequence_env e s2 (secondary_env s [ValueTag] e)"
proof -
  let ?e2 = "secondary_env s [ValueTag] e"
  obtain c w1 where c: "sn_run s e w = Some (c, w1)" "sequence_receive1 s2 ?e2 c w1 = Some (SetValue xs, w')"
    using r by (auto simp: sequence2_def bind_eq_Some_conv)
  then obtain ys where y: "sn_run s e w = Some (SetValue ys, w1)" "sequence_start_next s2 ?e2 w1 = Some (SetValue xs, w')"
    by (cases c) (auto simp: sequence_receive1_def)
  obtain cs1 where c1: "sn_sigs s e = Some cs1"
    using sg by (auto simp: sequence2_def sequence_signatures_def bind_eq_Some_conv)
  have "sends ValueTag cs1" by (rule sender_ok_sends [OF ok(1) c1 y(1)])
  then obtain cs2 where c2: "sn_sigs s2 ?e2 = Some cs2"
    using sg c1 by (auto simp: sequence2_def sequence_signatures_def bind_eq_Some_conv Let_def)
  have "sn_run s2 ?e2 w1 = Some (SetValue xs, w')"
    using y(2) by (auto simp: sequence_start_next_def split: option.splits)
  from sender_ok_sends [OF ok(2) c2 this] c2 show ?thesis
    by (simp add: sequence_env_def sequence2_def sequence_sched_def child_sigs_def Let_def)
qed

lemma sequence_run:
  assumes "sender_ok s" and "\<forall>t \<in> set ss. sender_ok t" and "sn_sigs (sequence (s # ss)) e = Some cs"
    and "\<And>xs w'. sn_run s e w = Some (SetValue xs, w') \<Longrightarrow> sequence_env e s e = e2"
  shows "sn_run (sequence (s # ss)) e w = sequence_rest e e2 ss (sn_run s e w)"
  using assms
proof (induction ss arbitrary: s e2)
  case (Cons s2 ss)
  obtain cs1 where cs1: "sn_sigs s e = Some cs1" using sequence_sigs_first [OF Cons.prems(3)] by blast
  obtain cs2 where cs2: "sn_sigs (sequence2 s s2) e = Some cs2"
    using sequence_sigs_first Cons.prems(3) by (metis sequence.simps(3))
  have ok2: "sender_ok s2" "sender_ok (sequence2 s s2)" using Cons.prems(1,2) by (simp_all add: sequence2_ok)
  have env: "sequence_env e (sequence2 s s2) e = sequence_env e s2 (secondary_env s [ValueTag] e)"
    if "sn_run (sequence2 s s2) e w = Some (SetValue xs, w')" for xs w'
    by (rule sequence2_env [OF Cons.prems(1) ok2(1) cs2 that])
  have "sn_run (sequence (s # s2 # ss)) e w =
      sequence_rest e (sequence_env e s2 (secondary_env s [ValueTag] e)) ss (sn_run (sequence2 s s2) e w)"
    using Cons.IH [OF ok2(2) _ _ env] Cons.prems(2,3) by simp
  also have "\<dots> = sequence_rest e e2 (s2 # ss) (sn_run s e w)"
  proof (cases "sn_run s e w")
    case (Some r)
    obtain c w' where r: "r = (c, w')" by force
    show ?thesis
    proof (cases c)
      case (SetValue xs)
      then have "secondary_env s [ValueTag] e = e2"
        using secondary_env_value [OF Cons.prems(1) cs1] Cons.prems(4) Some r by simp
      then show ?thesis using Some r SetValue
        by (simp add: sequence2_def sequence_receive1_def sequence_start_next_def)
    qed (use Some r in \<open>simp_all add: sequence2_def sequence_receive1_def\<close>)
  qed (simp add: sequence2_def)
  finally show ?case .
qed simp

text \<open>
  Claim C16.  A well-formed \<open>sequence\<close> of any length, over senders that complete as their signatures
  say, which is nested to the left two by two, runs its senders in order, passes over their values
  but the last one's, connects each sender only when its predecessors have completed with values,
  and ends with the first completion that is not a value or the exception of a failed connect.
  Each sender after the first runs in the environment of the receiver, where the scheduler that
  the attributes of its immediate predecessor name for its values, if they do, is the start
  scheduler.
\<close>

theorem sn_sequence_runs_in_order:
  assumes "sender_ok s" and "\<forall>t \<in> set ss. sender_ok t" and "sn_sigs (sequence (s # ss)) e = Some cs"
  shows "sn_run (sequence (s # ss)) e w = sequence_rest e (sequence_env e s e) ss (sn_run s e w)"
  by (rule sequence_run [OF assms refl])

subsection \<open>\<open>finally\<close>\<close>

lemma secondary_env_finally: "finally_env (finally_sender U s fin) e = e"
  by (simp add: finally_env_def secondary_env_def finally_sender_def split: list.split)

text \<open>The environment of the final sender number \<open>i\<close>: only the first is told where it is started.\<close>

definition cleanup_env :: "'u sender \<Rightarrow> env \<Rightarrow> nat \<Rightarrow> env" where
  "cleanup_env s e i = (if i = 0 then finally_env s e else e)"

definition is_value :: "compl \<Rightarrow> bool" where
  "is_value c \<longleftrightarrow> (case c of SetValue xs \<Rightarrow> True | _ \<Rightarrow> False)"

lemma final_complete_value: "final_complete c d = (if is_value d then c else d)"
  by (cases d) (simp_all add: final_complete_def is_value_def)

lemma finally_run_ok:
  assumes "finally_connects s fin e" and "sends ValueTag (child_sigs fin e)"
    and "sn_run s e w = Some (c, w1)" and "copy_args U (compl_args c) = None"
    and "sn_run fin (finally_env s e) w1 = Some (d, w2)"
  shows "sn_run (finally_sender U s fin) e w = Some (if is_value d then c else d, w2)"
  using assms by (simp add: finally_sender_def finally_store_and_start_def final_complete_value)

text \<open>
  Claim C17.  However many final senders are attached to a sender, one around the other, if no
  connect throws (which would terminate the program), every final sender may send a value and
  completes, and copying the arguments of none of the completions throws: every final sender runs,
  once, in order, where the one before it ended, whatever the completions were, and the whole
  completes with the last completion of a final sender that is not a value, and with the
  completion of the initial sender if there is none.
\<close>

theorem sn_finally_runs_final:
  assumes "sn_connect s e = None" and "sn_run s e w = Some (c, ws 0)" and "copy_args U (compl_args c) = None"
    and "\<forall>i < length fs. sn_connect (fs ! i) (cleanup_env s e i) = None \<and> sends ValueTag (child_sigs (fs ! i) e) \<and>
      sn_run (fs ! i) (cleanup_env s e i) (ws i) = Some (ds i, ws (Suc i)) \<and> copy_args U (compl_args (ds i)) = None"
  shows "sn_run (foldl (finally_sender U) s fs) e w =
    Some (last (c # filter (\<lambda>d. \<not> is_value d) (map ds [0..<length fs])), ws (length fs))"
proof -
  let ?c = "\<lambda>n. last (c # filter (\<lambda>d. \<not> is_value d) (map ds [0..<n]))"
  have "n \<le> length fs \<Longrightarrow> sn_connect (foldl (finally_sender U) s (take n fs)) e = None \<and>
      finally_env (foldl (finally_sender U) s (take n fs)) e = cleanup_env s e n \<and>
      copy_args U (compl_args (?c n)) = None \<and>
      sn_run (foldl (finally_sender U) s (take n fs)) e w = Some (?c n, ws n)" for n
  proof (induction n)
    case 0
    then show ?case using assms(1-3) by (simp add: cleanup_env_def)
  next
    case (Suc n)
    let ?s = "foldl (finally_sender U) s (take n fs)"
    have n: "n < length fs" using Suc.prems by simp
    then have f: "foldl (finally_sender U) s (take (Suc n) fs) = finally_sender U ?s (fs ! n)"
      by (simp add: take_Suc_conv_app_nth)
    from Suc have ih: "sn_connect ?s e = None" "finally_env ?s e = cleanup_env s e n"
      "copy_args U (compl_args (?c n)) = None" "sn_run ?s e w = Some (?c n, ws n)" by simp_all
    have fin: "sn_connect (fs ! n) (cleanup_env s e n) = None" "sends ValueTag (child_sigs (fs ! n) e)"
      "sn_run (fs ! n) (cleanup_env s e n) (ws n) = Some (ds n, ws (Suc n))" "copy_args U (compl_args (ds n)) = None"
      using assms(4) n by simp_all
    have c: "?c (Suc n) = (if is_value (ds n) then ?c n else ds n)" by simp
    have "sn_run (finally_sender U ?s (fs ! n)) e w = Some (if is_value (ds n) then ?c n else ds n, ws (Suc n))"
      using ih fin by (intro finally_run_ok) (simp_all add: finally_connects_def)
    then show ?case
      unfolding f c using ih(3) fin(4)
      by (simp add: secondary_env_finally cleanup_env_def) (simp add: finally_sender_def)
  qed
  from this [of "length fs"] show ?thesis by simp
qed

definition counting_callable :: "nat callable" where
  "counting_callable = \<lparr>c_call = (\<lambda>xs w. (Inr None, w\<lparr>usr := Suc (usr w)\<rparr>)), c_result = (\<lambda>ts. Some None),
     c_nothrow = (\<lambda>ts. True)\<rparr>"

definition throwing_universe :: universe where
  "throwing_universe = \<lparr>nothrow_copy = (\<lambda>t. t \<noteq> TObj 7), copy_throws = (\<lambda>x. if ty_of x = TObj 7 then Some 1 else None),
     bool_type_of = (\<lambda>t. NotBool), to_bool = (\<lambda>x. Inr True)\<rparr>"

text \<open>
  Claim C18.  Whatever the initial sender: if it completes with an error whose copy throws (and no
  connect throws, and the final sender may send a value), the final sender is not started, for the
  world is the one the initial sender left, and the exception of the copy is delivered.  The
  signatures computed for the \<open>finally\<close> sender do not have that \<^verbatim>\<open>set_error(exception_ptr)\<close>, unless
  one of the children has it or a value of the initial sender may throw when it is copied:
  only the copies of values are accounted for.
\<close>

theorem sn_finally_skips_final:
  assumes "finally_connects s fin e" and "sends ValueTag (child_sigs fin e)"
    and "sn_run s e w = Some (SetError x, w1)" and "copy_throws U x = Some y"
  shows "sn_run (finally_sender U s fin) e w = Some (SetError (Exn y), w1) \<and>
    (\<forall>ics fcs cs. sn_sigs s e = Some ics \<longrightarrow> sn_sigs fin (finally_env s e) = Some fcs \<longrightarrow>
      eptr_sig \<notin> set ics \<longrightarrow> eptr_sig \<notin> set fcs \<longrightarrow> (\<forall>ts. SigValue ts \<in> set ics \<longrightarrow> nothrow_copy_args U ts) \<longrightarrow>
      sn_sigs (finally_sender U s fin) e = Some cs \<longrightarrow> sig_of (SetError (Exn y)) \<notin> set cs)"
proof (intro conjI allI impI)
  show "sn_run (finally_sender U s fin) e w = Some (SetError (Exn y), w1)"
    using assms by (simp add: finally_sender_def finally_store_and_start_def)
  fix ics fcs cs
  assume i: "sn_sigs s e = Some ics" and f: "sn_sigs fin (finally_env s e) = Some fcs"
    and ne: "eptr_sig \<notin> set ics" "eptr_sig \<notin> set fcs" and nt: "\<forall>ts. SigValue ts \<in> set ics \<longrightarrow> nothrow_copy_args U ts"
    and "sn_sigs (finally_sender U s fin) e = Some cs"
  then have cs: "finally_signatures U ics fcs = Some cs" by (simp add: finally_sender_def)
  have "eptr_sig \<notin> set cs"
  proof (cases "sends ValueTag fcs")
    case False
    then show ?thesis
      using cs ne transform_signatures_from [of ics ignore_value keep_error keep_stopped fcs cs eptr_sig]
      by (auto simp: finally_signatures_def ignore_value_def keep_error_def keep_stopped_def eptr_sig_def elim!: transform_one.elims)
  next
    case True
    then obtain ds es where ds: "transform_signatures ics (decay_values U) keep_error keep_stopped [] = Some ds"
      and es: "transform_signatures fcs ignore_value keep_error keep_stopped [] = Some es"
      and cc: "cs = concat_signatures [ds, es]"
      using cs by (auto simp: finally_signatures_def bind_eq_Some_conv split: if_splits)
    have "eptr_sig \<notin> set ds"
      using transform_signatures_from [OF ds, of eptr_sig] ne(1) nt
      by (auto simp: decay_values_def keep_error_def keep_stopped_def eptr_unless_def eptr_sig_def elim!: transform_one.elims)
    moreover have "eptr_sig \<notin> set es"
      using transform_signatures_from [OF es, of eptr_sig] ne(2)
      by (auto simp: ignore_value_def keep_error_def keep_stopped_def eptr_sig_def elim!: transform_one.elims)
    ultimately show ?thesis using cc by simp
  qed
  then show "sig_of (SetError (Exn y)) \<notin> set cs" by (simp add: eptr_sig_def)
qed

section \<open>Where senders run\<close>

text \<open>
  The sender of a scheduler for the context \<open>k\<close>, which may also fail or be stopped: it sends an
  empty value, its attributes name \<open>k\<close> for it, and when it completes with that it has moved to \<open>k\<close>.
\<close>

definition schedules_to :: "nat \<Rightarrow> 'u sender \<Rightarrow> bool" where
  "schedules_to k sch \<longleftrightarrow>
     (\<forall>e. sends ValueTag (child_sigs sch e) \<and> sn_sched sch ValueTag e = Some k \<and>
       (\<forall>w xs w'. sn_run sch e w = Some (SetValue xs, w') \<longrightarrow> xs = [] \<and> ctx w' = k))"

lemma transform_total:
  assumes "\<And>s. \<exists>l. transform_one vf ef sf s = Some l"
  shows "\<exists>ds. transform_signatures cs vf ef sf extra = Some ds"
proof -
  have "\<exists>ls. those (map (transform_one vf ef sf) cs) = Some ls"
  proof (induction cs)
    case (Cons c cs)
    obtain l ls where "transform_one vf ef sf c = Some l" "those (map (transform_one vf ef sf) cs) = Some ls"
      using assms [of c] Cons.IH by blast
    then show ?case by simp
  qed simp
  then show ?thesis by (auto simp: transform_signatures_def transform_all_def)
qed

lemma schedule_continuation_env:
  assumes "schedules_to k sch"
  shows "secondary_env (continues_on U sch (just [])) [ValueTag] e = e\<lparr>e_sched := Some k\<rparr>"
proof -
  let ?c = "continues_on U sch (just [])"
  have sch: "sends ValueTag (child_sigs sch e)" "sn_sched sch ValueTag e = Some k"
    using assms by (simp_all add: schedules_to_def)
  then obtain scs where scs: "sn_sigs sch e = Some scs"
    by (cases "sn_sigs sch e") (simp_all add: child_sigs_def sends_def)
  have "\<exists>l. transform_one ignore_value keep_error keep_stopped s = Some l" for s
    by (cases s) (simp_all add: ignore_value_def keep_error_def keep_stopped_def)
  then obtain ss where "transform_signatures scs ignore_value keep_error keep_stopped [] = Some ss"
    using transform_total by blast
  then have "\<exists>cs. sn_sigs ?c e = Some cs \<and> SigValue [] \<in> set cs"
    by (simp add: continues_on_def just_def just_impl_def scs continues_on_signatures_def
        transform_signatures_def [of "[SigValue []]"] transform_all_def decay_values_def nothrow_copy_args_def
        eptr_unless_def concat_signatures_def)
  then have "sends ValueTag (child_sigs ?c e)" by (auto simp: child_sigs_def sends_def list_ex_iff intro!: bexI [of _ "SigValue []"])
  moreover have "sn_sched ?c ValueTag e = Some k"
    by (simp add: continues_on_def continues_on_sched_def sch)
  ultimately show ?thesis by (simp add: secondary_env_def)
qed

lemma starts_on_run:
  assumes "schedules_to k sch"
  shows "sn_run (starts_on U sch s) e w =
    (case sn_run sch e w of
       Some (SetValue [], w1) \<Rightarrow>
         (case sn_connect s (e\<lparr>e_sched := Some k\<rparr>) of
            Some x \<Rightarrow> Some (SetError (Exn x), w1)
          | None \<Rightarrow> sn_run s (e\<lparr>e_sched := Some k\<rparr>) w1)
     | r \<Rightarrow> r)"
proof -
  let ?c = "continues_on U sch (just [])"
  have run: "sn_run ?c e w = sn_run sch e w"
    using assms unfolding schedules_to_def
    by (cases "sn_run sch e w")
      (fastforce simp: continues_on_def just_def just_impl_def continues_on_complete_def split: compl.splits)+
  show ?thesis
  proof (cases "sn_run sch e w")
    case (Some r)
    obtain c w1 where r: "r = (c, w1)" by force
    show ?thesis
    proof (cases c)
      case (SetValue xs)
      then have "xs = []" using assms Some r by (simp add: schedules_to_def)
      then show ?thesis using Some r SetValue run
        by (simp add: starts_on_def sequence2_def sequence_receive1_def sequence_start_next_def
            schedule_continuation_env [OF assms])
    qed (use Some r run in \<open>simp_all add: starts_on_def sequence2_def sequence_receive1_def\<close>)
  qed (use run in \<open>simp add: starts_on_def sequence2_def\<close>)
qed

text \<open>
  \<open>starts_on(sch, s)\<close>, which is implemented as a sequence after \<open>continues_on\<close>, behaves
  as the specification's \<open>let_value(schedule(sch), [] { return s; })\<close>.
\<close>

lemma sn_starts_on_is_let:
  assumes "schedules_to k sch"
  shows "sn_run (starts_on U sch s) e w =
    sn_run (let_value U \<lparr>l_call = (\<lambda>xs w. (Inr s, w)), l_sigs = (\<lambda>ts e. sn_sigs s e), l_nothrow = (\<lambda>ts. True),
      l_nothrow_connect = (\<lambda>ts e. sn_nothrow s e)\<rparr> sch) e w"
proof -
  have env: "secondary_env sch [ValueTag] e = e\<lparr>e_sched := Some k\<rparr>"
    using assms by (simp add: schedules_to_def secondary_env_def)
  show ?thesis
  proof (cases "sn_run sch e w")
    case (Some r)
    obtain c w1 where r: "r = (c, w1)" by force
    have "xs = []" if "c = SetValue xs" for xs using assms Some r that by (simp add: schedules_to_def)
    then show ?thesis using Some r
      by (cases c) (simp_all add: starts_on_run [OF assms] let_value_def let_run let_complete_def env)
  qed (simp add: starts_on_run [OF assms] let_value_def let_run)
qed

text \<open>The first half of \<open>on\<close>: the trip to the scheduler and the sender there.\<close>

definition on_there :: "'u sender \<Rightarrow> nat \<Rightarrow> 'u sender \<Rightarrow> env \<Rightarrow> 'u world \<Rightarrow> 'u outcome option" where
  "on_there sch k s e w =
     (case sn_run sch e w of
        Some (SetValue [], w1) \<Rightarrow>
          (case sn_connect s (e\<lparr>e_sched := Some k\<rparr>) of
             Some x \<Rightarrow> Some (SetError (Exn x), w1)
           | None \<Rightarrow> sn_run s (e\<lparr>e_sched := Some k\<rparr>) w1)
      | r \<Rightarrow> r)"

text \<open>
  Claim C19.  \<open>on(sch, s)\<close>, whatever the sender and with schedulers that may fail or be stopped, as
  long as each sends an empty value, names its own context for it and has moved there then.  It
  schedules on \<open>k\<close>; if that succeeds it is on \<open>k\<close>, where it connects and runs the sender in the
  environment with \<open>k\<close> as start scheduler (the exception of a throwing connect being its
  completion), and otherwise the completion of the failed schedule takes the sender's place.
  That completion is copied, which if it throws ends everything with the exception, and taken back:
  the start scheduler of the environment (the inline one if it has none) is scheduled, and on its
  success the completion is delivered on that scheduler's context; if this second schedule fails, its error
  or stop is delivered instead.
\<close>

theorem sn_on_returns:
  assumes "\<forall>k. schedules_to k (sched k)"
  shows "(case on_there (sched k) k s e w of
      None \<Rightarrow> sn_run (on_sender U sched k s e) e w = None
    | Some (c, w2) \<Rightarrow>
        (case copy_args U (compl_args c) of
           Some x \<Rightarrow> sn_run (on_sender U sched k s e) e w = Some (SetError (Exn x), w2)
         | None \<Rightarrow>
             (case e_sched e of
                None \<Rightarrow> sn_run (on_sender U sched k s e) e w = Some (c, w2)
              | Some old \<Rightarrow>
                  (case sn_run (sched old) e w2 of
                     None \<Rightarrow> sn_run (on_sender U sched k s e) e w = None
                   | Some (SetValue xs, w3) \<Rightarrow> sn_run (on_sender U sched k s e) e w = Some (c, w3) \<and> ctx w3 = old
                   | Some (d, w3) \<Rightarrow> sn_run (on_sender U sched k s e) e w = Some (d, w3))))) \<and>
    (\<forall>xs w1. sn_run (sched k) e w = Some (SetValue xs, w1) \<longrightarrow> xs = [] \<and> ctx w1 = k)"
proof
  show "\<forall>xs w1. sn_run (sched k) e w = Some (SetValue xs, w1) \<longrightarrow> xs = [] \<and> ctx w1 = k"
    using assms by (simp add: schedules_to_def)
  have st: "sn_run (starts_on U (sched k) s) e w = on_there (sched k) k s e w"
    unfolding on_there_def by (rule starts_on_run) (use assms in blast)
  have ctx: "ctx w3 = old" if "sn_run (sched old) e w2 = Some (SetValue xs, w3)" for old w2 xs w3
    using assms that by (simp add: schedules_to_def)
  let ?on = "sn_run (on_sender U sched k s e) e w"
  show "case on_there (sched k) k s e w of
      None \<Rightarrow> ?on = None
    | Some (c, w2) \<Rightarrow>
        (case copy_args U (compl_args c) of
           Some x \<Rightarrow> ?on = Some (SetError (Exn x), w2)
         | None \<Rightarrow>
             (case e_sched e of
                None \<Rightarrow> ?on = Some (c, w2)
              | Some old \<Rightarrow>
                  (case sn_run (sched old) e w2 of
                     None \<Rightarrow> ?on = None
                   | Some (SetValue xs, w3) \<Rightarrow> ?on = Some (c, w3) \<and> ctx w3 = old
                   | Some (d, w3) \<Rightarrow> ?on = Some (d, w3))))"
  proof (cases "on_there (sched k) k s e w")
    case (Some r)
    then show ?thesis
      by (auto simp: on_sender_def continues_on_def continues_on_complete_def st inline_schedule_def just_def just_impl_def
          ctx split: option.split compl.split)
  qed (simp add: on_sender_def continues_on_def st)
qed

section \<open>Loops\<close>

text \<open>
  Claim C20.  \<open>repeat_n\<close> starts its child again and again in the world the last run left.  Suppose the
  first \<open>m\<close> of the \<open>n\<close> runs complete with values, no stop being requested before any of them (and, if
  \<open>m\<close> is not 0, connecting the child does not throw).  If \<open>m = n\<close> it has completed, with no values.
  If not: a stop requested by now ends it as stopped; an exception of connecting the child ends it
  with that error, and an error of the next run with that one, each copied (an exception of
  the copy takes its place); a stop of the next run ends it as stopped; it diverges with the next
  run; and after a value of the next run \<open>n - m - 1\<close> runs are left.
\<close>

theorem sn_repeat_n_iterates:
  assumes "m \<le> n" and "0 < m \<longrightarrow> sn_connect s e = None"
    and "\<forall>i < m. \<not> stop_requested e (ws i) \<and> (\<exists>xs. sn_run s e (ws i) = Some (SetValue xs, ws (Suc i)))"
  shows "sn_run (repeat_n U n s) e (ws 0) =
    (if m = n then Some (SetValue [], ws m)
     else if stop_requested e (ws m) then Some (SetStopped, ws m)
     else case sn_connect s e of
       Some x \<Rightarrow> Some (or_throw U [Exn x] (SetError (Exn x)), ws m)
     | None \<Rightarrow>
         (case sn_run s e (ws m) of
            None \<Rightarrow> None
          | Some (SetError x, w) \<Rightarrow> Some (or_throw U [x] (SetError x), w)
          | Some (SetStopped, w) \<Rightarrow> Some (SetStopped, w)
          | Some (SetValue xs, w) \<Rightarrow> sn_run (repeat_n U (n - Suc m) s) e w))"
proof -
  have step: "repeat_n_loop U (bouncy s) e (Suc j) (ws i) = repeat_n_loop U (bouncy s) e j (ws (Suc i))"
    if "i < m" for i j
    using assms(2,3) that by (cases j) (fastforce simp: bouncy_run)+
  have "i \<le> m \<Longrightarrow> sn_run (repeat_n U n s) e (ws 0) = sn_run (repeat_n U (n - i) s) e (ws i)" for i
  proof (induction i)
    case (Suc i)
    then have "n - i = Suc (n - Suc i)" using assms(1) by simp
    then show ?case using Suc step [of i "n - Suc i"] by (simp add: repeat_n_def)
  qed simp
  then have it: "sn_run (repeat_n U n s) e (ws 0) = sn_run (repeat_n U (n - m) s) e (ws m)" by blast
  show ?thesis
  proof (cases "m = n")
    case False
    then have j: "n - m = Suc (n - Suc m)" using assms(1) by simp
    then show ?thesis using it False
      by (auto simp: repeat_n_def bouncy_run repeat_set_error_def split: option.split compl.split)
  qed (use it in \<open>simp add: repeat_n_def\<close>)
qed

lemma repeat_until_step:
  assumes "sn_connect s e = None" and "\<not> stop_requested e w" and "sn_run s e w = Some (SetValue [x], w')"
    and "to_bool U x = Inr False"
  shows "repeat_until_loop U (bouncy s) e w = repeat_until_loop U (bouncy s) e w'"
  using assms by (subst repeat_until_loop.simps) (simp add: bouncy_run)

lemma repeat_until_never:
  assumes "repeat_until_loop U bc e w = Some r" and "P w"
    and "\<And>w. P w \<Longrightarrow> \<exists>x w'. sn_run bc e w = Some (SetValue [x], w') \<and> to_bool U x = Inr False \<and> P w'"
    and "sn_connect bc e = None"
  shows False
proof -
  have "sn_connect bc e = None \<longrightarrow> P w \<longrightarrow>
    (\<forall>w. P w \<longrightarrow> (\<exists>x w'. sn_run bc e w = Some (SetValue [x], w') \<and> to_bool U x = Inr False \<and> P w')) \<longrightarrow> False"
  proof (rule repeat_until_loop.raw_induct [OF _ assms(1), where P = "\<lambda>U bc e w r. sn_connect bc e = None \<longrightarrow> P w \<longrightarrow>
      (\<forall>w. P w \<longrightarrow> (\<exists>x w'. sn_run bc e w = Some (SetValue [x], w') \<and> to_bool U x = Inr False \<and> P w')) \<longrightarrow> False"],
      intro impI)
    fix loop U e w r and bc :: "'a sender"
    assume ih: "\<And>U (bc :: 'a sender) e w r. loop U bc e w = Some r \<Longrightarrow> sn_connect bc e = None \<longrightarrow> P w \<longrightarrow>
        (\<forall>w. P w \<longrightarrow> (\<exists>x w'. sn_run bc e w = Some (SetValue [x], w') \<and> to_bool U x = Inr False \<and> P w')) \<longrightarrow> False"
      and r: "Option.bind (sn_run bc e w) (\<lambda>(c, w').
        case c of
          SetValue xs \<Rightarrow>
            (case to_bool U (hd xs) of
               Inl x \<Rightarrow> Some (SetError (Exn x), w')
             | Inr b \<Rightarrow>
                 if b then Some (SetValue [], w')
                 else (case sn_connect bc e of
                         None \<Rightarrow> loop U bc e w'
                       | Some x \<Rightarrow> Some (SetError (Exn x), w')))
        | SetError x \<Rightarrow> Some (repeat_set_error U x, w')
        | SetStopped \<Rightarrow> Some (SetStopped, w')) = Some r"
      and n: "sn_connect bc e = None" and P: "P w"
      and all: "\<forall>w. P w \<longrightarrow> (\<exists>x w'. sn_run bc e w = Some (SetValue [x], w') \<and> to_bool U x = Inr False \<and> P w')"
    from all P obtain x w' where x: "sn_run bc e w = Some (SetValue [x], w')" "to_bool U x = Inr False" "P w'" by blast
    then have "loop U bc e w' = Some r" using r n by simp
    from ih [OF this] n x(3) all show False by blast
  qed
  with assms show False by blast
qed

text \<open>
  Claim C21.  \<open>repeat_until\<close>, when connecting its child does not throw: if the first \<open>m\<close> runs of the
  child send values that convert to \<open>false\<close>, no stop being requested before any of them, then the
  next run, if no stop is requested before it and it sends a value that converts to \<open>true\<close>, ends it
  without a value in the world that run left; a stop requested by then ends it as stopped; and
  if every run sends \<open>false\<close> and stop is never requested it does not complete.
\<close>

theorem sn_repeat_until_first_true:
  assumes "sn_connect s e = None"
    and "\<forall>i. i < m \<longrightarrow> \<not> stop_requested e (ws i) \<and>
      (\<exists>x. sn_run s e (ws i) = Some (SetValue [x], ws (Suc i)) \<and> to_bool U x = Inr False)"
  shows "(\<not> stop_requested e (ws m) \<longrightarrow> sn_run s e (ws m) = Some (SetValue [y], w) \<longrightarrow> to_bool U y = Inr True \<longrightarrow>
      sn_run (repeat_until U s) e (ws 0) = Some (SetValue [], w)) \<and>
    (stop_requested e (ws m) \<longrightarrow> sn_run (repeat_until U s) e (ws 0) = Some (SetStopped, ws m)) \<and>
    ((\<forall>i. \<not> stop_requested e (ws i) \<and>
        (\<exists>x. sn_run s e (ws i) = Some (SetValue [x], ws (Suc i)) \<and> to_bool U x = Inr False)) \<longrightarrow>
      sn_run (repeat_until U s) e (ws 0) = None)"
proof -
  have "i \<le> m \<Longrightarrow> repeat_until_loop U (bouncy s) e (ws 0) = repeat_until_loop U (bouncy s) e (ws i)" for i
  proof (induction i)
    case (Suc i)
    have "i < m" using Suc.prems by simp
    with assms(2) obtain x where "\<not> stop_requested e (ws i)" "sn_run s e (ws i) = Some (SetValue [x], ws (Suc i))"
      "to_bool U x = Inr False" by blast
    from repeat_until_step [OF assms(1) this] Suc show ?case by simp
  qed simp
  then have it: "sn_run (repeat_until U s) e (ws 0) = repeat_until_loop U (bouncy s) e (ws m)"
    by (simp add: repeat_until_def)
  show ?thesis
  proof (intro conjI impI)
    assume "\<not> stop_requested e (ws m)" "sn_run s e (ws m) = Some (SetValue [y], w)" "to_bool U y = Inr True"
    then show "sn_run (repeat_until U s) e (ws 0) = Some (SetValue [], w)"
      unfolding it using assms(1) by (subst repeat_until_loop.simps) (simp add: bouncy_run)
  next
    assume "stop_requested e (ws m)"
    then show "sn_run (repeat_until U s) e (ws 0) = Some (SetStopped, ws m)"
      unfolding it by (subst repeat_until_loop.simps) (simp add: bouncy_run)
  next
    assume all: "\<forall>i. \<not> stop_requested e (ws i) \<and>
        (\<exists>x. sn_run s e (ws i) = Some (SetValue [x], ws (Suc i)) \<and> to_bool U x = Inr False)"
    have stuck: "\<exists>x w'. sn_run (bouncy s) e w = Some (SetValue [x], w') \<and> to_bool U x = Inr False \<and> w' \<in> range ws"
      if "w \<in> range ws" for w
    proof -
      from that obtain i where w: "w = ws i" by blast
      from all obtain x where "\<not> stop_requested e (ws i)" "sn_run s e (ws i) = Some (SetValue [x], ws (Suc i))"
        "to_bool U x = Inr False" by blast
      then show ?thesis using w assms(1) by (intro exI [of _ x] exI [of _ "ws (Suc i)"]) (simp add: bouncy_run)
    qed
    show "sn_run (repeat_until U s) e (ws 0) = None"
    proof (cases "repeat_until_loop U (bouncy s) e (ws 0)")
      case (Some r)
      have False
        by (rule repeat_until_never [OF Some, where P = "\<lambda>w. w \<in> range ws"]) (use stuck in auto)
      then show ?thesis ..
    qed (simp add: repeat_until_def)
  qed
qed

lemma bulk_loop_append:
  "bulk_loop f (is @ js) xs w =
    (case bulk_loop f is xs w of
       ((Some x, xs'), w') \<Rightarrow> ((Some x, xs'), w')
     | ((None, xs'), w') \<Rightarrow> bulk_loop f js xs' w')"
  by (induction "is" arbitrary: xs w) (auto split: prod.splits option.splits)

text \<open>
  \<open>bulk\<close>, which is lowered to \<open>bulk_chunked\<close> over the whole range, behaves as
  \<open>bulk_unchunked\<close>: every index once, in order, each call seeing what the calls before left in the
  values, until one throws; and a range may be cut in chunks anywhere.
\<close>

lemma sn_bulk_is_unchunked:
  "sn_run (bulk shape f s) e w = sn_run (bulk_unchunked shape f s) e w \<and>
   (\<forall>m \<le> n. ch_call (as_bulk_chunked_fn f) 0 n xs w =
      (case ch_call (as_bulk_chunked_fn f) 0 m xs w of
         ((Some x, xs'), w') \<Rightarrow> ((Some x, xs'), w')
       | ((None, xs'), w') \<Rightarrow> ch_call (as_bulk_chunked_fn f) m n xs' w'))"
proof (intro conjI allI impI)
  show "sn_run (bulk shape f s) e w = sn_run (bulk_unchunked shape f s) e w"
    by (simp add: bulk_def bulk_chunked_def bulk_unchunked_def basic_adaptor_def bulk_chunked_complete_def [abs_def]
        bulk_unchunked_complete_def [abs_def] as_bulk_chunked_fn_def cong: compl.case_cong)
  have ch: "ch_call (as_bulk_chunked_fn f) b k xs w = bulk_loop f [b..<k] xs w" for b k xs w
    by (simp add: as_bulk_chunked_fn_def)
  fix m assume "m \<le> n"
  then have "[0..<n] = [0..<m] @ [m..<n]" using upt_add_eq_append [of 0 m "n - m"] by simp
  then show "ch_call (as_bulk_chunked_fn f) 0 n xs w =
      (case ch_call (as_bulk_chunked_fn f) 0 m xs w of
         ((Some x, xs'), w') \<Rightarrow> ((Some x, xs'), w')
       | ((None, xs'), w') \<Rightarrow> ch_call (as_bulk_chunked_fn f) m n xs' w')"
    by (simp add: ch bulk_loop_append split: prod.split option.split)
qed

section \<open>Completions as values, and no stop\<close>

text \<open>
  Claim C22.  \<open>dematerialize\<close> undoes \<open>materialize\<close>: the same completions, and the same completion
  signatures up to their order, for every sender.
\<close>

theorem sn_materialize_roundtrip:
  "sn_run (dematerialize (materialize s)) e w = sn_run s e w \<and>
   map_option set (sn_sigs (dematerialize (materialize s)) e) = map_option set (sn_sigs s e)"
proof
  have "dematerialize_complete (SetValue (Tag (sig_tag (sig_of c)) # compl_args c)) w = (c, w)" for c and w :: "'a world"
    by (cases c) simp_all
  then show "sn_run (dematerialize (materialize s)) e w = sn_run s e w"
    by (cases "sn_run s e w") (auto simp: dematerialize_def materialize_def basic_adaptor_def materialize_complete_def)
  have dm: "transform_one dematerialize_value keep_error keep_stopped (SigValue (TTag (sig_tag s) # sig_args s)) = Some [s]" for s
    by (cases s) simp_all
  have "transform_signatures (map (\<lambda>s. SigValue (TTag (sig_tag s) # sig_args s)) cs) dematerialize_value keep_error keep_stopped []
      = Some (concat_signatures [concat_signatures (map (\<lambda>s. [s]) cs), []])" for cs
  proof -
    have "those (map (\<lambda>s. Some [s]) cs) = Some (map (\<lambda>s. [s]) cs)" by (simp add: those_Some)
    then show ?thesis by (simp add: transform_signatures_def transform_all_def o_def dm del: transform_one.simps)
  qed
  then show "map_option set (sn_sigs (dematerialize (materialize s)) e) = map_option set (sn_sigs s e)"
    by (cases "sn_sigs s e")
      (simp_all add: dematerialize_def materialize_def basic_adaptor_def materialize_signatures_def)
qed

text \<open>
  \<open>upon_stopped\<close>, \<open>stopped_as_optional\<close> and \<open>stopped_as_error\<close> never complete as stopped,
  whatever their child does, and their signatures do not say so either.
\<close>

lemma sn_stopped_is_handled:
  "\<forall>t \<in> {upon_stopped f s, stopped_as_optional U s, stopped_as_error U x s}.
     (\<forall>e w w'. sn_run t e w \<noteq> Some (SetStopped, w')) \<and>
     (\<forall>e cs. sn_sigs t e = Some cs \<longrightarrow> SigStopped \<notin> set cs)"
proof -
  have u: "fst (set_value_from f xs w) \<noteq> SetStopped" for xs and w :: "'a world"
    by (auto simp: set_value_from_def split: prod.split sum.split option.split)
  have iu: "SigStopped \<notin> set (single_value_sig r # eptr_unless b)" for r b
    by (cases r) (auto simp: eptr_unless_def eptr_sig_def)
  have "fst (upon_stopped_complete f c w) \<noteq> SetStopped" for c and w :: "'a world"
    using u by (cases c) (auto simp: upon_stopped_complete_def)
  then have 1: "sn_run (upon_stopped f s) e w \<noteq> Some (SetStopped, w')" for e w w'
    by (auto simp: upon_stopped_def basic_adaptor_def) (metis fst_conv)
  have 2: "SigStopped \<notin> set cs" if "sn_sigs (upon_stopped f s) e = Some cs" for e cs
  proof
    assume m: "SigStopped \<in> set cs"
    from that obtain ss r where "transform_signatures ss keep_value keep_error (Some [single_value_sig r])
        (eptr_unless (c_nothrow f [])) = Some cs"
      by (auto simp: upon_stopped_def basic_adaptor_def upon_stopped_signatures_def bind_eq_Some_conv split: option.splits)
    from transform_signatures_from [OF this m] iu [of r "c_nothrow f []"] show False
      by (auto simp: keep_value_def keep_error_def elim!: transform_one.elims)
  qed
  have 3: "sn_run (stopped_as_optional U s) e w \<noteq> Some (SetStopped, w')" for e w w'
    by (auto simp: stopped_as_optional_def collecting_adaptor_def stopped_as_optional_complete_def or_throw_def Let_def
        split: compl.splits option.splits)
  have 4: "SigStopped \<notin> set cs" if "sn_sigs (stopped_as_optional U s) e = Some cs" for e cs
  proof
    assume m: "SigStopped \<in> set cs"
    from that obtain ss where "transform_signatures ss (\<lambda>ts. Some [SigValue (map TOptional ts)]) keep_error (Some []) [eptr_sig] = Some cs"
      by (auto simp: stopped_as_optional_def collecting_adaptor_def stopped_as_optional_signatures_def bind_eq_Some_conv
          split: option.splits)
    from transform_signatures_from [OF this m] show False
      by (auto simp: eptr_sig_def keep_error_def elim!: transform_one.elims)
  qed
  have 5: "sn_run (stopped_as_error U x s) e w \<noteq> Some (SetStopped, w')" for e w w'
  proof
    assume "sn_run (stopped_as_error U x s) e w = Some (SetStopped, w')"
    then obtain c w1 where "sn_run s e w = Some (c, w1)" and l: "let_complete U StoppedTag (stopped_error_fun x :: 'a let_fun) (secondary_env s [StoppedTag] e) c w1 = Some (SetStopped, w')"
      by (auto simp: stopped_as_error_def let_stopped_def let_run bind_eq_Some_conv)
    from l show False
      by (cases c) (simp_all add: let_complete_def stopped_error_fun_def just_error_def just_impl_def)
  qed
  have 6: "SigStopped \<notin> set cs" if "sn_sigs (stopped_as_error U x s) e = Some cs" for e cs
  proof
    assume m: "SigStopped \<in> set cs"
    from that obtain ss where t: "transform_all (let_transform U StoppedTag (stopped_error_fun x :: 'a let_fun) (secondary_env s [StoppedTag] e)) ss = Some cs"
      by (auto simp: stopped_as_error_def let_stopped_def let_impl_def bind_eq_Some_conv)
    then obtain ls where ls: "map (let_transform U StoppedTag (stopped_error_fun x :: 'a let_fun) (secondary_env s [StoppedTag] e)) ss = map Some ls" "cs = concat_signatures ls"
      by (auto simp: transform_all_def those_Some)
    then obtain l where "l \<in> set ls" "SigStopped \<in> set l" using m by auto
    then have "Some l \<in> set (map Some ls)" by simp
    then obtain d where "let_transform U StoppedTag (stopped_error_fun x :: 'a let_fun) (secondary_env s [StoppedTag] e) d = Some l"
      unfolding ls(1) [symmetric] by auto
    with \<open>SigStopped \<in> set l\<close> show False
      by (cases d) (auto simp: let_transform_def stopped_error_fun_def eptr_unless_def eptr_sig_def split: if_splits)
  qed
  show ?thesis using 1 2 3 4 5 6 by simp
qed

section \<open>The laws at concrete senders\<close>

definition env0 :: env where
  "env0 = \<lparr>e_sched = Some 0, e_token = None, e_value = (\<lambda>n. None)\<rparr>"

definition world0 :: "nat \<Rightarrow> nat world" where
  "world0 n = \<lparr>ctx = 0, stops = (\<lambda>n. False), usr = n\<rparr>"

definition counter :: "nat sender" where
  "counter = then_sender counting_callable (just [])"

lemma plain_universe_ok: "universe_ok plain_universe"
  by (simp add: universe_ok_def plain_universe_def)

lemma hop_schedules: "schedules_to k (hop_sender k)"
  by (simp add: schedules_to_def hop_sender_def child_sigs_def sends_def)

lemma hop_ok: "sender_ok (hop_sender k)"
  by (simp add: sender_ok_def hop_sender_def)

lemma counter_simps:
  "sn_run counter e w = Some (SetValue [], w\<lparr>usr := Suc (usr w)\<rparr>)" "sn_connect counter e = None"
  "sn_sigs counter e = Some [SigValue []]" "sn_sched counter ValueTag e = e_sched e"
  by (simp_all add: counter_def then_sender_def basic_adaptor_def just_def just_impl_def then_complete_def
      set_value_from_def counting_callable_def then_signatures_def transform_signatures_def transform_all_def
      invoke_signatures_def eptr_unless_def concat_signatures_def)

lemma counter_ok: "sender_ok counter"
  by (simp add: sender_ok_def counter_simps)

theorem sn_expression_sound_witness:
  "case sn_run counter env0 (world0 3) of None \<Rightarrow> False | Some (c, w') \<Rightarrow> sig_of c \<in> set [SigValue []]"
proof -
  have "callable_ok counting_callable" by (simp add: callable_ok_def counting_callable_def)
  then have "sender_expr plain_universe hop_sender counter"
    unfolding counter_def by (intro sender_expr.then_sender sender_expr.just)
  from sn_expression_sound [OF plain_universe_ok _ this counter_simps(3), of env0] hop_ok
  have "case sn_run counter env0 (world0 3) of None \<Rightarrow> True | Some (c, w') \<Rightarrow> sig_of c \<in> set [SigValue []]" by blast
  then show ?thesis by (simp add: counter_simps)
qed

theorem sn_let_value_laws_witness:
  "sn_run (let_value plain_universe let_just (let_value plain_universe let_just (just [Obj 1 2]))) env0 (world0 0)
     = sn_run (let_value plain_universe (let_compose plain_universe let_just let_just) (just [Obj 1 2])) env0 (world0 0) \<and>
   sn_run (let_value throwing_universe let_just (just [Obj 7 2])) env0 (world0 0) = Some (SetError (Exn 1), world0 0)"
proof -
  have lj: "secondary_env (let_value U let_just (just [x] :: nat sender)) [ValueTag] e = e" for U x e
    by (cases e) (simp add: secondary_env_def let_value_def let_impl_def just_def just_impl_def child_sigs_def sends_def
        transform_all_def let_transform_def let_just_def concat_signatures_def split: option.split)
  have all: "\<forall>xs (w :: nat world). case l_call let_just xs w of (Inl x, w') \<Rightarrow> True | (Inr s', w') \<Rightarrow>
      secondary_env s' [ValueTag] (secondary_env (just [x] :: nat sender) [ValueTag] env0)
        = secondary_env (let_value U let_just (just [x] :: nat sender)) [ValueTag] env0" for x U
    unfolding lj secondary_env_just by (simp add: let_just_def secondary_env_just)
  have "sn_run (let_value plain_universe let_just (let_value plain_universe let_just (just [Obj 1 2]))) env0 (world0 0)
     = sn_run (let_value plain_universe (let_compose plain_universe let_just let_just) (just [Obj 1 2])) env0 (world0 0)"
    by (rule sn_let_value_laws [OF all, THEN conjunct1])
  moreover have "sn_run (let_value throwing_universe let_just (just [Obj 7 2])) env0 (world0 0) = Some (SetError (Exn 1), world0 0)"
    by (subst sn_let_value_laws [OF all, THEN conjunct2, THEN conjunct1])
      (simp add: just_def just_impl_def throwing_universe_def)
  ultimately show ?thesis by blast
qed

theorem sn_let_attributes_wrong_witness:
  "sn_run (sequence2 (let_value plain_universe (hop_fun 5) (just [])) (read_env scheduler_query)) env0 (world0 0)
     = Some (SetValue [Obj 0 0], world0 0\<lparr>ctx := 5\<rparr>)"
proof -
  have "sn_sched (just []) ValueTag env0 = Some 0" "sn_run (just []) env0 (world0 0) = Some (SetValue [], world0 0)"
    "copy_args plain_universe [] = None" "sn_sigs (just []) env0 = Some [SigValue (map ty_of [])]"
    by (simp_all add: just_def just_impl_def env0_def)
  from sn_let_attributes_wrong [OF this(1-3), THEN conjunct2, rule_format, OF this(4), of 5] show ?thesis by simp
qed

theorem sn_sequence_runs_in_order_witness:
  "sn_run (sequence [counter, just_stopped, counter]) env0 (world0 0) = Some (SetStopped, world0 1)"
proof -
  have env: "secondary_env counter [ValueTag] env0 = env0"
    by (simp add: secondary_env_def counter_simps child_sigs_def sends_def) (simp add: env0_def)
  have "sn_sigs (sequence2 counter just_stopped) env0 = Some [SigStopped]"
    by (simp add: sequence2_def sequence_signatures_def counter_simps sends_def transform_signatures_def transform_all_def
        eat_value_signatures_def just_stopped_def just_impl_def concat_signatures_def eptr_unless_def Let_def)
  then have "sn_sigs (sequence [counter, just_stopped, counter]) env0 = Some [SigStopped]"
    by (simp add: sequence2_def [of "sequence2 counter just_stopped"] sequence_signatures_def sends_def)
  from sn_sequence_runs_in_order [OF _ _ this] counter_ok have
    "sn_run (sequence [counter, just_stopped, counter]) env0 (world0 0) =
      sequence_rest env0 (sequence_env env0 counter env0) [just_stopped, counter] (sn_run counter env0 (world0 0))"
    by (simp add: just_stopped_def just_ok)
  then show ?thesis by (simp add: counter_simps just_stopped_def just_impl_def world0_def)
qed

theorem sn_finally_runs_final_witness:
  "sn_run (foldl (finally_sender plain_universe) just_stopped [counter, counter]) env0 (world0 4) = Some (SetStopped, world0 6)"
proof -
  have s: "sn_connect just_stopped env0 = None" "sn_run just_stopped env0 (world0 4) = Some (SetStopped, world0 4)"
    by (simp_all add: just_stopped_def just_impl_def)
  have "\<forall>i < length [counter, counter]. sn_connect ([counter, counter] ! i) (cleanup_env just_stopped env0 i) = None \<and>
      sends ValueTag (child_sigs ([counter, counter] ! i) env0) \<and>
      sn_run ([counter, counter] ! i) (cleanup_env just_stopped env0 i) (world0 (4 + i)) = Some (SetValue [], world0 (4 + Suc i)) \<and>
      copy_args plain_universe (compl_args (SetValue [])) = None"
    by (auto simp: less_Suc_eq counter_simps child_sigs_def sends_def world0_def)
  from sn_finally_runs_final [where ws = "\<lambda>i. world0 (4 + i)" and ds = "\<lambda>i. SetValue []", OF s(1) _ _ this] s(2) show ?thesis
    by (simp add: is_value_def)
qed

theorem sn_finally_skips_final_witness:
  "sn_run (finally_sender throwing_universe (just_error (Obj 7 0)) counter) env0 (world0 4) = Some (SetError (Exn 1), world0 4) \<and>
   sn_sigs (finally_sender throwing_universe (just_error (Obj 7 0)) counter) env0 = Some [SigError (TObj 7)] \<and>
   sig_of (SetError (Exn 1)) \<notin> set [SigError (TObj 7)]"
proof -
  have h: "finally_connects (just_error (Obj 7 0)) counter env0" "sends ValueTag (child_sigs counter env0)"
    "sn_run (just_error (Obj 7 0)) env0 (world0 4) = Some (SetError (Obj 7 0), world0 4)"
    "copy_throws throwing_universe (Obj 7 0) = Some 1"
    by (simp_all add: finally_connects_def counter_simps just_error_def just_impl_def child_sigs_def sends_def
        throwing_universe_def)
  have sg: "sn_sigs (just_error (Obj 7 0) :: nat sender) env0 = Some [SigError (TObj 7)]"
    by (simp add: just_error_def just_impl_def)
  then have cs: "sn_sigs (finally_sender throwing_universe (just_error (Obj 7 0)) counter) env0 = Some [SigError (TObj 7)]"
    by (simp add: finally_sender_def counter_simps finally_signatures_def sends_def transform_signatures_def
        transform_all_def keep_error_def ignore_value_def concat_signatures_def)
  note * = sn_finally_skips_final [OF h]
  show ?thesis
    using * [THEN conjunct1] * [THEN conjunct2, rule_format, OF sg counter_simps(3) _ _ _ cs] cs
    by (simp add: eptr_sig_def)
qed

theorem sn_on_returns_witness:
  "sn_run (on_sender plain_universe hop_sender 7 (read_env scheduler_query) env0) env0 (world0 0)
    = Some (SetValue [Obj 0 7], world0 0)"
proof -
  have all: "\<forall>k. schedules_to k (hop_sender k :: nat sender)" using hop_schedules by blast
  have hop: "sn_run (hop_sender k) e w = Some (SetValue [], w\<lparr>ctx := k\<rparr>)" for k e and w :: "nat world"
    by (simp add: hop_sender_def)
  have there: "on_there (hop_sender 7) 7 (read_env scheduler_query) env0 (world0 0)
      = Some (SetValue [Obj 0 7], world0 0\<lparr>ctx := 7\<rparr>)"
    by (simp add: on_there_def hop) (simp add: read_env_def scheduler_query_def)
  have "e_sched env0 = Some 0" "copy_args plain_universe [Obj 0 7] = None" by (simp_all add: env0_def plain_universe_def)
  moreover have "world0 0\<lparr>ctx := 7, ctx := 0\<rparr> = world0 0" by (simp add: world0_def)
  ultimately show ?thesis
    using sn_on_returns [OF all, where k = 7 and s = "read_env scheduler_query" and e = env0 and w = "world0 0"
        and U = plain_universe] there by (simp add: hop)
qed

theorem sn_repeat_n_iterates_witness:
  "sn_run (repeat_n plain_universe 3 counter) env0 (world0 0) = Some (SetValue [], world0 3)"
proof -
  have "\<forall>i < 3. \<not> stop_requested env0 (world0 i) \<and> (\<exists>xs. sn_run counter env0 (world0 i) = Some (SetValue xs, world0 (Suc i)))"
    by (simp add: stop_requested_def env0_def counter_simps world0_def)
  from sn_repeat_n_iterates [OF _ _ this, of 3] show ?thesis by (simp add: counter_simps)
qed

definition until_sender :: "nat sender" where
  "until_sender = \<lparr>sn_sigs = (\<lambda>e. Some [SigValue [TObj 0]]), sn_nothrow = (\<lambda>e. True), sn_connect = (\<lambda>e. None),
     sn_run = (\<lambda>e w. Some (SetValue [Obj 0 (int (usr w))], w\<lparr>usr := Suc (usr w)\<rparr>)), sn_sched = (\<lambda>t e. e_sched e)\<rparr>"

definition until_universe :: universe where
  "until_universe = \<lparr>nothrow_copy = (\<lambda>t. True), copy_throws = (\<lambda>x. None),
     bool_type_of = (\<lambda>t. Convertible True), to_bool = (\<lambda>x. Inr (x = Obj 0 2))\<rparr>"

theorem sn_repeat_until_first_true_witness:
  "sn_run (repeat_until until_universe until_sender) env0 (world0 0) = Some (SetValue [], world0 3)"
proof -
  have c: "sn_connect until_sender env0 = None" by (simp add: until_sender_def)
  have st: "\<not> stop_requested env0 (world0 i)" for i by (simp add: stop_requested_def env0_def)
  have r: "sn_run until_sender env0 (world0 i) = Some (SetValue [Obj 0 (int i)], world0 (Suc i))" for i
    by (simp add: until_sender_def world0_def)
  have "\<forall>i < 2. \<not> stop_requested env0 (world0 i) \<and>
      (\<exists>x. sn_run until_sender env0 (world0 i) = Some (SetValue [x], world0 (Suc i)) \<and> to_bool until_universe x = Inr False)"
    by (auto simp: st r until_universe_def)
  from sn_repeat_until_first_true [OF c this, of "Obj 0 2" "world0 3"] st r [of 2] show ?thesis
    by (simp add: until_universe_def eval_nat_numeral)
qed

end
