(* ===== verification/WhenAll.thy ===== *)
theory WhenAll
  imports Completions
begin

text \<open>
  \<^verbatim>\<open>when_all\<close> (\<^verbatim>\<open>include/stdexec/__detail/__when_all.hpp\<close>): the operation state that runs
  its children concurrently, stores their values, remembers the first error, forwards stop
  requests and completes when the last child has arrived.

  The starting thread, each child and the stop callback of the receiver's token are the
  threads of a step relation with one access to the shared state per step.  A child completes
  with any completion its signatures allow, at any time after it was started.  What is known
  about the arrival counter holds as long as the stop callback does not begin after the counter
  has reached zero (\<open>wa_late\<close>); the last section shows what happens when it does.  What is known
  about the delivered completion also needs that no child completes as stopped in a way the code
  does not reckon with (\<open>wa_undeclared\<close>), of which there is an example run.
\<close>

section \<open>The configuration\<close>

text \<open>
  What is fixed at compile time: the number of children, their completion signatures in the
  environment that \<^verbatim>\<open>when_all\<close> gives them and in the receiver's environment, and whether the
  receiver's stop token can ever be stopped.  Nothing relates the signatures in the two
  environments.
\<close>

record wa_cfg =
  wa_n :: nat
  wa_univ :: universe
  wa_sigs :: "nat \<Rightarrow> sig list"
  wa_sigs_outer :: "nat \<Rightarrow> sig list"
  wa_outer_stoppable :: bool

definition wa_sends_stopped :: "wa_cfg \<Rightarrow> bool" where
  "wa_sends_stopped cfg \<longleftrightarrow> list_ex (\<lambda>i. sends StoppedTag (wa_sigs_outer cfg i)) [0..<wa_n cfg]"

fun value_sigs :: "sig list \<Rightarrow> ty list list" where
  "value_sigs [] = []"
| "value_sigs (SigValue ts # cs) = ts # value_sigs cs"
| "value_sigs (_ # cs) = value_sigs cs"

text \<open>\<open>__max1_sender\<close>; \<open>__values_tuple\<close> is \<open>__ignore\<close> unless every child has a value completion.\<close>

definition wa_max1 :: "wa_cfg \<Rightarrow> bool" where
  "wa_max1 cfg \<longleftrightarrow> list_all (\<lambda>i. length (value_sigs (wa_sigs cfg i)) \<le> 1) [0..<wa_n cfg]"

definition wa_has_values :: "wa_cfg \<Rightarrow> bool" where
  "wa_has_values cfg \<longleftrightarrow> list_all (\<lambda>i. length (value_sigs (wa_sigs cfg i)) = 1) [0..<wa_n cfg]"

definition wa_has_errors :: "wa_cfg \<Rightarrow> bool" where
  "wa_has_errors cfg \<longleftrightarrow>
     list_ex (\<lambda>i. \<not> nothrow_copy_results (wa_univ cfg) (wa_sigs cfg i) \<or>
       sends ErrorTag (wa_sigs cfg i)) [0..<wa_n cfg]"

text \<open>\<open>__completions\<close>\<close>

definition wa_set_values_sig :: "wa_cfg \<Rightarrow> sig list" where
  "wa_set_values_sig cfg =
     (if wa_has_values cfg
      then [SigValue (concat (map (\<lambda>i. hd (value_sigs (wa_sigs cfg i))) [0..<wa_n cfg]))] else [])"

definition wa_child_sigs :: "sig list \<Rightarrow> sig list option" where
  "wa_child_sigs cs = transform_signatures cs ignore_value keep_error keep_stopped []"

definition wa_signatures :: "wa_cfg \<Rightarrow> sig list option" where
  "wa_signatures cfg =
     (if wa_max1 cfg
      then map_option
        (\<lambda>css. concat_signatures
           ([eptr_unless (list_all (\<lambda>i. nothrow_copy_results (wa_univ cfg) (wa_sigs cfg i)) [0..<wa_n cfg]),
             wa_set_values_sig cfg] @ css))
        (those (map (\<lambda>i. wa_child_sigs (wa_sigs cfg i)) [0..<wa_n cfg]))
      else None)"

text \<open>The program is well-formed: copies declared not to throw do not, one value completion per child.\<close>

definition wa_cfg_ok :: "wa_cfg \<Rightarrow> bool" where
  "wa_cfg_ok cfg \<longleftrightarrow> universe_ok (wa_univ cfg) \<and> wa_max1 cfg"

section \<open>The operation state and its steps\<close>

datatype wa_state = WaStarted | WaError | WaStopped

datatype wa_thread = Starter | Callback | Child nat

text \<open>
  Program counters.  \<open>WaInline\<close>: the starter waits for the callback it runs itself;
  \<open>WaStop x\<close>: in \<open>request_stop\<close>, then storing the error \<open>x\<close> or arriving; \<open>WaReset\<close>: entered
  the operation state's \<open>__complete\<close>; \<open>WaFailed\<close>: dereferenced a disengaged optional or
  visited a valueless variant.
\<close>

datatype wa_pc =
    WaIdle | WaInline | WaStarting nat
  | WaRunning | WaValue "obj list" | WaExchange obj | WaStop "obj option" | WaStore obj
  | WaEnter | WaCas | WaArrive
  | WaReset | WaDeliver | WaGone | WaFailed

record when_all_op =
  wa_count :: nat
  wa_state :: wa_state
  wa_errors :: "obj option"
  wa_values :: "nat \<Rightarrow> obj list option"
  wa_inner_stop :: bool
  wa_outer_stop :: bool
  wa_registered :: bool \<comment> \<open>the callback is on the list of the receiver's stop source\<close>
  wa_pc :: "wa_thread \<Rightarrow> wa_pc"
  wa_done :: "compl list" \<comment> \<open>the receiver's completions so far\<close>
  wa_chosen :: "nat \<Rightarrow> compl option" \<comment> \<open>ghost: what a child has completed with\<close>
  wa_late :: bool \<comment> \<open>ghost: the callback has found the counter at zero\<close>
  wa_undeclared :: bool \<comment> \<open>ghost: a child has completed as stopped unasked, see \<open>wa_unasked_stop\<close>\<close>

definition wa_init :: "wa_cfg \<Rightarrow> when_all_op \<Rightarrow> bool" where
  "wa_init cfg s \<longleftrightarrow> wa_count s = wa_n cfg \<and> wa_state s = WaStarted \<and> wa_errors s = None \<and>
     (\<forall>i. wa_values s i = None) \<and> \<not> wa_inner_stop s \<and> \<not> wa_registered s \<and>
     (wa_outer_stop s \<longrightarrow> wa_outer_stoppable cfg) \<and>
     (\<forall>t. wa_pc s t = WaIdle) \<and> wa_done s = [] \<and> (\<forall>i. wa_chosen s i = None) \<and> \<not> wa_late s \<and>
     \<not> wa_undeclared s"

definition wa_goto :: "wa_thread \<Rightarrow> wa_pc \<Rightarrow> when_all_op \<Rightarrow> when_all_op" where
  "wa_goto t pc s = s\<lparr>wa_pc := (wa_pc s)(t := pc)\<rparr>"

text \<open>Decay-copying into storage: without a handler when that cannot throw.\<close>

definition wa_try_copy :: "universe \<Rightarrow> obj list \<Rightarrow> int option" where
  "wa_try_copy U xs = (if nothrow_copy_args U (map ty_of xs) then None else copy_args U xs)"

definition wa_stored :: "universe \<Rightarrow> obj \<Rightarrow> obj" where
  "wa_stored U x = (case wa_try_copy U [x] of None \<Rightarrow> x | Some e \<Rightarrow> Exn e)"

text \<open>What \<open>__complete\<close> of the state delivers; \<open>None\<close> is undefined behaviour.\<close>

definition wa_set_values :: "wa_cfg \<Rightarrow> when_all_op \<Rightarrow> compl list option" where
  "wa_set_values cfg s =
     (if wa_has_values cfg
      then map_option (\<lambda>xss. [SetValue (concat xss)]) (those (map (wa_values s) [0..<wa_n cfg]))
      else Some [])"

definition wa_result :: "wa_cfg \<Rightarrow> when_all_op \<Rightarrow> compl list option" where
  "wa_result cfg s =
     (case wa_state s of
        WaStopped \<Rightarrow> if wa_sends_stopped cfg then Some [SetStopped] else wa_set_values cfg s
      | WaStarted \<Rightarrow> wa_set_values cfg s
      | WaError \<Rightarrow>
          if wa_has_errors cfg then map_option (\<lambda>x. [SetError x]) (wa_errors s) else Some [])"

text \<open>
  \<^verbatim>\<open>__sends_stopped\<close> looks at the children in the receiver's environment.  A child that completes
  as stopped although none declares that there is not expected to if the receiver's token can
  be stopped (as the one it is given can), or if \<^verbatim>\<open>when_all\<close> has not asked it to stop.
\<close>

definition wa_unasked_stop :: "wa_cfg \<Rightarrow> bool \<Rightarrow> compl \<Rightarrow> bool" where
  "wa_unasked_stop cfg asked c \<longleftrightarrow>
     c = SetStopped \<and> \<not> wa_sends_stopped cfg \<and> (wa_outer_stoppable cfg \<or> \<not> asked)"

lemma wa_unasked_stop_value [simp]: "\<not> wa_unasked_stop cfg asked (SetValue xs)" "\<not> wa_unasked_stop cfg asked (SetError x)"
  by (simp_all add: wa_unasked_stop_def)

fun wa_completion_pc :: "compl \<Rightarrow> wa_pc" where
  "wa_completion_pc (SetValue xs) = WaValue xs"
| "wa_completion_pc (SetError x) = WaExchange x"
| "wa_completion_pc SetStopped = WaCas"

text \<open>\<open>__start\<close>; the callback of a token that has already been stopped runs inline.\<close>

inductive wa_start_step :: "wa_cfg \<Rightarrow> when_all_op \<Rightarrow> when_all_op \<Rightarrow> bool" for cfg where
  register: "wa_pc s Starter = WaIdle \<Longrightarrow> \<not> wa_outer_stop s \<Longrightarrow>
     wa_start_step cfg s (wa_goto Starter (WaStarting 0) (s\<lparr>wa_registered := True\<rparr>))"
| fire_inline: "wa_pc s Starter = WaIdle \<Longrightarrow> wa_outer_stop s \<Longrightarrow>
     wa_start_step cfg s (wa_goto Starter WaInline (wa_goto Callback WaEnter s))"
| inline_done: "wa_pc s Starter = WaInline \<Longrightarrow> wa_pc s Callback = WaGone \<Longrightarrow>
     wa_start_step cfg s (wa_goto Starter (WaStarting 0) s)"
| start_child: "wa_pc s Starter = WaStarting i \<Longrightarrow> i < wa_n cfg \<Longrightarrow>
     wa_start_step cfg s
       (wa_goto Starter (if Suc i = wa_n cfg then WaGone else WaStarting (Suc i))
          (wa_goto (Child i) WaRunning s))"
| start_none: "wa_pc s Starter = WaStarting i \<Longrightarrow> wa_n cfg = 0 \<Longrightarrow>
     wa_start_step cfg s (wa_goto Starter WaReset s)"

text \<open>The child's completion: the static \<open>__complete\<close> and \<open>__set_error\<close>.\<close>

inductive wa_child_step :: "wa_cfg \<Rightarrow> nat \<Rightarrow> when_all_op \<Rightarrow> when_all_op \<Rightarrow> bool" for cfg i where
  completes: "wa_pc s (Child i) = WaRunning \<Longrightarrow> sig_of c \<in> set (wa_sigs cfg i) \<Longrightarrow>
     wa_child_step cfg i s
       (wa_goto (Child i) (wa_completion_pc c) (s\<lparr>wa_chosen := (wa_chosen s)(i := Some c),
          wa_undeclared := (wa_undeclared s \<or> wa_unasked_stop cfg (wa_inner_stop s) c)\<rparr>))"
| store_values: "wa_pc s (Child i) = WaValue xs \<Longrightarrow> wa_has_values cfg \<Longrightarrow>
     wa_try_copy (wa_univ cfg) xs = None \<Longrightarrow>
     wa_child_step cfg i s
       (wa_goto (Child i) WaArrive (s\<lparr>wa_values := (wa_values s)(i := Some xs)\<rparr>))"
| values_throw: "wa_pc s (Child i) = WaValue xs \<Longrightarrow> wa_has_values cfg \<Longrightarrow>
     wa_try_copy (wa_univ cfg) xs = Some e \<Longrightarrow>
     wa_child_step cfg i s (wa_goto (Child i) (WaExchange (Exn e)) s)"
| ignore_values: "wa_pc s (Child i) = WaValue xs \<Longrightarrow> \<not> wa_has_values cfg \<Longrightarrow>
     wa_child_step cfg i s (wa_goto (Child i) WaArrive s)"
| exchange: "wa_pc s (Child i) = WaExchange x \<Longrightarrow>
     wa_child_step cfg i s
       (wa_goto (Child i)
          (case wa_state s of WaStarted \<Rightarrow> WaStop (Some x) | WaStopped \<Rightarrow> WaStore x | WaError \<Rightarrow> WaArrive)
          (s\<lparr>wa_state := WaError\<rparr>))"
| store_error: "wa_pc s (Child i) = WaStore x \<Longrightarrow>
     wa_child_step cfg i s
       (wa_goto (Child i) WaArrive (s\<lparr>wa_errors := Some (wa_stored (wa_univ cfg) x)\<rparr>))"

text \<open>\<open>__forward_stop_request\<close>, invoked at most once by the receiver's stop source.\<close>

inductive wa_callback_step :: "wa_cfg \<Rightarrow> when_all_op \<Rightarrow> when_all_op \<Rightarrow> bool" for cfg where
  outer_request: "wa_outer_stoppable cfg \<Longrightarrow> wa_callback_step cfg s (s\<lparr>wa_outer_stop := True\<rparr>)"
| fire: "wa_outer_stop s \<Longrightarrow> wa_registered s \<Longrightarrow> wa_pc s Callback = WaIdle \<Longrightarrow>
     wa_callback_step cfg s (wa_goto Callback WaEnter (s\<lparr>wa_registered := False\<rparr>))"
| enter: "wa_pc s Callback = WaEnter \<Longrightarrow>
     wa_callback_step cfg s
       (wa_goto Callback WaCas
          (s\<lparr>wa_count := Suc (wa_count s), wa_late := (wa_late s \<or> wa_count s = 0)\<rparr>))"

text \<open>What the callback, the children and the starter share.\<close>

inductive wa_shared_step :: "wa_cfg \<Rightarrow> wa_thread \<Rightarrow> when_all_op \<Rightarrow> when_all_op \<Rightarrow> bool" for cfg t where
  cas: "wa_pc s t = WaCas \<Longrightarrow>
     wa_shared_step cfg t s
       (if wa_state s = WaStarted then wa_goto t (WaStop None) (s\<lparr>wa_state := WaStopped\<rparr>)
        else wa_goto t WaArrive s)"
| request_stop: "wa_pc s t = WaStop x \<Longrightarrow>
     wa_shared_step cfg t s
       (wa_goto t (case x of None \<Rightarrow> WaArrive | Some y \<Rightarrow> WaStore y) (s\<lparr>wa_inner_stop := True\<rparr>))"
| arrive: "wa_pc s t = WaArrive \<Longrightarrow>
     wa_shared_step cfg t s
       (wa_goto t (if wa_count s = 1 then WaReset else WaGone) (s\<lparr>wa_count := wa_count s - 1\<rparr>))"
| reset: "wa_pc s t = WaReset \<Longrightarrow> t = Callback \<or> wa_pc s Callback \<in> {WaIdle, WaGone} \<Longrightarrow>
     wa_shared_step cfg t s (wa_goto t WaDeliver (s\<lparr>wa_registered := False\<rparr>))"
| deliver: "wa_pc s t = WaDeliver \<Longrightarrow> wa_result cfg s = Some cs \<Longrightarrow>
     wa_shared_step cfg t s (wa_goto t WaGone (s\<lparr>wa_done := wa_done s @ cs\<rparr>))"
| deliver_fails: "wa_pc s t = WaDeliver \<Longrightarrow> wa_result cfg s = None \<Longrightarrow>
     wa_shared_step cfg t s (wa_goto t WaFailed s)"

inductive wa_step :: "wa_cfg \<Rightarrow> when_all_op \<Rightarrow> when_all_op \<Rightarrow> bool" for cfg where
  by_start: "wa_start_step cfg s s' \<Longrightarrow> wa_step cfg s s'"
| by_child: "wa_child_step cfg i s s' \<Longrightarrow> wa_step cfg s s'"
| by_callback: "wa_callback_step cfg s s' \<Longrightarrow> wa_step cfg s s'"
| by_shared: "wa_shared_step cfg t s s' \<Longrightarrow> wa_step cfg s s'"


section \<open>What each thread knows\<close>

text \<open>
  The local assertions: what has become of a child's completion \<open>c\<close> at each program counter,
  in terms of the state and the child's slot \<open>v\<close> of the values tuple.  \<open>wa_raised\<close>: the
  completion made \<open>__set_error\<close> run with \<open>x\<close>.
\<close>

fun wa_raised :: "wa_cfg \<Rightarrow> compl option \<Rightarrow> obj \<Rightarrow> bool" where
  "wa_raised cfg (Some (SetError y)) x \<longleftrightarrow> x = y"
| "wa_raised cfg (Some (SetValue xs)) x \<longleftrightarrow>
     wa_has_values cfg \<and> (\<exists>e. wa_try_copy (wa_univ cfg) xs = Some e \<and> x = Exn e)"
| "wa_raised cfg _ x \<longleftrightarrow> False"

fun wa_settled :: "wa_cfg \<Rightarrow> wa_state \<Rightarrow> compl option \<Rightarrow> obj list option \<Rightarrow> bool" where
  "wa_settled cfg st (Some (SetValue xs)) v \<longleftrightarrow>
     (wa_has_values cfg \<longrightarrow>
        (if wa_try_copy (wa_univ cfg) xs = None then v = Some xs else st = WaError))"
| "wa_settled cfg st (Some (SetError x)) v \<longleftrightarrow> st = WaError"
| "wa_settled cfg st (Some SetStopped) v \<longleftrightarrow> st \<noteq> WaStarted"
| "wa_settled cfg st None v \<longleftrightarrow> False"

fun wa_local :: "wa_cfg \<Rightarrow> wa_state \<Rightarrow> compl option \<Rightarrow> obj list option \<Rightarrow> wa_pc \<Rightarrow> bool" where
  "wa_local cfg st c v WaIdle \<longleftrightarrow> c = None"
| "wa_local cfg st c v WaRunning \<longleftrightarrow> c = None"
| "wa_local cfg st c v (WaValue xs) \<longleftrightarrow> c = Some (SetValue xs)"
| "wa_local cfg st c v (WaExchange x) \<longleftrightarrow> wa_raised cfg c x"
| "wa_local cfg st c v (WaStop (Some x)) \<longleftrightarrow> wa_raised cfg c x \<and> st = WaError"
| "wa_local cfg st c v (WaStore x) \<longleftrightarrow> wa_raised cfg c x \<and> st = WaError"
| "wa_local cfg st c v (WaStop None) \<longleftrightarrow> c = Some SetStopped \<and> st \<noteq> WaStarted"
| "wa_local cfg st c v WaCas \<longleftrightarrow> c = Some SetStopped"
| "wa_local cfg st c v WaEnter \<longleftrightarrow> False"
| "wa_local cfg st c v WaInline \<longleftrightarrow> False"
| "wa_local cfg st c v (WaStarting k) \<longleftrightarrow> False"
| "wa_local cfg st c v _ \<longleftrightarrow> wa_settled cfg st c v"

fun wa_callback_local :: "wa_state \<Rightarrow> bool \<Rightarrow> wa_pc \<Rightarrow> bool" where
  "wa_callback_local st out WaIdle \<longleftrightarrow> True"
| "wa_callback_local st out (WaStop None) \<longleftrightarrow> out \<and> st \<noteq> WaStarted"
| "wa_callback_local st out pc \<longleftrightarrow>
     out \<and> pc \<in> {WaEnter, WaCas, WaArrive, WaReset, WaDeliver, WaGone, WaFailed}"

fun wa_starter_local :: "nat \<Rightarrow> wa_pc \<Rightarrow> bool" where
  "wa_starter_local n (WaStarting i) \<longleftrightarrow> i < n \<or> i = 0 \<and> n = 0"
| "wa_starter_local n pc \<longleftrightarrow>
     pc \<in> {WaIdle, WaInline} \<or> (if n = 0 then pc \<in> {WaReset, WaDeliver, WaGone, WaFailed} else pc = WaGone)"

text \<open>The children that the starter has not reached yet, by its program counter.\<close>

fun wa_unstarted :: "wa_pc \<Rightarrow> nat \<Rightarrow> bool" where
  "wa_unstarted WaIdle j \<longleftrightarrow> True"
| "wa_unstarted WaInline j \<longleftrightarrow> True"
| "wa_unstarted (WaStarting i) j \<longleftrightarrow> i \<le> j"
| "wa_unstarted _ j \<longleftrightarrow> False"

definition wa_inv_local :: "wa_cfg \<Rightarrow> when_all_op \<Rightarrow> bool" where
  "wa_inv_local cfg s \<longleftrightarrow>
     wa_starter_local (wa_n cfg) (wa_pc s Starter) \<and>
     wa_callback_local (wa_state s) (wa_outer_stop s) (wa_pc s Callback) \<and>
     (\<forall>i. wa_local cfg (wa_state s) (wa_chosen s i) (wa_values s i) (wa_pc s (Child i))) \<and>
     (\<forall>i. wa_pc s (Child i) = WaIdle \<longleftrightarrow> wa_n cfg \<le> i \<or> wa_unstarted (wa_pc s Starter) i) \<and>
     (\<forall>i c. wa_chosen s i = Some c \<longrightarrow> sig_of c \<in> set (wa_sigs cfg i))"

text \<open>The state only moves from started to stopped to error, which the assertions survive.\<close>

fun wa_later :: "wa_state \<Rightarrow> wa_state \<Rightarrow> bool" where
  "wa_later st WaError \<longleftrightarrow> True"
| "wa_later st WaStopped \<longleftrightarrow> st \<noteq> WaError"
| "wa_later st WaStarted \<longleftrightarrow> st = WaStarted"

lemma wa_later_refl [simp]: "wa_later st st"
  by (cases st) auto

lemma wa_raised_settled: "wa_raised cfg c x \<Longrightarrow> wa_settled cfg WaError c v"
  by (cases "(cfg, c, x)" rule: wa_raised.cases) auto

lemma wa_settled_later: "wa_settled cfg st c v \<Longrightarrow> wa_later st st' \<Longrightarrow> wa_settled cfg st' c v"
  by (cases "(cfg, st, c, v)" rule: wa_settled.cases; cases st; cases st') auto

lemma wa_local_later: "wa_local cfg st c v pc \<Longrightarrow> wa_later st st' \<Longrightarrow> wa_local cfg st' c v pc"
  by (cases "(cfg, st, c, v, pc)" rule: wa_local.cases; cases st; cases st')
     (auto intro: wa_settled_later)

lemma wa_callback_local_later:
  "wa_callback_local st out pc \<Longrightarrow> wa_later st st' \<Longrightarrow> wa_callback_local st' out pc"
  by (cases "(st, out, pc)" rule: wa_callback_local.cases; cases st; cases st') auto

lemma wa_callback_local_outer: "wa_callback_local st out pc \<Longrightarrow> wa_callback_local st True pc"
  by (cases "(st, out, pc)" rule: wa_callback_local.cases) auto

lemma wa_completion_local: "wa_local cfg st (Some c) v (wa_completion_pc c)"
  by (cases c) auto

lemma wa_completion_pc_neq [simp]: "wa_completion_pc c \<noteq> WaIdle" "wa_completion_pc c \<noteq> WaRunning"
  by (cases c; simp)+

text \<open>A step of a child, of the callback or of the starter leaves the other threads' assertions.\<close>

lemma wa_inv_local_childI:
  assumes "wa_inv_local cfg s" and "wa_pc s (Child i) \<noteq> WaIdle" and "pc \<noteq> WaIdle"
    and "wa_later (wa_state s) (wa_state s')"
    and "wa_local cfg (wa_state s') (wa_chosen s' i) (wa_values s' i) pc"
    and "wa_pc s' = (wa_pc s)(Child i := pc)" and "wa_outer_stop s' = wa_outer_stop s"
    and "wa_chosen s' = wa_chosen s \<or>
         (\<exists>c. wa_chosen s' = (wa_chosen s)(i := Some c) \<and> sig_of c \<in> set (wa_sigs cfg i))"
    and "wa_values s' = wa_values s \<or> (\<exists>v. wa_values s' = (wa_values s)(i := v))"
  shows "wa_inv_local cfg s'"
proof -
  have "wa_local cfg (wa_state s') (wa_chosen s' j) (wa_values s' j) (wa_pc s' (Child j))" for j
  proof (cases "j = i")
    case False
    then have "wa_chosen s' j = wa_chosen s j" "wa_values s' j = wa_values s j"
      using assms(8,9) by auto
    with False assms(1,4,6) show ?thesis by (auto simp: wa_inv_local_def intro: wa_local_later)
  qed (use assms in simp)
  with assms show ?thesis
    by (auto simp: wa_inv_local_def intro: wa_callback_local_later split: if_splits)
qed

lemma wa_inv_local_callbackI:
  assumes "wa_inv_local cfg s" and "wa_later (wa_state s) (wa_state s')"
    and "wa_callback_local (wa_state s') (wa_outer_stop s') pc"
    and "wa_pc s' = (wa_pc s)(Callback := pc)"
    and "wa_chosen s' = wa_chosen s" and "wa_values s' = wa_values s"
  shows "wa_inv_local cfg s'"
  using assms by (auto simp: wa_inv_local_def intro: wa_local_later)

lemma wa_inv_local_starterI:
  assumes "wa_inv_local cfg s" and "wa_state s' = wa_state s"
    and "wa_starter_local (wa_n cfg) pc"
    and "\<And>j. j < wa_n cfg \<Longrightarrow> wa_unstarted pc j = wa_unstarted (wa_pc s Starter) j"
    and "wa_pc s' = (wa_pc s)(Starter := pc)" and "wa_outer_stop s' = wa_outer_stop s"
    and "wa_chosen s' = wa_chosen s" and "wa_values s' = wa_values s"
  shows "wa_inv_local cfg s'"
  using assms by (auto simp: wa_inv_local_def not_le dest: leI)

lemma wa_inv_local_start:
  "wa_start_step cfg s s' \<Longrightarrow> wa_inv_local cfg s \<Longrightarrow> wa_inv_local cfg s'"
proof (induction rule: wa_start_step.induct)
  case (start_child s i)
  from start_child.prems start_child.hyps have "wa_pc s (Child i) = WaIdle"
    by (simp add: wa_inv_local_def)
  moreover from this have "wa_chosen s i = None"
    using start_child.prems by (metis wa_inv_local_def wa_local.simps(1))
  ultimately show ?case using start_child by (auto simp: wa_inv_local_def wa_goto_def)
qed (auto simp: wa_inv_local_def wa_goto_def)

lemma wa_inv_local_at:
  "wa_inv_local cfg s \<Longrightarrow> wa_pc s (Child i) = pc \<Longrightarrow>
     wa_local cfg (wa_state s) (wa_chosen s i) (wa_values s i) pc"
  by (auto simp: wa_inv_local_def)

lemma wa_inv_local_child:
  "wa_child_step cfg i s s' \<Longrightarrow> wa_inv_local cfg s \<Longrightarrow> wa_inv_local cfg s'"
proof (induction rule: wa_child_step.induct)
  case (completes s c)
  then show ?case
    by - (rule wa_inv_local_childI [where s = s and i = i and pc = "wa_completion_pc c"];
          auto simp: wa_goto_def wa_completion_local)
next
  case (exchange s x)
  have "wa_raised cfg (wa_chosen s i) x" using wa_inv_local_at [OF exchange.prems exchange.hyps] by simp
  then show ?case using exchange
    by - (rule wa_inv_local_childI [where s = s and i = i
          and pc = "case wa_state s of WaStarted \<Rightarrow> WaStop (Some x) | WaStopped \<Rightarrow> WaStore x | WaError \<Rightarrow> WaArrive"];
          auto simp: wa_goto_def split: wa_state.split intro: wa_raised_settled)
next
  case (store_values s xs)
  then show ?case using wa_inv_local_at [OF store_values.prems store_values.hyps(1)]
    by - (rule wa_inv_local_childI [where s = s and i = i and pc = WaArrive];
          auto simp: wa_goto_def)
next
  case (values_throw s xs e)
  then show ?case using wa_inv_local_at [OF values_throw.prems values_throw.hyps(1)]
    by - (rule wa_inv_local_childI [where s = s and i = i and pc = "WaExchange (Exn e)"];
          auto simp: wa_goto_def)
next
  case (ignore_values s xs)
  then show ?case using wa_inv_local_at [OF ignore_values.prems ignore_values.hyps(1)]
    by - (rule wa_inv_local_childI [where s = s and i = i and pc = WaArrive];
          auto simp: wa_goto_def)
next
  case (store_error s x)
  then show ?case using wa_inv_local_at [OF store_error.prems store_error.hyps(1)]
    by - (rule wa_inv_local_childI [where s = s and i = i and pc = WaArrive];
          auto simp: wa_goto_def intro: wa_raised_settled)
qed

lemma wa_inv_local_callback:
  "wa_callback_step cfg s s' \<Longrightarrow> wa_inv_local cfg s \<Longrightarrow> wa_inv_local cfg s'"
  by (induction rule: wa_callback_step.induct)
     (auto simp: wa_inv_local_def wa_goto_def intro: wa_callback_local_outer)

text \<open>The shared steps, by the thread that makes them.\<close>

fun wa_thread_local :: "wa_cfg \<Rightarrow> when_all_op \<Rightarrow> wa_thread \<Rightarrow> wa_pc \<Rightarrow> bool" where
  "wa_thread_local cfg s Starter pc \<longleftrightarrow> wa_starter_local (wa_n cfg) pc"
| "wa_thread_local cfg s Callback pc \<longleftrightarrow> wa_callback_local (wa_state s) (wa_outer_stop s) pc"
| "wa_thread_local cfg s (Child i) pc \<longleftrightarrow> 
     wa_local cfg (wa_state s) (wa_chosen s i) (wa_values s i) pc"

lemma wa_inv_thread_local: "wa_inv_local cfg s \<Longrightarrow> wa_thread_local cfg s t (wa_pc s t)"
  by (cases t) (auto simp: wa_inv_local_def)

lemma wa_inv_local_sharedI:
  assumes "wa_inv_local cfg s" and "wa_later (wa_state s) (wa_state s')"
    and "wa_pc s t \<notin> {WaIdle, WaInline, WaRunning} \<union> range WaStarting"
    and "pc \<notin> {WaIdle, WaInline, WaRunning} \<union> range WaStarting"
    and "wa_thread_local cfg s' t pc"
    and "wa_pc s' = (wa_pc s)(t := pc)" and "wa_outer_stop s' = wa_outer_stop s"
    and "wa_chosen s' = wa_chosen s" and "wa_values s' = wa_values s"
  shows "wa_inv_local cfg s'"
proof (cases t)
  case Starter
  moreover from this assms(5) have "wa_starter_local (wa_n cfg) pc" by simp
  moreover have "wa_unstarted pc j = wa_unstarted (wa_pc s Starter) j" for j
    using assms(3,4) Starter by (cases pc; cases "wa_pc s Starter") auto
  ultimately show ?thesis using assms
    by (auto simp: wa_inv_local_def intro: wa_local_later wa_callback_local_later)
next
  case Callback
  then show ?thesis using assms by - (rule wa_inv_local_callbackI [where s = s and pc = pc];
          auto)
next
  case (Child i)
  then show ?thesis using assms by - (rule wa_inv_local_childI [where s = s and pc = pc];
          auto)
qed

lemma wa_inv_local_shared:
  "wa_shared_step cfg t s s' \<Longrightarrow> wa_inv_local cfg s \<Longrightarrow> wa_inv_local cfg s'"
proof (induction rule: wa_shared_step.induct)
  case (cas s)
  then show ?case using wa_inv_thread_local [OF cas.prems, of t]
    by - (rule wa_inv_local_sharedI [where s = s and t = t
          and pc = "if wa_state s = WaStarted then WaStop None else WaArrive"];
          (cases t; auto simp: wa_goto_def split: if_splits))
next
  case (request_stop s x)
  then show ?case using wa_inv_thread_local [OF request_stop.prems, of t]
    by - (rule wa_inv_local_sharedI [where s = s and t = t
          and pc = "case x of None \<Rightarrow> WaArrive | Some y \<Rightarrow> WaStore y"];
          (cases t; cases x; auto simp: wa_goto_def split: if_splits))
next
  case (arrive s)
  then show ?case using wa_inv_thread_local [OF arrive.prems, of t]
    by - (rule wa_inv_local_sharedI [where s = s and t = t
          and pc = "if wa_count s = 1 then WaReset else WaGone"];
          (cases t; auto simp: wa_goto_def split: if_splits))
next
  case (reset s)
  then show ?case using wa_inv_thread_local [OF reset.prems, of t]
    by - (rule wa_inv_local_sharedI [where s = s and t = t and pc = WaDeliver];
          (cases t; auto simp: wa_goto_def split: if_splits))
next
  case (deliver s cs)
  then show ?case using wa_inv_thread_local [OF deliver.prems, of t]
    by - (rule wa_inv_local_sharedI [where s = s and t = t and pc = WaGone];
          (cases t; auto simp: wa_goto_def split: if_splits))
next
  case (deliver_fails s)
  then show ?case using wa_inv_thread_local [OF deliver_fails.prems, of t]
    by - (rule wa_inv_local_sharedI [where s = s and t = t and pc = WaFailed];
          (cases t; auto simp: wa_goto_def split: if_splits))
qed

lemma wa_inv_local_init: "wa_init cfg s \<Longrightarrow> wa_inv_local cfg s"
  by (simp add: wa_init_def wa_inv_local_def)


section \<open>The first error wins\<close>

text \<open>
  The child that changed the state to error is the only one to write the errors variant, and
  what it stores comes from its own completion; the state is stopped only for a reason, and
  whoever changes the state requests stop before it arrives.
\<close>

fun wa_winning :: "wa_pc \<Rightarrow> bool" where
  "wa_winning (WaStop (Some x)) \<longleftrightarrow> True"
| "wa_winning (WaStore x) \<longleftrightarrow> True"
| "wa_winning _ \<longleftrightarrow> False"

fun wa_stopping :: "wa_pc \<Rightarrow> bool" where
  "wa_stopping (WaStop x) \<longleftrightarrow> True"
| "wa_stopping _ \<longleftrightarrow> False"

definition wa_inv_error :: "wa_cfg \<Rightarrow> when_all_op \<Rightarrow> bool" where
  "wa_inv_error cfg s \<longleftrightarrow>
     (wa_state s \<noteq> WaError \<longrightarrow> wa_errors s = None) \<and>
     (\<forall>t u. wa_winning (wa_pc s t) \<longrightarrow> wa_winning (wa_pc s u) \<longrightarrow> t = u) \<and>
     (\<forall>t. wa_winning (wa_pc s t) \<longrightarrow> wa_state s = WaError \<and> wa_errors s = None) \<and>
     (wa_state s = WaError \<longrightarrow>
        (\<exists>i. wa_winning (wa_pc s (Child i))) \<or>
        (\<exists>i x. wa_raised cfg (wa_chosen s i) x \<and> wa_errors s = Some (wa_stored (wa_univ cfg) x)))"

definition wa_inv_stop :: "when_all_op \<Rightarrow> bool" where
  "wa_inv_stop s \<longleftrightarrow>
     (wa_state s = WaStopped \<longrightarrow> wa_outer_stop s \<or> (\<exists>i. wa_chosen s i = Some SetStopped)) \<and>
     (wa_state s \<noteq> WaStarted \<longrightarrow> wa_inner_stop s \<or> (\<exists>t. wa_stopping (wa_pc s t)))"

lemma wa_not_winning [simp]:
  "\<not> wa_winning (wa_completion_pc c)" "\<not> wa_stopping (wa_completion_pc c)"
  by (cases c; simp)+

lemma wa_starter_not_winning: "wa_starter_local n pc \<Longrightarrow> \<not> wa_winning pc \<and> \<not> wa_stopping pc"
  by (cases "(n, pc)" rule: wa_starter_local.cases; auto split: if_splits)

lemma wa_callback_not_winning: "wa_callback_local st out pc \<Longrightarrow> \<not> wa_winning pc"
  by (cases "(st, out, pc)" rule: wa_callback_local.cases) auto

lemma wa_winning_child:
  "wa_inv_local cfg s \<Longrightarrow> wa_winning (wa_pc s t) \<Longrightarrow> \<exists>i. t = Child i"
  using wa_starter_not_winning wa_callback_not_winning by (cases t) (fastforce simp: wa_inv_local_def)+

lemma wa_inv_error_frame:
  assumes "wa_inv_error cfg s" and "\<And>t. wa_winning (wa_pc s' t) = wa_winning (wa_pc s t)"
    and "wa_state s = WaError \<longleftrightarrow> wa_state s' = WaError" and "wa_errors s' = wa_errors s"
    and "\<And>i. wa_chosen s i \<noteq> None \<Longrightarrow> wa_chosen s' i = wa_chosen s i"
  shows "wa_inv_error cfg s'"
proof -
  have "wa_raised cfg (wa_chosen s i) x \<Longrightarrow> wa_raised cfg (wa_chosen s' i) x" for i x
    using assms(5) [of i] by (cases "wa_chosen s i") auto
  then show ?thesis using assms(1-4) unfolding wa_inv_error_def by metis
qed

lemma wa_inv_stop_frame:
  assumes "wa_inv_stop s" and "\<And>t. wa_stopping (wa_pc s t) \<Longrightarrow> wa_stopping (wa_pc s' t)"
    and "wa_state s' = wa_state s" and "wa_inner_stop s \<Longrightarrow> wa_inner_stop s'"
    and "wa_outer_stop s \<Longrightarrow> wa_outer_stop s'"
    and "\<And>i. wa_chosen s i \<noteq> None \<Longrightarrow> wa_chosen s' i = wa_chosen s i"
  shows "wa_inv_stop s'"
proof -
  have "wa_chosen s i = Some SetStopped \<Longrightarrow> wa_chosen s' i = Some SetStopped" for i
    using assms(6) [of i] by simp
  then show ?thesis using assms(1-5) unfolding wa_inv_stop_def by metis
qed

lemma wa_unstarted_idle:
  "wa_inv_local cfg s \<Longrightarrow> wa_pc s Starter = WaStarting i \<Longrightarrow> i < wa_n cfg \<Longrightarrow> wa_pc s (Child i) = WaIdle"
  by (auto simp: wa_inv_local_def)

definition wa_callback_used :: "when_all_op \<Rightarrow> bool" where
  "wa_callback_used s \<longleftrightarrow>
     (wa_pc s Starter = WaIdle \<longrightarrow> wa_pc s Callback = WaIdle \<and> \<not> wa_registered s) \<and>
     (wa_pc s Starter = WaInline \<longrightarrow> wa_pc s Callback \<noteq> WaIdle) \<and>
     (wa_registered s \<longrightarrow> wa_pc s Callback = WaIdle)"

lemma wa_callback_used_step:
  "wa_step cfg s s' \<Longrightarrow> wa_callback_used s \<Longrightarrow> wa_callback_used s'"
proof (induction rule: wa_step.induct)
  case (by_start s s')
  then show ?case by (induction rule: wa_start_step.induct) (auto simp: wa_callback_used_def wa_goto_def)
next
  case (by_child i s s')
  then show ?case by (induction rule: wa_child_step.induct) (auto simp: wa_callback_used_def wa_goto_def)
next
  case (by_callback s s')
  then show ?case by (induction rule: wa_callback_step.induct) (auto simp: wa_callback_used_def wa_goto_def)
next
  case (by_shared t s s')
  then show ?case
    by (induction rule: wa_shared_step.induct; cases t)
       (auto simp: wa_callback_used_def wa_goto_def split: option.splits if_splits)
qed

lemma wa_inv_error_start:
  "wa_start_step cfg s s' \<Longrightarrow> wa_inv_error cfg s \<Longrightarrow> wa_inv_local cfg s \<Longrightarrow> wa_callback_used s \<Longrightarrow>
     wa_inv_error cfg s'"
  by (induction rule: wa_start_step.induct; erule wa_inv_error_frame)
     (auto simp: wa_goto_def wa_callback_used_def dest: wa_unstarted_idle)

lemma wa_inv_stop_start:
  "wa_start_step cfg s s' \<Longrightarrow> wa_inv_stop s \<Longrightarrow> wa_inv_local cfg s \<Longrightarrow> wa_callback_used s \<Longrightarrow>
     wa_inv_stop s'"
proof (induction rule: wa_start_step.induct)
  case (start_child s i)
  from start_child.prems(2) start_child.hyps have "wa_pc s (Child i) = WaIdle"
    by (rule wa_unstarted_idle)
  with start_child show ?case by - (erule wa_inv_stop_frame; auto simp: wa_goto_def)
qed (erule wa_inv_stop_frame; auto simp: wa_goto_def wa_callback_used_def)+

lemma wa_inv_error_callback: "wa_callback_step cfg s s' \<Longrightarrow> wa_inv_error cfg s \<Longrightarrow> wa_inv_error cfg s'"
  by (induction rule: wa_callback_step.induct; erule wa_inv_error_frame) (auto simp: wa_goto_def)

lemma wa_inv_stop_callback: "wa_callback_step cfg s s' \<Longrightarrow> wa_inv_stop s \<Longrightarrow> wa_inv_stop s'"
  by (induction rule: wa_callback_step.induct; erule wa_inv_stop_frame) (auto simp: wa_goto_def)

lemma wa_inv_error_child:
  "wa_child_step cfg i s s' \<Longrightarrow> wa_inv_error cfg s \<Longrightarrow> wa_inv_local cfg s \<Longrightarrow> wa_inv_error cfg s'"
proof (induction rule: wa_child_step.induct)
  case (completes s c)
  moreover have "wa_chosen s i = None" using wa_inv_local_at [OF completes.prems(2) completes.hyps(1)] by simp
  ultimately show ?case by - (erule wa_inv_error_frame; auto simp: wa_goto_def)
next
  case (exchange s x)
  have w: "\<not> wa_winning (wa_pc s t)" if "wa_state s \<noteq> WaError" for t
    using exchange.prems(1) that by (auto simp: wa_inv_error_def)
  show ?case
  proof (cases "wa_state s = WaError")
    case True
    with exchange show ?thesis by - (erule wa_inv_error_frame; auto simp: wa_goto_def)
  next
    case False
    have "wa_errors s = None" using exchange.prems False by (auto simp: wa_inv_error_def)
    then show ?thesis using False w
      by (auto simp: wa_inv_error_def wa_goto_def split: wa_state.split)
  qed
next
  case (store_error s x)
  have r: "wa_raised cfg (wa_chosen s i) x" "wa_state s = WaError"
    using wa_inv_local_at [OF store_error.prems(2) store_error.hyps] by simp_all
  have "\<not> wa_winning (wa_pc s t)" if "t \<noteq> Child i" for t
    using store_error that unfolding wa_inv_error_def by (metis wa_winning.simps(2))
  then show ?case using r by (auto simp: wa_inv_error_def wa_goto_def)
qed (erule wa_inv_error_frame; auto simp: wa_goto_def)+

lemma wa_inv_stop_child:
  "wa_child_step cfg i s s' \<Longrightarrow> wa_inv_stop s \<Longrightarrow> wa_inv_local cfg s \<Longrightarrow> wa_inv_stop s'"
proof (induction rule: wa_child_step.induct)
  case (completes s c)
  moreover have "wa_chosen s i = None" using wa_inv_local_at [OF completes.prems(2) completes.hyps(1)] by simp
  ultimately show ?case by - (erule wa_inv_stop_frame; auto simp: wa_goto_def)
next
  case (exchange s x)
  have other: "wa_inner_stop s \<or> (\<exists>t. t \<noteq> Child i \<and> wa_stopping (wa_pc s t))" if "wa_state s \<noteq> WaStarted"
  proof -
    have "\<not> wa_stopping (wa_pc s (Child i))" using exchange.hyps by simp
    with that exchange.prems(1) show ?thesis unfolding wa_inv_stop_def by metis
  qed
  show ?case
  proof (cases "wa_state s = WaStarted")
    case True
    then show ?thesis unfolding wa_inv_stop_def wa_goto_def
      by (simp, intro disjI2 exI [of _ "Child i"], simp)
  next
    case False
    with other have "wa_inner_stop s \<or> (\<exists>t. t \<noteq> Child i \<and> wa_stopping (wa_pc s t))" by simp
    then show ?thesis unfolding wa_inv_stop_def wa_goto_def by fastforce
  qed
qed (erule wa_inv_stop_frame; auto simp: wa_goto_def)+

lemma wa_inv_error_shared:
  "wa_shared_step cfg t s s' \<Longrightarrow> wa_inv_error cfg s \<Longrightarrow> wa_inv_local cfg s \<Longrightarrow> wa_inv_error cfg s'"
proof (induction rule: wa_shared_step.induct)
  case (request_stop s x)
  then show ?case by - (erule wa_inv_error_frame; cases x; auto simp: wa_goto_def)
next
  case (cas s)
  then show ?case by - (erule wa_inv_error_frame; simp add: wa_goto_def)
next
  case (arrive s)
  then show ?case by - (erule wa_inv_error_frame; simp add: wa_goto_def)
qed (erule wa_inv_error_frame; simp add: wa_goto_def)+

lemma wa_inv_stop_shared:
  "wa_shared_step cfg t s s' \<Longrightarrow> wa_inv_stop s \<Longrightarrow> wa_inv_local cfg s \<Longrightarrow> wa_inv_stop s'"
proof (induction rule: wa_shared_step.induct)
  case (cas s)
  have "wa_outer_stop s \<or> (\<exists>i. wa_chosen s i = Some SetStopped)"
    using wa_inv_thread_local [OF cas.prems(2), of t] cas.hyps by (cases t) (auto split: if_splits)
  then have "wa_inv_stop (wa_goto t (WaStop None) (s\<lparr>wa_state := WaStopped\<rparr>))"
    by (auto simp: wa_inv_stop_def wa_goto_def)
  moreover have "wa_inv_stop (wa_goto t WaArrive s)"
    using cas.prems(1) by (rule wa_inv_stop_frame) (auto simp: wa_goto_def cas.hyps)
  ultimately show ?case by simp
next
  case (request_stop s x)
  then show ?case by (auto simp: wa_inv_stop_def wa_goto_def)
qed (erule wa_inv_stop_frame; auto simp: wa_goto_def)+


section \<open>Counting the arrivals\<close>

text \<open>
  \<open>wa_holding\<close>: the thread still has to arrive.  Until the callback comes late, the counter is
  the number of these threads; whoever has taken it to zero is alone.
\<close>

fun wa_active :: "wa_pc \<Rightarrow> bool" where
  "wa_active WaRunning \<longleftrightarrow> True"
| "wa_active (WaValue xs) \<longleftrightarrow> True"
| "wa_active (WaExchange x) \<longleftrightarrow> True"
| "wa_active (WaStop x) \<longleftrightarrow> True"
| "wa_active (WaStore x) \<longleftrightarrow> True"
| "wa_active WaCas \<longleftrightarrow> True"
| "wa_active WaArrive \<longleftrightarrow> True"
| "wa_active _ \<longleftrightarrow> False"

fun wa_holding :: "wa_thread \<Rightarrow> wa_pc \<Rightarrow> bool" where
  "wa_holding (Child i) pc \<longleftrightarrow> wa_active pc \<or> pc = WaIdle"
| "wa_holding t pc \<longleftrightarrow> wa_active pc"

definition wa_threads :: "nat \<Rightarrow> wa_thread set" where
  "wa_threads n = {Starter, Callback} \<union> Child ` {..<n}"

definition wa_holders :: "nat \<Rightarrow> (wa_thread \<Rightarrow> wa_pc) \<Rightarrow> wa_thread set" where
  "wa_holders n pcs = {t \<in> wa_threads n. wa_holding t (pcs t)}"

lemma wa_threads_mem [simp]:
  "Starter \<in> wa_threads n" "Callback \<in> wa_threads n" "Child i \<in> wa_threads n \<longleftrightarrow> i < n"
  by (auto simp: wa_threads_def)

lemma wa_holders_finite [simp]: "finite (wa_holders n pcs)"
  by (simp add: wa_holders_def wa_threads_def)

lemma wa_holders_upd:
  "wa_holders n (pcs(t := pc)) =
     (if t \<in> wa_threads n \<and> wa_holding t pc then insert t (wa_holders n pcs)
      else wa_holders n pcs - {t})"
  by (auto simp: wa_holders_def)

lemma wa_holders_same:
  "(t \<in> wa_threads n \<Longrightarrow> wa_holding t pc = wa_holding t (pcs t)) \<Longrightarrow>
     wa_holders n (pcs(t := pc)) = wa_holders n pcs"
  by (auto simp: wa_holders_def)

fun wa_finishing :: "wa_pc \<Rightarrow> bool" where
  "wa_finishing WaReset \<longleftrightarrow> True"
| "wa_finishing WaDeliver \<longleftrightarrow> True"
| "wa_finishing WaFailed \<longleftrightarrow> True"
| "wa_finishing _ \<longleftrightarrow> False"

definition wa_finished :: "when_all_op \<Rightarrow> bool" where
  "wa_finished s \<longleftrightarrow> wa_done s \<noteq> [] \<or> (\<exists>t. wa_finishing (wa_pc s t))"

definition wa_inv_count :: "wa_cfg \<Rightarrow> when_all_op \<Rightarrow> bool" where
  "wa_inv_count cfg s \<longleftrightarrow>
     wa_count s = card (wa_holders (wa_n cfg) (wa_pc s)) \<and>
     (wa_finished s \<longrightarrow> wa_holders (wa_n cfg) (wa_pc s) = {} \<and> \<not> wa_unstarted (wa_pc s Starter) (wa_n cfg)) \<and>
     (\<forall>t u. wa_finishing (wa_pc s t) \<longrightarrow> wa_finishing (wa_pc s u) \<longrightarrow> t = u) \<and>
     (wa_done s \<noteq> [] \<longrightarrow> (\<forall>t. \<not> wa_finishing (wa_pc s t))) \<and>
     length (wa_done s) \<le> 1 \<and> (wa_n cfg = 0 \<longrightarrow> wa_count s = 0) \<and>
     (wa_done s \<noteq> [] \<or> (\<exists>t. wa_pc s t \<in> {WaDeliver, WaFailed}) \<longrightarrow>
        \<not> wa_registered s \<and> wa_pc s Callback \<noteq> WaEnter)"

lemma wa_inv_count_frame:
  assumes "wa_inv_count cfg s" and "wa_pc s' = (wa_pc s)(t := pc)"
    and "t \<in> wa_threads (wa_n cfg) \<Longrightarrow> wa_holding t pc = wa_holding t (wa_pc s t)"
    and "\<not> wa_finishing pc" and "\<not> wa_finishing (wa_pc s t)"
    and "t = Starter \<Longrightarrow> wa_finished s \<Longrightarrow> \<not> wa_unstarted pc (wa_n cfg)"
    and "t = Callback \<Longrightarrow> pc = WaEnter \<Longrightarrow> wa_registered s \<or> \<not> wa_finished s"
    and "wa_count s' = wa_count s" and "wa_done s' = wa_done s"
    and "wa_registered s' \<Longrightarrow> wa_registered s \<or> \<not> wa_finished s"
  shows "wa_inv_count cfg s'"
proof -
  have h: "wa_holders (wa_n cfg) (wa_pc s') = wa_holders (wa_n cfg) (wa_pc s)"
    unfolding assms(2) by (rule wa_holders_same) (rule assms(3))
  have f: "wa_finishing (wa_pc s' u) = wa_finishing (wa_pc s u)" for u
    using assms(2,4,5) by simp
  have g: "wa_finished s' = wa_finished s" by (simp add: wa_finished_def f assms(9))
  have d: "\<exists>u. wa_pc s u \<in> {WaDeliver, WaFailed}" if "wa_pc s' u \<in> {WaDeliver, WaFailed}" for u
    using that assms(2,4) by (auto split: if_splits)
  from d have "wa_done s \<noteq> [] \<or> (\<exists>t. wa_pc s t \<in> {WaDeliver, WaFailed})"
    if "wa_done s' \<noteq> [] \<or> (\<exists>t. wa_pc s' t \<in> {WaDeliver, WaFailed})"
    using that assms(9) by auto
  moreover have "wa_finished s" if "wa_done s \<noteq> [] \<or> (\<exists>t. wa_pc s t \<in> {WaDeliver, WaFailed})"
    using that unfolding wa_finished_def by (metis insertE singletonD wa_finishing.simps(2,3))
  ultimately have "\<not> wa_registered s' \<and> wa_pc s' Callback \<noteq> WaEnter"
    if "wa_done s' \<noteq> [] \<or> (\<exists>t. wa_pc s' t \<in> {WaDeliver, WaFailed})"
    using that assms(1,2,7,10) by (auto simp: wa_inv_count_def)
  then show ?thesis using assms(1,2,6,8,9) unfolding wa_inv_count_def h f g by auto
qed


lemma wa_inv_count_unfinished:
  "wa_inv_count cfg s \<Longrightarrow> wa_unstarted (wa_pc s Starter) (wa_n cfg) \<Longrightarrow> \<not> wa_finished s"
  "wa_inv_count cfg s \<Longrightarrow> t \<in> wa_holders (wa_n cfg) (wa_pc s) \<Longrightarrow> \<not> wa_finished s"
  by (auto simp: wa_inv_count_def)

lemma wa_inv_count_start:
  assumes "wa_start_step cfg s s'" and "wa_inv_local cfg s" and "wa_callback_used s"
    and "wa_inv_count cfg s"
  shows "wa_inv_count cfg s'"
  using assms
proof (induction rule: wa_start_step.induct)
  case (register s)
  then show ?case using wa_inv_count_unfinished(1) [OF register.prems(3)]
    by - (erule wa_inv_count_frame [where t = Starter and pc = "WaStarting 0"]; simp add: wa_goto_def)
next
  case (fire_inline s)
  have c: "wa_pc s Callback = WaIdle" using fire_inline by (simp add: wa_callback_used_def)
  have f: "\<not> wa_finished s" using wa_inv_count_unfinished(1) [OF fire_inline.prems(3)] fire_inline by simp
  let ?s = "wa_goto Callback WaEnter s"
  have "wa_inv_count cfg ?s"
    using fire_inline.prems(3)
    by (rule wa_inv_count_frame [where t = Callback and pc = WaEnter]) (simp_all add: wa_goto_def c f)
  moreover from this have "\<not> wa_finished ?s"
    using wa_inv_count_unfinished(1) fire_inline.hyps by (simp add: wa_goto_def)
  ultimately show ?case using fire_inline.hyps
    by - (rule wa_inv_count_frame [where s = ?s and t = Starter and pc = WaInline]; simp add: wa_goto_def)
next
  case (inline_done s)
  then show ?case using wa_inv_count_unfinished(1) [OF inline_done.prems(3)]
    by - (erule wa_inv_count_frame [where t = Starter and pc = "WaStarting 0"]; simp add: wa_goto_def)
next
  case (start_child s i)
  have c: "wa_pc s (Child i) = WaIdle" using start_child by (intro wa_unstarted_idle)
  let ?s = "wa_goto (Child i) WaRunning s"
  have "wa_inv_count cfg ?s"
    using start_child.prems(3)
    by (rule wa_inv_count_frame [where t = "Child i" and pc = WaRunning]) (simp_all add: wa_goto_def c)
  moreover from this have "\<not> wa_finished ?s"
    using wa_inv_count_unfinished(1) start_child.hyps by (simp add: wa_goto_def)
  ultimately show ?case using start_child.hyps
    by - (rule wa_inv_count_frame [where s = ?s and t = Starter
          and pc = "if Suc i = wa_n cfg then WaGone else WaStarting (Suc i)"]; simp add: wa_goto_def)
next
  case (start_none s i)
  have h: "wa_holders (wa_n cfg) (wa_pc s) = {}"
  proof -
    have "card (wa_holders (wa_n cfg) (wa_pc s)) = 0"
      using start_none.prems(3) start_none.hyps(2) unfolding wa_inv_count_def by metis
    then show ?thesis by (simp only: card_0_eq wa_holders_finite)
  qed
  have i: "i = 0" using start_none by (auto simp: wa_inv_local_def)
  have f: "\<not> wa_finished s" using wa_inv_count_unfinished(1) [OF start_none.prems(3)] start_none i by simp
  have "wa_holders (wa_n cfg) (wa_pc (wa_goto Starter WaReset s)) = {}"
    by (simp add: wa_goto_def wa_holders_upd h)
  moreover have "wa_count s = 0" "wa_done s = []" "\<And>t. \<not> wa_finishing (wa_pc s t)" "\<And>t. wa_pc s t \<notin> {WaDeliver, WaFailed}"
    using start_none f unfolding wa_inv_count_def wa_finished_def
    by (auto, (metis wa_finishing.simps(2,3))+)
  ultimately show ?case
    by (auto simp: wa_inv_count_def wa_goto_def wa_finished_def split: if_splits)
qed

lemma wa_inv_count_child:
  "wa_child_step cfg i s s' \<Longrightarrow> wa_inv_count cfg s \<Longrightarrow> wa_inv_count cfg s'"
proof (induction rule: wa_child_step.induct)
  case (completes s c)
  then show ?case
    by - (erule wa_inv_count_frame [where t = "Child i" and pc = "wa_completion_pc c"];
          cases c; simp add: wa_goto_def)
next
  case (exchange s x)
  then show ?case
    by - (erule wa_inv_count_frame [where t = "Child i" and pc = "case wa_state s of
            WaStarted \<Rightarrow> WaStop (Some x) | WaStopped \<Rightarrow> WaStore x | WaError \<Rightarrow> WaArrive"];
          simp add: wa_goto_def split: wa_state.split)
next
  case (values_throw s xs e)
  then show ?case
    by - (erule wa_inv_count_frame [where t = "Child i" and pc = "WaExchange (Exn e)"];
          simp add: wa_goto_def)
qed (erule wa_inv_count_frame [where t = "Child i" and pc = WaArrive]; simp add: wa_goto_def)+

lemma wa_inv_count_callback:
  assumes "wa_callback_step cfg s s'" and "\<not> wa_late s'" and "wa_inv_count cfg s"
  shows "wa_inv_count cfg s'"
  using assms
proof (induction rule: wa_callback_step.induct)
  case (outer_request s)
  then show ?case by (auto simp: wa_inv_count_def wa_finished_def)
next
  case (fire s)
  then show ?case
    by - (erule wa_inv_count_frame [where t = Callback and pc = WaEnter]; simp add: wa_goto_def)
next
  case (enter s)
  let ?H = "wa_holders (wa_n cfg) (wa_pc s)"
  have c: "wa_count s \<noteq> 0" using enter.prems by (simp add: wa_goto_def)
  then have "?H \<noteq> {}" "wa_n cfg \<noteq> 0" using enter by (auto simp: wa_inv_count_def)
  then have f: "\<not> wa_finished s" using enter by (auto simp: wa_inv_count_def)
  have "Callback \<notin> ?H" using enter by (simp add: wa_holders_def)
  then have "card (wa_holders (wa_n cfg) ((wa_pc s)(Callback := WaCas))) = Suc (card ?H)"
    by (simp add: wa_holders_upd)
  moreover have "\<not> wa_finished (wa_goto Callback WaCas s)"
    using f by (auto simp: wa_finished_def wa_goto_def)
  moreover have "wa_done s = []" "\<And>t. \<not> wa_finishing (wa_pc s t)" "\<And>t. wa_pc s t \<notin> {WaDeliver, WaFailed}"
    using f unfolding wa_finished_def by (auto, (metis wa_finishing.simps(2,3))+)
  ultimately show ?case using enter \<open>wa_n cfg \<noteq> 0\<close>
    by (auto simp: wa_inv_count_def wa_goto_def wa_finished_def split: if_splits)
qed


lemma wa_last_arrival:
  assumes "wa_inv_local cfg s" and "wa_inv_count cfg s" and "wa_pc s t = WaArrive"
    and "t \<in> wa_threads (wa_n cfg)"
  shows "t \<in> wa_holders (wa_n cfg) (wa_pc s)" "\<not> wa_finished s" "wa_count s \<noteq> 0"
    "wa_count s = 1 \<Longrightarrow> wa_holders (wa_n cfg) (wa_pc s) = {t} \<and> \<not> wa_unstarted (wa_pc s Starter) (wa_n cfg)"
proof -
  let ?H = "wa_holders (wa_n cfg) (wa_pc s)"
  show t: "t \<in> ?H" using assms(3,4) by (cases t) (auto simp: wa_holders_def)
  with assms(2) show "\<not> wa_finished s" by (rule wa_inv_count_unfinished)
  have c: "wa_count s = card ?H" using assms(2) by (simp add: wa_inv_count_def)
  with t show nz: "wa_count s \<noteq> 0" by (auto simp: card_eq_0_iff)
  assume one: "wa_count s = 1"
  with c t have H: "?H = {t}" by (metis card_1_singletonE singletonD)
  have n: "wa_n cfg \<noteq> 0" using assms(2) nz by (auto simp: wa_inv_count_def)
  have "\<not> wa_unstarted (wa_pc s Starter) (wa_n cfg)"
  proof
    assume "wa_unstarted (wa_pc s Starter) (wa_n cfg)"
    then have "wa_unstarted (wa_pc s Starter) (wa_n cfg - 1)"
      using assms(1) n by (cases "wa_pc s Starter") (auto simp: wa_inv_local_def)
    then have "wa_pc s (Child (wa_n cfg - 1)) = WaIdle" using assms(1) by (auto simp: wa_inv_local_def)
    then have "Child (wa_n cfg - 1) \<in> ?H" using n by (simp add: wa_holders_def)
    with H have "t = Child (wa_n cfg - 1)" by simp
    with \<open>wa_pc s (Child (wa_n cfg - 1)) = WaIdle\<close> assms(3) show False by simp
  qed
  with H show "?H = {t} \<and> \<not> wa_unstarted (wa_pc s Starter) (wa_n cfg)" by simp
qed

lemma wa_thread_valid:
  "wa_inv_local cfg s \<Longrightarrow> wa_pc s t \<noteq> WaIdle \<Longrightarrow> t \<in> wa_threads (wa_n cfg)"
  by (cases t) (auto simp: wa_inv_local_def leI)

lemma wa_not_finished:
  "\<not> wa_finished s \<longleftrightarrow> wa_done s = [] \<and> (\<forall>t. \<not> wa_finishing (wa_pc s t))"
  by (auto simp: wa_finished_def)

lemma wa_starter_not_unstarted:
  "wa_pc s Starter = pc \<Longrightarrow> wa_finishing pc \<or> wa_active pc \<or> pc = WaGone \<Longrightarrow> \<not> wa_unstarted pc n"
  by (cases pc) auto

lemma wa_delivered_one: "wa_result cfg s = Some cs \<Longrightarrow> length cs \<le> 1"
  by (auto simp: wa_result_def wa_set_values_def split: wa_state.splits if_splits)

lemma wa_inv_count_finishing:
  assumes "wa_inv_count cfg s" and "wa_pc s' = (wa_pc s)(t := pc)"
    and "wa_finishing (wa_pc s t)" and "wa_finishing pc"
    and "wa_count s' = wa_count s" and "wa_done s' = wa_done s"
    and "\<not> wa_registered s'" and "wa_pc s Callback \<noteq> WaEnter"
  shows "wa_inv_count cfg s'"
proof -
  have h: "wa_holders (wa_n cfg) (wa_pc s') = wa_holders (wa_n cfg) (wa_pc s)"
    unfolding assms(2)
    by (rule wa_holders_same) (use assms(3,4) in \<open>cases t; cases pc; cases "wa_pc s t"; simp\<close>)
  have f: "wa_finishing (wa_pc s' u) = wa_finishing (wa_pc s u)" for u
    using assms(2-4) by simp
  have g: "wa_finished s' = wa_finished s" by (simp add: wa_finished_def f assms(6))
  have "wa_finished s" using assms(3) by (auto simp: wa_finished_def)
  then have "\<not> wa_unstarted (wa_pc s Starter) (wa_n cfg)" using assms(1) by (simp add: wa_inv_count_def)
  then have u: "\<not> wa_unstarted (wa_pc s' Starter) (wa_n cfg)"
    using assms(2,4) by (cases "t = Starter"; cases pc) auto
  have "wa_pc s' Callback \<noteq> WaEnter" using assms(2,4,8) by (cases "t = Callback") auto
  with assms(1,5-7) u show ?thesis unfolding wa_inv_count_def h f g by auto
qed

lemma wa_inv_count_shared:
  assumes "wa_shared_step cfg t s s'" and "wa_inv_local cfg s" and "wa_inv_count cfg s"
  shows "wa_inv_count cfg s'"
  using assms
proof (induction rule: wa_shared_step.induct)
  case (cas s)
  have "wa_inv_count cfg (wa_goto t (WaStop None) (s\<lparr>wa_state := WaStopped\<rparr>))"
    using cas.prems(2) cas.hyps
    by - (erule wa_inv_count_frame [where t = t and pc = "WaStop None"];
          cases t; simp add: wa_goto_def)
  moreover have "wa_inv_count cfg (wa_goto t WaArrive s)"
    using cas.prems(2) cas.hyps
    by - (erule wa_inv_count_frame [where t = t and pc = WaArrive];
          cases t; simp add: wa_goto_def)
  ultimately show ?case by simp
next
  case (request_stop s x)
  show ?case using request_stop.prems(2) request_stop.hyps
    by - (erule wa_inv_count_frame [where t = t
            and pc = "case x of None \<Rightarrow> WaArrive | Some y \<Rightarrow> WaStore y"];
          cases t; cases x; simp add: wa_goto_def)
next
  case (arrive s)
  have v: "t \<in> wa_threads (wa_n cfg)" using arrive by (intro wa_thread_valid) auto
  note a = wa_last_arrival [OF arrive.prems arrive.hyps v]
  let ?H = "wa_holders (wa_n cfg) (wa_pc s)"
  let ?pc = "if wa_count s = 1 then WaReset else WaGone"
  have H: "wa_holders (wa_n cfg) ((wa_pc s)(t := WaReset)) = ?H - {t}"
    "wa_holders (wa_n cfg) ((wa_pc s)(t := WaGone)) = ?H - {t}"
    by (cases t; auto simp: wa_holders_upd)+
  have c: "wa_count s = card ?H" using arrive.prems(2) by (simp add: wa_inv_count_def)
  have c': "card (?H - {t}) = card ?H - 1" using a(1) by simp
  have n: "wa_n cfg \<noteq> 0" using arrive.prems(2) a(3) by (auto simp: wa_inv_count_def)
  have nf: "wa_done s = []" "\<And>u. \<not> wa_finishing (wa_pc s u)" using a(2) by (simp_all add: wa_not_finished)
  have d: "wa_pc s u \<noteq> WaDeliver" "wa_pc s u \<noteq> WaFailed" for u
    using nf(2) [of u] by auto
  show ?case
  proof (cases "wa_count s = 1")
    case True
    then have e: "?H - {t} = {}" and u: "\<not> wa_unstarted (wa_pc s Starter) (wa_n cfg)" using a(4) by auto
    have "\<not> wa_unstarted (((wa_pc s)(t := WaReset)) Starter) (wa_n cfg)" using u by simp
    with True e c c' n nf d show ?thesis
      by (simp add: wa_inv_count_def wa_goto_def wa_finished_def H(1))
  next
    case False
    with c c' n nf d show ?thesis
      by (simp add: wa_inv_count_def wa_goto_def wa_finished_def H(2))
  qed
next
  case (reset s)
  then have "wa_pc s Callback \<noteq> WaEnter" by auto
  with reset show ?case
    by - (erule wa_inv_count_finishing [where t = t and pc = WaDeliver]; simp add: wa_goto_def)
next
  case (deliver s cs)
  have f: "wa_finished s" using deliver.hyps by (auto simp: wa_finished_def intro: exI [of _ t])
  have o: "wa_finishing (wa_pc s u) \<Longrightarrow> u = t" for u
    using deliver unfolding wa_inv_count_def by (metis wa_finishing.simps(2))
  have d: "wa_done s = []" using deliver unfolding wa_inv_count_def by (metis wa_finishing.simps(2))
  have H: "wa_holders (wa_n cfg) ((wa_pc s)(t := WaGone)) = wa_holders (wa_n cfg) (wa_pc s)"
    using deliver.hyps by - (rule wa_holders_same; cases t; simp)
  have r: "\<not> wa_registered s \<and> wa_pc s Callback \<noteq> WaEnter"
    using deliver unfolding wa_inv_count_def by (metis insertI1)
  from deliver.prems f o d r wa_delivered_one [OF deliver.hyps(2)] show ?case
    by (auto simp: wa_inv_count_def wa_goto_def wa_finished_def H)
next
  case (deliver_fails s)
  then have "\<not> wa_registered s \<and> wa_pc s Callback \<noteq> WaEnter"
    unfolding wa_inv_count_def by (metis insertI1)
  with deliver_fails show ?case
    by - (erule wa_inv_count_finishing [where t = t and pc = WaFailed]; simp add: wa_goto_def)
qed


section \<open>What is delivered\<close>

definition wa_inv_stopped :: "wa_cfg \<Rightarrow> when_all_op \<Rightarrow> bool" where
  "wa_inv_stopped cfg s \<longleftrightarrow>
     (wa_outer_stop s \<longrightarrow> wa_outer_stoppable cfg) \<and>
     (wa_inner_stop s \<or> (\<exists>t. wa_stopping (wa_pc s t)) \<longrightarrow> wa_state s \<noteq> WaStarted) \<and>
     (\<not> wa_undeclared s \<longrightarrow> \<not> wa_sends_stopped cfg \<longrightarrow> (\<exists>i. wa_chosen s i = Some SetStopped) \<longrightarrow>
        wa_state s = WaError)"

lemma wa_sends_stopped_iff:
  "wa_sends_stopped cfg \<longleftrightarrow> (\<exists>i < wa_n cfg. SigStopped \<in> set (wa_sigs_outer cfg i))"
proof -
  have "sig_tag s = StoppedTag \<longleftrightarrow> s = SigStopped" for s by (cases s) auto
  then show ?thesis by (auto simp: wa_sends_stopped_def sends_def list_ex_iff)
qed

lemma wa_inv_stopped_frame:
  assumes "wa_inv_stopped cfg s" and "\<And>t. wa_stopping (wa_pc s' t) \<Longrightarrow> wa_stopping (wa_pc s t)"
    and "wa_state s' = wa_state s" and "wa_inner_stop s' = wa_inner_stop s"
    and "wa_outer_stop s' \<Longrightarrow> wa_outer_stop s \<or> wa_outer_stoppable cfg" and "wa_chosen s' = wa_chosen s"
    and "wa_undeclared s' = wa_undeclared s"
  shows "wa_inv_stopped cfg s'"
  using assms unfolding wa_inv_stopped_def by metis

lemma wa_inv_stopped_child:
  assumes "wa_child_step cfg i s s'" and "wa_inv_stopped cfg s" and "wa_inv_local cfg s" and "wa_inv_stop s"
  shows "wa_inv_stopped cfg s'"
  using assms
proof (induction rule: wa_child_step.induct)
  case (completes s c)
  have st: "wa_state s = WaError"
    if c: "c = SetStopped" and u: "\<not> wa_undeclared s" "\<not> wa_unasked_stop cfg (wa_inner_stop s) c"
      and ns: "\<not> wa_sends_stopped cfg"
  proof -
    have *: "wa_inner_stop s" "\<not> wa_outer_stoppable cfg" using c u(2) ns by (auto simp: wa_unasked_stop_def)
    then have "wa_state s \<noteq> WaStarted" "\<not> wa_outer_stop s"
      using completes.prems(1) by (auto simp: wa_inv_stopped_def)
    moreover have "wa_state s = WaError" if "wa_chosen s j = Some SetStopped" for j
      using that completes.prems(1) u(1) ns by (auto simp: wa_inv_stopped_def)
    ultimately show ?thesis using completes.prems(3) by (cases "wa_state s") (auto simp: wa_inv_stop_def)
  qed
  show ?case using completes.prems(1) st
    by (auto simp: wa_inv_stopped_def wa_goto_def split: if_splits)
next
  case (exchange s x)
  then show ?case by (auto simp: wa_inv_stopped_def wa_goto_def)
next
  case (values_throw s xs e)
  then show ?case by - (erule wa_inv_stopped_frame; auto simp: wa_goto_def split: if_splits)
qed (erule wa_inv_stopped_frame; auto simp: wa_goto_def split: if_splits)+

lemma wa_inv_stopped_start:
  "wa_start_step cfg s s' \<Longrightarrow> wa_inv_stopped cfg s \<Longrightarrow> wa_inv_stopped cfg s'"
  by (induction rule: wa_start_step.induct; erule wa_inv_stopped_frame)
     (auto simp: wa_goto_def split: if_splits)

lemma wa_inv_stopped_callback:
  "wa_callback_step cfg s s' \<Longrightarrow> wa_inv_stopped cfg s \<Longrightarrow> wa_inv_stopped cfg s'"
  by (induction rule: wa_callback_step.induct; erule wa_inv_stopped_frame)
     (auto simp: wa_goto_def split: if_splits)

lemma wa_inv_stopped_shared:
  assumes "wa_shared_step cfg t s s'" and "wa_inv_stopped cfg s" and "wa_inv_local cfg s"
  shows "wa_inv_stopped cfg s'"
  using assms
proof (induction rule: wa_shared_step.induct)
  case (cas s)
  have "wa_inv_stopped cfg (wa_goto t (WaStop None) (s\<lparr>wa_state := WaStopped\<rparr>))"
    if "wa_state s = WaStarted"
    using cas.prems(1) that by (auto simp: wa_inv_stopped_def wa_goto_def)
  moreover have "wa_inv_stopped cfg (wa_goto t WaArrive s)"
    using cas.prems(1) by (rule wa_inv_stopped_frame) (auto simp: wa_goto_def split: if_splits)
  ultimately show ?case by simp
next
  case (request_stop s x)
  have "wa_state s \<noteq> WaStarted"
    using request_stop.prems(1) request_stop.hyps unfolding wa_inv_stopped_def by (metis wa_stopping.simps(1))
  with request_stop.prems(1) show ?case
    by (auto simp: wa_inv_stopped_def wa_goto_def split: if_splits option.splits)
qed (erule wa_inv_stopped_frame; auto simp: wa_goto_def split: if_splits)+


text \<open>
  The contract of the completion: the concatenated values if all children completed with
  values, the first error that was stored if any child failed, stopped otherwise.
\<close>

fun wa_outcome :: "wa_cfg \<Rightarrow> when_all_op \<Rightarrow> compl \<Rightarrow> bool" where
  "wa_outcome cfg s (SetValue vs) \<longleftrightarrow>
     (\<exists>xss. length xss = wa_n cfg \<and> vs = concat xss \<and>
        (\<forall>i < wa_n cfg. wa_chosen s i = Some (SetValue (xss ! i)))) \<and>
     (\<forall>i x. \<not> wa_raised cfg (wa_chosen s i) x)"
| "wa_outcome cfg s (SetError x) \<longleftrightarrow>
     (\<exists>i y. i < wa_n cfg \<and> wa_raised cfg (wa_chosen s i) y \<and> x = wa_stored (wa_univ cfg) y) \<and>
     wa_inner_stop s"
| "wa_outcome cfg s SetStopped \<longleftrightarrow>
     wa_sends_stopped cfg \<and> (\<forall>i x. \<not> wa_raised cfg (wa_chosen s i) x) \<and>
     (wa_outer_stop s \<or> (\<exists>i < wa_n cfg. wa_chosen s i = Some SetStopped)) \<and> wa_inner_stop s"

definition wa_all_arrived :: "wa_cfg \<Rightarrow> when_all_op \<Rightarrow> bool" where
  "wa_all_arrived cfg s \<longleftrightarrow>
     wa_holders (wa_n cfg) (wa_pc s) = {} \<and> \<not> wa_unstarted (wa_pc s Starter) (wa_n cfg)"

lemma wa_starter_done_all:
  "wa_starter_local n pc \<Longrightarrow> \<not> wa_unstarted pc n \<Longrightarrow> i < n \<Longrightarrow> \<not> wa_unstarted pc i"
  by (cases pc) auto

lemma wa_arrived_child:
  assumes "wa_inv_local cfg s" and "wa_all_arrived cfg s" and "i < wa_n cfg"
  shows "wa_settled cfg (wa_state s) (wa_chosen s i) (wa_values s i)"
    "wa_pc s (Child i) \<in> {WaReset, WaDeliver, WaGone, WaFailed}"
proof -
  have "Child i \<notin> wa_holders (wa_n cfg) (wa_pc s)" using assms(2) by (simp add: wa_all_arrived_def)
  then have *: "\<not> wa_active (wa_pc s (Child i))" "wa_pc s (Child i) \<noteq> WaIdle"
    using assms(3) by (auto simp: wa_holders_def)
  with wa_inv_local_at [OF assms(1) refl, of i]
  show "wa_settled cfg (wa_state s) (wa_chosen s i) (wa_values s i)"
    and "wa_pc s (Child i) \<in> {WaReset, WaDeliver, WaGone, WaFailed}"
    by (cases "wa_pc s (Child i)"; simp)+
qed

lemma wa_arrived_idle:
  assumes "wa_inv_local cfg s" and "wa_all_arrived cfg s"
  shows "\<not> wa_active (wa_pc s t)"
proof (cases "wa_pc s t = WaIdle")
  case False
  with assms(1) have "t \<in> wa_threads (wa_n cfg)" by (rule wa_thread_valid)
  then have "\<not> wa_holding t (wa_pc s t)" using assms(2) by (auto simp: wa_all_arrived_def wa_holders_def)
  then show ?thesis by (cases t) auto
qed simp

lemma wa_active_winning: "wa_winning pc \<Longrightarrow> wa_active pc" "wa_stopping pc \<Longrightarrow> wa_active pc"
  by (cases pc; simp)+

lemma wa_chosen_valid: "wa_inv_local cfg s \<Longrightarrow> wa_chosen s i = Some c \<Longrightarrow> i < wa_n cfg"
  by (rule ccontr) (metis leI option.distinct(1) wa_inv_local_def wa_local.simps(1))

lemma wa_raised_valid: "wa_inv_local cfg s \<Longrightarrow> wa_raised cfg (wa_chosen s i) x \<Longrightarrow> i < wa_n cfg"
  by (cases "wa_chosen s i") (auto dest: wa_chosen_valid)

lemma wa_raised_errors:
  assumes "wa_inv_local cfg s" and "wa_raised cfg (wa_chosen s i) x"
  shows "wa_has_errors cfg"
proof -
  from assms obtain c where c: "wa_chosen s i = Some c" "sig_of c \<in> set (wa_sigs cfg i)" "i < wa_n cfg"
    by (cases "wa_chosen s i") (auto simp: wa_inv_local_def dest: wa_chosen_valid [OF assms(1)])
  have "\<not> nothrow_copy_results (wa_univ cfg) (wa_sigs cfg i) \<or> sends ErrorTag (wa_sigs cfg i)"
  proof (cases c)
    case (SetValue xs)
    with assms(2) c have "\<not> nothrow_copy_args (wa_univ cfg) (sig_args (sig_of c))"
      by (auto simp: wa_try_copy_def split: if_splits)
    with c(2) show ?thesis unfolding nothrow_copy_results_def list_all_iff by blast
  next
    case (SetError y)
    with c(2) show ?thesis by (force simp: sends_def list_ex_iff)
  next
    case SetStopped
    with assms(2) c(1) show ?thesis by simp
  qed
  with c(3) show ?thesis by (auto simp: wa_has_errors_def list_ex_iff)
qed

lemma value_sigs_mem: "SigValue ts \<in> set cs \<longleftrightarrow> ts \<in> set (value_sigs cs)"
  by (induction cs rule: value_sigs.induct) auto

text \<open>When every child has arrived and the state is not error, all completed with values.\<close>

lemma wa_result_values:
  assumes "wa_cfg_ok cfg" and "wa_inv_local cfg s" and "wa_all_arrived cfg s" and "wa_state s \<noteq> WaError"
    and "\<forall>i < wa_n cfg. wa_chosen s i \<noteq> Some SetStopped"
  obtains vs where "wa_set_values cfg s = Some [SetValue vs]" and "wa_outcome cfg s (SetValue vs)"
proof -
  have "\<exists>xs. wa_chosen s i = Some (SetValue xs) \<and>
          (wa_has_values cfg \<longrightarrow> wa_try_copy (wa_univ cfg) xs = None \<and> wa_values s i = Some xs)"
    if "i < wa_n cfg" for i
    using wa_arrived_child(1) [OF assms(2,3) that] assms(4,5) that
    by (cases "(cfg, wa_state s, wa_chosen s i, wa_values s i)" rule: wa_settled.cases)
       (auto split: if_splits)
  then obtain f where f: "\<And>i. i < wa_n cfg \<Longrightarrow> wa_chosen s i = Some (SetValue (f i)) \<and>
      (wa_has_values cfg \<longrightarrow> wa_try_copy (wa_univ cfg) (f i) = None \<and> wa_values s i = Some (f i))"
    by metis
  have "length (value_sigs (wa_sigs cfg i)) = 1" if "i < wa_n cfg" for i
  proof -
    have "SigValue (map ty_of (f i)) \<in> set (wa_sigs cfg i)"
      using f [OF that] assms(2) by (metis sig_of.simps(1) wa_inv_local_def)
    then have "value_sigs (wa_sigs cfg i) \<noteq> []" by (auto simp: value_sigs_mem)
    moreover have "length (value_sigs (wa_sigs cfg i)) \<le> 1"
      using assms(1) that by (auto simp: wa_cfg_ok_def wa_max1_def list_all_iff)
    ultimately show ?thesis by (cases "value_sigs (wa_sigs cfg i)") auto
  qed
  then have hv: "wa_has_values cfg" by (simp add: wa_has_values_def list_all_iff)
  let ?xss = "map f [0..<wa_n cfg]"
  have "map (wa_values s) [0..<wa_n cfg] = map Some ?xss" using f hv by auto
  then have "those (map (wa_values s) [0..<wa_n cfg]) = Some ?xss" by (simp only: those_Some)
  then have "wa_set_values cfg s = Some [SetValue (concat ?xss)]" by (simp add: wa_set_values_def hv)
  moreover have "\<not> wa_raised cfg (wa_chosen s i) x" for i x
  proof
    assume r: "wa_raised cfg (wa_chosen s i) x"
    with assms(2) have "i < wa_n cfg" by (rule wa_raised_valid)
    from f [OF this] r hv show False by auto
  qed
  moreover have "length ?xss = wa_n cfg \<and> (\<forall>i < wa_n cfg. wa_chosen s i = Some (SetValue (?xss ! i)))"
    using f by auto
  ultimately show ?thesis using that by (metis wa_outcome.simps(1))
qed

lemma wa_result_correct:
  assumes "wa_cfg_ok cfg" and "wa_inv_local cfg s" and "wa_inv_error cfg s" and "wa_inv_stop s"
    and "wa_inv_stopped cfg s" and "wa_all_arrived cfg s" and "\<not> wa_undeclared s"
  obtains c where "wa_result cfg s = Some [c]" and "wa_outcome cfg s c"
proof -
  note idle = wa_arrived_idle [OF assms(2,6)]
  have stop: "wa_inner_stop s" if "wa_state s \<noteq> WaStarted"
    using that assms(4) idle wa_active_winning(2) unfolding wa_inv_stop_def by blast
  have nr: "\<not> wa_raised cfg (wa_chosen s i) x" if "wa_state s \<noteq> WaError" for i x
  proof
    assume r: "wa_raised cfg (wa_chosen s i) x"
    with assms(2) have "i < wa_n cfg" by (rule wa_raised_valid)
    from wa_arrived_child(1) [OF assms(2,6) this] r that show False
      by (cases "(cfg, wa_chosen s i, x)" rule: wa_raised.cases) (auto split: if_splits)
  qed
  show ?thesis
  proof (cases "wa_state s")
    case WaError
    then obtain i x where ix: "wa_raised cfg (wa_chosen s i) x" "wa_errors s = Some (wa_stored (wa_univ cfg) x)"
      using assms(3) idle wa_active_winning(1) unfolding wa_inv_error_def by blast
    have "wa_result cfg s = Some [SetError (wa_stored (wa_univ cfg) x)]"
      using WaError ix(2) wa_raised_errors [OF assms(2) ix(1)] by (simp add: wa_result_def)
    moreover have "wa_outcome cfg s (SetError (wa_stored (wa_univ cfg) x))"
      using ix(1) stop WaError wa_raised_valid [OF assms(2) ix(1)] by auto
    ultimately show ?thesis using that by blast
  next
    case WaStarted
    then have "\<forall>i < wa_n cfg. wa_chosen s i \<noteq> Some SetStopped"
      using wa_arrived_child(1) [OF assms(2,6)] by force
    with assms(1,2,6) WaStarted obtain vs where
      "wa_set_values cfg s = Some [SetValue vs]" "wa_outcome cfg s (SetValue vs)"
      by (elim wa_result_values) auto
    then show ?thesis using that WaStarted by (simp add: wa_result_def)
  next
    case WaStopped
    show ?thesis
    proof (cases "wa_sends_stopped cfg")
      case True
      have "wa_outer_stop s \<or> (\<exists>i < wa_n cfg. wa_chosen s i = Some SetStopped)"
        using assms(4) WaStopped wa_chosen_valid [OF assms(2)] by (auto simp: wa_inv_stop_def)
      then have "wa_outcome cfg s SetStopped" using True nr stop WaStopped by simp
      then show ?thesis using that True WaStopped by (simp add: wa_result_def)
    next
      case False
      then have "\<forall>i < wa_n cfg. wa_chosen s i \<noteq> Some SetStopped"
        using assms(5,7) WaStopped by (auto simp: wa_inv_stopped_def)
      with assms(1,2,6) WaStopped obtain vs where
        "wa_set_values cfg s = Some [SetValue vs]" "wa_outcome cfg s (SetValue vs)"
        by (elim wa_result_values) auto
      then show ?thesis using that False WaStopped by (simp add: wa_result_def)
    qed
  qed
qed


section \<open>The invariant\<close>

text \<open>
  Completion: whoever takes the counter to zero completes, and what has been delivered is the
  outcome of the children.
\<close>

definition wa_inv_done :: "wa_cfg \<Rightarrow> when_all_op \<Rightarrow> bool" where
  "wa_inv_done cfg s \<longleftrightarrow>
     (wa_all_arrived cfg s \<longrightarrow> wa_finished s) \<and>
     (\<forall>t. wa_pc s t \<noteq> WaFailed) \<and> (\<forall>c \<in> set (wa_done s). wa_outcome cfg s c)"

definition wa_inv :: "wa_cfg \<Rightarrow> when_all_op \<Rightarrow> bool" where
  "wa_inv cfg s \<longleftrightarrow>
     wa_inv_local cfg s \<and> wa_callback_used s \<and> wa_inv_error cfg s \<and> wa_inv_stop s \<and>
     wa_inv_stopped cfg s \<and> (\<not> wa_late s \<longrightarrow> wa_inv_count cfg s) \<and>
     (\<not> wa_late s \<longrightarrow> wa_cfg_ok cfg \<longrightarrow> \<not> wa_undeclared s \<longrightarrow> wa_inv_done cfg s)"

lemma wa_late_step: "wa_step cfg s s' \<Longrightarrow> wa_late s \<Longrightarrow> wa_late s'"
  by (auto elim!: wa_step.cases wa_start_step.cases wa_child_step.cases wa_callback_step.cases
      wa_shared_step.cases simp: wa_goto_def)

lemma wa_undeclared_step: "wa_step cfg s s' \<Longrightarrow> wa_undeclared s \<Longrightarrow> wa_undeclared s'"
  by (auto elim!: wa_step.cases wa_start_step.cases wa_child_step.cases wa_callback_step.cases
      wa_shared_step.cases simp: wa_goto_def)

lemma wa_inv_local_step: "wa_step cfg s s' \<Longrightarrow> wa_inv_local cfg s \<Longrightarrow> wa_inv_local cfg s'"
  by (induction rule: wa_step.induct)
     (auto intro: wa_inv_local_start wa_inv_local_child wa_inv_local_callback wa_inv_local_shared)

lemma wa_inv_error_step:
  "wa_step cfg s s' \<Longrightarrow> wa_inv_local cfg s \<Longrightarrow> wa_callback_used s \<Longrightarrow> wa_inv_error cfg s \<Longrightarrow> wa_inv_error cfg s'"
  by (induction rule: wa_step.induct)
     (auto intro: wa_inv_error_start wa_inv_error_child wa_inv_error_callback wa_inv_error_shared)

lemma wa_inv_stop_step:
  "wa_step cfg s s' \<Longrightarrow> wa_inv_local cfg s \<Longrightarrow> wa_callback_used s \<Longrightarrow> wa_inv_stop s \<Longrightarrow> wa_inv_stop s'"
  by (induction rule: wa_step.induct)
     (auto intro: wa_inv_stop_start wa_inv_stop_child wa_inv_stop_callback wa_inv_stop_shared)

lemma wa_inv_stopped_step:
  "wa_step cfg s s' \<Longrightarrow> wa_inv_local cfg s \<Longrightarrow> wa_inv_stop s \<Longrightarrow> wa_inv_stopped cfg s \<Longrightarrow> wa_inv_stopped cfg s'"
  by (induction rule: wa_step.induct)
     (auto intro: wa_inv_stopped_start wa_inv_stopped_child wa_inv_stopped_callback wa_inv_stopped_shared)

lemma wa_inv_count_step:
  "wa_step cfg s s' \<Longrightarrow> \<not> wa_late s' \<Longrightarrow> wa_inv_local cfg s \<Longrightarrow> wa_callback_used s \<Longrightarrow>
     wa_inv_count cfg s \<Longrightarrow> wa_inv_count cfg s'"
  by (induction rule: wa_step.induct)
     (auto intro: wa_inv_count_start wa_inv_count_child wa_inv_count_callback wa_inv_count_shared)

lemma wa_outcome_mono:
  "wa_outcome cfg s c \<Longrightarrow> wa_chosen s' = wa_chosen s \<Longrightarrow> (wa_inner_stop s \<Longrightarrow> wa_inner_stop s') \<Longrightarrow>
     (wa_outer_stop s \<Longrightarrow> wa_outer_stop s') \<Longrightarrow> wa_outcome cfg s' c"
  by (cases c) auto

text \<open>Only a running child chooses; after the completion none is left.\<close>

lemma wa_chosen_step:
  "wa_step cfg s s' \<Longrightarrow> wa_chosen s' = wa_chosen s \<or> (\<exists>i. wa_pc s (Child i) = WaRunning)"
  by (auto elim!: wa_step.cases wa_start_step.cases wa_child_step.cases wa_callback_step.cases
      wa_shared_step.cases simp: wa_goto_def)

lemma wa_stop_mono_step:
  "wa_step cfg s s' \<Longrightarrow> (wa_inner_stop s \<longrightarrow> wa_inner_stop s') \<and> (wa_outer_stop s \<longrightarrow> wa_outer_stop s')"
  by (auto elim!: wa_step.cases wa_start_step.cases wa_child_step.cases wa_callback_step.cases
      wa_shared_step.cases simp: wa_goto_def)

lemma wa_finished_arrived: "wa_inv_count cfg s \<Longrightarrow> wa_finished s \<Longrightarrow> wa_all_arrived cfg s"
  by (simp add: wa_inv_count_def wa_all_arrived_def)

lemma wa_completion_pc_active [simp]: "wa_active (wa_completion_pc c)" "wa_completion_pc c \<noteq> WaFailed"
  by (cases c; simp)+

text \<open>Whoever leaves nobody holding has become the one that completes.\<close>

lemma wa_done_step:
  assumes "wa_step cfg s s'"
  shows "(\<exists>t. wa_pc s t = WaDeliver \<and> wa_shared_step cfg t s s') \<or>
         wa_done s' = wa_done s \<and> (\<forall>t. wa_pc s' t = WaFailed \<longrightarrow> wa_pc s t = WaFailed)"
  using assms
proof cases
  case by_start
  then show ?thesis by cases (auto simp: wa_goto_def)
next
  case (by_child i)
  then show ?thesis by cases (auto simp: wa_goto_def split: wa_state.splits)
next
  case by_callback
  then show ?thesis by cases (auto simp: wa_goto_def)
next
  case (by_shared t)
  show ?thesis
  proof (cases "wa_pc s t = WaDeliver")
    case False
    from by_shared False have "wa_done s' = wa_done s \<and> (\<forall>t. wa_pc s' t = WaFailed \<longrightarrow> wa_pc s t = WaFailed)"
      by cases (auto simp: wa_goto_def split: option.splits if_splits)
    then show ?thesis by simp
  qed (use by_shared in blast)
qed

lemma wa_finished_start:
  assumes "wa_start_step cfg s s'" and "wa_inv_local cfg s'" and "wa_all_arrived cfg s'"
  shows "wa_finished s'"
  using assms
proof (induction rule: wa_start_step.induct)
  case (start_child s i)
  from wa_arrived_idle [OF start_child.prems, of "Child i"] show ?case by (simp add: wa_goto_def)
next
  case (start_none s i)
  then show ?case by (auto simp: wa_finished_def wa_goto_def intro: exI [of _ Starter])
qed (auto simp: wa_all_arrived_def wa_goto_def)

lemma wa_finished_child:
  assumes "wa_child_step cfg i s s'" and "wa_inv_local cfg s'" and "wa_all_arrived cfg s'"
  shows "wa_finished s'"
proof -
  have "wa_active (wa_pc s' (Child i))"
    using assms(1) by (induction rule: wa_child_step.induct)
      (auto simp: wa_goto_def split: wa_state.splits)
  with wa_arrived_idle [OF assms(2,3)] show ?thesis by simp
qed

lemma wa_finished_callback:
  assumes "wa_callback_step cfg s s'" and "wa_inv_local cfg s'" and "wa_all_arrived cfg s'"
    and "wa_all_arrived cfg s \<longrightarrow> wa_finished s"
  shows "wa_finished s'"
  using assms
proof (induction rule: wa_callback_step.induct)
  case (outer_request s)
  then show ?case by (simp add: wa_all_arrived_def wa_finished_def)
next
  case (fire s)
  have "wa_holders (wa_n cfg) ((wa_pc s)(Callback := WaEnter)) = wa_holders (wa_n cfg) (wa_pc s)"
    by (rule wa_holders_same) (simp add: fire.hyps)
  with fire have f: "wa_finished s" by (simp add: wa_all_arrived_def wa_goto_def)
  show ?case
  proof (cases "wa_done s = []")
    case True
    with f obtain t where t: "wa_finishing (wa_pc s t)" by (auto simp: wa_finished_def)
    with fire.hyps have "t \<noteq> Callback" by auto
    with t show ?thesis by (auto simp: wa_finished_def wa_goto_def intro: exI [of _ t])
  qed (simp add: wa_finished_def wa_goto_def)
next
  case (enter s)
  from wa_arrived_idle [OF enter.prems(1,2), of Callback] show ?case by (simp add: wa_goto_def)
qed

lemma wa_finished_shared:
  assumes "wa_shared_step cfg t s s'" and "wa_inv_local cfg s" and "wa_inv_count cfg s"
    and "wa_inv_local cfg s'" and "wa_inv_count cfg s'" and "wa_all_arrived cfg s'"
    and "wa_pc s t \<noteq> WaDeliver"
  shows "wa_finished s'"
  using assms
proof (induction rule: wa_shared_step.induct)
  case (cas s)
  from wa_arrived_idle [OF cas.prems(3,5), of t] show ?case by (simp add: wa_goto_def split: if_splits)
next
  case (request_stop s x)
  from wa_arrived_idle [OF request_stop.prems(3,5), of t] show ?case
    by (simp add: wa_goto_def split: option.splits)
next
  case (arrive s)
  have "wa_count (wa_goto t (if wa_count s = 1 then WaReset else WaGone) (s\<lparr>wa_count := wa_count s - 1\<rparr>)) = 0"
    using arrive.prems(4,5) unfolding wa_inv_count_def wa_all_arrived_def by (metis card.empty)
  moreover have "wa_count s \<noteq> 0"
    by (rule wa_last_arrival(3) [OF arrive.prems(1,2) arrive.hyps])
       (use arrive in \<open>auto intro: wa_thread_valid\<close>)
  ultimately have "wa_count s = 1" by (simp add: wa_goto_def)
  then show ?case by (auto simp: wa_finished_def wa_goto_def intro: exI [of _ t])
next
  case (reset s)
  then show ?case by (auto simp: wa_finished_def wa_goto_def intro: exI [of _ t])
qed auto

lemma wa_inv_done_step:
  assumes "wa_step cfg s s'" and "wa_cfg_ok cfg" and "wa_inv_done cfg s"
    and "wa_inv_local cfg s" "wa_inv_local cfg s'" and "wa_inv_count cfg s" "wa_inv_count cfg s'"
    and "wa_inv_error cfg s" and "wa_inv_stop s" and "wa_inv_stopped cfg s"
    and "\<not> wa_undeclared s"
  shows "wa_inv_done cfg s'"
proof (cases "\<exists>t. wa_pc s t = WaDeliver \<and> wa_shared_step cfg t s s'")
  case True
  then obtain t where t: "wa_pc s t = WaDeliver" "wa_shared_step cfg t s s'" by blast
  then have f: "wa_finished s" by (auto simp: wa_finished_def intro: exI [of _ t])
  with assms(6) have "wa_all_arrived cfg s" by (rule wa_finished_arrived)
  from wa_result_correct [OF assms(2,4,8-10) this assms(11)]
  obtain c where c: "wa_result cfg s = Some [c]" "wa_outcome cfg s c" .
  have d: "wa_done s = []" using assms(6) t(1) unfolding wa_inv_count_def by (metis wa_finishing.simps(2))
  from t c have s': "s' = wa_goto t WaGone (s\<lparr>wa_done := wa_done s @ [c]\<rparr>)"
    by (auto elim!: wa_shared_step.cases)
  have "wa_outcome cfg s' c" using c(2) by (rule wa_outcome_mono) (simp_all add: s' wa_goto_def)
  with d assms(3) show ?thesis by (auto simp: wa_inv_done_def wa_finished_def s' wa_goto_def)
next
  case False
  with wa_done_step [OF assms(1)]
  have d: "wa_done s' = wa_done s" "\<forall>t. wa_pc s' t = WaFailed \<longrightarrow> wa_pc s t = WaFailed" by blast+
  have "wa_finished s'" if a: "wa_all_arrived cfg s'"
    using assms(1)
  proof cases
    case by_start
    then show ?thesis using assms(5) a by (rule wa_finished_start)
  next
    case (by_child i)
    then show ?thesis using assms(5) a by (rule wa_finished_child)
  next
    case by_callback
    then show ?thesis using assms(5) a by (rule wa_finished_callback) (use assms(3) in \<open>simp add: wa_inv_done_def\<close>)
  next
    case (by_shared t)
    then show ?thesis using assms(4,6,5,7) a by (rule wa_finished_shared) (use False by_shared in blast)
  qed
  moreover have "wa_outcome cfg s' c" if c: "c \<in> set (wa_done s')" for c
  proof -
    have f: "wa_finished s" "wa_outcome cfg s c" using c d assms(3) by (auto simp: wa_finished_def wa_inv_done_def)
    have "wa_all_arrived cfg s" using wa_finished_arrived [OF assms(6) f(1)] .
    then have "\<not> wa_active (wa_pc s (Child i))" for i by (rule wa_arrived_idle [OF assms(4)])
    then have "wa_chosen s' = wa_chosen s" using wa_chosen_step [OF assms(1)] by (metis wa_active.simps(1))
    then show ?thesis using f(2) wa_stop_mono_step [OF assms(1)] by (auto intro: wa_outcome_mono)
  qed
  ultimately show ?thesis using d assms(3) by (auto simp: wa_inv_done_def)
qed

lemma wa_inv_step: "wa_inv cfg s \<Longrightarrow> wa_step cfg s s' \<Longrightarrow> wa_inv cfg s'"
  unfolding wa_inv_def
  by (meson wa_callback_used_step wa_inv_count_step wa_inv_done_step wa_inv_error_step
      wa_inv_local_step wa_inv_stop_step wa_inv_stopped_step wa_late_step wa_undeclared_step)

lemma wa_inv_init: "wa_init cfg s \<Longrightarrow> wa_inv cfg s"
proof -
  assume i: "wa_init cfg s"
  then have pc: "wa_pc s = (\<lambda>t. WaIdle)" and l: "wa_inv_local cfg s"
    by (auto simp: wa_init_def wa_inv_local_init)
  have h: "wa_holders (wa_n cfg) (\<lambda>t. WaIdle) = Child ` {..<wa_n cfg}"
    by (auto simp: wa_holders_def wa_threads_def)
  have c: "card (Child ` {..<wa_n cfg}) = wa_n cfg" by (simp add: card_image inj_on_def)
  show ?thesis using i l
    by (simp add: wa_inv_def wa_init_def wa_callback_used_def wa_inv_error_def wa_inv_stop_def
        wa_inv_stopped_def wa_inv_count_def wa_inv_done_def wa_finished_def wa_all_arrived_def pc h c)
qed

interpretation wa: safe_system "wa_init cfg" "wa_step cfg" "wa_inv cfg" for cfg
  by unfold_locales (auto intro: wa_inv_init wa_inv_step)



section \<open>Example runs\<close>

definition wa_universe :: universe where
  "wa_universe = \<lparr>nothrow_copy = (\<lambda>t. True), copy_throws = (\<lambda>x. None), bool_type_of = (\<lambda>t. NotBool),
     to_bool = (\<lambda>x. Inr True)\<rparr>"

definition wa_one :: wa_cfg where
  "wa_one = \<lparr>wa_n = 1, wa_univ = wa_universe, wa_sigs = (\<lambda>i. [SigValue [TObj 0], SigStopped]),
     wa_sigs_outer = (\<lambda>i. [SigValue [TObj 0], SigStopped]), wa_outer_stoppable = True\<rparr>"

definition wa_run ::
  "nat \<Rightarrow> wa_state \<Rightarrow> obj list option \<Rightarrow> bool \<Rightarrow> bool \<Rightarrow> bool \<Rightarrow> wa_pc \<Rightarrow> wa_pc \<Rightarrow> wa_pc \<Rightarrow> compl list \<Rightarrow>
   compl option \<Rightarrow> bool \<Rightarrow> when_all_op" where
  "wa_run n st v inn out reg sp cb ch done c late =
     \<lparr>wa_count = n, wa_state = st, wa_errors = None, wa_values = (\<lambda>i. if i = 0 then v else None),
      wa_inner_stop = inn, wa_outer_stop = out, wa_registered = reg,
      wa_pc = (\<lambda>t. if t = Starter then sp else if t = Callback then cb else if t = Child 0 then ch else WaIdle),
      wa_done = done, wa_chosen = (\<lambda>i. if i = 0 then c else None), wa_late = late,
      wa_undeclared = False\<rparr>"

lemma wa_run_simps [simp]:
  fixes n st v inn out reg sp cb ch "done" c late
  defines "s \<equiv> wa_run n st v inn out reg sp cb ch done c late"
  shows "wa_count s = n" "wa_state s = st" "wa_inner_stop s = inn" "wa_outer_stop s = out"
    "wa_registered s = reg" "wa_pc s Starter = sp" "wa_pc s Callback = cb" "wa_pc s (Child 0) = ch"
    "wa_done s = done" "wa_late s = late" "wa_values s 0 = v" "\<not> wa_undeclared s"
    "wa_goto Starter q s = wa_run n st v inn out reg q cb ch done c late"
    "wa_goto Callback q s = wa_run n st v inn out reg sp q ch done c late"
    "wa_goto (Child 0) q s = wa_run n st v inn out reg sp cb q done c late"
    "wa_count_update f1 s = wa_run (f1 n) st v inn out reg sp cb ch done c late"
    "wa_state_update f2 s = wa_run n (f2 st) v inn out reg sp cb ch done c late"
    "s\<lparr>wa_values := (wa_values s)(0 := v')\<rparr> = wa_run n st v' inn out reg sp cb ch done c late"
    "wa_inner_stop_update f3 s = wa_run n st v (f3 inn) out reg sp cb ch done c late"
    "wa_outer_stop_update f3 s = wa_run n st v inn (f3 out) reg sp cb ch done c late"
    "wa_registered_update f3 s = wa_run n st v inn out (f3 reg) sp cb ch done c late"
    "wa_done_update f4 s = wa_run n st v inn out reg sp cb ch (f4 done) c late"
    "s\<lparr>wa_chosen := (wa_chosen s)(0 := c')\<rparr> = wa_run n st v inn out reg sp cb ch done c' late"
    "wa_late_update f3 s = wa_run n st v inn out reg sp cb ch done c (f3 late)"
    "\<not> f3 False \<Longrightarrow> wa_undeclared_update f3 s = s"
  by (auto simp: s_def wa_run_def wa_goto_def fun_eq_iff)

lemma wa_one_simps:
  "wa_n wa_one = 1" "wa_has_values wa_one" "wa_sends_stopped wa_one" "wa_outer_stoppable wa_one"
  "wa_try_copy (wa_univ wa_one) xs = None"
  "SigValue [TObj 0] \<in> set (wa_sigs wa_one 0)"
  "wa_result wa_one (wa_run n WaStarted (Some xs) inn out reg sp cb ch done c late) = Some [SetValue xs]"
  "wa_result wa_one (wa_run n WaStopped v inn out reg sp cb ch done c late) = Some [SetStopped]"
proof -
  show h: "wa_n wa_one = 1" "wa_has_values wa_one" and st: "wa_sends_stopped wa_one"
    and "wa_outer_stoppable wa_one" "wa_try_copy (wa_univ wa_one) xs = None"
    "SigValue [TObj 0] \<in> set (wa_sigs wa_one 0)"
    by (simp_all add: wa_one_def wa_has_values_def wa_sends_stopped_def sends_def wa_try_copy_def
        nothrow_copy_args_def wa_universe_def list_all_iff)
  show "wa_result wa_one (wa_run n WaStarted (Some xs) inn out reg sp cb ch done c late) = Some [SetValue xs]"
    "wa_result wa_one (wa_run n WaStopped v inn out reg sp cb ch done c late) = Some [SetStopped]"
    by (simp_all add: wa_result_def wa_set_values_def h st)
qed

lemma wa_one_ok: "wa_cfg_ok wa_one"
  by (simp add: wa_cfg_ok_def universe_ok_def wa_universe_def wa_one_def wa_max1_def)

lemma wa_run_arrived:
  "reach (wa_init wa_one) (wa_step wa_one)
     (wa_run 0 WaStarted (Some [Obj 0 7]) False False True WaGone WaIdle WaReset [] (Some (SetValue [Obj 0 7])) False)"
proof -
  have r0: "reach (wa_init wa_one) (wa_step wa_one) (wa_run 1 WaStarted None False False False WaIdle WaIdle WaIdle [] None False)"
    by (rule reach_init) (simp add: wa_init_def wa_run_def wa_one_def)
  have "wa_step wa_one
      (wa_run 1 WaStarted None False False False WaIdle WaIdle WaIdle [] None False)
      (wa_run 1 WaStarted None False False True (WaStarting 0) WaIdle WaIdle [] None False)"
    using by_start [OF register [of "wa_run 1 WaStarted None False False False WaIdle WaIdle WaIdle [] None False" wa_one]] by (simp add: wa_one_simps)
  note r1 = reach_step [OF r0 this]
  have "wa_step wa_one
      (wa_run 1 WaStarted None False False True (WaStarting 0) WaIdle WaIdle [] None False)
      (wa_run 1 WaStarted None False False True WaGone WaIdle WaRunning [] None False)"
    using by_start [OF start_child [of "wa_run 1 WaStarted None False False True (WaStarting 0) WaIdle WaIdle [] None False" 0 wa_one]] by (simp add: wa_one_simps)
  note r2 = reach_step [OF r1 this]
  have "wa_step wa_one
      (wa_run 1 WaStarted None False False True WaGone WaIdle WaRunning [] None False)
      (wa_run 1 WaStarted None False False True WaGone WaIdle (WaValue [Obj 0 7]) [] (Some (SetValue [Obj 0 7])) False)"
    using by_child [OF completes [of "wa_run 1 WaStarted None False False True WaGone WaIdle WaRunning [] None False" 0 "SetValue [Obj 0 7]" wa_one]] by (simp add: wa_one_simps)
  note r3 = reach_step [OF r2 this]
  have "wa_step wa_one
      (wa_run 1 WaStarted None False False True WaGone WaIdle (WaValue [Obj 0 7]) [] (Some (SetValue [Obj 0 7])) False)
      (wa_run 1 WaStarted (Some [Obj 0 7]) False False True WaGone WaIdle WaArrive [] (Some (SetValue [Obj 0 7])) False)"
    using by_child [OF store_values [of "wa_run 1 WaStarted None False False True WaGone WaIdle (WaValue [Obj 0 7]) [] (Some (SetValue [Obj 0 7])) False" 0 "[Obj 0 7]" wa_one]] by (simp add: wa_one_simps)
  note r4 = reach_step [OF r3 this]
  have "wa_step wa_one
      (wa_run 1 WaStarted (Some [Obj 0 7]) False False True WaGone WaIdle WaArrive [] (Some (SetValue [Obj 0 7])) False)
      (wa_run 0 WaStarted (Some [Obj 0 7]) False False True WaGone WaIdle WaReset [] (Some (SetValue [Obj 0 7])) False)"
    using by_shared [OF arrive [of "wa_run 1 WaStarted (Some [Obj 0 7]) False False True WaGone WaIdle WaArrive [] (Some (SetValue [Obj 0 7])) False" "Child 0" wa_one]] by (simp add: wa_one_simps)
  note r5 = reach_step [OF r4 this]
  from r5 show ?thesis .
qed

lemma wa_run_normal:
  "reach (wa_init wa_one) (wa_step wa_one)
     (wa_run 0 WaStarted (Some [Obj 0 7]) False False False WaGone WaIdle WaGone [SetValue [Obj 0 7]] (Some (SetValue [Obj 0 7])) False)"
proof -
  note r5 = wa_run_arrived
  have "wa_step wa_one
      (wa_run 0 WaStarted (Some [Obj 0 7]) False False True WaGone WaIdle WaReset [] (Some (SetValue [Obj 0 7])) False)
      (wa_run 0 WaStarted (Some [Obj 0 7]) False False False WaGone WaIdle WaDeliver [] (Some (SetValue [Obj 0 7])) False)"
    using by_shared [OF reset [of "wa_run 0 WaStarted (Some [Obj 0 7]) False False True WaGone WaIdle WaReset [] (Some (SetValue [Obj 0 7])) False" "Child 0" wa_one]] by (simp add: wa_one_simps)
  note r6 = reach_step [OF r5 this]
  have "wa_step wa_one
      (wa_run 0 WaStarted (Some [Obj 0 7]) False False False WaGone WaIdle WaDeliver [] (Some (SetValue [Obj 0 7])) False)
      (wa_run 0 WaStarted (Some [Obj 0 7]) False False False WaGone WaIdle WaGone [SetValue [Obj 0 7]] (Some (SetValue [Obj 0 7])) False)"
    using by_shared [OF deliver [of "wa_run 0 WaStarted (Some [Obj 0 7]) False False False WaGone WaIdle WaDeliver [] (Some (SetValue [Obj 0 7])) False" "Child 0" wa_one "[SetValue [Obj 0 7]]"]] by (simp add: wa_one_simps)
  note r7 = reach_step [OF r6 this]
  from r7 show ?thesis .
qed

lemma wa_run_empty:
  assumes "wa_n cfg = 0" and "wa_outer_stoppable cfg"
  shows "reach (wa_init cfg) (wa_step cfg)
     (wa_run 0 WaStopped None True True False WaGone WaGone WaIdle [SetValue [], SetValue []] None True)"
proof -
  have * : "wa_n cfg = 0" "wa_result cfg (wa_run n WaStopped v inn out reg sp cb ch done c late) = Some [SetValue []]"
    for n v inn out reg sp cb ch "done" c late
    using assms(1) by (simp_all add: wa_result_def wa_sends_stopped_def wa_set_values_def wa_has_values_def)
  have r0: "reach (wa_init cfg) (wa_step cfg) (wa_run 0 WaStarted None False True False WaIdle WaIdle WaIdle [] None False)"
    by (rule reach_init) (simp add: wa_init_def wa_run_def assms)
  have "wa_step cfg
      (wa_run 0 WaStarted None False True False WaIdle WaIdle WaIdle [] None False)
      (wa_run 0 WaStarted None False True False WaInline WaEnter WaIdle [] None False)"
    using by_start [OF fire_inline [of "wa_run 0 WaStarted None False True False WaIdle WaIdle WaIdle [] None False" cfg]] by (simp add: *)
  note r1 = reach_step [OF r0 this]
  have "wa_step cfg
      (wa_run 0 WaStarted None False True False WaInline WaEnter WaIdle [] None False)
      (wa_run 1 WaStarted None False True False WaInline WaCas WaIdle [] None True)"
    using by_callback [OF enter [of "wa_run 0 WaStarted None False True False WaInline WaEnter WaIdle [] None False" cfg]] by (simp add: *)
  note r2 = reach_step [OF r1 this]
  have "wa_step cfg
      (wa_run 1 WaStarted None False True False WaInline WaCas WaIdle [] None True)
      (wa_run 1 WaStopped None False True False WaInline (WaStop None) WaIdle [] None True)"
    using by_shared [OF cas [of "wa_run 1 WaStarted None False True False WaInline WaCas WaIdle [] None True" Callback cfg]] by (simp add: *)
  note r3 = reach_step [OF r2 this]
  have "wa_step cfg
      (wa_run 1 WaStopped None False True False WaInline (WaStop None) WaIdle [] None True)
      (wa_run 1 WaStopped None True True False WaInline WaArrive WaIdle [] None True)"
    using by_shared [OF request_stop [of "wa_run 1 WaStopped None False True False WaInline (WaStop None) WaIdle [] None True" Callback None cfg]] by (simp add: *)
  note r4 = reach_step [OF r3 this]
  have "wa_step cfg
      (wa_run 1 WaStopped None True True False WaInline WaArrive WaIdle [] None True)
      (wa_run 0 WaStopped None True True False WaInline WaReset WaIdle [] None True)"
    using by_shared [OF arrive [of "wa_run 1 WaStopped None True True False WaInline WaArrive WaIdle [] None True" Callback cfg]] by (simp add: *)
  note r5 = reach_step [OF r4 this]
  have "wa_step cfg
      (wa_run 0 WaStopped None True True False WaInline WaReset WaIdle [] None True)
      (wa_run 0 WaStopped None True True False WaInline WaDeliver WaIdle [] None True)"
    using by_shared [OF reset [of "wa_run 0 WaStopped None True True False WaInline WaReset WaIdle [] None True" Callback cfg]] by (simp add: *)
  note r6 = reach_step [OF r5 this]
  have "wa_step cfg
      (wa_run 0 WaStopped None True True False WaInline WaDeliver WaIdle [] None True)
      (wa_run 0 WaStopped None True True False WaInline WaGone WaIdle [SetValue []] None True)"
    using by_shared [OF deliver [of "wa_run 0 WaStopped None True True False WaInline WaDeliver WaIdle [] None True" Callback cfg "[SetValue []]"]] by (simp add: *)
  note r7 = reach_step [OF r6 this]
  have "wa_step cfg
      (wa_run 0 WaStopped None True True False WaInline WaGone WaIdle [SetValue []] None True)
      (wa_run 0 WaStopped None True True False (WaStarting 0) WaGone WaIdle [SetValue []] None True)"
    using by_start [OF inline_done [of "wa_run 0 WaStopped None True True False WaInline WaGone WaIdle [SetValue []] None True" cfg]] by (simp add: *)
  note r8 = reach_step [OF r7 this]
  have "wa_step cfg
      (wa_run 0 WaStopped None True True False (WaStarting 0) WaGone WaIdle [SetValue []] None True)
      (wa_run 0 WaStopped None True True False WaReset WaGone WaIdle [SetValue []] None True)"
    using by_start [OF start_none [of "wa_run 0 WaStopped None True True False (WaStarting 0) WaGone WaIdle [SetValue []] None True" 0 cfg]] by (simp add: *)
  note r9 = reach_step [OF r8 this]
  have "wa_step cfg
      (wa_run 0 WaStopped None True True False WaReset WaGone WaIdle [SetValue []] None True)
      (wa_run 0 WaStopped None True True False WaDeliver WaGone WaIdle [SetValue []] None True)"
    using by_shared [OF reset [of "wa_run 0 WaStopped None True True False WaReset WaGone WaIdle [SetValue []] None True" Starter cfg]] by (simp add: *)
  note r10 = reach_step [OF r9 this]
  have "wa_step cfg
      (wa_run 0 WaStopped None True True False WaDeliver WaGone WaIdle [SetValue []] None True)
      (wa_run 0 WaStopped None True True False WaGone WaGone WaIdle [SetValue [], SetValue []] None True)"
    using by_shared [OF deliver [of "wa_run 0 WaStopped None True True False WaDeliver WaGone WaIdle [SetValue []] None True" Starter cfg "[SetValue []]"]] by (simp add: *)
  note r11 = reach_step [OF r10 this]
  from r11 show ?thesis .
qed


section \<open>Progress\<close>

definition wa_moves :: "wa_cfg \<Rightarrow> when_all_op \<Rightarrow> bool" where
  "wa_moves cfg s \<longleftrightarrow> (\<exists>s'. wa_step cfg s s' \<and> wa_pc s' \<noteq> wa_pc s)"

lemma wa_movesI: "wa_step cfg s s' \<Longrightarrow> wa_pc s' t \<noteq> wa_pc s t \<Longrightarrow> wa_moves cfg s"
  unfolding wa_moves_def by (intro exI [of _ s']) auto

lemma wa_child_moves:
  assumes "wa_pc s (Child i) \<in> range WaValue \<union> range WaExchange \<union> range WaStore"
  shows "wa_moves cfg s"
proof -
  consider xs where "wa_pc s (Child i) = WaValue xs" | x where "wa_pc s (Child i) = WaExchange x"
    | x where "wa_pc s (Child i) = WaStore x" using assms by auto
  then show ?thesis
  proof cases
    case (1 xs)
    show ?thesis
    proof (cases "wa_has_values cfg")
      case True
      show ?thesis
      proof (cases "wa_try_copy (wa_univ cfg) xs")
        case None
        then show ?thesis using wa_movesI [where t = "Child i", OF by_child [OF store_values [OF 1 True None]]] 1
          by (simp add: wa_goto_def)
      next
        case (Some e)
        then show ?thesis using wa_movesI [where t = "Child i", OF by_child [OF values_throw [OF 1 True Some]]] 1
          by (simp add: wa_goto_def)
      qed
    next
      case False
      then show ?thesis using wa_movesI [where t = "Child i", OF by_child [OF ignore_values [OF 1 False]]] 1
        by (simp add: wa_goto_def)
    qed
  next
    case (2 x)
    show ?thesis using wa_movesI [where t = "Child i", OF by_child [OF exchange [OF 2]]] 2
      by (simp add: wa_goto_def split: wa_state.splits)
  next
    case (3 x)
    show ?thesis using wa_movesI [where t = "Child i", OF by_child [OF store_error [OF 3]]] 3
      by (simp add: wa_goto_def)
  qed
qed

lemma wa_shared_moves:
  assumes "wa_pc s t = WaCas \<or> wa_pc s t = WaArrive \<or> wa_stopping (wa_pc s t) \<or> wa_pc s t = WaDeliver \<or>
    wa_pc s t = WaReset \<and> (t = Callback \<or> wa_pc s Callback \<in> {WaIdle, WaGone})"
  shows "wa_moves cfg s"
proof -
  have "\<exists>s'. wa_shared_step cfg t s s' \<and> wa_pc s' t \<noteq> wa_pc s t"
  proof (cases "wa_pc s t")
    case (WaStop x)
    then have "wa_shared_step cfg t s
        (wa_goto t (case x of None \<Rightarrow> WaArrive | Some y \<Rightarrow> WaStore y) (s\<lparr>wa_inner_stop := True\<rparr>))"
      by (rule request_stop)
    with WaStop show ?thesis
      by (intro exI conjI) (auto simp: wa_goto_def split: option.splits)
  next
    case WaCas
    from cas [OF this, of cfg] WaCas show ?thesis
      by (intro exI conjI) (auto simp: wa_goto_def split: if_splits)
  next
    case WaArrive
    from arrive [OF this, of cfg] WaArrive show ?thesis
      by (intro exI conjI) (auto simp: wa_goto_def split: if_splits)
  next
    case WaReset
    from reset [OF this, of cfg] WaReset assms show ?thesis by (intro exI conjI) (auto simp: wa_goto_def)
  next
    case WaDeliver
    show ?thesis
    proof (cases "wa_result cfg s")
      case None
      from deliver_fails [OF WaDeliver this] WaDeliver show ?thesis
        by (intro exI conjI) (auto simp: wa_goto_def)
    next
      case (Some cs)
      from deliver [OF WaDeliver this] WaDeliver show ?thesis
        by (intro exI conjI) (auto simp: wa_goto_def)
    qed
  qed (use assms in auto)
  then obtain s' where "wa_shared_step cfg t s s'" "wa_pc s' t \<noteq> wa_pc s t" by blast
  then show ?thesis by (intro wa_movesI [OF by_shared])
qed

lemma wa_active_moves:
  assumes "wa_inv_local cfg s" and "wa_active (wa_pc s t)" and "wa_pc s t \<noteq> WaRunning"
  shows "wa_moves cfg s"
proof (cases "wa_pc s t = WaCas \<or> wa_pc s t = WaArrive \<or> wa_stopping (wa_pc s t)")
  case True
  then show ?thesis by (intro wa_shared_moves [of s t]) auto
next
  case False
  have "wa_pc s t \<in> range WaValue \<union> range WaExchange \<union> range WaStore"
    using assms(2,3) False by (cases "wa_pc s t") auto
  moreover from this wa_inv_thread_local [OF assms(1), of t] obtain i where "t = Child i"
    by (cases t) (auto split: if_splits)
  ultimately show ?thesis by (auto intro: wa_child_moves)
qed

lemma wa_callback_moves:
  assumes "wa_inv_local cfg s" and "wa_pc s Callback \<noteq> WaIdle" and "wa_pc s Callback \<noteq> WaGone"
    and "\<not> wa_finishing (wa_pc s Callback)"
  shows "wa_moves cfg s"
proof (cases "wa_pc s Callback = WaEnter")
  case True
  from wa_movesI [where t = Callback, OF by_callback [OF enter [OF this]]] True show ?thesis
    by (simp add: wa_goto_def)
next
  case False
  have "wa_active (wa_pc s Callback)" "wa_pc s Callback \<noteq> WaRunning"
    using assms False wa_inv_thread_local [OF assms(1), of Callback] by (cases "wa_pc s Callback"; auto)+
  with assms(1) show ?thesis by (rule wa_active_moves)
qed

lemma wa_starter_moves:
  assumes "wa_inv_local cfg s" and "wa_callback_used s" and "wa_unstarted (wa_pc s Starter) (wa_n cfg)"
    and "\<not> wa_finishing (wa_pc s Callback)"
  shows "wa_moves cfg s"
proof (cases "wa_pc s Starter")
  case WaIdle
  show ?thesis
  proof (cases "wa_outer_stop s")
    case True
    with WaIdle show ?thesis
      using wa_movesI [where t = Starter, OF by_start [OF fire_inline]] by (simp add: wa_goto_def)
  next
    case False
    with WaIdle show ?thesis
      using wa_movesI [where t = Starter, OF by_start [OF register]] by (simp add: wa_goto_def)
  qed
next
  case WaInline
  show ?thesis
  proof (cases "wa_pc s Callback = WaGone")
    case True
    with WaInline show ?thesis
      using wa_movesI [where t = Starter, OF by_start [OF inline_done]] by (simp add: wa_goto_def)
  next
    case False
    moreover have "wa_pc s Callback \<noteq> WaIdle" using assms(2) WaInline by (simp add: wa_callback_used_def)
    ultimately show ?thesis using assms(1,4) by (intro wa_callback_moves)
  qed
next
  case (WaStarting i)
  show ?thesis
  proof (cases "i < wa_n cfg")
    case True
    with WaStarting show ?thesis
      using wa_movesI [where t = Starter, OF by_start [OF start_child]] by (simp add: wa_goto_def)
  next
    case False
    then have "wa_n cfg = 0" using assms(1) WaStarting by (auto simp: wa_inv_local_def)
    with WaStarting show ?thesis
      using wa_movesI [where t = Starter, OF by_start [OF start_none]] by (simp add: wa_goto_def)
  qed
qed (use assms(3) in auto)

section \<open>The declared signatures\<close>

lemma wa_signatures_mem:
  assumes "wa_signatures cfg = Some cs" and "i < wa_n cfg"
  shows "sg \<in> set (wa_sigs cfg i) \<Longrightarrow> sig_tag sg \<noteq> ValueTag \<Longrightarrow> sg \<in> set cs"
    and "\<not> nothrow_copy_results (wa_univ cfg) (wa_sigs cfg i) \<Longrightarrow> eptr_sig \<in> set cs"
proof -
  from assms(1) obtain css where css: "those (map (\<lambda>i. wa_child_sigs (wa_sigs cfg i)) [0..<wa_n cfg]) = Some css"
    and cs: "cs = concat_signatures
           ([eptr_unless (list_all (\<lambda>i. nothrow_copy_results (wa_univ cfg) (wa_sigs cfg i)) [0..<wa_n cfg]),
             wa_set_values_sig cfg] @ css)"
    by (auto simp: wa_signatures_def split: if_splits)
  from css have m: "map (\<lambda>i. wa_child_sigs (wa_sigs cfg i)) [0..<wa_n cfg] = map Some css"
    by (simp add: those_Some)
  have "wa_child_sigs (wa_sigs cfg i) \<in> set (map (\<lambda>i. wa_child_sigs (wa_sigs cfg i)) [0..<wa_n cfg])"
    using assms(2) by simp
  then obtain ds where ds: "ds \<in> set css" "wa_child_sigs (wa_sigs cfg i) = Some ds" unfolding m by auto
  show "sg \<in> set cs" if "sg \<in> set (wa_sigs cfg i)" "sig_tag sg \<noteq> ValueTag"
  proof -
    from ds(2) [unfolded wa_child_sigs_def] that(1) obtain l
      where l: "transform_one ignore_value keep_error keep_stopped sg = Some l" "set l \<subseteq> set ds"
      by (rule transform_signatures_mem)
    from l(1) that(2) have "sg \<in> set l" by (cases sg) (auto simp: keep_error_def keep_stopped_def)
    with l(2) ds(1) show ?thesis by (auto simp: cs)
  qed
  show "eptr_sig \<in> set cs" if "\<not> nothrow_copy_results (wa_univ cfg) (wa_sigs cfg i)"
  proof -
    have "\<not> list_all (\<lambda>i. nothrow_copy_results (wa_univ cfg) (wa_sigs cfg i)) [0..<wa_n cfg]"
      using that assms(2) by (auto simp: list_all_iff)
    then show ?thesis by (simp add: cs eptr_unless_def)
  qed
qed

lemma wa_value_signature:
  assumes "wa_cfg_ok cfg" and "wa_inv_local cfg s" and "wa_outcome cfg s (SetValue vs)"
  shows "wa_set_values_sig cfg = [SigValue (map ty_of vs)]"
proof -
  from assms(3) obtain xss where x: "length xss = wa_n cfg" "vs = concat xss"
    "\<And>i. i < wa_n cfg \<Longrightarrow> wa_chosen s i = Some (SetValue (xss ! i))" by auto
  have v: "value_sigs (wa_sigs cfg i) = [map ty_of (xss ! i)]" if "i < wa_n cfg" for i
  proof -
    have "SigValue (map ty_of (xss ! i)) \<in> set (wa_sigs cfg i)"
      using x(3) [OF that] assms(2) by (metis sig_of.simps(1) wa_inv_local_def)
    then have "map ty_of (xss ! i) \<in> set (value_sigs (wa_sigs cfg i))" by (simp add: value_sigs_mem)
    moreover have "length (value_sigs (wa_sigs cfg i)) \<le> 1"
      using assms(1) that by (auto simp: wa_cfg_ok_def wa_max1_def list_all_iff)
    ultimately show ?thesis by (cases "value_sigs (wa_sigs cfg i)") auto
  qed
  then have "wa_has_values cfg" by (simp add: wa_has_values_def list_all_iff)
  moreover have "map (\<lambda>i. hd (value_sigs (wa_sigs cfg i))) [0..<wa_n cfg] = map (map ty_of) xss"
    using v x(1) by (intro nth_equalityI) simp_all
  ultimately show ?thesis by (simp add: wa_set_values_sig_def x(2) map_concat)
qed

lemma wa_error_signature:
  assumes "wa_signatures cfg = Some cs" and "i < wa_n cfg" and "sig_of c \<in> set (wa_sigs cfg i)"
    and "wa_raised cfg (Some c) y"
  shows "SigError (ty_of (wa_stored (wa_univ cfg) y)) \<in> set cs"
proof -
  have ex: "SigError TExn \<in> set cs" if "\<not> nothrow_copy_args (wa_univ cfg) (sig_args (sig_of c))"
  proof -
    have "\<not> nothrow_copy_results (wa_univ cfg) (wa_sigs cfg i)"
      using that assms(3) unfolding nothrow_copy_results_def list_all_iff by blast
    from wa_signatures_mem(2) [OF assms(1,2) this] show ?thesis by (simp add: eptr_sig_def)
  qed
  show ?thesis
  proof (cases c)
    case (SetValue xs)
    with assms(4) obtain e where e: "wa_try_copy (wa_univ cfg) xs = Some e" "y = Exn e" by auto
    then have "SigError TExn \<in> set cs" using SetValue by (intro ex) (auto simp: wa_try_copy_def split: if_splits)
    then show ?thesis using e by (simp add: wa_stored_def split: option.split)
  next
    case (SetError x)
    with assms(4) have y: "y = x" by simp
    show ?thesis
    proof (cases "wa_try_copy (wa_univ cfg) [x]")
      case None
      then show ?thesis using wa_signatures_mem(1) [OF assms(1-3)] SetError y by (simp add: wa_stored_def)
    next
      case (Some e)
      then have "SigError TExn \<in> set cs" using SetError by (intro ex) (auto simp: wa_try_copy_def split: if_splits)
      then show ?thesis using Some y by (simp add: wa_stored_def)
    qed
  qed (use assms(4) in simp)
qed

lemma wa_outcome_type:
  assumes "wa_cfg_ok cfg" and "wa_signatures cfg = Some cs" and "wa_inv_local cfg s" and "wa_outcome cfg s c"
    and "\<forall>i < wa_n cfg. SigStopped \<in> set (wa_sigs_outer cfg i) \<longrightarrow> SigStopped \<in> set (wa_sigs cfg i)"
  shows "sig_of c \<in> set cs"
proof (cases c)
  case (SetValue vs)
  with assms have "wa_set_values_sig cfg = [sig_of c]" by (simp add: wa_value_signature)
  with assms(2) show ?thesis by (auto simp: wa_signatures_def split: if_splits)
next
  case (SetError x)
  with assms(4) obtain i y where i: "i < wa_n cfg" "wa_raised cfg (wa_chosen s i) y"
    "x = wa_stored (wa_univ cfg) y" by auto
  then obtain d where d: "wa_chosen s i = Some d" by (cases "wa_chosen s i") auto
  with assms(3) have "sig_of d \<in> set (wa_sigs cfg i)" by (simp add: wa_inv_local_def)
  from wa_error_signature [OF assms(2) i(1) this] i d SetError show ?thesis by simp
next
  case SetStopped
  with assms(4) obtain i where "i < wa_n cfg" "SigStopped \<in> set (wa_sigs_outer cfg i)"
    by (auto simp: wa_sends_stopped_iff)
  with assms(5) have i: "i < wa_n cfg" "SigStopped \<in> set (wa_sigs cfg i)" by auto
  with wa_signatures_mem(1) [OF assms(2)] SetStopped show ?thesis by fastforce
qed

section \<open>Properties\<close>

text \<open>
  Claim C23.  However the starter, the children and the stop callback interleave, and as long as
  the callback does not begin after the counter has reached zero: \<^verbatim>\<open>when_all\<close> completes its
  receiver at most once, and when it has done so every child has completed, no thread of the
  operation will touch its state again, and the callback has run to its end or can no longer run.
\<close>

theorem wa_completes_once:
  assumes "reach (wa_init cfg) (wa_step cfg) s" and "\<not> wa_late s"
  shows "length (wa_done s) \<le> 1 \<and>
    (wa_done s \<noteq> [] \<longrightarrow>
       (\<forall>i < wa_n cfg. wa_chosen s i \<noteq> None \<and> wa_pc s (Child i) = WaGone) \<and>
       wa_pc s Starter = WaGone \<and> wa_pc s Callback \<in> {WaIdle, WaGone} \<and> \<not> wa_registered s)"
proof -
  from wa.reach_inv [OF assms(1)] assms(2)
  have i: "wa_inv_local cfg s" "wa_inv_count cfg s" by (auto simp: wa_inv_def)
  have "(\<forall>i < wa_n cfg. wa_chosen s i \<noteq> None \<and> wa_pc s (Child i) = WaGone) \<and>
       wa_pc s Starter = WaGone \<and> wa_pc s Callback \<in> {WaIdle, WaGone} \<and> \<not> wa_registered s"
    if d: "wa_done s \<noteq> []"
  proof -
    have a: "wa_all_arrived cfg s"
      using wa_finished_arrived [OF i(2)] d by (simp add: wa_finished_def)
    have nf: "\<not> wa_finishing (wa_pc s t)" for t using i(2) d by (simp add: wa_inv_count_def)
    have na: "\<not> wa_active (wa_pc s t)" for t using i(1) a by (rule wa_arrived_idle)
    have "wa_chosen s j \<noteq> None \<and> wa_pc s (Child j) = WaGone" if "j < wa_n cfg" for j
      using wa_arrived_child [OF i(1) a that] nf [of "Child j"] by (cases "wa_chosen s j") auto
    moreover have "wa_pc s Starter = WaGone"
      using i(1) a nf [of Starter] na [of Starter]
      by (cases "wa_pc s Starter") (auto simp: wa_inv_local_def wa_all_arrived_def split: if_splits)
    moreover have "\<not> wa_registered s" "wa_pc s Callback \<noteq> WaEnter"
      using i(2) d by (auto simp: wa_inv_count_def)
    moreover from this have "wa_pc s Callback \<in> {WaIdle, WaGone}"
      using i(1) nf [of Callback] na [of Callback]
      by (cases "wa_pc s Callback") (auto simp: wa_inv_local_def)
    ultimately show ?thesis by blast
  qed
  then show ?thesis using i(2) by (simp add: wa_inv_count_def)
qed

theorem wa_completes_once_witness:
  "\<exists>s :: when_all_op. wa_done s = [SetValue [Obj 0 7]] \<and> length (wa_done s) \<le> 1 \<and> wa_pc s Starter = WaGone"
proof -
  from wa_completes_once [OF wa_run_normal] show ?thesis
    by (intro exI [of _ "wa_run 0 WaStarted (Some [Obj 0 7]) False False False WaGone WaIdle WaGone
      [SetValue [Obj 0 7]] (Some (SetValue [Obj 0 7])) False"]) simp
qed

text \<open>
  A child that is entitled to complete as stopped in the environment of \<^verbatim>\<open>when_all\<close>, whose token
  can be stopped, but not in that of the receiver, whose token cannot.
\<close>

definition wa_moody :: wa_cfg where
  "wa_moody = \<lparr>wa_n = 1, wa_univ = wa_universe, wa_sigs = (\<lambda>i. [SigValue [], SigStopped]),
     wa_sigs_outer = (\<lambda>i. [SigValue []]), wa_outer_stoppable = False\<rparr>"

lemma wa_moody_run: "\<exists>s. reach (wa_init wa_moody) (wa_step wa_moody) s \<and> \<not> wa_late s \<and> wa_pc s (Child 0) = WaFailed"
proof -
  define s0 where "s0 = wa_run 1 WaStarted None False False False WaIdle WaIdle WaIdle [] None False"
  define s1 where "s1 = wa_goto Starter (WaStarting 0) (s0\<lparr>wa_registered := True\<rparr>)"
  define s2 where "s2 = wa_goto Starter (if Suc 0 = wa_n wa_moody then WaGone else WaStarting (Suc 0)) (wa_goto (Child 0) WaRunning s1)"
  define s3 where "s3 = wa_goto (Child 0) (wa_completion_pc SetStopped) (s2\<lparr>wa_chosen := (wa_chosen s2)(0 := Some SetStopped),
      wa_undeclared := (wa_undeclared s2 \<or> wa_unasked_stop wa_moody (wa_inner_stop s2) SetStopped)\<rparr>)"
  define s4 where "s4 = wa_goto (Child 0) (WaStop None) (s3\<lparr>wa_state := WaStopped\<rparr>)"
  define s5 where "s5 = wa_goto (Child 0) WaArrive (s4\<lparr>wa_inner_stop := True\<rparr>)"
  define s6 where "s6 = wa_goto (Child 0) WaReset (s5\<lparr>wa_count := 0\<rparr>)"
  define s7 where "s7 = wa_goto (Child 0) WaDeliver (s6\<lparr>wa_registered := False\<rparr>)"
  define s8 where "s8 = wa_goto (Child 0) WaFailed s7"
  note d = wa_goto_def s1_def s2_def s3_def s4_def s5_def s6_def s7_def
  have pc: "wa_pc s0 = (\<lambda>t. WaIdle)" "wa_count s0 = 1" "wa_state s0 = WaStarted" "\<not> wa_outer_stop s0" "\<not> wa_late s0"
    "wa_values s0 0 = None" by (simp_all add: s0_def) (simp add: wa_run_def fun_eq_iff)
  have "reach (wa_init wa_moody) (wa_step wa_moody) s0"
    by (rule reach_init) (simp add: s0_def wa_init_def wa_run_def wa_moody_def)
  note r0 = this
  have "wa_step wa_moody s0 s1" unfolding s1_def by (rule by_start, rule register) (simp_all add: pc)
  note r1 = reach_step [OF r0 this]
  have "wa_step wa_moody s1 s2" unfolding s2_def by (rule by_start, rule start_child) (simp_all add: s1_def wa_goto_def wa_moody_def)
  note r2 = reach_step [OF r1 this]
  have "wa_step wa_moody s2 s3" unfolding s3_def
    by (rule by_child, rule completes) (simp_all add: s2_def wa_goto_def wa_moody_def)
  note r3 = reach_step [OF r2 this]
  have "wa_step wa_moody s3 s4" using by_shared [OF cas [of s3 "Child 0" wa_moody]]
    by (simp add: s4_def) (simp add: d pc)
  note r4 = reach_step [OF r3 this]
  have "wa_step wa_moody s4 s5" using by_shared [OF request_stop [of s4 "Child 0" None wa_moody]]
    by (simp add: s5_def) (simp add: d)
  note r5 = reach_step [OF r4 this]
  have "wa_step wa_moody s5 s6" using by_shared [OF arrive [of s5 "Child 0" wa_moody]]
    by (simp add: s6_def) (simp add: d pc)
  note r6 = reach_step [OF r5 this]
  have "wa_step wa_moody s6 s7" unfolding s7_def by (rule by_shared, rule reset) (simp_all add: d pc)
  note r7 = reach_step [OF r6 this]
  have "wa_result wa_moody s7 = None"
    by (simp add: wa_result_def d) (simp add: wa_moody_def wa_sends_stopped_def sends_def wa_set_values_def wa_has_values_def pc)
  moreover have "wa_pc s7 (Child 0) = WaDeliver" by (simp add: s7_def wa_goto_def)
  ultimately have "wa_step wa_moody s7 s8" using by_shared [OF deliver_fails [of s7 "Child 0" wa_moody]] by (simp add: s8_def)
  note r8 = reach_step [OF r7 this]
  then show ?thesis by (intro exI [of _ s8] conjI) (simp_all add: s8_def, simp_all add: d pc)
qed

text \<open>
  Claim C24.  What \<^verbatim>\<open>when_all\<close> delivers, in a well-formed program, if the stop callback does not begin
  after the counter has reached zero and no child completes as stopped unasked: the values of all
  children, concatenated in order, if every child completed with values; an error (the first one,
  as stored) if some child completed with an error or its values could not be stored; otherwise
  stopped, and only because some child or the receiver was.  The other children have then been
  asked to stop.  No optional is dereferenced disengaged and no valueless variant visited.
  Unasked (\<open>wa_unasked_stop\<close>) means that no child declares stopped in the receiver's environment,
  where the code looks, and the receiver's token can be stopped or \<^verbatim>\<open>when_all\<close> has not asked
  the child to stop.  This condition is needed: a child that declares stopped in the environment it is
  connected in, and so completes, makes the code dereference the disengaged optional of its values.
\<close>

theorem wa_delivers_outcome:
  assumes "reach (wa_init cfg) (wa_step cfg) s" and "\<not> wa_late s" and "wa_cfg_ok cfg" and "\<not> wa_undeclared s"
  shows "(\<forall>c \<in> set (wa_done s). wa_outcome cfg s c) \<and> (\<forall>t. wa_pc s t \<noteq> WaFailed) \<and>
    (\<exists>cfg s. reach (wa_init cfg) (wa_step cfg) s \<and> \<not> wa_late s \<and> wa_cfg_ok cfg \<and> (\<exists>t. wa_pc s t = WaFailed))"
proof -
  have "wa_cfg_ok wa_moody" by (simp add: wa_cfg_ok_def universe_ok_def wa_universe_def wa_moody_def wa_max1_def)
  with wa_moody_run have "\<exists>cfg s. reach (wa_init cfg) (wa_step cfg) s \<and> \<not> wa_late s \<and> wa_cfg_ok cfg \<and> (\<exists>t. wa_pc s t = WaFailed)"
    by blast
  then show ?thesis using wa.reach_inv [OF assms(1)] assms(2-4) by (simp add: wa_inv_def wa_inv_done_def)
qed

theorem wa_delivers_outcome_witness:
  "\<exists>s :: when_all_op. SetValue [Obj 0 7] \<in> set (wa_done s) \<and> wa_outcome wa_one s (SetValue [Obj 0 7])"
proof -
  from wa_delivers_outcome [OF wa_run_normal _ wa_one_ok] show ?thesis
    by (intro exI [of _ "wa_run 0 WaStarted (Some [Obj 0 7]) False False False WaGone WaIdle WaGone
      [SetValue [Obj 0 7]] (Some (SetValue [Obj 0 7])) False"]) simp
qed

text \<open>
  The completion that \<^verbatim>\<open>when_all\<close> delivers is one of the completion signatures it
  declares: the concatenated value types, the errors of its children, \<^verbatim>\<open>exception_ptr\<close> only if
  storing a result may throw, stopped only if a child declares it (a child that declares it
  in the receiver's environment being assumed to do so in that of \<^verbatim>\<open>when_all\<close>).
\<close>

lemma wa_completion_type:
  assumes "reach (wa_init cfg) (wa_step cfg) s" and "\<not> wa_late s" and "wa_cfg_ok cfg"
    and "\<not> wa_undeclared s" and "wa_signatures cfg = Some cs" and "c \<in> set (wa_done s)"
    and "\<forall>i < wa_n cfg. SigStopped \<in> set (wa_sigs_outer cfg i) \<longrightarrow> SigStopped \<in> set (wa_sigs cfg i)"
  shows "sig_of c \<in> set cs"
proof -
  from wa.reach_inv [OF assms(1)] assms(2-4,6) have "wa_inv_local cfg s" "wa_outcome cfg s c"
    by (auto simp: wa_inv_def wa_inv_done_def)
  with assms(3,5) show ?thesis using assms(7) by (rule wa_outcome_type)
qed

text \<open>
  Claim C25.  \<^verbatim>\<open>when_all\<close> never hangs on its own in a well-formed program, if the stop callback has
  not begun after the counter had reached zero and no child has completed as stopped unasked
  (as in the claim before): until it has completed, some child is still running or some thread
  of the operation can take a step.
\<close>

theorem wa_no_deadlock:
  assumes "reach (wa_init cfg) (wa_step cfg) s" and "\<not> wa_late s" and "wa_cfg_ok cfg" and "\<not> wa_undeclared s"
    and "wa_done s = []"
  shows "(\<exists>i < wa_n cfg. wa_pc s (Child i) = WaRunning) \<or> (\<exists>s'. wa_step cfg s s' \<and> wa_pc s' \<noteq> wa_pc s)"
proof -
  from wa.reach_inv [OF assms(1)] assms(2-4)
  have i: "wa_inv_local cfg s" "wa_inv_count cfg s" "wa_inv_done cfg s" "wa_callback_used s"
    by (auto simp: wa_inv_def)
  have "wa_moves cfg s" if r: "\<forall>i < wa_n cfg. wa_pc s (Child i) \<noteq> WaRunning"
  proof (cases "wa_finished s")
    case True
    then obtain t where t: "wa_finishing (wa_pc s t)" using assms(5) by (auto simp: wa_finished_def)
    have only: "wa_finishing (wa_pc s u) \<Longrightarrow> u = t" for u using i(2) t by (auto simp: wa_inv_count_def)
    have "wa_pc s t \<noteq> WaFailed" using i(3) by (simp add: wa_inv_done_def)
    with t have pc: "wa_pc s t = WaReset \<or> wa_pc s t = WaDeliver" by (cases "wa_pc s t") auto
    show ?thesis
    proof (cases "t = Callback \<or> wa_pc s Callback \<in> {WaIdle, WaGone}")
      case True
      with pc show ?thesis by (intro wa_shared_moves [of s t]) blast
    next
      case False
      with only i(1) show ?thesis by (intro wa_callback_moves) auto
    qed
  next
    case False
    then have nf: "\<not> wa_finishing (wa_pc s t)" for t by (simp add: wa_not_finished)
    show ?thesis
    proof (cases "wa_unstarted (wa_pc s Starter) (wa_n cfg)")
      case True
      with i(1,4) show ?thesis by (rule wa_starter_moves) (rule nf)
    next
      case started: False
      with False i(3) obtain t where t: "t \<in> wa_threads (wa_n cfg)" "wa_holding t (wa_pc s t)"
        by (auto simp: wa_inv_done_def wa_all_arrived_def wa_holders_def)
      have "\<not> wa_unstarted (wa_pc s Starter) j" if "j < wa_n cfg" for j
        by (rule wa_starter_done_all [OF _ started that]) (use i(1) in \<open>simp add: wa_inv_local_def\<close>)
      then have "wa_pc s t \<noteq> WaIdle" using t i(1) by (cases t) (auto simp: wa_inv_local_def)
      then have a: "wa_active (wa_pc s t)" using t by (cases t) auto
      moreover have "wa_pc s t \<noteq> WaRunning"
        using r t wa_inv_thread_local [OF i(1), of t] by (cases t) (auto split: if_splits)
      ultimately show ?thesis using i(1) by (intro wa_active_moves)
    qed
  qed
  then show ?thesis by (auto simp: wa_moves_def)
qed

theorem wa_no_deadlock_witness:
  "\<exists>s'. wa_step wa_one (wa_run 1 WaStarted None False False False WaIdle WaIdle WaIdle [] None False) s'"
proof -
  have "reach (wa_init wa_one) (wa_step wa_one)
      (wa_run 1 WaStarted None False False False WaIdle WaIdle WaIdle [] None False)"
    by (rule reach_init) (simp add: wa_init_def wa_run_def wa_one_def)
  from wa_no_deadlock [OF this _ wa_one_ok] show ?thesis by (auto simp: wa_one_def)
qed

text \<open>A callback that begins when the counter is zero: up to its own arrival.\<close>

lemma wa_steps_inv: "(wa_step cfg)\<^sup>*\<^sup>* s s' \<Longrightarrow> wa_inv cfg s \<Longrightarrow> wa_inv cfg s'"
  by (induction rule: rtranclp_induct) (auto intro: wa_inv_step)

lemma wa_all_arrived_upd:
  assumes "wa_all_arrived cfg s" and "\<not> wa_holding t pc" and "\<not> wa_unstarted pc (wa_n cfg)"
    and "wa_pc s' = (wa_pc s)(t := pc)"
  shows "wa_all_arrived cfg s'"
  using assms by (auto simp: wa_all_arrived_def wa_holders_upd)

lemma wa_late_arrival:
  assumes "wa_pc s Callback = WaCas" and "wa_count s = 1"
  shows "\<exists>s'. (wa_step cfg)\<^sup>*\<^sup>* s s' \<and> wa_pc s' = (wa_pc s)(Callback := WaReset) \<and> wa_count s' = 0 \<and>
    wa_done s' = wa_done s \<and> wa_undeclared s' = wa_undeclared s"
proof -
  have arrive: "\<exists>s'. wa_step cfg u s' \<and> wa_pc s' = (wa_pc u)(Callback := WaReset) \<and> wa_count s' = 0 \<and>
      wa_done s' = wa_done u \<and> wa_undeclared s' = wa_undeclared u"
    if "wa_pc u Callback = WaArrive" "wa_count u = 1" for u
    using by_shared [OF arrive [OF that(1), of cfg]] that(2) by (fastforce simp: wa_goto_def)
  show ?thesis
  proof (cases "wa_state s = WaStarted")
    case True
    define u where "u = wa_goto Callback (WaStop None) (s\<lparr>wa_state := WaStopped\<rparr>)"
    define v where "v = wa_goto Callback WaArrive (u\<lparr>wa_inner_stop := True\<rparr>)"
    have "wa_step cfg s u" using by_shared [OF cas [OF assms(1), of cfg]] True by (simp add: u_def)
    moreover have "wa_step cfg u v" using by_shared [OF request_stop [of u Callback None cfg]]
      by (simp add: v_def) (simp add: u_def wa_goto_def)
    moreover obtain s' where "wa_step cfg v s'" "wa_pc s' = (wa_pc v)(Callback := WaReset)" "wa_count s' = 0"
      "wa_done s' = wa_done v" "wa_undeclared s' = wa_undeclared v"
      using arrive [of v] assms(2) by (auto simp: v_def u_def wa_goto_def)
    ultimately show ?thesis
      by (intro exI [of _ s'] conjI) (auto simp: v_def u_def wa_goto_def)
  next
    case False
    define u where "u = wa_goto Callback WaArrive s"
    have "wa_step cfg s u" using by_shared [OF cas [OF assms(1), of cfg]] False by (simp add: u_def)
    moreover obtain s' where "wa_step cfg u s'" "wa_pc s' = (wa_pc u)(Callback := WaReset)" "wa_count s' = 0"
      "wa_done s' = wa_done u" "wa_undeclared s' = wa_undeclared u"
      using arrive [of u] assms(2) by (auto simp: u_def wa_goto_def)
    ultimately show ?thesis
      by (intro exI [of _ s'] conjI) (auto simp: u_def wa_goto_def)
  qed
qed

text \<open>A thread that has entered \<^verbatim>\<open>__complete\<close> when everyone has arrived delivers a completion.\<close>

lemma wa_completes:
  assumes "wa_inv cfg s" and "wa_cfg_ok cfg" and "\<not> wa_undeclared s" and "wa_all_arrived cfg s"
    and "wa_pc s t = WaReset" and "t = Callback \<or> wa_pc s Callback \<in> {WaIdle, WaGone}"
  shows "\<exists>s' c. (wa_step cfg)\<^sup>*\<^sup>* s s' \<and> wa_pc s' = (wa_pc s)(t := WaGone) \<and> wa_done s' = wa_done s @ [c] \<and>
    wa_undeclared s' = wa_undeclared s"
proof -
  define u where "u = wa_goto t WaDeliver (s\<lparr>wa_registered := False\<rparr>)"
  have su: "wa_step cfg s u" using by_shared [OF reset [OF assms(5,6), of cfg]] by (simp add: u_def)
  then have "wa_inv cfg u" using assms(1) by (rule wa_inv_step [rotated])
  then have i: "wa_inv_local cfg u" "wa_inv_error cfg u" "wa_inv_stop u" "wa_inv_stopped cfg u"
    by (simp_all add: wa_inv_def)
  have "wa_all_arrived cfg u"
    using assms(4) by (rule wa_all_arrived_upd [where t = t and pc = WaDeliver]) (cases t; simp_all add: u_def wa_goto_def)+
  moreover have "\<not> wa_undeclared u" using assms(3) by (simp add: u_def wa_goto_def)
  ultimately obtain c where c: "wa_result cfg u = Some [c]" by (rule wa_result_correct [OF assms(2) i])
  have "wa_step cfg u (wa_goto t WaGone (u\<lparr>wa_done := wa_done u @ [c]\<rparr>))"
    by (rule by_shared, rule deliver) (simp_all add: c, simp add: u_def wa_goto_def)
  with su show ?thesis
    by (intro exI [of _ "wa_goto t WaGone (u\<lparr>wa_done := wa_done u @ [c]\<rparr>)"] exI [of _ c] conjI)
      (auto simp: u_def wa_goto_def)
qed

text \<open>
  Claim C26.  The stop callback can come too late: it raises the counter without looking at it.
  Take any state that has been reached, in a well-formed program, without that and without a child
  that completed as stopped unasked, in which the thread that took the counter to zero has not
  yet removed the callback and the receiver's token can be stopped: if the callback begins
  now, the counter goes from zero to one and back to zero, and the receiver can be completed twice.  With no
  children and a token that is already stopped that needs no concurrency: the callback runs
  inside \<^verbatim>\<open>__start\<close>, and both complete.
\<close>

theorem wa_late_callback_completes_twice:
  assumes "reach (wa_init cfg) (wa_step cfg) s" and "wa_cfg_ok cfg" and "\<not> wa_late s" and "\<not> wa_undeclared s"
    and "wa_outer_stoppable cfg"
  shows "(wa_registered s \<and> wa_pc s t = WaReset \<longrightarrow>
      wa_count s = 0 \<and> (\<exists>s'. (wa_step cfg)\<^sup>*\<^sup>* s s' \<and> length (wa_done s') = 2)) \<and>
    (wa_n cfg = 0 \<longrightarrow> (\<exists>s'. reach (wa_init cfg) (wa_step cfg) s' \<and> length (wa_done s') = 2))"
proof (intro conjI impI)
  assume "wa_n cfg = 0"
  from wa_run_empty [OF this assms(5)] show "\<exists>s'. reach (wa_init cfg) (wa_step cfg) s' \<and> length (wa_done s') = 2"
    by (auto intro!: exI)
next
  assume r: "wa_registered s \<and> wa_pc s t = WaReset"
  have inv: "wa_inv cfg s" by (rule wa.reach_inv [OF assms(1)])
  have f: "wa_finished s" using r by (auto simp: wa_finished_def intro: exI [of _ t])
  have cnt: "wa_inv_count cfg s" and cb: "wa_pc s Callback = WaIdle"
    using inv assms(3) r by (simp_all add: wa_inv_def wa_callback_used_def)
  have a: "wa_all_arrived cfg s" by (rule wa_finished_arrived [OF cnt f])
  show zero: "wa_count s = 0" using cnt f by (simp add: wa_inv_count_def)
  have d: "wa_done s = []" using cnt r unfolding wa_inv_count_def by (metis wa_finishing.simps(1))
  have t: "t \<noteq> Callback" using cb r by auto
  define s1 where "s1 = s\<lparr>wa_outer_stop := True\<rparr>"
  define s2 where "s2 = wa_goto Callback WaEnter (s1\<lparr>wa_registered := False\<rparr>)"
  define s3 where "s3 = wa_goto Callback WaCas (s2\<lparr>wa_count := Suc (wa_count s2), wa_late := (wa_late s2 \<or> wa_count s2 = 0)\<rparr>)"
  have "wa_step cfg s s1" unfolding s1_def by (rule by_callback, rule outer_request [OF assms(5)])
  moreover have "wa_step cfg s1 s2" unfolding s2_def by (rule by_callback, rule fire) (simp_all add: s1_def r cb)
  moreover have "wa_step cfg s2 s3" unfolding s3_def by (rule by_callback, rule enter) (simp add: s2_def wa_goto_def)
  ultimately have s3: "(wa_step cfg)\<^sup>*\<^sup>* s s3" by (meson converse_rtranclp_into_rtranclp rtranclp.rtrancl_refl)
  have p3: "wa_pc s3 = (wa_pc s)(Callback := WaCas)" "wa_count s3 = 1" "wa_done s3 = []" "wa_undeclared s3 = wa_undeclared s"
    by (simp_all add: s3_def s2_def s1_def wa_goto_def zero d)
  obtain s4 where s4: "(wa_step cfg)\<^sup>*\<^sup>* s3 s4" "wa_pc s4 = (wa_pc s)(Callback := WaReset)" "wa_done s4 = []"
    "\<not> wa_undeclared s4"
    using wa_late_arrival [of s3 cfg] p3 assms(4) by auto
  have a4: "wa_all_arrived cfg s4" using a by (rule wa_all_arrived_upd [OF _ _ _ s4(2)]) simp_all
  have i4: "wa_inv cfg s4" using wa_steps_inv [OF s4(1) wa_steps_inv [OF s3 inv]] .
  obtain s5 c where s5: "(wa_step cfg)\<^sup>*\<^sup>* s4 s5" "wa_pc s5 = (wa_pc s4)(Callback := WaGone)" "wa_done s5 = [c]"
    "\<not> wa_undeclared s5"
    using wa_completes [OF i4 assms(2) s4(4) a4, of Callback] s4 by auto
  have a5: "wa_all_arrived cfg s5" using a4 by (rule wa_all_arrived_upd [OF _ _ _ s5(2)]) simp_all
  have "wa_pc s5 t = WaReset" "wa_pc s5 Callback = WaGone" using s4(2) s5(2) r t by simp_all
  with wa_completes [OF wa_steps_inv [OF s5(1) i4] assms(2) s5(4) a5, of t]
  obtain s6 c' where "(wa_step cfg)\<^sup>*\<^sup>* s5 s6" "wa_done s6 = [c, c']" using s5(3) by auto
  with s3 s4(1) s5(1) show "\<exists>s'. (wa_step cfg)\<^sup>*\<^sup>* s s' \<and> length (wa_done s') = 2"
    by (intro exI [of _ s6]) auto
qed

theorem wa_late_callback_completes_twice_witness:
  "\<exists>s'. (wa_step wa_one)\<^sup>*\<^sup>* (wa_run 0 WaStarted (Some [Obj 0 7]) False False True WaGone WaIdle WaReset []
      (Some (SetValue [Obj 0 7])) False) s' \<and> length (wa_done s') = 2"
  using wa_late_callback_completes_twice [OF wa_run_arrived wa_one_ok, where t = "Child 0"] by (simp add: wa_one_simps)

end
