(* ===== verification/IntrusiveHeap.thy ===== *)
theory IntrusiveHeap
  imports Prelude "HOL-Library.Monad_Syntax"
begin

unbundle bit_operations_syntax

text \<open>
  The intrusive heap of \<^verbatim>\<open>include/exec/detail/intrusive_heap.hpp\<close>, the timer queue of the
  timed thread scheduler: a complete binary tree of nodes linked by their \<^verbatim>\<open>Left\<close>, \<^verbatim>\<open>Right\<close> and
  \<^verbatim>\<open>Prev\<close> members, ordered by their \<^verbatim>\<open>Key\<close> members.

  A pointer is an \<open>addr option\<close>, and every function runs in the option monad: binding a pointer
  is dereferencing it, so \<open>None\<close> is a null dereference, a failed assertion, or a loop that does
  not end.  A \<^verbatim>\<open>Node**\<close> is the slot it points to.  The abstraction numbers the places of the
  tree as in an array heap, \<open>1\<close> for the root and \<open>2 * i\<close>, \<open>2 * i + 1\<close> for the children of \<open>i\<close>;
  \<open>A\<close> gives the node at each place.  The bits of a place below its leading one are the path
  from the root that the code follows.
\<close>

section \<open>The heap and its operations\<close>

record iheap =
  ih_root :: "addr option"
  ih_size :: nat
  ih_left :: links
  ih_right :: links
  ih_prev :: links

datatype ih_slot = RootSlot | LeftSlot addr | RightSlot addr

fun ih_read :: "ih_slot \<Rightarrow> iheap \<Rightarrow> addr option" where
  "ih_read RootSlot h = ih_root h"
| "ih_read (LeftSlot a) h = ih_left h a"
| "ih_read (RightSlot a) h = ih_right h a"

definition ih_set_left :: "addr \<Rightarrow> addr option \<Rightarrow> iheap \<Rightarrow> iheap" where
  "ih_set_left a p h = h\<lparr>ih_left := (ih_left h)(a := p)\<rparr>"

definition ih_set_right :: "addr \<Rightarrow> addr option \<Rightarrow> iheap \<Rightarrow> iheap" where
  "ih_set_right a p h = h\<lparr>ih_right := (ih_right h)(a := p)\<rparr>"

definition ih_set_prev :: "addr \<Rightarrow> addr option \<Rightarrow> iheap \<Rightarrow> iheap" where
  "ih_set_prev a p h = h\<lparr>ih_prev := (ih_prev h)(a := p)\<rparr>"

fun ih_write :: "ih_slot \<Rightarrow> addr option \<Rightarrow> iheap \<Rightarrow> iheap" where
  "ih_write RootSlot p h = h\<lparr>ih_root := p\<rparr>"
| "ih_write (LeftSlot a) p h = ih_set_left a p h"
| "ih_write (RightSlot a) p h = ih_set_right a p h"

fun bit_ceil :: "nat \<Rightarrow> nat" where
  "bit_ceil n = (if n \<le> 1 then 1 else 2 * bit_ceil ((n + 1) div 2))"

declare bit_ceil.simps [simp del]

definition path_bit_mask :: "nat \<Rightarrow> nat" where
  "path_bit_mask n = bit_ceil (n + 1) div 4"

text \<open>
  \<open>insert\<close>: the inner loop, which replaces the nodes on the rest of the path one by one, and
  the outer loop that looks for the place of the new node on the path.
\<close>

fun ih_insert_shift :: "addr \<Rightarrow> addr option \<Rightarrow> nat \<Rightarrow> nat \<Rightarrow> iheap \<Rightarrow> iheap option" where
  "ih_insert_shift node cur path_mask path h =
     (if path_mask = 0 then
        (if ih_right h node = None then Some (ih_set_left node None h) else None)
      else do {
        c \<leftarrow> cur;
        if path_mask AND path \<noteq> 0 then do {
          let h1 = ih_set_right node (Some c) h;
          let h2 = ih_set_left node (ih_left h1 c) h1;
          l \<leftarrow> ih_left h2 c;
          let h3 = ih_set_prev l (Some node) h2;
          ih_insert_shift c (ih_right h3 c) (path_mask div 2) path h3
        } else do {
          let h1 = ih_set_right node (ih_right h c) h;
          let h2 = ih_set_left node (Some c) h1;
          let h3 = (case ih_right h2 c of None \<Rightarrow> h2 | Some r \<Rightarrow> ih_set_prev r (Some node) h2);
          ih_insert_shift c (ih_left h3 c) (path_mask div 2) path h3
        }
      })"

declare ih_insert_shift.simps [simp del]

fun ih_insert_loop ::
  "(addr \<Rightarrow> 'k::linorder) \<Rightarrow> addr \<Rightarrow> nat \<Rightarrow> nat \<Rightarrow> ih_slot \<Rightarrow> addr option \<Rightarrow> addr option \<Rightarrow> iheap \<Rightarrow>
   iheap option" where
  "ih_insert_loop key node path_mask path cur_ptr cur parent h =
     (if path_mask = 0 then
        Some (ih_set_left node None (ih_set_right node None (ih_set_prev node parent
          (ih_write cur_ptr (Some node) h))))
      else do {
        c \<leftarrow> cur;
        if key node < key c then do {
          let h1 = ih_set_prev c (Some node) (ih_set_prev node parent h);
          let h2 = ih_write cur_ptr (Some node) h1;
          ih_insert_shift node cur path_mask path h2
        } else do {
          let slot = (if path_mask AND path \<noteq> 0 then RightSlot c else LeftSlot c);
          ih_insert_loop key node (path_mask div 2) path slot (ih_read slot h) (Some c) h
        }
      })"

declare ih_insert_loop.simps [simp del]

definition ih_insert :: "(addr \<Rightarrow> 'k::linorder) \<Rightarrow> addr \<Rightarrow> iheap \<Rightarrow> iheap option" where
  "ih_insert key node h = do {
     let h1 = h\<lparr>ih_size := ih_size h + 1\<rparr>;
     ih_insert_loop key node (path_bit_mask (ih_size h1)) (ih_size h1) RootSlot (ih_root h1) None h1
   }"

definition ih_swap_with_right_child :: "addr \<Rightarrow> addr \<Rightarrow> iheap \<Rightarrow> iheap" where
  "ih_swap_with_right_child parent child h =
     (let h1 = ih_set_right parent (ih_right h child) h;
          h2 = ih_set_right child (Some parent) h1;
          t = ih_left h2 parent;
          h3 = ih_set_left parent (ih_left h2 child) h2
      in ih_set_left child t h3)"

definition ih_swap_with_left_child :: "addr \<Rightarrow> addr \<Rightarrow> iheap \<Rightarrow> iheap" where
  "ih_swap_with_left_child parent child h =
     (let t = ih_right h parent;
          h1 = ih_set_right parent (ih_right h child) h;
          h2 = ih_set_right child t h1;
          h3 = ih_set_left parent (ih_left h2 child) h2
      in ih_set_left child (Some parent) h3)"

text \<open>
  \<open>sift_up\<close>: the two pointers to \<^verbatim>\<open>Prev\<close> members are the nodes whose member they point to,
  \<open>None\<close> for the local sentinel.
\<close>

definition ih_write_prev :: "addr option \<Rightarrow> addr option \<Rightarrow> iheap \<Rightarrow> iheap" where
  "ih_write_prev child p h = (case child of None \<Rightarrow> h | Some a \<Rightarrow> ih_set_prev a p h)"

partial_function (option) ih_sift_up_loop ::
  "(addr \<Rightarrow> 'k::linorder) \<Rightarrow> addr \<Rightarrow> addr \<Rightarrow> addr option \<Rightarrow> addr option \<Rightarrow> addr option \<Rightarrow> iheap \<Rightarrow>
   iheap option" where
  "ih_sift_up_loop key cur parent grand_parent child0 child1 h = do {
     let h1 = ih_write_prev child0 (Some parent) h;
     let right = (ih_right h1 parent = Some cur);
     sibling \<leftarrow> (if right then ih_left h1 parent else ih_right h1 parent);
     let h2 = (if right then ih_swap_with_right_child parent cur h1 else ih_swap_with_left_child parent cur h1);
     g \<leftarrow> grand_parent;
     let h3 = (if ih_right h2 g = Some parent then ih_set_right g (Some cur) h2 else ih_set_left g (Some cur) h2);
     if key cur < key g then ih_sift_up_loop key cur g (ih_prev h3 g) (Some sibling) (Some parent) h3
     else Some (ih_set_prev cur (Some g) (ih_set_prev parent (Some cur) (ih_set_prev sibling (Some cur) h3)))
   }"

definition ih_sift_up :: "(addr \<Rightarrow> 'k::linorder) \<Rightarrow> addr \<Rightarrow> addr \<Rightarrow> iheap \<Rightarrow> iheap option" where
  "ih_sift_up key cur parent h = do {
     let child0 = ih_left h cur;
     let child1 = ih_right h cur;
     let h1 = ih_write_prev child1 (Some parent) h;
     ih_sift_up_loop key cur parent (ih_prev h1 parent) child0 child1 h1
   }"

partial_function (option) ih_sift_down ::
  "(addr \<Rightarrow> 'k::linorder) \<Rightarrow> addr \<Rightarrow> ih_slot \<Rightarrow> addr option \<Rightarrow> iheap \<Rightarrow> iheap option" where
  "ih_sift_down key cur cur_ptr parent h =
     (case ih_left h cur of
        None \<Rightarrow> Some (ih_set_prev cur parent h)
      | Some left \<Rightarrow>
          (case ih_right h cur of
             Some right \<Rightarrow>
               if key right < key left then
                 (if key right < key cur then do {
                    let h1 = ih_swap_with_right_child cur right h;
                    let h2 = ih_set_prev left (Some right) h1;
                    let h3 = ih_write cur_ptr (Some right) h2;
                    ih_sift_down key cur (RightSlot right) (Some right) h3
                  } else
                    Some (ih_set_prev cur parent (ih_set_prev left (Some cur) (ih_set_prev right (Some cur) h))))
               else
                 (if key left < key cur then do {
                    let h1 = ih_swap_with_left_child cur left h;
                    let h2 = ih_set_prev right (Some left) h1;
                    let h3 = ih_write cur_ptr (Some left) h2;
                    ih_sift_down key cur (LeftSlot left) (Some left) h3
                  } else
                    Some (ih_set_prev cur parent (ih_set_prev left (Some cur) (ih_set_prev right (Some cur) h))))
           | None \<Rightarrow>
               if key left < key cur then do {
                 let h1 = ih_swap_with_left_child cur left h;
                 let h2 = ih_write cur_ptr (Some left) h1;
                 ih_sift_down key cur (LeftSlot left) (Some left) h2
               } else Some (ih_set_prev cur parent (ih_set_prev left (Some cur) h))))"

fun ih_remove_last_leaf :: "ih_slot \<Rightarrow> addr option \<Rightarrow> nat \<Rightarrow> nat \<Rightarrow> iheap \<Rightarrow> (addr option \<times> iheap) option" where
  "ih_remove_last_leaf cur_ptr cur path_mask path h =
     (if path_mask = 0 then Some (cur, ih_write cur_ptr None h)
      else do {
        c \<leftarrow> cur;
        let slot = (if path_mask AND path \<noteq> 0 then RightSlot c else LeftSlot c);
        ih_remove_last_leaf slot (ih_read slot h) (path_mask div 2) path h
      })"

declare ih_remove_last_leaf.simps [simp del]
declare ih_sift_down.simps [code] ih_sift_up_loop.simps [code]

definition ih_pop_front :: "(addr \<Rightarrow> 'k::linorder) \<Rightarrow> iheap \<Rightarrow> iheap option" where
  "ih_pop_front key h =
     (if ih_size h \<le> 1 then Some (h\<lparr>ih_root := None, ih_size := 0\<rparr>)
      else do {
        _ \<leftarrow> ih_root h;
        (p, h1) \<leftarrow> ih_remove_last_leaf RootSlot (ih_root h) (path_bit_mask (ih_size h)) (ih_size h) h;
        cur \<leftarrow> p;
        top \<leftarrow> ih_root h1;
        let h2 = ih_set_left cur (ih_left h1 top) (ih_set_right cur (ih_right h1 top) h1);
        let h3 = h2\<lparr>ih_root := Some cur, ih_size := ih_size h2 - 1\<rparr>;
        h4 \<leftarrow> ih_sift_down key cur RootSlot None h3;
        r \<leftarrow> ih_root h4;
        Some (ih_set_prev r None h4)
      })"

definition ih_erase :: "(addr \<Rightarrow> 'k::linorder) \<Rightarrow> addr \<Rightarrow> iheap \<Rightarrow> (bool \<times> iheap) option" where
  "ih_erase key node h =
     (if ih_prev h node = None \<and> ih_root h \<noteq> Some node then Some (False, h)
      else do {
        _ \<leftarrow> (if ih_size h = 0 then None else ih_root h);
        (p, h0) \<leftarrow> ih_remove_last_leaf RootSlot (ih_root h) (path_bit_mask (ih_size h)) (ih_size h) h;
        cur \<leftarrow> p;
        let h1 = h0\<lparr>ih_size := ih_size h0 - 1\<rparr>;
        if cur = node then Some (True, ih_set_prev node None h1)
        else do {
          let h2 = ih_set_left cur (ih_left h1 node) (ih_set_right cur (ih_right h1 node) h1);
          let parent = ih_prev h2 node;
          let slot = (case parent of None \<Rightarrow> RootSlot
                      | Some q \<Rightarrow> if ih_right h2 q = Some node then RightSlot q else LeftSlot q);
          let h3 = ih_write slot (Some cur) h2;
          if (case parent of None \<Rightarrow> False | Some q \<Rightarrow> key cur < key q) then do {
            h4 \<leftarrow> ih_sift_up key cur (the parent) h3;
            Some (True, ih_set_prev node None h4)
          } else do {
            h4 \<leftarrow> ih_sift_down key cur slot parent h3;
            r \<leftarrow> ih_read slot h4;
            Some (True, ih_set_prev node None (ih_set_prev r parent h4))
          }
        }
      })"

section \<open>Places and paths\<close>

text \<open>The mask walks down the bits of a place: \<open>path div 2 ^ j\<close> is the place reached.\<close>

lemma bit_ceil_power: "2 ^ k < n \<Longrightarrow> n \<le> 2 ^ Suc k \<Longrightarrow> bit_ceil n = 2 ^ Suc k"
proof (induction k arbitrary: n)
  case 0
  then have "n = 2" by simp
  then show ?case by (simp add: bit_ceil.simps)
next
  case (Suc k)
  then have "2 ^ k < (n + 1) div 2" "(n + 1) div 2 \<le> 2 ^ Suc k" by simp_all
  from Suc.IH [OF this] Suc.prems show ?case by (subst bit_ceil.simps) simp
qed

lemma path_bit_mask_power: "2 ^ k \<le> n \<Longrightarrow> n < 2 ^ Suc k \<Longrightarrow> path_bit_mask n = 2 ^ k div 2"
  using bit_ceil_power [of k "n + 1"] by (cases k) (auto simp: path_bit_mask_def)

lemma place_bit: "(2::nat) ^ j AND path \<noteq> 0 \<longleftrightarrow> odd (path div 2 ^ j)"
  by (simp add: and_exp_eq_0_iff_not_bit and.commute [of "2 ^ j"] bit_iff_odd)

lemma place_half: "(path :: nat) div 2 ^ Suc j = path div 2 ^ j div 2"
  by (simp only: power_Suc2 div_mult2_eq)

lemma place_step:
  "odd ((path::nat) div 2 ^ j) \<Longrightarrow> path div 2 ^ j = Suc (2 * (path div 2 ^ Suc j))"
  "even (path div 2 ^ j) \<Longrightarrow> path div 2 ^ j = 2 * (path div 2 ^ Suc j)"
  by (simp_all only: place_half) auto

text \<open>At the start the path is at the root.\<close>

lemma path_start:
  assumes "1 \<le> n"
  obtains k where "path_bit_mask n = 2 ^ k div 2" and "n div 2 ^ k = 1"
proof -
  obtain k where k: "2 ^ k \<le> n" "n < 2 ^ Suc k" using assms ex_power_ivl1 [of 2 n] by auto
  then have "n div 2 ^ k = 1" by (simp add: div_nat_eqI)
  with k path_bit_mask_power [OF k] that show ?thesis by blast
qed

section \<open>The abstraction\<close>

definition ih_at :: "(nat \<Rightarrow> addr) \<Rightarrow> nat \<Rightarrow> nat \<Rightarrow> addr option" where
  "ih_at A n i = (if 1 \<le> i \<and> i \<le> n then Some (A i) else None)"

definition ih_kids :: "iheap \<Rightarrow> (nat \<Rightarrow> addr) \<Rightarrow> nat \<Rightarrow> nat set \<Rightarrow> bool" where
  "ih_kids h A n X \<longleftrightarrow> ih_root h = ih_at A n 1 \<and>
     (\<forall>i \<in> {1..n} - X. ih_left h (A i) = ih_at A n (2 * i) \<and> ih_right h (A i) = ih_at A n (Suc (2 * i)))"

definition ih_prevs :: "iheap \<Rightarrow> (nat \<Rightarrow> addr) \<Rightarrow> nat \<Rightarrow> nat set \<Rightarrow> bool" where
  "ih_prevs h A n X \<longleftrightarrow> (\<forall>i \<in> {1..n} - X. ih_prev h (A i) = ih_at A n (i div 2))"

definition ih_nodes :: "(nat \<Rightarrow> addr) \<Rightarrow> nat \<Rightarrow> addr set" where
  "ih_nodes A n = A ` {1..n}"

definition ih_outside :: "iheap \<Rightarrow> addr set \<Rightarrow> bool" where
  "ih_outside h S \<longleftrightarrow> (\<forall>a. a \<notin> S \<longrightarrow> ih_prev h a = None)"

definition ih_rep :: "iheap \<Rightarrow> (nat \<Rightarrow> addr) \<Rightarrow> nat \<Rightarrow> bool" where
  "ih_rep h A n \<longleftrightarrow> ih_size h = n \<and> inj_on A {1..n} \<and> ih_kids h A n {} \<and> ih_prevs h A n {} \<and>
     ih_outside h (ih_nodes A n)"

definition ih_ordered :: "(addr \<Rightarrow> 'k::linorder) \<Rightarrow> (nat \<Rightarrow> addr) \<Rightarrow> nat \<Rightarrow> bool" where
  "ih_ordered key A n \<longleftrightarrow> (\<forall>i \<in> {2..n}. key (A (i div 2)) \<le> key (A i))"

lemma ih_size_irrelevant [simp]:
  "ih_kids (h\<lparr>ih_size := m\<rparr>) A n X = ih_kids h A n X"
  "ih_prevs (h\<lparr>ih_size := m\<rparr>) A n X = ih_prevs h A n X"
  "ih_outside (h\<lparr>ih_size := m\<rparr>) S = ih_outside h S"
  by (simp_all add: ih_kids_def ih_prevs_def ih_outside_def)

lemma ih_size_commute [simp]:
  "ih_set_left a p (h\<lparr>ih_size := m\<rparr>) = (ih_set_left a p h)\<lparr>ih_size := m\<rparr>"
  "ih_set_right a p (h\<lparr>ih_size := m\<rparr>) = (ih_set_right a p h)\<lparr>ih_size := m\<rparr>"
  "ih_write sl p (h\<lparr>ih_size := m\<rparr>) = (ih_write sl p h)\<lparr>ih_size := m\<rparr>"
  by (cases sl; simp add: ih_set_left_def ih_set_right_def)+

lemma ih_at_some [simp]: "1 \<le> i \<Longrightarrow> i \<le> n \<Longrightarrow> ih_at A n i = Some (A i)"
  by (simp add: ih_at_def)

lemma ih_at_none [simp]: "ih_at A n 0 = None" "n < i \<Longrightarrow> ih_at A n i = None"
  by (simp_all add: ih_at_def)

lemma ih_at_eq_none: "ih_at A n i = None \<longleftrightarrow> i = 0 \<or> n < i"
  by (auto simp: ih_at_def)

lemma ih_at_mem: "ih_at A n i = Some a \<longleftrightarrow> 1 \<le> i \<and> i \<le> n \<and> a = A i"
  by (auto simp: ih_at_def)

text \<open>The slot that holds the pointer to a place.\<close>

definition ih_slot_of :: "(nat \<Rightarrow> addr) \<Rightarrow> nat \<Rightarrow> ih_slot" where
  "ih_slot_of A i = (if i \<le> 1 then RootSlot else if odd i then RightSlot (A (i div 2)) else LeftSlot (A (i div 2)))"

lemma ih_slot_child:
  "1 \<le> i \<Longrightarrow> ih_slot_of A (2 * i) = LeftSlot (A i)"
  "1 \<le> i \<Longrightarrow> ih_slot_of A (Suc (2 * i)) = RightSlot (A i)"
  by (auto simp: ih_slot_of_def)

lemma ih_read_slot:
  assumes "ih_kids h A n {}" and "1 \<le> i" and "i div 2 \<le> n"
  shows "ih_read (ih_slot_of A i) h = ih_at A n i"
proof (cases "i = 1")
  case False
  then have *: "i div 2 \<in> {1..n} - {}" using assms by auto
  show ?thesis
  proof (cases "odd i")
    case True
    then have "i = Suc (2 * (i div 2))" by simp
    with * True False assms show ?thesis by (metis ih_kids_def ih_read.simps(3) ih_slot_child(2) atLeastAtMost_iff Diff_iff)
  next
    case even: False
    then have "i = 2 * (i div 2)" by simp
    with * even False assms show ?thesis by (metis ih_kids_def ih_read.simps(2) ih_slot_child(1) atLeastAtMost_iff Diff_iff)
  qed
qed (use assms in \<open>simp add: ih_slot_of_def ih_kids_def\<close>)


lemma mask_step: "(2::nat) ^ Suc j div 2 = 2 ^ j" "((2::nat) ^ j = 0) = False"
  by simp_all

lemma ih_bind: "Option.bind (Some x) f = f x"
  by simp

lemma place_pos: "1 \<le> (n::nat) div 2 ^ Suc j \<Longrightarrow> 1 \<le> n div 2 ^ j"
  by (simp only: place_half)

lemma place_le: "(n::nat) div 2 ^ j \<le> n"
  by simp

lemma ih_slot_step:
  assumes "1 \<le> (n::nat) div 2 ^ Suc j"
  shows "(if (2::nat) ^ j AND n \<noteq> 0 then RightSlot (A (n div 2 ^ Suc j)) else LeftSlot (A (n div 2 ^ Suc j))) =
    ih_slot_of A (n div 2 ^ j)"
proof (cases "odd (n div 2 ^ j)")
  case True
  then have b: "((2::nat) ^ j AND n \<noteq> 0) = True" using place_bit [of j n] by blast
  show ?thesis unfolding b if_True using place_step(1) [OF True] ih_slot_child(2) [OF assms, of A] by metis
next
  case False
  then have b: "((2::nat) ^ j AND n \<noteq> 0) = False" using place_bit [of j n] by blast
  from False have "even (n div 2 ^ j)" by simp
  then show ?thesis unfolding b if_False
    using place_step(2) [of n j] ih_slot_child(1) [OF assms, of A] by metis
qed

lemma ih_remove_last_leaf_run:
  assumes "ih_kids h A n {}" and "1 \<le> n div 2 ^ j"
  shows "ih_remove_last_leaf (ih_slot_of A (n div 2 ^ j)) (ih_at A n (n div 2 ^ j)) (2 ^ j div 2) n h =
    Some (Some (A n), ih_write (ih_slot_of A n) None h)"
  using assms(2)
proof (induction j)
  case 0
  then show ?case by (simp add: ih_remove_last_leaf.simps)
next
  case (Suc j)
  let ?i = "n div 2 ^ Suc j" and ?k = "n div 2 ^ j"
  have i: "1 \<le> ?i" "?i \<le> n" using Suc.prems place_le by blast+
  have "?k div 2 \<le> n" by (metis div_le_dividend le_trans)
  moreover have k: "1 \<le> ?k" using Suc.prems by (rule place_pos)
  ultimately have r: "ih_read (ih_slot_of A ?k) h = ih_at A n ?k" using assms(1) by (intro ih_read_slot)
  show ?case
    by (subst ih_remove_last_leaf.simps)
       (simp only: mask_step ih_at_some [OF i] ih_bind Let_def ih_slot_step [OF Suc.prems] if_False r Suc.IH [OF k])
qed

lemma ih_remove_last_leaf_correct:
  assumes "ih_kids h A n {}" and "1 \<le> n"
  shows "ih_remove_last_leaf RootSlot (ih_root h) (path_bit_mask n) n h =
    Some (Some (A n), ih_write (ih_slot_of A n) None h)"
proof -
  obtain k where k: "path_bit_mask n = 2 ^ k div 2" "n div 2 ^ k = 1" using assms(2) by (rule path_start)
  have "ih_root h = ih_at A n 1" using assms(1) by (simp add: ih_kids_def)
  moreover have "ih_slot_of A 1 = RootSlot" by (simp add: ih_slot_of_def)
  ultimately show ?thesis using ih_remove_last_leaf_run [OF assms(1), of k] k by simp
qed

text \<open>Without its last place the heap is the array one shorter.\<close>

lemma ih_inj: "inj_on A {1..n} \<Longrightarrow> i \<in> {1..n} \<Longrightarrow> j \<in> {1..n} \<Longrightarrow> A i = A j \<longleftrightarrow> i = (j::nat)"
  by (auto dest: inj_onD)

lemma ih_at_shrink: "ih_at A (n - Suc 0) i = (if i = n then None else ih_at A n i)"
  by (auto simp: ih_at_def)

lemma ih_write_other [simp]:
  "ih_prev (ih_write sl p h) = ih_prev h" "ih_size (ih_write sl p h) = ih_size h"
  by (cases sl; simp add: ih_set_left_def ih_set_right_def)+

lemma ih_kids_remove_last:
  assumes "ih_kids h A n {}" and "inj_on A {1..n}" and "1 \<le> n"
  shows "ih_kids (ih_write (ih_slot_of A n) None h) A (n - 1) {}"
proof (cases "n = 1")
  case True
  then show ?thesis by (simp add: ih_kids_def ih_slot_of_def ih_at_def)
next
  case False
  let ?p = "n div 2"
  have p: "1 \<le> ?p" "?p < n" using False assms(3) by auto
  have e: "ih_left (ih_write (ih_slot_of A n) None h) (A i) = ih_at A (n - 1) (2 * i) \<and>
      ih_right (ih_write (ih_slot_of A n) None h) (A i) = ih_at A (n - 1) (Suc (2 * i))"
    if i: "i \<in> {1..n - 1}" for i
  proof -
    have eq: "A i = A ?p \<longleftrightarrow> i = ?p" using assms(2) i p by (intro ih_inj) auto
    have old: "ih_left h (A i) = ih_at A n (2 * i) \<and> ih_right h (A i) = ih_at A n (Suc (2 * i))"
      using assms(1) i by (auto simp: ih_kids_def)
    show ?thesis
    proof (cases "odd n")
      case True
      then have n: "n = Suc (2 * ?p)" by simp
      have l: "ih_left (ih_write (ih_slot_of A n) None h) (A i) = ih_left h (A i)"
        "ih_right (ih_write (ih_slot_of A n) None h) (A i) = (if i = ?p then None else ih_right h (A i))"
        using True False assms(3) eq by (auto simp: ih_slot_of_def ih_set_right_def)
      have "2 * i \<noteq> n" "Suc (2 * i) = n \<longleftrightarrow> i = ?p" using True n by presburger+
      then show ?thesis using old l n assms(3) by (auto simp: ih_at_shrink)
    next
      case False
      then have n: "n = 2 * ?p" by simp
      have l: "ih_right (ih_write (ih_slot_of A n) None h) (A i) = ih_right h (A i)"
        "ih_left (ih_write (ih_slot_of A n) None h) (A i) = (if i = ?p then None else ih_left h (A i))"
        using False \<open>n \<noteq> 1\<close> assms(3) eq by (auto simp: ih_slot_of_def ih_set_left_def)
      have "Suc (2 * i) \<noteq> n" "2 * i = n \<longleftrightarrow> i = ?p" using False n by presburger+
      then show ?thesis using old l n assms(3) by (auto simp: ih_at_shrink)
    qed
  qed
  have "ih_root (ih_write (ih_slot_of A n) None h) = ih_root h"
    using False assms(3) by (auto simp: ih_slot_of_def ih_set_left_def ih_set_right_def)
  then show ?thesis using e assms(1) False p by (auto simp: ih_kids_def ih_at_shrink)
qed


section \<open>Insertion\<close>

text \<open>
  Placing \<open>y\<close> at the place \<open>N div 2 ^ j\<close> of the path to \<open>N\<close>, and the nodes on the rest of the
  path one place further down.
\<close>

primrec ih_push :: "nat \<Rightarrow> nat \<Rightarrow> addr \<Rightarrow> (nat \<Rightarrow> addr) \<Rightarrow> nat \<Rightarrow> addr" where
  "ih_push N 0 y A = A(N := y)"
| "ih_push N (Suc j) y A = ih_push N j (A (N div 2 ^ Suc j)) (A(N div 2 ^ Suc j := y))"

lemma ih_push_eqs:
  "ih_push N 0 y A = A(N := y)"
  "ih_push N (Suc j) y A = ih_push N j (A (N div 2 ^ Suc j)) (A(N div 2 ^ Suc j := y))"
  by (rule ih_push.simps)+

declare ih_push.simps [simp del] ih_push_eqs [simp]

lemma ih_nodes_upd:
  assumes "inj_on A {1..n}" and "1 \<le> k" and "k \<le> n" and "y \<notin> ih_nodes A n"
  shows "inj_on (A(k := y)) {1..n}" "ih_nodes (A(k := y)) n = insert y (ih_nodes A n - {A k})"
    "A k \<notin> ih_nodes (A(k := y)) n"
proof -
  show inj: "inj_on (A(k := y)) {1..n}"
    using assms(1,4) by (intro inj_onI) (auto simp: ih_nodes_def image_iff dest: inj_onD split: if_splits)
  have e: "A i = A k \<longleftrightarrow> i = k" if "i \<in> {1..n}" for i using assms that by (intro ih_inj) auto
  have "(A(k := y)) ` {1..n} = insert y (A ` ({1..n} - {k}))" using assms(2,3) by auto
  also have "A ` ({1..n} - {k}) = A ` {1..n} - {A k}" using e by auto
  finally show n: "ih_nodes (A(k := y)) n = insert y (ih_nodes A n - {A k})" by (simp add: ih_nodes_def)
  have "A k \<in> ih_nodes A n" using assms(2,3) by (auto simp: ih_nodes_def)
  with assms(4) n show "A k \<notin> ih_nodes (A(k := y)) n" by auto
qed

lemma ih_nodes_Suc:
  "ih_nodes (A(Suc n := y)) (Suc n) = insert y (ih_nodes A n)"
  "inj_on A {1..n} \<Longrightarrow> y \<notin> ih_nodes A n \<Longrightarrow> inj_on (A(Suc n := y)) {1..Suc n}"
proof -
  have "{1..Suc n} = insert (Suc n) {1..n}" by auto
  then show "ih_nodes (A(Suc n := y)) (Suc n) = insert y (ih_nodes A n)" by (auto simp: ih_nodes_def)
  show "inj_on (A(Suc n := y)) {1..Suc n}" if "inj_on A {1..n}" "y \<notin> ih_nodes A n"
    using that by (intro inj_onI) (auto simp: ih_nodes_def image_iff le_Suc_eq dest: inj_onD split: if_splits)
qed

lemma path_inner: "1 \<le> j \<Longrightarrow> Suc n div 2 ^ j \<le> n"
proof (induction j)
  case (Suc j)
  have "Suc n div 2 ^ Suc j \<le> Suc n div 2" by (rule div_le_mono2) simp_all
  then show ?case by linarith
qed simp

lemma ih_push_nodes:
  assumes "inj_on A {1..n}" and "y \<notin> ih_nodes A n" and "1 \<le> Suc n div 2 ^ j"
  shows "ih_nodes (ih_push (Suc n) j y A) (Suc n) = insert y (ih_nodes A n)"
  using assms
proof (induction j arbitrary: y A)
  case 0
  show ?case by (simp only: ih_push_eqs ih_nodes_Suc)
next
  case (Suc j)
  let ?k = "Suc n div 2 ^ Suc j"
  have k: "1 \<le> ?k" "?k \<le> n" using Suc.prems(3) path_inner [of "Suc j" n] by auto
  note u = ih_nodes_upd [OF Suc.prems(1) k Suc.prems(2)]
  have "A ?k \<in> ih_nodes A n" using k by (auto simp: ih_nodes_def)
  moreover have "ih_nodes (ih_push (Suc n) j (A ?k) (A(?k := y))) (Suc n) =
      insert (A ?k) (ih_nodes (A(?k := y)) n)"
    by (rule Suc.IH [OF u(1,3) place_pos [OF Suc.prems(3)]])
  ultimately show ?case unfolding ih_push_eqs u(2) by auto
qed

lemma ih_push_ordered:
  assumes "ih_ordered key A n" and "1 \<le> Suc n div 2 ^ j"
    and "Suc n div 2 ^ j \<le> 1 \<or> key (A (Suc n div 2 ^ j div 2)) \<le> key y"
    and "j = 0 \<or> key y \<le> key (A (Suc n div 2 ^ j))"
  shows "ih_ordered key (ih_push (Suc n) j y A) (Suc n)"
  using assms
proof (induction j arbitrary: y A)
  case 0
  then show ?case by (auto simp: ih_ordered_def le_Suc_eq)
next
  case (Suc j)
  let ?k = "Suc n div 2 ^ Suc j" and ?l = "Suc n div 2 ^ j"
  have k: "1 \<le> ?k" "?k \<le> n" using Suc.prems(2) path_inner [of "Suc j" n] by auto
  have l: "?l div 2 = ?k" by (simp only: place_half)
  have l1: "1 \<le> ?l" using Suc.prems(2) by (rule place_pos)
  have y: "key y \<le> key (A ?k)" using Suc.prems(4) by simp
  have "key ((A(?k := y)) (i div 2)) \<le> key ((A(?k := y)) i)" if i: "i \<in> {2..n}" for i
  proof -
    have o: "key (A (i div 2)) \<le> key (A i)" using Suc.prems(1) i by (auto simp: ih_ordered_def)
    consider "i = ?k" | "i \<noteq> ?k" "i div 2 = ?k" | "i \<noteq> ?k" "i div 2 \<noteq> ?k" by blast
    then show ?thesis
    proof cases
      case 1
      have "?k div 2 \<noteq> ?k" using k by auto
      then show ?thesis using 1 Suc.prems(3) i by auto
    next
      case 2
      then show ?thesis using o y by auto
    qed (use o in auto)
  qed
  then have o: "ih_ordered key (A(?k := y)) n" by (simp add: ih_ordered_def)
  have "?l \<noteq> ?k" using l k by auto
  then have *: "j = 0 \<or> key (A ?k) \<le> key ((A(?k := y)) ?l)"
    using Suc.prems(1) l l1 k path_inner [of j n] unfolding ih_ordered_def
    by (cases j) (auto dest!: bspec [of _ _ "Suc n div 2 ^ j"])
  show ?case unfolding ih_push_eqs
    by (rule Suc.IH [OF o l1]) (use l y * in auto)
qed


text \<open>
  Between two turns of the inner loop: \<open>A\<close> has the new node at place \<open>k\<close>, whose left and right
  pointers are not set yet; \<open>c\<close>, displaced from \<open>k\<close>, still has its old children.
\<close>

definition ih_shifting :: "iheap \<Rightarrow> (nat \<Rightarrow> addr) \<Rightarrow> addr \<Rightarrow> nat \<Rightarrow> nat \<Rightarrow> bool" where
  "ih_shifting h A c k n \<longleftrightarrow>
     ih_size h = Suc n \<and> 1 \<le> k \<and> k \<le> n \<and> inj_on A {1..n} \<and> c \<notin> ih_nodes A n \<and>
     ih_kids h A n {k} \<and> ih_prevs h A n {2 * k, Suc (2 * k)} \<and>
     ih_left h c = ih_at A n (2 * k) \<and> ih_right h c = ih_at A n (Suc (2 * k)) \<and>
     ih_prev h c = Some (A k) \<and> (\<forall>i \<in> {2 * k, Suc (2 * k)}. i \<le> n \<longrightarrow> ih_prev h (A i) = Some c) \<and>
     ih_outside h (insert c (ih_nodes A n))"

lemma ih_node_neq: "c \<notin> ih_nodes A n \<Longrightarrow> 1 \<le> i \<Longrightarrow> i \<le> n \<Longrightarrow> A i \<noteq> c"
  by (auto simp: ih_nodes_def)

lemma ih_at_upd: "ih_at (A(k := y)) n i = (if i = k \<and> 1 \<le> k \<and> k \<le> n then Some y else ih_at A n i)"
  by (auto simp: ih_at_def)

lemma ih_at_grow: "ih_at (A(Suc n := y)) (Suc n) i = (if i = Suc n then Some y else ih_at A n i)"
  by (auto simp: ih_at_def)

text \<open>One turn: \<open>d\<close> is the child place on the path, \<open>s\<close> the other one.\<close>

lemma ih_shifting_step:
  assumes P: "ih_shifting h A c k n"
    and ds: "{d, s} = {2 * k, Suc (2 * k)}" "d \<noteq> s"
    and h': "ih_root h' = ih_root h" "ih_size h' = ih_size h"
      "ih_left h' = (ih_left h)(A k := if d = 2 * k then Some c else ih_at A n (2 * k))"
      "ih_right h' = (ih_right h)(A k := if d = 2 * k then ih_at A n (Suc (2 * k)) else Some c)"
      "ih_prev h' = (if s \<le> n then (ih_prev h)(A s := Some (A k)) else ih_prev h)"
  shows "d \<le> n \<Longrightarrow> ih_shifting h' (A(d := c)) (A d) d n"
    and "d = Suc n \<Longrightarrow> ih_right h c = None \<Longrightarrow> ih_rep (ih_set_left c None h') (A(Suc n := c)) (Suc n)"
proof -
  from P have k: "1 \<le> k" "k \<le> n" and inj: "inj_on A {1..n}" and c: "c \<notin> ih_nodes A n"
    and sz: "ih_size h = Suc n" and kids: "ih_kids h A n {k}"
    and prevs: "ih_prevs h A n {2 * k, Suc (2 * k)}"
    and kc: "ih_left h c = ih_at A n (2 * k)" "ih_right h c = ih_at A n (Suc (2 * k))"
    and pc: "ih_prev h c = Some (A k)"
    and ch: "\<And>i. i \<in> {2 * k, Suc (2 * k)} \<Longrightarrow> i \<le> n \<Longrightarrow> ih_prev h (A i) = Some c"
    and out: "ih_outside h (insert c (ih_nodes A n))"
    by (auto simp: ih_shifting_def)
  have d: "d = 2 * k \<and> s = Suc (2 * k) \<or> d = Suc (2 * k) \<and> s = 2 * k" using ds by (auto simp: doubleton_eq_iff)
  have d2: "d div 2 = k" "s div 2 = k" "k < d" "k < s" using d k by auto
  have root: "ih_root h = ih_at A n 1" using kids by (simp add: ih_kids_def)
  have nc: "A i \<noteq> c" if "i \<in> {1..n}" for i using c that by (auto simp: ih_nodes_def)
  have eq: "A i = A j \<longleftrightarrow> i = j" if "i \<in> {1..n}" "j \<in> {1..n}" for i j using inj that by (rule ih_inj)
  have lr: "ih_left h' (A i) = (if i = k then if d = 2 * k then Some c else ih_at A n (2 * k) else ih_at A n (2 * i))"
    "ih_right h' (A i) = (if i = k then if d = 2 * k then ih_at A n (Suc (2 * k)) else Some c else ih_at A n (Suc (2 * i)))"
    if "i \<in> {1..n}" for i
    using that k kids eq [OF that, of k] by (auto simp: h' ih_kids_def)
  have pv: "ih_prev h' (A i) = (if i = s then Some (A k) else if i = d then Some c else ih_at A n (i div 2))"
    if i: "i \<in> {1..n}" for i
  proof -
    have "ih_prev h (A i) = (if i = d \<or> i = s then Some c else ih_at A n (i div 2))"
      using i prevs ch [of i] d by (auto simp: ih_prevs_def)
    moreover have "i = s \<Longrightarrow> s \<le> n" "s \<le> n \<Longrightarrow> A i = A s \<longleftrightarrow> i = s"
      using i eq [OF i, of s] d2 by auto
    ultimately show ?thesis using ds(2) by (cases "s \<le> n"; cases "i = s"; cases "i = d") (simp_all add: h')
  qed
  have pv_c: "ih_prev h' c = Some (A k)" using nc [of s] d2 k pc by (auto simp: h')
  have out': "ih_outside h' (insert c (ih_nodes A n))"
    using out d2 k by (auto simp: h' ih_outside_def ih_nodes_def)
  have other: "2 * i \<noteq> d" "Suc (2 * i) \<noteq> d" if "i \<noteq> k" for i using d that by presburger+
  show "ih_shifting h' (A(d := c)) (A d) d n" if "d \<le> n"
  proof -
    have dn: "d \<in> {1..n}" using that d2 by simp
    then have u: "inj_on (A(d := c)) {1..n}" "ih_nodes (A(d := c)) n = insert c (ih_nodes A n - {A d})"
      "A d \<notin> ih_nodes (A(d := c)) n" using ih_nodes_upd [OF inj _ _ c, of d] by auto
    have "A d \<in> ih_nodes A n" using dn by (auto simp: ih_nodes_def)
    then have "insert (A d) (ih_nodes (A(d := c)) n) = insert c (ih_nodes A n)" unfolding u(2) by auto
    with out' have o: "ih_outside h' (insert (A d) (ih_nodes (A(d := c)) n))" by simp
    have "ih_left h' (A i) = ih_at (A(d := c)) n (2 * i) \<and> ih_right h' (A i) = ih_at (A(d := c)) n (Suc (2 * i))"
      if i: "i \<in> {1..n}" for i
    proof (cases "i = k")
      case True
      then show ?thesis using lr [OF i] d dn by (auto simp: ih_at_upd)
    next
      case False
      then show ?thesis using lr [OF i] other [OF False] by (simp add: ih_at_upd)
    qed
    then have k': "ih_kids h' (A(d := c)) n {d}"
      using root d2 k by (simp add: ih_kids_def h'(1) ih_at_upd)
    have "ih_prev h' ((A(d := c)) i) = ih_at (A(d := c)) n (i div 2)"
      if i: "i \<in> {1..n}" "i \<noteq> 2 * d" "i \<noteq> Suc (2 * d)" for i
    proof -
      have "i div 2 \<noteq> d" using i(2,3) by presburger
      with pv [OF i(1)] pv_c d2 k show ?thesis by (auto simp: ih_at_upd)
    qed
    then have p': "ih_prevs h' (A(d := c)) n {2 * d, Suc (2 * d)}" by (simp add: ih_prevs_def)
    have l: "ih_left h' (A d) = ih_at (A(d := c)) n (2 * d)" "ih_right h' (A d) = ih_at (A(d := c)) n (Suc (2 * d))"
      using lr [OF dn] d2 dn by (auto simp: ih_at_upd)
    have "ih_prev h' (A i) = Some (A d)" if "i \<in> {2 * d, Suc (2 * d)}" "i \<le> n" for i
      using pv [of i] that d dn by auto
    moreover have "ih_prev h' (A d) = Some c" using pv [OF dn] ds(2) by simp
    ultimately show ?thesis using sz u dn o k' p' l by (auto simp: ih_shifting_def h'(2))
  qed
  show "ih_rep (ih_set_left c None h') (A(Suc n := c)) (Suc n)" if dn: "d = Suc n" and rc: "ih_right h c = None"
  proof -
    have inj': "inj_on (A(Suc n := c)) {1..Suc n}" using inj c by (rule ih_nodes_Suc(2))
    have n': "ih_nodes (A(Suc n := c)) (Suc n) = insert c (ih_nodes A n)" by (rule ih_nodes_Suc(1))
    have rc': "ih_right h' c = None" using rc nc [of k] k by (auto simp: h')
    have "ih_left h' (A i) = ih_at (A(Suc n := c)) (Suc n) (2 * i) \<and>
        ih_right h' (A i) = ih_at (A(Suc n := c)) (Suc n) (Suc (2 * i))" if i: "i \<in> {1..n}" for i
    proof (cases "i = k")
      case True
      then show ?thesis using lr [OF i] d dn by (auto simp: ih_at_grow)
    next
      case False
      then show ?thesis using lr [OF i] other [OF False] dn by (simp add: ih_at_grow)
    qed
    then have lr': "ih_left (ih_set_left c None h') ((A(Suc n := c)) i) = ih_at (A(Suc n := c)) (Suc n) (2 * i) \<and>
        ih_right (ih_set_left c None h') ((A(Suc n := c)) i) = ih_at (A(Suc n := c)) (Suc n) (Suc (2 * i))"
      if "i \<in> {1..Suc n}" for i
      using that nc [of i] rc' by (cases "i = Suc n") (simp_all add: ih_set_left_def)
    have "ih_prev h' ((A(Suc n := c)) i) = ih_at (A(Suc n := c)) (Suc n) (i div 2)"
      if "i \<in> {1..Suc n}" for i
    proof (cases "i = Suc n")
      case True
      then show ?thesis using pv_c d2 dn k by (simp add: ih_at_grow)
    next
      case False
      then have "i \<in> {1..n}" "i \<noteq> d" "i div 2 \<noteq> Suc n" using that dn by auto
      with pv [of i] d2 k show ?thesis by (auto simp: ih_at_grow)
    qed
    then have "ih_prevs (ih_set_left c None h') (A(Suc n := c)) (Suc n) {}"
      by (simp add: ih_prevs_def ih_set_left_def)
    moreover have "ih_root h' = ih_at (A(Suc n := c)) (Suc n) 1" using root k h'(1) by (simp add: ih_at_grow)
    then have "ih_kids (ih_set_left c None h') (A(Suc n := c)) (Suc n) {}"
      using lr' by (simp add: ih_kids_def) (simp add: ih_set_left_def)
    moreover have "ih_outside (ih_set_left c None h') (ih_nodes (A(Suc n := c)) (Suc n))"
      unfolding n' using out' by (auto simp: ih_outside_def ih_set_left_def)
    ultimately show ?thesis using inj' sz by (simp add: ih_rep_def h'(2) ih_set_left_def)
  qed
qed


lemmas ih_sets = ih_set_left_def ih_set_right_def ih_set_prev_def

lemma ih_shift_turn:
  assumes P: "ih_shifting h A c k n" and k: "k = Suc n div 2 ^ Suc m"
  obtains h' where
    "ih_insert_shift (A k) (Some c) (2 ^ Suc m div 2) (Suc n) h =
       ih_insert_shift c (ih_at A n (Suc n div 2 ^ m)) (2 ^ m div 2) (Suc n) h'"
    and "Suc n div 2 ^ m \<le> n \<Longrightarrow> ih_shifting h' (A(Suc n div 2 ^ m := c)) (A (Suc n div 2 ^ m)) (Suc n div 2 ^ m) n"
    and "m = 0 \<Longrightarrow> ih_right h' c = None \<and> ih_rep (ih_set_left c None h') (A(Suc n := c)) (Suc n)"
proof -
  let ?d = "Suc n div 2 ^ m"
  from P have k1: "1 \<le> k" "k \<le> n" and c: "c \<notin> ih_nodes A n"
    and kc: "ih_left h c = ih_at A n (2 * k)" "ih_right h c = ih_at A n (Suc (2 * k))"
    by (auto simp: ih_shifting_def)
  have nc: "A i \<noteq> c" if "1 \<le> i" "i \<le> n" for i using c that by (rule ih_node_neq)
  have dle: "?d \<le> Suc n" by (rule place_le)
  show ?thesis
  proof (cases "odd ?d")
    case True
    then have d: "?d = Suc (2 * k)" using place_step(1) [OF True] k by simp
    then have l: "ih_left h c = Some (A (2 * k))" using kc dle k1 by simp
    define h' where "h' = ih_set_prev (A (2 * k)) (Some (A k))
        (ih_set_left (A k) (Some (A (2 * k))) (ih_set_right (A k) (Some c) h))"
    have b: "(2::nat) ^ m AND Suc n \<noteq> 0" using True place_bit by blast
    have e: "ih_insert_shift (A k) (Some c) (2 ^ Suc m div 2) (Suc n) h =
       ih_insert_shift c (ih_at A n ?d) (2 ^ m div 2) (Suc n) h'"
      using b l kc nc [OF k1] d
      by (subst ih_insert_shift.simps) (simp add: Let_def h'_def ih_sets)
    have s: "{?d, 2 * k} = {2 * k, Suc (2 * k)}" "?d \<noteq> 2 * k" using d by auto
    note st = ih_shifting_step [OF P s, of h']
    have f: "ih_root h' = ih_root h" "ih_size h' = ih_size h"
      "ih_left h' = (ih_left h)(A k := if ?d = 2 * k then Some c else ih_at A n (2 * k))"
      "ih_right h' = (ih_right h)(A k := if ?d = 2 * k then ih_at A n (Suc (2 * k)) else Some c)"
      "ih_prev h' = (if 2 * k \<le> n then (ih_prev h)(A (2 * k) := Some (A k)) else ih_prev h)"
      using d dle k1 by (auto simp: h'_def ih_sets)
    show ?thesis
    proof (rule that [OF e])
      show "?d \<le> n \<Longrightarrow> ih_shifting h' (A(?d := c)) (A ?d) ?d n" using st(1) f by blast
      assume "m = 0"
      then have "?d = Suc n" by simp
      then have "ih_right h c = None" using kc d by (simp add: ih_at_eq_none)
      moreover from this have "ih_right h' c = None" using nc [OF k1] by (simp add: h'_def ih_sets)
      ultimately show "ih_right h' c = None \<and> ih_rep (ih_set_left c None h') (A(Suc n := c)) (Suc n)"
        using st(2) f \<open>?d = Suc n\<close> by blast
    qed
  next
    case False
    then have d: "?d = 2 * k" using place_step(2) [of "Suc n" m] k by simp
    define h' where "h' = (case ih_right h c of None \<Rightarrow> ih_set_left (A k) (Some c) (ih_set_right (A k) (ih_right h c) h)
      | Some r \<Rightarrow> ih_set_prev r (Some (A k)) (ih_set_left (A k) (Some c) (ih_set_right (A k) (ih_right h c) h)))"
    have b: "\<not> (2::nat) ^ m AND Suc n \<noteq> 0" using False place_bit by blast
    have lr: "ih_left h' c = ih_left h c" "ih_right h' c = ih_right h c"
      using nc [OF k1] by (auto simp: h'_def ih_sets split: option.split)
    have e: "ih_insert_shift (A k) (Some c) (2 ^ Suc m div 2) (Suc n) h =
       ih_insert_shift c (ih_at A n ?d) (2 ^ m div 2) (Suc n) h'"
      using b kc nc [OF k1] d lr
      by (subst ih_insert_shift.simps) (simp add: Let_def h'_def ih_sets split: option.split)
    have s: "{?d, Suc (2 * k)} = {2 * k, Suc (2 * k)}" "?d \<noteq> Suc (2 * k)" using d by auto
    note st = ih_shifting_step [OF P s, of h']
    have f: "ih_root h' = ih_root h" "ih_size h' = ih_size h"
      "ih_left h' = (ih_left h)(A k := if ?d = 2 * k then Some c else ih_at A n (2 * k))"
      "ih_right h' = (ih_right h)(A k := if ?d = 2 * k then ih_at A n (Suc (2 * k)) else Some c)"
      "ih_prev h' = (if Suc (2 * k) \<le> n then (ih_prev h)(A (Suc (2 * k)) := Some (A k)) else ih_prev h)"
      using d kc k1 by (auto simp: h'_def ih_sets ih_at_def)
    show ?thesis
    proof (rule that [OF e])
      show "?d \<le> n \<Longrightarrow> ih_shifting h' (A(?d := c)) (A ?d) ?d n" using st(1) f by blast
      assume "m = 0"
      then have "?d = Suc n" by simp
      then have "ih_right h c = None" using kc d by (simp add: ih_at_eq_none)
      with lr st(2) f \<open>?d = Suc n\<close>
      show "ih_right h' c = None \<and> ih_rep (ih_set_left c None h') (A(Suc n := c)) (Suc n)" by auto
    qed
  qed
qed

lemma ih_insert_shift_correct:
  assumes "ih_shifting h A c (Suc n div 2 ^ Suc m) n"
  shows "\<exists>h'. ih_insert_shift (A (Suc n div 2 ^ Suc m)) (Some c) (2 ^ Suc m div 2) (Suc n) h = Some h' \<and>
    ih_rep h' (ih_push (Suc n) m c A) (Suc n)"
  using assms
proof (induction m arbitrary: h A c)
  case 0
  from ih_shift_turn [OF 0 refl] obtain h' where h':
    "ih_insert_shift (A (Suc n div 2 ^ Suc 0)) (Some c) (2 ^ Suc 0 div 2) (Suc n) h =
       ih_insert_shift c (ih_at A n (Suc n div 2 ^ 0)) (2 ^ 0 div 2) (Suc n) h'"
    "ih_right h' c = None" "ih_rep (ih_set_left c None h') (A(Suc n := c)) (Suc n)" by blast
  have "ih_insert_shift c (ih_at A n (Suc n div 2 ^ 0)) (2 ^ 0 div 2) (Suc n) h' = Some (ih_set_left c None h')"
    using h'(2) by (subst ih_insert_shift.simps) simp
  with h' have "ih_insert_shift (A (Suc n div 2 ^ Suc 0)) (Some c) (2 ^ Suc 0 div 2) (Suc n) h =
      Some (ih_set_left c None h')" by simp
  with h'(3) show ?case unfolding ih_push_eqs by metis
next
  case (Suc m)
  let ?d = "Suc n div 2 ^ Suc m"
  have dn: "?d \<le> n" by (rule path_inner) simp
  from ih_shift_turn [OF Suc.prems refl] dn obtain h' where h':
    "ih_insert_shift (A (Suc n div 2 ^ Suc (Suc m))) (Some c) (2 ^ Suc (Suc m) div 2) (Suc n) h =
       ih_insert_shift c (ih_at A n ?d) (2 ^ Suc m div 2) (Suc n) h'"
    "ih_shifting h' (A(?d := c)) (A ?d) ?d n" by blast
  have "1 \<le> ?d" using h'(2) by (simp add: ih_shifting_def)
  with dn have "ih_at A n ?d = Some (A ?d)" by simp
  moreover have "\<exists>h''. ih_insert_shift c (Some (A ?d)) (2 ^ Suc m div 2) (Suc n) h' = Some h'' \<and>
      ih_rep h'' (ih_push (Suc n) m (A ?d) (A(?d := c))) (Suc n)"
    using Suc.IH [OF h'(2)] by (simp only: fun_upd_same)
  ultimately show ?case using h'(1) unfolding ih_push_eqs by metis
qed


text \<open>Writing the slot of a place.\<close>

lemma ih_write_slot:
  assumes "inj_on A {1..n}" and "1 \<le> k" and "k div 2 \<le> n"
  shows "ih_root (ih_write (ih_slot_of A k) p h) = (if k = 1 then p else ih_root h)"
    "i \<in> {1..n} \<Longrightarrow> ih_left (ih_write (ih_slot_of A k) p h) (A i) = (if k = 2 * i then p else ih_left h (A i))"
    "i \<in> {1..n} \<Longrightarrow> ih_right (ih_write (ih_slot_of A k) p h) (A i) = (if k = Suc (2 * i) then p else ih_right h (A i))"
    "c \<notin> ih_nodes A n \<Longrightarrow> ih_left (ih_write (ih_slot_of A k) p h) c = ih_left h c"
    "c \<notin> ih_nodes A n \<Longrightarrow> ih_right (ih_write (ih_slot_of A k) p h) c = ih_right h c"
proof -
  have k: "k = 1 \<or> k div 2 \<in> {1..n}" using assms(2,3) by auto
  have cs: "ih_slot_of A k = RootSlot \<and> k = 1 \<or>
      ih_slot_of A k = RightSlot (A (k div 2)) \<and> k = Suc (2 * (k div 2)) \<and> k \<noteq> 1 \<or>
      ih_slot_of A k = LeftSlot (A (k div 2)) \<and> k = 2 * (k div 2) \<and> k \<noteq> 1"
    using assms(2) by (auto simp: ih_slot_of_def)
  show "ih_root (ih_write (ih_slot_of A k) p h) = (if k = 1 then p else ih_root h)"
    using cs by (auto simp: ih_sets)
  have eq: "A i = A (k div 2) \<longleftrightarrow> i = k div 2" if "i \<in> {1..n}" "k \<noteq> 1" for i
    using ih_inj [OF assms(1) that(1)] k that(2) by auto
  show "ih_left (ih_write (ih_slot_of A k) p h) (A i) = (if k = 2 * i then p else ih_left h (A i))"
    if i: "i \<in> {1..n}"
    using cs
  proof (elim disjE)
    assume "ih_slot_of A k = RightSlot (A (k div 2)) \<and> k = Suc (2 * (k div 2)) \<and> k \<noteq> 1"
    moreover from this have "k = Suc (2 * (k div 2))" by blast
    then have "k \<noteq> 2 * i" by presburger
    ultimately show ?thesis by (simp add: ih_sets)
  next
    assume "ih_slot_of A k = LeftSlot (A (k div 2)) \<and> k = 2 * (k div 2) \<and> k \<noteq> 1"
    moreover from this have "k = 2 * (k div 2)" by blast
    then have "k = 2 * i \<longleftrightarrow> i = k div 2" by presburger
    ultimately show ?thesis using eq [OF i] by (simp add: ih_sets)
  qed (use i in auto)
  show "ih_right (ih_write (ih_slot_of A k) p h) (A i) = (if k = Suc (2 * i) then p else ih_right h (A i))"
    if i: "i \<in> {1..n}"
    using cs
  proof (elim disjE)
    assume "ih_slot_of A k = LeftSlot (A (k div 2)) \<and> k = 2 * (k div 2) \<and> k \<noteq> 1"
    moreover from this have "k = 2 * (k div 2)" by blast
    then have "k \<noteq> Suc (2 * i)" by presburger
    ultimately show ?thesis by (simp add: ih_sets)
  next
    assume "ih_slot_of A k = RightSlot (A (k div 2)) \<and> k = Suc (2 * (k div 2)) \<and> k \<noteq> 1"
    moreover from this have "k = Suc (2 * (k div 2))" by blast
    then have "k = Suc (2 * i) \<longleftrightarrow> i = k div 2" by presburger
    ultimately show ?thesis using eq [OF i] by (simp add: ih_sets)
  qed (use i in auto)
  show "ih_left (ih_write (ih_slot_of A k) p h) c = ih_left h c"
    "ih_right (ih_write (ih_slot_of A k) p h) c = ih_right h c" if "c \<notin> ih_nodes A n"
    using cs k that by (auto simp: ih_sets ih_nodes_def)
qed

lemma ih_append_rep:
  assumes "ih_size h = Suc n" and "inj_on A {1..n}" and "node \<notin> ih_nodes A n"
    and "ih_kids h A n {}" and "ih_prevs h A n {}" and "ih_outside h (ih_nodes A n)"
  shows "ih_rep (ih_set_left node None (ih_set_right node None (ih_set_prev node (ih_at A n (Suc n div 2))
    (ih_write (ih_slot_of A (Suc n)) (Some node) h)))) (A(Suc n := node)) (Suc n)" (is "ih_rep ?h ?A _")
proof -
  have nn: "A i \<noteq> node" if "i \<in> {1..n}" for i using assms(3) that by (auto simp: ih_nodes_def)
  have lt: "Suc n div 2 \<noteq> Suc n" by linarith
  have ix: "1 \<le> Suc n" "Suc n div 2 \<le> n" by auto
  have lr: "ih_left ?h (?A i) = ih_at ?A (Suc n) (2 * i) \<and> ih_right ?h (?A i) = ih_at ?A (Suc n) (Suc (2 * i))"
    if i: "i \<in> {1..Suc n}" for i
  proof (cases "i = Suc n")
    case True
    then show ?thesis by (simp add: ih_sets)
  next
    case False
    then have i': "i \<in> {1..n}" using i by simp
    with assms(4) show ?thesis using nn [OF i'] False ih_write_slot(2,3) [OF assms(2) ix i']
      by (auto simp: ih_kids_def ih_sets ih_at_grow)
  qed
  have root: "ih_root ?h = ih_at ?A (Suc n) 1"
    using assms(4) ih_write_slot(1) [OF assms(2) ix] by (simp add: ih_kids_def ih_sets ih_at_grow)
  have "ih_prev ?h (?A i) = ih_at ?A (Suc n) (i div 2)" if i: "i \<in> {1..Suc n}" for i
  proof (cases "i = Suc n")
    case True
    then show ?thesis using lt by (simp add: ih_sets ih_at_grow)
  next
    case False
    then have i': "i \<in> {1..n}" "i div 2 \<noteq> Suc n" using i by auto
    with assms(5) nn [OF i'(1)] False show ?thesis by (simp add: ih_prevs_def ih_sets ih_at_grow)
  qed
  then have "ih_prevs ?h ?A (Suc n) {}" by (simp add: ih_prevs_def)
  moreover have "ih_kids ?h ?A (Suc n) {}" using lr root by (simp only: ih_kids_def) simp
  moreover have "ih_outside ?h (ih_nodes ?A (Suc n))"
    unfolding ih_nodes_Suc(1) using assms(6) by (simp add: ih_outside_def ih_sets)
  ultimately show ?thesis using ih_nodes_Suc(2) [OF assms(2,3)] assms(1) by (simp add: ih_rep_def ih_sets)
qed

lemma ih_displace_shifting:
  assumes "ih_size h = Suc n" and "inj_on A {1..n}" and "node \<notin> ih_nodes A n"
    and "ih_kids h A n {}" and "ih_prevs h A n {}" and "ih_outside h (ih_nodes A n)"
    and k: "1 \<le> k" "k \<le> n"
  shows "ih_shifting (ih_write (ih_slot_of A k) (Some node) (ih_set_prev (A k) (Some node)
      (ih_set_prev node (ih_at A n (k div 2)) h))) (A(k := node)) (A k) k n" (is "ih_shifting ?h ?A _ _ _")
proof -
  note u = ih_nodes_upd [OF assms(2) k assms(3)]
  have nn: "A i \<noteq> node" if "i \<in> {1..n}" for i using assms(3) that by (auto simp: ih_nodes_def)
  have eq: "A i = A j \<longleftrightarrow> i = j" if "i \<in> {1..n}" "j \<in> {1..n}" for i j using assms(2) that by (rule ih_inj)
  have kk: "k \<in> {1..n}" "k div 2 \<noteq> k" using k by auto
  note w = ih_write_slot [where p = "Some node", OF assms(2) k(1)]
  have kd: "k div 2 \<le> n" using k by auto
  have lr: "ih_left ?h (A i) = (if k = 2 * i then Some node else ih_at A n (2 * i))"
    "ih_right ?h (A i) = (if k = Suc (2 * i) then Some node else ih_at A n (Suc (2 * i)))"
    if "i \<in> {1..n}" for i
    using w(2,3) [OF kd that] assms(4) that by (auto simp: ih_kids_def ih_sets)
  have "ih_left ?h (?A i) = ih_at ?A n (2 * i) \<and> ih_right ?h (?A i) = ih_at ?A n (Suc (2 * i))"
    if "i \<in> {1..n}" "i \<noteq> k" for i
    using lr [OF that(1)] that(2) k by (auto simp: ih_at_upd)
  moreover have "ih_root ?h = ih_at ?A n 1"
    using w(1) [OF kd] assms(4) k by (auto simp: ih_kids_def ih_sets ih_at_upd)
  ultimately have kids: "ih_kids ?h ?A n {k}" by (simp add: ih_kids_def)
  have pv: "ih_prev ?h (A i) = (if i = k then Some node else ih_at A n (i div 2))" if "i \<in> {1..n}" for i
    using assms(5) that eq [OF that kk(1)] nn [OF that] by (simp add: ih_sets ih_prevs_def)
  have pn: "ih_prev ?h node = ih_at A n (k div 2)" using nn [OF kk(1)] by (simp add: ih_sets)
  have "ih_prev ?h (?A i) = ih_at ?A n (i div 2)" if "i \<in> {1..n}" "i \<noteq> 2 * k" "i \<noteq> Suc (2 * k)" for i
  proof -
    have "i div 2 \<noteq> k" using that(2,3) by presburger
    then show ?thesis using pv [OF that(1)] pn kk by (auto simp: ih_at_upd)
  qed
  then have prevs: "ih_prevs ?h ?A n {2 * k, Suc (2 * k)}" by (simp add: ih_prevs_def)
  have "k \<noteq> 2 * k" "k \<noteq> Suc (2 * k)" using k by auto
  then have c: "ih_left ?h (A k) = ih_at ?A n (2 * k)" "ih_right ?h (A k) = ih_at ?A n (Suc (2 * k))"
    using lr [OF kk(1)] by (auto simp: ih_at_upd)
  have ch: "ih_prev ?h (?A i) = Some (A k)" if "i \<in> {2 * k, Suc (2 * k)}" "i \<le> n" for i
    using pv [of i] that k by auto
  have "A k \<in> ih_nodes A n" using k by (auto simp: ih_nodes_def)
  then have "insert (A k) (ih_nodes ?A n) = insert node (ih_nodes A n)" using u(2) by auto
  moreover have "ih_outside ?h (insert node (ih_nodes A n))"
    using assms(6) \<open>A k \<in> ih_nodes A n\<close> by (auto simp: ih_outside_def ih_sets)
  ultimately have "ih_outside ?h (insert (A k) (ih_nodes ?A n))" by simp
  with u kids prevs c ch pv [OF kk(1)] assms(1) k show ?thesis by (simp add: ih_shifting_def ih_set_prev_def)
qed

text \<open>
  The outer loop: while the keys on the path are not greater the heap is unchanged, then the
  node takes the place of the first greater one, or the new place at the end.
\<close>

lemma ih_insert_loop_correct:
  assumes "ih_size h = Suc n" and "inj_on A {1..n}" and "node \<notin> ih_nodes A n"
    and "ih_kids h A n {}" and "ih_prevs h A n {}" and "ih_outside h (ih_nodes A n)"
    and "ih_ordered key A n" and "1 \<le> Suc n div 2 ^ j"
    and "Suc n div 2 ^ j \<le> 1 \<or> key (A (Suc n div 2 ^ j div 2)) \<le> key node"
  shows "\<exists>h' B. ih_insert_loop key node (2 ^ j div 2) (Suc n) (ih_slot_of A (Suc n div 2 ^ j))
      (ih_at A n (Suc n div 2 ^ j)) (ih_at A n (Suc n div 2 ^ j div 2)) h = Some h' \<and>
    ih_rep h' B (Suc n) \<and> ih_ordered key B (Suc n) \<and> ih_nodes B (Suc n) = insert node (ih_nodes A n)"
  using assms(8,9)
proof (induction j)
  case 0
  let ?h = "ih_set_left node None (ih_set_right node None (ih_set_prev node (ih_at A n (Suc n div 2))
    (ih_write (ih_slot_of A (Suc n)) (Some node) h)))"
  have "ih_rep ?h (A(Suc n := node)) (Suc n)" by (rule ih_append_rep [OF assms(1-6)])
  moreover have "ih_ordered key (A(Suc n := node)) (Suc n)"
    using ih_push_ordered [OF assms(7), of 0 node] 0 by simp
  ultimately show ?case using ih_nodes_Suc(1) [of A n node]
    by (subst ih_insert_loop.simps) auto
next
  case (Suc j)
  let ?k = "Suc n div 2 ^ Suc j" and ?d = "Suc n div 2 ^ j"
  have k: "1 \<le> ?k" "?k \<le> n" using Suc.prems(1) path_inner [of "Suc j" n] by auto
  show ?case
  proof (cases "key node < key (A ?k)")
    case False
    have d: "?d div 2 = ?k" by (simp only: place_half)
    have d1: "1 \<le> ?d" using Suc.prems(1) by (rule place_pos)
    have "ih_read (ih_slot_of A ?d) h = ih_at A n ?d" using assms(4) d1 k by (intro ih_read_slot) (simp_all only: d)
    then have "ih_insert_loop key node (2 ^ Suc j div 2) (Suc n) (ih_slot_of A ?k) (ih_at A n ?k) (ih_at A n (?k div 2)) h =
      ih_insert_loop key node (2 ^ j div 2) (Suc n) (ih_slot_of A ?d) (ih_at A n ?d) (ih_at A n (?d div 2)) h"
      using False
      by (subst ih_insert_loop.simps)
         (simp only: mask_step ih_at_some [OF k] ih_bind Let_def ih_slot_step [OF Suc.prems(1)] if_False d)
    moreover have "key (A (?d div 2)) \<le> key node" using False by (simp only: d not_less)
    ultimately show ?thesis using Suc.IH [OF d1] by simp
  next
    case True
    let ?c = "A ?k"
    let ?h = "ih_write (ih_slot_of A ?k) (Some node) (ih_set_prev ?c (Some node) (ih_set_prev node (ih_at A n (?k div 2)) h))"
    have sh: "ih_shifting ?h (A(?k := node)) ?c ?k n"
      by (rule ih_displace_shifting [OF assms(1-6) k])
    from ih_insert_shift_correct [OF this] obtain h' where h':
      "ih_insert_shift node (Some ?c) (2 ^ Suc j div 2) (Suc n) ?h = Some h'"
      "ih_rep h' (ih_push (Suc n) j ?c (A(?k := node))) (Suc n)" by (auto simp only: fun_upd_same)
    have "ih_insert_loop key node (2 ^ Suc j div 2) (Suc n) (ih_slot_of A ?k) (ih_at A n ?k) (ih_at A n (?k div 2)) h =
      Some h'"
      using True h'(1) by (subst ih_insert_loop.simps) (simp only: mask_step ih_at_some [OF k] ih_bind Let_def if_False if_True)
    moreover have "ih_ordered key (ih_push (Suc n) (Suc j) node A) (Suc n)"
      by (rule ih_push_ordered [OF assms(7) Suc.prems]) (use True in simp)
    moreover have "ih_nodes (ih_push (Suc n) (Suc j) node A) (Suc n) = insert node (ih_nodes A n)"
      by (rule ih_push_nodes [OF assms(2,3) Suc.prems(1)])
    ultimately show ?thesis using h'(2) unfolding ih_push_eqs by blast
  qed
qed


lemma ih_insert_correct:
  assumes "ih_rep h A n" and "ih_ordered key A n" and "node \<notin> ih_nodes A n"
  shows "\<exists>h' B. ih_insert key node h = Some h' \<and> ih_rep h' B (Suc n) \<and> ih_ordered key B (Suc n) \<and>
    ih_nodes B (Suc n) = insert node (ih_nodes A n)"
proof -
  let ?h = "h\<lparr>ih_size := Suc n\<rparr>"
  obtain j where j: "path_bit_mask (Suc n) = 2 ^ j div 2" "Suc n div 2 ^ j = 1"
    using path_start [of "Suc n"] by auto
  have r: "ih_size h = n" "inj_on A {1..n}" "ih_kids ?h A n {}" "ih_prevs ?h A n {}" "ih_outside ?h (ih_nodes A n)"
    using assms(1) by (auto simp: ih_rep_def ih_kids_def ih_prevs_def ih_outside_def)
  have "\<exists>h' B. ih_insert_loop key node (2 ^ j div 2) (Suc n) (ih_slot_of A 1) (ih_at A n 1) (ih_at A n (1 div 2)) ?h
      = Some h' \<and> ih_rep h' B (Suc n) \<and> ih_ordered key B (Suc n) \<and> ih_nodes B (Suc n) = insert node (ih_nodes A n)"
    by (rule ih_insert_loop_correct [of ?h n A node key j, unfolded j(2)]) (use r assms in simp_all)
  moreover have "ih_slot_of A 1 = RootSlot" "ih_at A n (1 div 2) = None" by (simp_all add: ih_slot_of_def)
  moreover have "ih_root ?h = ih_at A n 1" using r(3) by (simp add: ih_kids_def)
  ultimately show ?thesis using r(1) j(1) by (simp add: ih_insert_def)
qed

section \<open>The replacements of \<^verbatim>\<open>std::bit_ceil\<close>\<close>

text \<open>
  The two replacements for a missing \<^verbatim>\<open>std::bit_ceil\<close>: filling the bits below the leading one, and
  counting the leading zeros (\<open>bit_len\<close> is 64 less \<^verbatim>\<open>__builtin_clzll\<close>).
\<close>

definition bit_ceil_smear :: "64 word \<Rightarrow> 64 word" where
  "bit_ceil_smear n =
     (let m = n - 1;
          m = m OR drop_bit 1 m;
          m = m OR drop_bit 2 m;
          m = m OR drop_bit 4 m;
          m = m OR drop_bit 8 m;
          m = m OR drop_bit 16 m;
          m = m OR drop_bit 32 m
      in m + 1)"

fun bit_len :: "nat \<Rightarrow> nat" where
  "bit_len n = (if n = 0 then 0 else Suc (bit_len (n div 2)))"

declare bit_len.simps [simp del]

definition bit_ceil_clz :: "64 word \<Rightarrow> 64 word" where
  "bit_ceil_clz n = (let p = push_bit (bit_len (unat n)) 1 in if p < n then push_bit 1 p else p)"

lemma smear_step:
  fixes m w :: "64 word"
  assumes "\<And>i. bit w i \<longleftrightarrow> (\<exists>d<e. bit m (i + d))"
  shows "bit (w OR drop_bit e w) i \<longleftrightarrow> (\<exists>d<e + e. bit m (i + d))"
proof -
  have "(\<exists>d<e + e. bit m (i + d)) \<longleftrightarrow> (\<exists>d<e. bit m (i + d)) \<or> (\<exists>d<e. bit m (e + i + d))"
  proof
    assume "\<exists>d<e + e. bit m (i + d)"
    then obtain d where d: "d < e + e" "bit m (i + d)" by blast
    show "(\<exists>d<e. bit m (i + d)) \<or> (\<exists>d<e. bit m (e + i + d))"
    proof (cases "d < e")
      case False
      then have "d - e < e" "e + i + (d - e) = i + d" using d by auto
      then show ?thesis using d by metis
    qed (use d in blast)
  next
    assume "(\<exists>d<e. bit m (i + d)) \<or> (\<exists>d<e. bit m (e + i + d))"
    then show "\<exists>d<e + e. bit m (i + d)"
    proof
      assume "\<exists>d<e. bit m (e + i + d)"
      then obtain d where "d < e" "bit m (e + i + d)" by blast
      then show ?thesis by (intro exI [of _ "e + d"]) (simp add: ac_simps)
    qed (meson trans_less_add1)
  qed
  then show ?thesis using assms by (simp add: bit_or_iff bit_drop_bit_eq)
qed

lemma unat_two_power: "k < 64 \<Longrightarrow> unat (2 ^ k :: 64 word) = 2 ^ k"
proof -
  assume "k < 64"
  then have "(2::int) ^ k < 2 ^ 64" by (intro power_strict_increasing) auto
  then show ?thesis by transfer (simp add: take_bit_eq_mod nat_power_eq)
qed

lemma smear_mask:
  fixes m :: "64 word"
  assumes "2 ^ k \<le> unat m" "unat m < 2 ^ Suc k"
  shows "bit_ceil_smear (m + 1) = mask (Suc k) + 1"
proof -
  define w1 where "w1 = m OR drop_bit 1 m"
  define w2 where "w2 = w1 OR drop_bit 2 w1"
  define w4 where "w4 = w2 OR drop_bit 4 w2"
  define w8 where "w8 = w4 OR drop_bit 8 w4"
  define w16 where "w16 = w8 OR drop_bit 16 w8"
  define w32 where "w32 = w16 OR drop_bit 32 w16"
  have b0: "bit m i \<longleftrightarrow> (\<exists>d<1. bit m (i + d))" for i by simp
  have b1: "bit w1 i \<longleftrightarrow> (\<exists>d<2. bit m (i + d))" for i using smear_step [OF b0] by (simp add: w1_def numeral_2_eq_2)
  have b2: "bit w2 i \<longleftrightarrow> (\<exists>d<4. bit m (i + d))" for i using smear_step [OF b1] by (simp add: w2_def)
  have b4: "bit w4 i \<longleftrightarrow> (\<exists>d<8. bit m (i + d))" for i using smear_step [OF b2] by (simp add: w4_def)
  have b8: "bit w8 i \<longleftrightarrow> (\<exists>d<16. bit m (i + d))" for i using smear_step [OF b4] by (simp add: w8_def)
  have b16: "bit w16 i \<longleftrightarrow> (\<exists>d<32. bit m (i + d))" for i using smear_step [OF b8] by (simp add: w16_def)
  have b32: "bit w32 i \<longleftrightarrow> (\<exists>d<64. bit m (i + d))" for i using smear_step [OF b16] by (simp add: w32_def)
  have bn: "bit m i \<longleftrightarrow> odd (unat m div 2 ^ i)" for i
    by (simp add: bit_iff_odd [of "unat m", symmetric] bit_unsigned_iff)
  have top: "bit m k"
  proof -
    have "unat m div 2 ^ k = 1"
    proof (rule div_nat_eqI)
    qed (use assms in auto)
    then show ?thesis by (simp add: bn)
  qed
  have above: "\<not> bit m i" if "k < i" for i
  proof -
    have "(2::nat) ^ Suc k \<le> 2 ^ i" using that by (intro power_increasing) auto
    with assms(2) have "unat m div 2 ^ i = 0" by simp
    then show ?thesis by (simp add: bn)
  qed
  have k: "k < 64" using bit_imp_le_length [OF top] by simp
  have "w32 = mask (Suc k)"
  proof (rule bit_eqI)
    fix i
    have "(\<exists>d<64. bit m (i + d)) \<longleftrightarrow> i \<le> k"
    proof
      assume "i \<le> k"
      then show "\<exists>d<64. bit m (i + d)" using top k by (intro exI [of _ "k - i"]) simp
    qed (use above in \<open>meson not_le trans_less_add1\<close>)
    then show "bit w32 i = bit (mask (Suc k) :: 64 word) i" using b32 k by (auto simp: bit_mask_iff)
  qed
  then show ?thesis by (simp add: bit_ceil_smear_def Let_def w1_def w2_def w4_def w8_def w16_def w32_def)
qed


lemma bit_ceil_smear_correct:
  assumes "1 \<le> unat n" "unat n \<le> 2 ^ 63"
  shows "unat (bit_ceil_smear n) = bit_ceil (unat n)"
proof (cases "unat n = 1")
  case True
  then have "n = 1" by (metis unat_1 unsigned_word_eqI)
  then show ?thesis by (simp add: bit_ceil_smear_def bit_ceil.simps)
next
  case False
  then have n: "1 < unat n" using assms(1) by simp
  have m: "unat (n - 1) = unat n - 1" using n by (subst unat_sub) (auto simp: word_le_nat_alt)
  have "\<exists>k. 2 ^ k \<le> unat n - 1 \<and> unat n - 1 < 2 ^ Suc k"
    using ex_power_ivl1 [of 2 "unat n - 1"] n by auto
  then obtain k where k: "2 ^ k \<le> unat n - 1" "unat n - 1 < 2 ^ Suc k" by blast
  have "(2::nat) ^ k < 2 ^ 63" using k(1) n assms(2) by (meson le_less_trans diff_less less_le_trans zero_less_one less_trans)
  then have kk: "k < 63" by (rule power_less_imp_less_exp [rotated]) simp
  have "bit_ceil_smear n = mask (Suc k) + 1"
    using smear_mask [of k "n - 1"] k m by simp
  also have "\<dots> = (2 ^ Suc k :: 64 word)" by (simp add: mask_eq_exp_minus_1)
  also have "unat \<dots> = 2 ^ Suc k" using kk by (intro unat_two_power) simp
  finally show ?thesis using bit_ceil_power [of k "unat n"] k n by simp
qed

lemma bit_len_power: "2 ^ k \<le> n \<Longrightarrow> n < 2 ^ Suc k \<Longrightarrow> bit_len n = Suc k"
proof (induction k arbitrary: n)
  case 0
  then show ?case by (simp add: bit_len.simps)
next
  case (Suc k)
  then have "2 ^ k \<le> n div 2" "n div 2 < 2 ^ Suc k" "n \<noteq> 0" by auto
  with Suc.IH [of "n div 2"] show ?case by (subst bit_len.simps) simp
qed

text \<open>
  Counting leading zeros gives twice a power of two: the position of the leading bit of \<open>n\<close>, not of
  \<open>n - 1\<close>, is used.
\<close>

lemma bit_ceil_clz_value:
  assumes "2 ^ k \<le> unat n" "unat n < 2 ^ Suc k" "k < 63"
  shows "unat (bit_ceil_clz n) = 2 ^ Suc k"
proof -
  have p: "unat (2 ^ Suc k :: 64 word) = 2 ^ Suc k" using assms(3) by (intro unat_two_power) simp
  have "\<not> (2 ^ Suc k :: 64 word) < n" using assms(2) p by (simp add: word_less_nat_alt)
  then show ?thesis using p bit_len_power [OF assms(1,2)] by (simp add: bit_ceil_clz_def push_bit_eq_mult)
qed

lemma bit_ceil_clz_power:
  assumes "unat n = 2 ^ k" "k < 63"
  shows "unat (bit_ceil_clz n) = 2 * bit_ceil (unat n)"
proof -
  have "bit_ceil (2 ^ k) = 2 ^ k"
    by (cases k) (use bit_ceil_power [of "k - 1" "2 ^ k"] in \<open>auto simp: bit_ceil.simps\<close>)
  then show ?thesis using bit_ceil_clz_value [of k n] assms by simp
qed

end
