(* ===== verification/HeapSift.thy ===== *)
theory HeapSift
  imports IntrusiveHeap
begin

unbundle bit_operations_syntax

text \<open>
  Sifting in the intrusive heap: \<open>sift_down\<close> and \<open>sift_up\<close> end and restore the order, and
  \<open>pop_front\<close> removes the root.
\<close>

section \<open>Sifting down\<close>

text \<open>
  The node \<open>A k\<close> sinks from place \<open>k0\<close>: the order fails at most between \<open>k\<close> and its children,
  and the \<^verbatim>\<open>Prev\<close> members are wrong at most at \<open>k0\<close>, at \<open>k\<close> and at the children of \<open>k\<close>, which
  still point to where the node that went up is now below.
\<close>

definition ih_sinking :: "iheap \<Rightarrow> (nat \<Rightarrow> addr) \<Rightarrow> nat \<Rightarrow> nat \<Rightarrow> nat \<Rightarrow> addr set \<Rightarrow> bool" where
  "ih_sinking h A k0 k n X \<longleftrightarrow>
     1 \<le> k0 \<and> k0 \<le> k \<and> k \<le> n \<and> inj_on A {1..n} \<and> ih_kids h A n {} \<and>
     ih_prevs h A n {k0, k, 2 * k, Suc (2 * k)} \<and> ih_outside h X \<and> ih_nodes A n \<subseteq> X \<and>
     (k \<noteq> k0 \<longrightarrow> (\<forall>i \<in> {2 * k, Suc (2 * k)}. i \<le> n \<longrightarrow> ih_prev h (A i) = ih_at A n (k div 2)))"

definition ih_sink_ordered :: "(addr \<Rightarrow> 'k::linorder) \<Rightarrow> (nat \<Rightarrow> addr) \<Rightarrow> nat \<Rightarrow> nat \<Rightarrow> bool" where
  "ih_sink_ordered key A k n \<longleftrightarrow>
     (\<forall>i \<in> {2..n}. i div 2 \<noteq> k \<longrightarrow> key (A (i div 2)) \<le> key (A i)) \<and>
     (2 \<le> k \<longrightarrow> (\<forall>i \<in> {2 * k, Suc (2 * k)}. i \<le> n \<longrightarrow> key (A (k div 2)) \<le> key (A i)))"

lemma ih_swap_nodes:
  assumes "inj_on A {1..n}" and "k \<in> {1..n}" and "d \<in> {1..n}"
  shows "inj_on (A(k := A d, d := A k)) {1..n}" "ih_nodes (A(k := A d, d := A k)) n = ih_nodes A n"
proof -
  show "inj_on (A(k := A d, d := A k)) {1..n}"
    using assms by (intro inj_onI) (auto dest: inj_onD split: if_splits)
  have "(A(k := A d, d := A k)) ` {1..n} = A ` {1..n}"
  proof
    show "A ` {1..n} \<subseteq> (A(k := A d, d := A k)) ` {1..n}"
    proof
      fix x assume "x \<in> A ` {1..n}"
      then obtain i where i: "i \<in> {1..n}" "x = A i" by auto
      then have "x = (A(k := A d, d := A k)) (if i = k then d else if i = d then k else i)" by auto
      moreover have "(if i = k then d else if i = d then k else i) \<in> {1..n}" using i assms by simp
      ultimately show "x \<in> (A(k := A d, d := A k)) ` {1..n}" by blast
    qed
  qed (use assms in auto)
  then show "ih_nodes (A(k := A d, d := A k)) n = ih_nodes A n" by (simp add: ih_nodes_def)
qed

lemma ih_at_swap:
  "k \<in> {1..n} \<Longrightarrow> d \<in> {1..n} \<Longrightarrow> ih_at (A(k := a, d := b)) n i = (if i = d then Some b else if i = k then Some a else ih_at A n i)"
  by (auto simp: ih_at_def)

lemma child_places:
  assumes "{d, s} = {2 * k, Suc (2 * k)}" and "d \<noteq> s" and "1 \<le> (k::nat)"
  shows "d div 2 = k" "s div 2 = k" "k < d" "k < s"
    "i \<noteq> k \<Longrightarrow> 2 * i \<noteq> d" "i \<noteq> k \<Longrightarrow> Suc (2 * i) \<noteq> d" "i \<noteq> d \<Longrightarrow> i \<noteq> s \<Longrightarrow> i div 2 \<noteq> k"
proof -
  have d: "d = 2 * k \<and> s = Suc (2 * k) \<or> d = Suc (2 * k) \<and> s = 2 * k" using assms by (auto simp: doubleton_eq_iff)
  then show "d div 2 = k" "s div 2 = k" "k < d" "k < s" using assms(3) by auto
  show "i \<noteq> k \<Longrightarrow> 2 * i \<noteq> d" "i \<noteq> k \<Longrightarrow> Suc (2 * i) \<noteq> d" "i \<noteq> d \<Longrightarrow> i \<noteq> s \<Longrightarrow> i div 2 \<noteq> k"
    using d by presburger+
qed

lemma ih_sink_order_step:
  assumes o: "ih_sink_ordered key A k n" and ds: "{d, s} = {2 * k, Suc (2 * k)}" "d \<noteq> s" and k: "1 \<le> k" "d \<le> n"
    and le: "key (A d) < key (A k)" "s \<le> n \<Longrightarrow> key (A d) \<le> key (A s)"
  shows "ih_sink_ordered key (A(k := A d, d := A k)) d n"
proof -
  note c = child_places [OF ds k(1)]
  have oi: "key (A (i div 2)) \<le> key (A i)" if "2 \<le> i" "i \<le> n" "i div 2 \<noteq> k" for i
    using o that by (simp add: ih_sink_ordered_def)
  have gp: "key (A (k div 2)) \<le> key (A d)" if "2 \<le> k"
  proof -
    have "d \<in> {2 * k, Suc (2 * k)}" using ds(1) by blast
    with o that k show ?thesis unfolding ih_sink_ordered_def by blast
  qed
  let ?A = "A(k := A d, d := A k)"
  have "key (?A (i div 2)) \<le> key (?A i)" if i: "2 \<le> i" "i \<le> n" "i div 2 \<noteq> d" for i
  proof (cases "i = d \<or> i = s \<or> i = k")
    case True
    then consider "i = d" | "i = s" | "i = k" by blast
    then show ?thesis
    proof cases
      case 1
      then show ?thesis using c le by auto
    next
      case 2
      then show ?thesis using c le(2) i ds(2) by auto
    next
      case 3
      then have "k div 2 \<noteq> k" using i by auto
      then show ?thesis using 3 gp i c(3) by auto
    qed
  next
    case False
    then show ?thesis using c(7) [of i] oi i by auto
  qed
  moreover have "key (?A (d div 2)) \<le> key (?A i)" if "i = 2 * d \<or> i = Suc (2 * d)" "i \<le> n" for i
  proof -
    have "i div 2 = d" "i \<noteq> d" "i \<noteq> k" "2 \<le> i" using that c(3) k by auto
    with oi [of i] c that show ?thesis by auto
  qed
  ultimately show ?thesis by (auto simp: ih_sink_ordered_def)
qed

text \<open>Swapping the node at \<open>k\<close> with its child at \<open>d\<close>: the left and right pointers.\<close>

lemma ih_swap_kids:
  assumes inj: "inj_on A {1..n}" and kids: "ih_kids h A n {}" and ds: "{d, s} = {2 * k, Suc (2 * k)}" "d \<noteq> s" "d \<le> n"
    and k1: "1 \<le> k" and kle: "k \<le> n"
    and h': "ih_root h' = ih_root h"
      "ih_left h' = (ih_left h)(A k := ih_at A n (2 * d), A d := if d = 2 * k then Some (A k) else ih_at A n (2 * k))"
      "ih_right h' = (ih_right h)(A k := ih_at A n (Suc (2 * d)),
         A d := if d = 2 * k then ih_at A n (Suc (2 * k)) else Some (A k))"
  shows "ih_kids (ih_write (ih_slot_of A k) (Some (A d)) h') (A(k := A d, d := A k)) n {}"
    (is "ih_kids ?h ?A _ _")
proof -
  note c = child_places [OF ds(1,2) k1]
  have kd: "k \<in> {1..n}" "d \<in> {1..n}" using k1 kle c ds by auto
  have eq: "A i = A j \<longleftrightarrow> i = j" if "i \<in> {1..n}" "j \<in> {1..n}" for i j using inj that by (rule ih_inj)
  have d: "d = 2 * k \<or> d = Suc (2 * k)" using ds(1) by auto
  have kn: "k div 2 \<le> n" "k div 2 \<noteq> k" "k \<noteq> 2 * k" "k \<noteq> Suc (2 * k)" "d \<noteq> k" using k1 kle c by auto
  note w = ih_write_slot [where p = "Some (A d)" and h = h', OF inj k1 kn(1)]
  have lr: "ih_left ?h (A i) = (if k = 2 * i then Some (A d) else if i = d then if d = 2 * k then Some (A k) else ih_at A n (2 * k)
        else if i = k then ih_at A n (2 * d) else ih_at A n (2 * i))"
    "ih_right ?h (A i) = (if k = Suc (2 * i) then Some (A d) else if i = d then if d = 2 * k then ih_at A n (Suc (2 * k)) else Some (A k)
        else if i = k then ih_at A n (Suc (2 * d)) else ih_at A n (Suc (2 * i)))"
    if i: "i \<in> {1..n}" for i
    using w(2,3) [OF i] kids i eq [OF i kd(1)] eq [OF i kd(2)] by (auto simp: h' ih_kids_def)
  have "ih_left ?h (?A i) = ih_at ?A n (2 * i) \<and> ih_right ?h (?A i) = ih_at ?A n (Suc (2 * i))"
    if i: "i \<in> {1..n}" for i
  proof -
    consider "i = d" | "i = k" | "i \<noteq> d" "i \<noteq> k" by blast
    then show ?thesis
    proof cases
      case 1
      then show ?thesis using lr [OF kd(1)] kn c(3) by (auto simp: ih_at_swap [OF kd])
    next
      case 2
      have "k \<noteq> 2 * d" "k \<noteq> Suc (2 * d)" using c(3) by auto
      then show ?thesis using 2 lr [OF kd(2)] kn d by (auto simp: ih_at_swap [OF kd])
    next
      case 3
      then show ?thesis using lr [OF i] c(5,6) [of i] by (auto simp: ih_at_swap [OF kd])
    qed
  qed
  moreover have "ih_root ?h = ih_at ?A n 1"
    using w(1) kids h'(1) c(3) k1 by (auto simp: ih_kids_def ih_at_swap [OF kd])
  ultimately show ?thesis by (simp add: ih_kids_def)
qed

lemma ih_sinking_step:
  assumes S: "ih_sinking h A k0 k n X" and ds: "{d, s} = {2 * k, Suc (2 * k)}" "d \<noteq> s" "d \<le> n"
    and h': "ih_root h' = ih_root h"
      "ih_left h' = (ih_left h)(A k := ih_at A n (2 * d), A d := if d = 2 * k then Some (A k) else ih_at A n (2 * k))"
      "ih_right h' = (ih_right h)(A k := ih_at A n (Suc (2 * d)),
         A d := if d = 2 * k then ih_at A n (Suc (2 * k)) else Some (A k))"
      "ih_prev h' = (if s \<le> n then (ih_prev h)(A s := Some (A d)) else ih_prev h)"
  shows "ih_sinking (ih_write (ih_slot_of A k) (Some (A d)) h') (A(k := A d, d := A k)) k0 d n X"
    (is "ih_sinking ?h ?A _ _ _ _")
proof -
  from S have k: "1 \<le> k0" "k0 \<le> k" "k \<le> n" and inj: "inj_on A {1..n}" and kids: "ih_kids h A n {}"
    and prevs: "ih_prevs h A n {k0, k, 2 * k, Suc (2 * k)}" and out: "ih_outside h X" "ih_nodes A n \<subseteq> X"
    and ch: "\<And>i. k \<noteq> k0 \<Longrightarrow> i \<in> {2 * k, Suc (2 * k)} \<Longrightarrow> i \<le> n \<Longrightarrow> ih_prev h (A i) = ih_at A n (k div 2)"
    by (auto simp: ih_sinking_def)
  have k1: "1 \<le> k" using k by simp
  note c = child_places [OF ds(1,2) k1]
  have kd: "k \<in> {1..n}" "d \<in> {1..n}" using k c ds by auto
  note sw = ih_swap_nodes [OF inj kd]
  have eq: "A i = A j \<longleftrightarrow> i = j" if "i \<in> {1..n}" "j \<in> {1..n}" for i j using inj that by (rule ih_inj)
  have d: "d = 2 * k \<or> d = Suc (2 * k)" using ds(1) by auto
  have kn: "k div 2 \<le> n" "k div 2 \<noteq> k" "k \<noteq> 2 * k" "k \<noteq> Suc (2 * k)" "d \<noteq> k" using k c by auto
  have K: "ih_kids ?h ?A n {}" by (rule ih_swap_kids [OF inj kids ds k1 k(3) h'(1-3)])
  have pv: "ih_prev ?h (A i) = (if i = s then Some (A d) else ih_prev h (A i))" if "i \<in> {1..n}" for i
    using eq [OF that, of s] that c(4) k by (auto simp: h')
  have "ih_prev ?h (?A i) = ih_at ?A n (i div 2)"
    if i: "i \<in> {1..n}" "i \<notin> {k0, d, 2 * d, Suc (2 * d)}" for i
  proof (cases "i = k")
    case True
    then have "ih_prev ?h (?A i) = ih_at A n (k div 2)"
      using pv [OF kd(2)] ds(2) ch [of d] d i ds(3) kn by auto
    moreover have "k div 2 \<noteq> d" using c(3) by auto
    ultimately show ?thesis using True kn by (simp add: ih_at_swap [OF kd])
  next
    case False
    then have A: "?A i = A i" using i by simp
    show ?thesis
    proof (cases "i = s")
      case True
      then show ?thesis using A pv [OF i(1)] c kn by (simp add: ih_at_swap [OF kd])
    next
      case s: False
      have "i \<notin> {k0, k, 2 * k, Suc (2 * k)}" using i False s ds(1) by auto
      then have "ih_prev h (A i) = ih_at A n (i div 2)" using prevs i by (simp add: ih_prevs_def)
      moreover have "i div 2 \<noteq> d" using i by auto
      moreover have "i div 2 \<noteq> k" using c(7) s i by auto
      ultimately show ?thesis using A pv [OF i(1)] s by (simp add: ih_at_swap [OF kd])
    qed
  qed
  then have P: "ih_prevs ?h ?A n {k0, d, 2 * d, Suc (2 * d)}" by (simp add: ih_prevs_def)
  have "ih_prev ?h (?A i) = ih_at ?A n (d div 2)" if i: "i \<in> {2 * d, Suc (2 * d)}" "i \<le> n" for i
  proof -
    have i': "i \<in> {1..n}" "i \<notin> {k0, k, 2 * k, Suc (2 * k)}" "i \<noteq> s" "i div 2 = d" "i \<noteq> d"
      using i c k d ds(1) by auto
    then have "ih_prev h (A i) = Some (A d)" using prevs kd by (auto simp: ih_prevs_def)
    then show ?thesis using pv [OF i'(1)] i' c(1) kn by (auto simp: ih_at_swap [OF kd])
  qed
  moreover have "ih_outside ?h X"
    using out c(4) k by (auto simp: h' ih_outside_def ih_nodes_def)
  ultimately show ?thesis using K P sw k c kd out(2) by (auto simp: ih_sinking_def)
qed


text \<open>What sifting down leaves: a heap but for the \<^verbatim>\<open>Prev\<close> member at the place it started from.\<close>

definition ih_sunk ::
  "(addr \<Rightarrow> 'k::linorder) \<Rightarrow> iheap \<Rightarrow> (nat \<Rightarrow> addr) \<Rightarrow> nat \<Rightarrow> nat \<Rightarrow> addr set \<Rightarrow> iheap \<Rightarrow> (nat \<Rightarrow> addr) \<Rightarrow> bool" where
  "ih_sunk key h A k0 n X h' B \<longleftrightarrow>
     ih_size h' = ih_size h \<and> inj_on B {1..n} \<and> ih_kids h' B n {} \<and> ih_prevs h' B n {k0} \<and>
     ih_outside h' X \<and> ih_ordered key B n \<and> ih_nodes B n = ih_nodes A n \<and> (\<forall>i < k0. B i = A i)"

lemma ih_sinking_settle:
  assumes S: "ih_sinking h A k0 k n X" and o: "ih_sink_ordered key A k n"
    and p: "k \<noteq> k0 \<longrightarrow> parent = ih_at A n (k div 2)"
    and le: "\<And>i. i \<in> {2 * k, Suc (2 * k)} \<Longrightarrow> i \<le> n \<Longrightarrow> key (A k) \<le> key (A i)"
    and h': "ih_root h' = ih_root h" "ih_left h' = ih_left h" "ih_right h' = ih_right h" "ih_size h' = ih_size h"
      "ih_prev h' = (\<lambda>a. if a = A k then parent else if ih_at A n (2 * k) = Some a \<or> ih_at A n (Suc (2 * k)) = Some a
        then Some (A k) else ih_prev h a)"
  shows "ih_sunk key h A k0 n X h' A"
proof -
  from S have k: "1 \<le> k0" "k0 \<le> k" "k \<le> n" and inj: "inj_on A {1..n}" and kids: "ih_kids h A n {}"
    and prevs: "ih_prevs h A n {k0, k, 2 * k, Suc (2 * k)}" and out: "ih_outside h X" "ih_nodes A n \<subseteq> X"
    by (auto simp: ih_sinking_def)
  have K: "ih_kids h' A n {}" using kids by (simp add: ih_kids_def h')
  have kn: "k \<in> {1..n}" "k \<noteq> 2 * k" "k \<noteq> Suc (2 * k)" using k by auto
  have at: "ih_at A n j = Some (A i) \<longleftrightarrow> i = j" if "i \<in> {1..n}" "j \<noteq> 0" for i j
    using inj that by (auto simp: ih_at_mem dest: inj_onD)
  have "ih_prev h' (A i) = ih_at A n (i div 2)" if i: "i \<in> {1..n}" "i \<noteq> k0" for i
  proof (cases "i \<in> {k, 2 * k, Suc (2 * k)}")
    case True
    then consider "i = k" | "i = 2 * k \<or> i = Suc (2 * k)" by blast
    then show ?thesis
    proof cases
      case 1
      then show ?thesis using p i by (simp add: h')
    next
      case 2
      then have "i \<noteq> k" "i div 2 = k" using kn by auto
      moreover have "A i \<noteq> A k" using \<open>i \<noteq> k\<close> ih_inj [OF inj i(1) kn(1)] by simp
      ultimately show ?thesis using 2 i k at [OF i(1)] by (auto simp: h')
    qed
  next
    case False
    moreover have "A i \<noteq> A k" using False ih_inj [OF inj i(1) kn(1)] by simp
    ultimately show ?thesis using prevs i at [OF i(1)] k by (auto simp: h' ih_prevs_def)
  qed
  then have P: "ih_prevs h' A n {k0}" by (simp add: ih_prevs_def)
  have "A i \<in> X" if "1 \<le> i" "i \<le> n" for i using out(2) that by (auto simp: ih_nodes_def)
  then have "ih_outside h' X"
    using out(1) k by (auto simp: h' ih_outside_def ih_at_mem)
  moreover have "ih_ordered key A n"
    unfolding ih_ordered_def
  proof
    fix i assume i: "i \<in> {2..n}"
    show "key (A (i div 2)) \<le> key (A i)"
    proof (cases "i div 2 = k")
      case True
      then have "i = 2 * k \<or> i = Suc (2 * k)" by presburger
      then show ?thesis using le [of i] True i by auto
    qed (use o i in \<open>auto simp: ih_sink_ordered_def\<close>)
  qed
  ultimately show ?thesis using K P inj h'(4) by (simp add: ih_sunk_def)
qed

lemma ih_sunk_trans:
  assumes "ih_sunk key h1 A1 k0 n X h' B" and "ih_size h1 = ih_size h" and "ih_nodes A1 n = ih_nodes A n"
    and "\<And>i. i < k0 \<Longrightarrow> A1 i = A i"
  shows "ih_sunk key h A k0 n X h' B"
  using assms unfolding ih_sunk_def by metis

lemma ih_sift_down_correct:
  assumes "ih_sinking h A k0 k n X" and "ih_sink_ordered key A k n"
    and "k \<noteq> k0 \<longrightarrow> parent = ih_at A n (k div 2)"
  shows "\<exists>h' B. ih_sift_down key (A k) (ih_slot_of A k) parent h = Some h' \<and> ih_sunk key h A k0 n X h' B"
  using assms
proof (induction "n - k" arbitrary: h A k parent rule: less_induct)
  case less
  have k: "1 \<le> k" "k \<le> n" "1 \<le> k0" "k0 \<le> k" "k \<noteq> 2 * k" "k \<noteq> Suc (2 * k)" and inj: "inj_on A {1..n}" and kids: "ih_kids h A n {}"
    using less.prems(1) by (auto simp: ih_sinking_def)
  let ?l = "2 * k" and ?r = "Suc (2 * k)"
  have lr: "ih_left h (A k) = ih_at A n ?l" "ih_right h (A k) = ih_at A n ?r"
    using kids k by (auto simp: ih_kids_def)
  have eq: "A i = A j \<longleftrightarrow> i = j" if "i \<in> {1..n}" "j \<in> {1..n}" for i j using inj that by (rule ih_inj)
  have down: ?case
    if ds: "{d, s} = {?l, ?r}" "d \<noteq> s" "d \<le> n" and lt: "key (A d) < key (A k)"
      and ls: "s \<le> n \<Longrightarrow> key (A d) \<le> key (A s)"
      and hx: "ih_root hx = ih_root h" "ih_size hx = ih_size h"
        "ih_left hx = (ih_left h)(A k := ih_at A n (2 * d), A d := if d = 2 * k then Some (A k) else ih_at A n (2 * k))"
        "ih_right hx = (ih_right h)(A k := ih_at A n (Suc (2 * d)),
           A d := if d = 2 * k then ih_at A n (Suc (2 * k)) else Some (A k))"
        "ih_prev hx = (if s \<le> n then (ih_prev h)(A s := Some (A d)) else ih_prev h)"
      and run: "ih_sift_down key (A k) (ih_slot_of A k) parent h =
        ih_sift_down key (A k) (if d = ?l then LeftSlot (A d) else RightSlot (A d)) (Some (A d))
          (ih_write (ih_slot_of A k) (Some (A d)) hx)" for d s hx
  proof -
    let ?A = "A(k := A d, d := A k)" and ?h = "ih_write (ih_slot_of A k) (Some (A d)) hx"
    note c = child_places [OF ds(1,2) k(1)]
    have d: "d = ?l \<or> d = ?r" using ds(1) by auto
    have kd: "k \<in> {1..n}" "d \<in> {1..n}" using k c ds by auto
    have S: "ih_sinking ?h ?A k0 d n X" by (rule ih_sinking_step [OF less.prems(1) ds hx(1,3-5)])
    have O: "ih_sink_ordered key ?A d n" by (rule ih_sink_order_step [OF less.prems(2) ds(1,2) k(1) ds(3) lt ls])
    have sl: "ih_slot_of ?A d = (if d = ?l then LeftSlot (A d) else RightSlot (A d))"
      using d c(1,3) k by (auto simp: ih_slot_of_def)
    have "\<exists>h' B. ih_sift_down key (?A d) (ih_slot_of ?A d) (Some (A d)) ?h = Some h' \<and> ih_sunk key ?h ?A k0 n X h' B"
      by (rule less.hyps [OF _ S O]) (use k c ds kd in \<open>auto simp: ih_at_swap [OF kd]\<close>)
    then obtain h' B where r: "ih_sift_down key (?A d) (ih_slot_of ?A d) (Some (A d)) ?h = Some h'"
      "ih_sunk key ?h ?A k0 n X h' B" by blast
    from r(1) have "ih_sift_down key (A k) (ih_slot_of A k) parent h = Some h'"
      unfolding run sl fun_upd_same .
    moreover have "ih_sunk key h A k0 n X h' B"
      by (rule ih_sunk_trans [OF r(2)]) (use hx(2) ih_swap_nodes [OF inj kd] k c in auto)
    ultimately show ?thesis by blast
  qed
  show ?case
  proof (cases "?l \<le> n")
    case False
    let ?h = "ih_set_prev (A k) parent h"
    have "ih_sift_down key (A k) (ih_slot_of A k) parent h = Some ?h"
      using lr(1) False by (subst ih_sift_down.simps) simp
    moreover have "ih_sunk key h A k0 n X ?h A"
      by (rule ih_sinking_settle [OF less.prems]) (use False in \<open>auto simp: ih_sets fun_eq_iff\<close>)
    ultimately show ?thesis by blast
  next
    case L: True
    show ?thesis
    proof (cases "?r \<le> n")
      case R: True
      have e: "ih_left h (A k) = Some (A ?l)" "ih_right h (A k) = Some (A ?r)" using lr L R k by simp_all
      have n: "A ?l \<noteq> A k" "A ?r \<noteq> A k" "A ?l \<noteq> A ?r" using eq L R k by auto
      have kc: "ih_left h (A ?l) = ih_at A n (2 * ?l)" "ih_right h (A ?l) = ih_at A n (Suc (2 * ?l))"
        "ih_left h (A ?r) = ih_at A n (2 * ?r)" "ih_right h (A ?r) = ih_at A n (Suc (2 * ?r))"
        using kids L R k by (auto simp: ih_kids_def)
      show ?thesis
      proof (cases "key (A ?r) < key (A ?l)")
        case rl: True
        show ?thesis
        proof (cases "key (A ?r) < key (A k)")
          case True
          show ?thesis
          proof (rule down [of ?r ?l "ih_set_prev (A ?l) (Some (A ?r)) (ih_swap_with_right_child (A k) (A ?r) h)"])
            show "ih_sift_down key (A k) (ih_slot_of A k) parent h =
              ih_sift_down key (A k) (if ?r = ?l then LeftSlot (A ?r) else RightSlot (A ?r)) (Some (A ?r))
                (ih_write (ih_slot_of A k) (Some (A ?r))
                   (ih_set_prev (A ?l) (Some (A ?r)) (ih_swap_with_right_child (A k) (A ?r) h)))"
              using e rl True by (subst ih_sift_down.simps) (simp add: Let_def)
          qed (use rl True L R n e kc k in \<open>auto simp: ih_swap_with_right_child_def Let_def ih_sets fun_eq_iff\<close>)
        next
          case False
          let ?h = "ih_set_prev (A k) parent (ih_set_prev (A ?l) (Some (A k)) (ih_set_prev (A ?r) (Some (A k)) h))"
          have "ih_sift_down key (A k) (ih_slot_of A k) parent h = Some ?h"
            using e rl False by (subst ih_sift_down.simps) simp
          moreover have "ih_sunk key h A k0 n X ?h A"
            by (rule ih_sinking_settle [OF less.prems]) (use False rl L R k in \<open>auto simp: ih_sets fun_eq_iff\<close>)
          ultimately show ?thesis by blast
        qed
      next
        case rl: False
        show ?thesis
        proof (cases "key (A ?l) < key (A k)")
          case True
          show ?thesis
          proof (rule down [of ?l ?r "ih_set_prev (A ?r) (Some (A ?l)) (ih_swap_with_left_child (A k) (A ?l) h)"])
            show "ih_sift_down key (A k) (ih_slot_of A k) parent h =
              ih_sift_down key (A k) (if ?l = ?l then LeftSlot (A ?l) else RightSlot (A ?l)) (Some (A ?l))
                (ih_write (ih_slot_of A k) (Some (A ?l))
                   (ih_set_prev (A ?r) (Some (A ?l)) (ih_swap_with_left_child (A k) (A ?l) h)))"
              using e rl True by (subst ih_sift_down.simps) (simp add: Let_def)
          qed (use rl True L R n e kc k in \<open>auto simp: ih_swap_with_left_child_def Let_def ih_sets fun_eq_iff\<close>)
        next
          case False
          let ?h = "ih_set_prev (A k) parent (ih_set_prev (A ?l) (Some (A k)) (ih_set_prev (A ?r) (Some (A k)) h))"
          have "ih_sift_down key (A k) (ih_slot_of A k) parent h = Some ?h"
            using e rl False by (subst ih_sift_down.simps) simp
          moreover have "ih_sunk key h A k0 n X ?h A"
            by (rule ih_sinking_settle [OF less.prems]) (use False rl L R k in \<open>auto simp: ih_sets fun_eq_iff\<close>)
          ultimately show ?thesis by blast
        qed
      qed
    next
      case R: False
      have e: "ih_left h (A k) = Some (A ?l)" "ih_right h (A k) = None" using lr L R k by simp_all
      have n: "A ?l \<noteq> A k" using eq L k by auto
      have kc: "ih_left h (A ?l) = ih_at A n (2 * ?l)" "ih_right h (A ?l) = ih_at A n (Suc (2 * ?l))"
        using kids L k by (auto simp: ih_kids_def)
      show ?thesis
      proof (cases "key (A ?l) < key (A k)")
        case True
        show ?thesis
        proof (rule down [of ?l ?r "ih_swap_with_left_child (A k) (A ?l) h"])
          show "ih_sift_down key (A k) (ih_slot_of A k) parent h =
            ih_sift_down key (A k) (if ?l = ?l then LeftSlot (A ?l) else RightSlot (A ?l)) (Some (A ?l))
              (ih_write (ih_slot_of A k) (Some (A ?l)) (ih_swap_with_left_child (A k) (A ?l) h))"
            using e True by (subst ih_sift_down.simps) (simp add: Let_def)
        qed (use True L R n e kc k in \<open>auto simp: ih_swap_with_left_child_def Let_def ih_sets fun_eq_iff\<close>)
      next
        case False
        let ?h = "ih_set_prev (A k) parent (ih_set_prev (A ?l) (Some (A k)) h)"
        have "ih_sift_down key (A k) (ih_slot_of A k) parent h = Some ?h"
          using e False by (subst ih_sift_down.simps) simp
        moreover have "ih_sunk key h A k0 n X ?h A"
          by (rule ih_sinking_settle [OF less.prems]) (use False L R k in \<open>auto simp: ih_sets fun_eq_iff\<close>)
        ultimately show ?thesis by blast
      qed
    qed
  qed
qed


section \<open>Replacing a node by the last leaf\<close>

lemma ih_replace:
  assumes R: "ih_rep h A n" and k: "1 \<le> k" "k < n"
  defines "h1 \<equiv> ih_write (ih_slot_of A n) None h"
  defines "h2 \<equiv> ih_set_left (A n) (ih_left h1 (A k)) (ih_set_right (A n) (ih_right h1 (A k)) h1)"
  defines "h3 \<equiv> ih_write (ih_slot_of A k) (Some (A n)) h2"
  shows "inj_on (A(k := A n)) {1..n - 1}" "ih_nodes (A(k := A n)) (n - 1) = ih_nodes A n - {A k}"
    "ih_kids h3 (A(k := A n)) (n - 1) {}" "ih_prevs h3 (A(k := A n)) (n - 1) {k, 2 * k, Suc (2 * k)}"
    "ih_outside h3 (ih_nodes A n)" "ih_prev h3 (A k) = ih_at A n (k div 2)" "ih_size h3 = n"
    "2 \<le> k \<Longrightarrow> ih_right h2 (A (k div 2)) = Some (A k) \<longleftrightarrow> odd k"
    "ih_outside h3 (insert (A k) (ih_nodes (A(k := A n)) (n - 1)))"
proof -
  let ?A = "A(k := A n)"
  have inj: "inj_on A {1..n}" and K: "ih_kids h A n {}" and P: "ih_prevs h A n {}"
    and O: "ih_outside h (ih_nodes A n)" and sz: "ih_size h = n"
    using R by (auto simp: ih_rep_def)
  have inj': "inj_on A {1..n - 1}" using inj by (rule inj_on_subset) auto
  have nn: "A n \<notin> ih_nodes A (n - 1)"
  proof
    assume "A n \<in> ih_nodes A (n - 1)"
    then obtain i where "i \<in> {1..n - 1}" "A n = A i" by (auto simp: ih_nodes_def)
    moreover from this k have "i \<in> {1..n}" "n \<in> {1..n}" "i \<noteq> n" by auto
    ultimately show False using ih_inj [OF inj, of n i] by simp
  qed
  have kk: "k \<le> n - 1" using k by simp
  note u = ih_nodes_upd [OF inj' k(1) kk nn]
  have "{1..n} = insert n {1..n - 1}" using k by auto
  then have An: "ih_nodes A n = insert (A n) (ih_nodes A (n - 1))" by (simp add: ih_nodes_def)
  have Ak: "A k \<in> ih_nodes A (n - 1)" using k by (auto simp: ih_nodes_def)
  with nn have ne: "A k \<noteq> A n" by auto
  show "inj_on ?A {1..n - 1}" by (rule u(1))
  show N: "ih_nodes ?A (n - 1) = ih_nodes A n - {A k}" using u(2) An ne nn by auto
  have K1: "ih_kids h1 A (n - 1) {}" unfolding h1_def using K inj k by (intro ih_kids_remove_last) auto
  have nA: "A i \<noteq> A n" if "i \<in> {1..n - 1}" for i
    using nn that by (intro ih_node_neq) auto
  have kd: "k div 2 \<le> n - 1" using k by auto
  note w = ih_write_slot [where p = "Some (A n)" and h = h2, OF inj' k(1) kd, folded h3_def]
  have lr2: "ih_left h2 (A i) = ih_at A (n - 1) (2 * i)" "ih_right h2 (A i) = ih_at A (n - 1) (Suc (2 * i))"
    if "i \<in> {1..n - 1}" for i
    using K1 nA [OF that] that by (auto simp: h2_def ih_sets ih_kids_def)
  have kn: "k \<in> {1..n - 1}" using k by auto
  have n2: "ih_left h2 (A n) = ih_at A (n - 1) (2 * k)" "ih_right h2 (A n) = ih_at A (n - 1) (Suc (2 * k))"
    using K1 kn by (auto simp: h2_def ih_sets ih_kids_def)
  have k2: "k \<noteq> 2 * k" "k \<noteq> Suc (2 * k)" "k div 2 \<noteq> k" using k by auto
  have "ih_left h3 (?A i) = ih_at ?A (n - 1) (2 * i) \<and> ih_right h3 (?A i) = ih_at ?A (n - 1) (Suc (2 * i))"
    if i: "i \<in> {1..n - 1}" for i
  proof (cases "i = k")
    case True
    then show ?thesis using w(4,5) [OF nn] n2 k2 by (simp add: ih_at_upd)
  next
    case False
    then show ?thesis using w(2,3) [OF i] lr2 [OF i] kn by (auto simp: ih_at_upd)
  qed
  moreover have "ih_root h3 = ih_at ?A (n - 1) 1"
    using w(1) K1 k by (auto simp: h2_def ih_sets ih_kids_def ih_at_upd)
  ultimately show "ih_kids h3 ?A (n - 1) {}" by (simp add: ih_kids_def)
  have pv: "ih_prev h3 = ih_prev h" by (simp add: h3_def h2_def h1_def ih_sets)
  have "ih_prev h3 (?A i) = ih_at ?A (n - 1) (i div 2)"
    if i: "i \<in> {1..n - 1}" "i \<notin> {k, 2 * k, Suc (2 * k)}" for i
  proof -
    have "i div 2 \<noteq> k" "i div 2 \<noteq> n" using i by auto
    then show ?thesis using P i pv by (auto simp: ih_prevs_def ih_at_def)
  qed
  then show "ih_prevs h3 ?A (n - 1) {k, 2 * k, Suc (2 * k)}" by (simp add: ih_prevs_def)
  show O3: "ih_outside h3 (ih_nodes A n)" using O pv by (simp add: ih_outside_def)
  have "insert (A k) (ih_nodes ?A (n - 1)) = ih_nodes A n" using N An Ak by auto
  with O3 show "ih_outside h3 (insert (A k) (ih_nodes ?A (n - 1)))" by simp
  show "ih_prev h3 (A k) = ih_at A n (k div 2)" using P k pv by (auto simp: ih_prevs_def)
  show "ih_size h3 = n" using sz by (simp add: h3_def h2_def h1_def ih_sets)
  show "ih_right h2 (A (k div 2)) = Some (A k) \<longleftrightarrow> odd k" if "2 \<le> k"
  proof -
    have "k div 2 \<in> {1..n - 1}" using that k by auto
    from lr2(2) [OF this] have "ih_right h2 (A (k div 2)) = Some (A k) \<longleftrightarrow>
        Suc (2 * (k div 2)) \<le> n - 1 \<and> A k = A (Suc (2 * (k div 2)))" by (auto simp: ih_at_def)
    also have "\<dots> \<longleftrightarrow> Suc (2 * (k div 2)) = k"
      using ih_inj [OF inj', of k "Suc (2 * (k div 2))"] kn by auto
    finally show ?thesis by presburger
  qed
qed


text \<open>Setting the one missing \<^verbatim>\<open>Prev\<close> member after sifting down completes the heap.\<close>

lemma ih_sunk_finish:
  assumes "ih_sunk key h A k n X h' B" and "ih_size h = n" and "1 \<le> k" "k \<le> n"
    and "ih_nodes A n \<subseteq> X" and "\<And>a. a \<in> X \<Longrightarrow> a \<notin> ih_nodes A n \<Longrightarrow> a = z"
    and "z \<notin> ih_nodes A n"
  shows "ih_rep (ih_set_prev z None (ih_set_prev (B k) (ih_at B n (k div 2)) h')) B n"
    "ih_ordered key B n" "ih_nodes B n = ih_nodes A n"
proof -
  from assms(1) have s: "ih_size h' = ih_size h" "inj_on B {1..n}" "ih_kids h' B n {}" "ih_prevs h' B n {k}"
    "ih_outside h' X" "ih_nodes B n = ih_nodes A n" "ih_ordered key B n" by (auto simp: ih_sunk_def)
  have nz: "B i \<noteq> z" if "i \<in> {1..n}" for i using s(6) assms(7) that by (auto simp: ih_nodes_def)
  have "ih_prev (ih_set_prev z None (ih_set_prev (B k) (ih_at B n (k div 2)) h')) (B i) = ih_at B n (i div 2)"
    if i: "i \<in> {1..n}" for i
    using s(4) ih_inj [OF s(2) i, of k] nz [OF i] i assms(3,4)
    by (cases "i = k") (auto simp: ih_sets ih_prevs_def)
  moreover have "ih_outside (ih_set_prev z None (ih_set_prev (B k) (ih_at B n (k div 2)) h')) (ih_nodes B n)"
    unfolding ih_outside_def
  proof (intro allI impI)
    fix a assume a: "a \<notin> ih_nodes B n"
    then have "a \<noteq> B k" using assms(3,4) by (auto simp: ih_nodes_def)
    with a show "ih_prev (ih_set_prev z None (ih_set_prev (B k) (ih_at B n (k div 2)) h')) a = None"
      using s(5,6) assms(6) [of a] by (cases "a \<in> X") (auto simp: ih_sets ih_outside_def)
  qed
  ultimately show "ih_rep (ih_set_prev z None (ih_set_prev (B k) (ih_at B n (k div 2)) h')) B n"
    using s assms(2) by (simp add: ih_rep_def ih_prevs_def ih_kids_def ih_sets)
  show "ih_ordered key B n" "ih_nodes B n = ih_nodes A n" using s by simp_all
qed

lemma ih_replace_order:
  assumes "ih_ordered key A n" and "1 \<le> k" "k < n"
    and "k = 1 \<or> key (A (k div 2)) \<le> key (A n)"
  shows "ih_sink_ordered key (A(k := A n)) k (n - 1)"
proof -
  have o: "key (A (i div 2)) \<le> key (A i)" if "2 \<le> i" "i \<le> n" for i
    using assms(1) that by (simp add: ih_ordered_def)
  have k: "k div 2 \<noteq> k" using assms(2) by auto
  have g: "key (A (k div 2)) \<le> key (A i)" if "2 \<le> k" "i \<in> {2 * k, Suc (2 * k)}" "i \<le> n - 1" for i
  proof -
    have "key (A (k div 2)) \<le> key (A k)" using o [of k] that(1) assms(3) by simp
    also have "\<dots> \<le> key (A i)" using o [of i] that by auto
    finally show ?thesis .
  qed
  show ?thesis
    unfolding ih_sink_ordered_def
  proof (intro conjI ballI impI)
    fix i assume i: "i \<in> {2..n - 1}" "i div 2 \<noteq> k"
    show "key ((A(k := A n)) (i div 2)) \<le> key ((A(k := A n)) i)"
      using o [of i] i assms(4) by (cases "i = k") auto
  next
    fix i assume "2 \<le> k" "i \<in> {2 * k, Suc (2 * k)}" "i \<le> n - 1"
    with g [OF this] k show "key ((A(k := A n)) (k div 2)) \<le> key ((A(k := A n)) i)" by auto
  qed
qed

lemma ih_root_min:
  assumes "ih_ordered key A n" and "1 \<le> i" "i \<le> n"
  shows "key (A 1) \<le> key (A i)"
  using assms(2,3)
proof (induction i rule: less_induct)
  case (less i)
  show ?case
  proof (cases "i = 1")
    case False
    then have "1 \<le> i div 2" "i div 2 < i" "i div 2 \<le> n" using less.prems by auto
    then have "key (A 1) \<le> key (A (i div 2))" by (intro less.IH)
    also have "\<dots> \<le> key (A i)" using assms(1) False less.prems by (simp add: ih_ordered_def)
    finally show ?thesis .
  qed simp
qed

lemma ih_pop_front_correct:
  assumes R: "ih_rep h A n" and O: "ih_ordered key A n"
  shows "\<exists>h' B. ih_pop_front key h = Some h' \<and> ih_rep h' B (n - 1) \<and> ih_ordered key B (n - 1) \<and>
    ih_nodes B (n - 1) = ih_nodes A n - {A 1}"
proof (cases "n \<le> 1")
  case True
  have "ih_prev h a = None" for a
    using R True by (cases "a \<in> ih_nodes A n") (auto simp: ih_rep_def ih_outside_def ih_prevs_def ih_nodes_def le_Suc_eq)
  then have "ih_rep (h\<lparr>ih_root := None, ih_size := 0\<rparr>) A 0"
    by (simp add: ih_rep_def ih_kids_def ih_prevs_def ih_outside_def)
  moreover have "ih_pop_front key h = Some (h\<lparr>ih_root := None, ih_size := 0\<rparr>)"
    using R True by (simp add: ih_pop_front_def ih_rep_def)
  moreover have "ih_ordered key A 0" "ih_nodes A 0 = ih_nodes A n - {A 1}"
    using True by (auto simp: ih_ordered_def ih_nodes_def le_Suc_eq)
  moreover have "n - 1 = 0" using True by simp
  ultimately show ?thesis by metis
next
  case False
  let ?h1 = "ih_write (ih_slot_of A n) None h" and ?A = "A(1 := A n)"
  let ?h2 = "ih_set_left (A n) (ih_left ?h1 (A 1)) (ih_set_right (A n) (ih_right ?h1 (A 1)) ?h1)"
  let ?h3 = "?h2\<lparr>ih_root := Some (A n), ih_size := n - 1\<rparr>"
  have n: "1 \<le> (1::nat)" "1 < n" "1 \<le> n" using False by auto
  have sl: "ih_slot_of A 1 = RootSlot" "ih_slot_of ?A 1 = RootSlot" by (simp_all add: ih_slot_of_def)
  note r = ih_replace [OF R n(1,2), unfolded sl ih_write.simps]
  have K: "ih_kids h A n {}" "ih_root h = Some (A 1)" "ih_size h = n" "inj_on A {1..n}"
    using R n by (auto simp: ih_rep_def ih_kids_def)
  have "ih_kids ?h1 A (n - 1) {}" using K n by (intro ih_kids_remove_last)
  then have r1: "ih_root ?h1 = Some (A 1)" using n by (simp add: ih_kids_def)
  have s2: "ih_size ?h2 = n" using K(3) by (simp add: ih_sets)
  have p1: "ih_prev ?h3 (A 1) = None" using r(6) by simp
  have "ih_sinking ?h3 ?A 1 1 (n - 1) (ih_nodes ?A (n - 1))"
  proof -
    have "ih_kids ?h3 ?A (n - 1) {}" "ih_prevs ?h3 ?A (n - 1) {1, 1, 2 * 1, Suc (2 * 1)}"
      using r(3,4) by (simp_all only: ih_size_irrelevant mult_1_right insert_absorb2)
    moreover have "ih_outside ?h3 (ih_nodes ?A (n - 1))"
      unfolding ih_outside_def
    proof (intro allI impI)
      fix a assume "a \<notin> ih_nodes ?A (n - 1)"
      then show "ih_prev ?h3 a = None" using p1 r(9) by (cases "a = A 1") (auto simp: ih_outside_def)
    qed
    ultimately show ?thesis using n r(1) by (simp add: ih_sinking_def)
  qed
  moreover have "ih_sink_ordered key ?A 1 (n - 1)" using O n by (intro ih_replace_order) auto
  ultimately obtain h4 B where h4: "ih_sift_down key (A n) RootSlot None ?h3 = Some h4"
    "ih_sunk key ?h3 ?A 1 (n - 1) (ih_nodes ?A (n - 1)) h4 B"
    using ih_sift_down_correct [of ?h3 ?A 1 1 "n - 1" "ih_nodes ?A (n - 1)" key None] sl(2) by auto
  have "ih_kids h4 B (n - 1) {}" using h4(2) by (simp add: ih_sunk_def)
  then have r4: "ih_root h4 = Some (B 1)" using n by (simp add: ih_kids_def)
  have run: "ih_pop_front key h = Some (ih_set_prev (B 1) None h4)"
    using n K(2,3) ih_remove_last_leaf_correct [OF K(1) n(3)] r1 h4(1) r4 s2
    by (simp add: ih_pop_front_def Let_def)
  have z: "A 1 \<notin> ih_nodes ?A (n - 1)" using r(2) by simp
  note f = ih_sunk_finish [OF h4(2), of "A 1"]
  have "ih_rep (ih_set_prev (A 1) None (ih_set_prev (B 1) (ih_at B (n - 1) (1 div 2)) h4)) B (n - 1)"
    using n z by (intro f(1)) auto
  moreover have "B 1 \<in> ih_nodes B (n - 1)" using n by (auto simp: ih_nodes_def)
  then have B1: "B 1 \<noteq> A 1" using z h4(2) unfolding ih_sunk_def by metis
  have "ih_prev h4 (A 1) = None" using h4(2) z by (auto simp: ih_sunk_def ih_outside_def)
  then have "ih_set_prev (A 1) None (ih_set_prev (B 1) None h4) = ih_set_prev (B 1) None h4"
    using B1 by (simp add: ih_sets fun_upd_idem)
  ultimately have "ih_rep (ih_set_prev (B 1) None h4) B (n - 1)" by simp
  moreover have "ih_ordered key B (n - 1)" "ih_nodes B (n - 1) = ih_nodes A n - {A 1}"
    using h4(2) r(2) by (simp_all add: ih_sunk_def)
  ultimately show ?thesis using run by blast
qed


section \<open>Sifting up\<close>

text \<open>
  The node \<open>A k\<close> rises: the order fails at most between \<open>k\<close> and its parent.  The children of
  \<open>k\<close> have been promised the node that will be at \<open>k\<close>: the one at \<open>c1\<close> already points to the
  present parent, the one at \<open>c0\<close> is written next.
\<close>

definition ih_rising :: "iheap \<Rightarrow> (nat \<Rightarrow> addr) \<Rightarrow> nat \<Rightarrow> nat \<Rightarrow> addr set \<Rightarrow> nat \<Rightarrow> nat \<Rightarrow> bool" where
  "ih_rising h A k n X c0 c1 \<longleftrightarrow>
     2 \<le> k \<and> k \<le> n \<and> (even k \<longrightarrow> k < n) \<and> {c0, c1} = {2 * k, Suc (2 * k)} \<and> c0 \<noteq> c1 \<and>
     inj_on A {1..n} \<and> ih_kids h A n {} \<and> ih_prevs h A n {k, c0, c1} \<and>
     (c1 \<le> n \<longrightarrow> ih_prev h (A c1) = Some (A (k div 2))) \<and>
     ih_outside h X \<and> ih_nodes A n \<subseteq> X"

definition ih_rise_ordered :: "(addr \<Rightarrow> 'k::linorder) \<Rightarrow> (nat \<Rightarrow> addr) \<Rightarrow> nat \<Rightarrow> nat \<Rightarrow> bool" where
  "ih_rise_ordered key A k n \<longleftrightarrow>
     (\<forall>i \<in> {2..n}. i \<noteq> k \<longrightarrow> key (A (i div 2)) \<le> key (A i)) \<and>
     (\<forall>i \<in> {2 * k, Suc (2 * k)}. i \<le> n \<longrightarrow> key (A (k div 2)) \<le> key (A i)) \<and>
     key (A 1) \<le> key (A k)"

lemma ih_write_prev_simps [simp]:
  "ih_left (ih_write_prev c p h) = ih_left h" "ih_right (ih_write_prev c p h) = ih_right h"
  "ih_root (ih_write_prev c p h) = ih_root h" "ih_size (ih_write_prev c p h) = ih_size h"
  by (auto simp: ih_write_prev_def ih_sets split: option.split)

text \<open>One turn of the loop, up to the test of its condition.\<close>

definition ih_sift_up_turn ::
  "addr \<Rightarrow> addr \<Rightarrow> addr option \<Rightarrow> addr option \<Rightarrow> iheap \<Rightarrow> (addr \<times> addr \<times> iheap) option" where
  "ih_sift_up_turn cur parent grand_parent child0 h = do {
     let h1 = ih_write_prev child0 (Some parent) h;
     let right = (ih_right h1 parent = Some cur);
     sibling \<leftarrow> (if right then ih_left h1 parent else ih_right h1 parent);
     let h2 = (if right then ih_swap_with_right_child parent cur h1 else ih_swap_with_left_child parent cur h1);
     g \<leftarrow> grand_parent;
     let h3 = (if ih_right h2 g = Some parent then ih_set_right g (Some cur) h2 else ih_set_left g (Some cur) h2);
     Some (g, sibling, h3)
   }"

lemma ih_sift_up_loop_turn:
  "ih_sift_up_loop key cur parent grand_parent child0 child1 h =
     (case ih_sift_up_turn cur parent grand_parent child0 h of
        None \<Rightarrow> None
      | Some (g, sibling, h3) \<Rightarrow>
          if key cur < key g then ih_sift_up_loop key cur g (ih_prev h3 g) (Some sibling) (Some parent) h3
          else Some (ih_set_prev cur (Some g) (ih_set_prev parent (Some cur) (ih_set_prev sibling (Some cur) h3))))"
  by (subst ih_sift_up_loop.simps)
     (auto simp: ih_sift_up_turn_def Let_def split: bind_splits if_splits)

lemma ih_rise_order_step:
  assumes o: "ih_rise_ordered key A k n" and k: "4 \<le> k" "k \<le> n" and lt: "key (A k) < key (A (k div 2))"
  shows "ih_rise_ordered key (A(k div 2 := A k, k := A (k div 2))) (k div 2) n"
proof -
  let ?p = "k div 2" and ?A = "A(k div 2 := A k, k := A (k div 2))"
  have p: "?p \<noteq> k" "2 \<le> ?p" "?p div 2 \<noteq> ?p" "?p div 2 \<noteq> k" "?p < k" "1 \<noteq> ?p" "1 \<noteq> k" using k by auto
  have oi: "key (A (i div 2)) \<le> key (A i)" if "2 \<le> i" "i \<le> n" "i \<noteq> k" for i
    using o that by (simp add: ih_rise_ordered_def)
  have gp: "key (A ?p) \<le> key (A i)" if "i div 2 = k" "i \<le> n" for i
  proof -
    have "i \<in> {2 * k, Suc (2 * k)}" using that(1) by auto
    with o that(2) show ?thesis unfolding ih_rise_ordered_def by blast
  qed
  have pp: "key (A (?p div 2)) \<le> key (A ?p)" using oi [of ?p] p k by simp
  have "key (?A (i div 2)) \<le> key (?A i)" if i: "2 \<le> i" "i \<le> n" "i \<noteq> ?p" for i
  proof -
    consider "i = k" | "i div 2 = k" | "i \<noteq> k" "i div 2 = ?p" | "i \<noteq> k" "i div 2 \<noteq> k" "i div 2 \<noteq> ?p" by blast
    then show ?thesis
    proof cases
      case 1
      then show ?thesis using lt p by auto
    next
      case 2
      then have "i \<noteq> k" using k by auto
      then show ?thesis using 2 gp [OF 2 i(2)] i by simp
    next
      case 3
      have "key (A k) \<le> key (A ?p)" using lt by simp
      also have "\<dots> \<le> key (A i)" using oi [of i] i 3 by simp
      finally show ?thesis using 3 i p by simp
    next
      case 4
      then show ?thesis using oi [of i] i by simp
    qed
  qed
  moreover have "key (?A (?p div 2)) \<le> key (?A i)" if i: "i \<in> {2 * ?p, Suc (2 * ?p)}" "i \<le> n" for i
  proof (cases "i = k")
    case True
    then show ?thesis using pp p by simp
  next
    case False
    have "i div 2 = ?p" "2 \<le> i" "i \<noteq> ?p" using i p by auto
    then have "key (A ?p) \<le> key (A i)" using oi [of i] False i by simp
    with pp p False \<open>i \<noteq> ?p\<close> show ?thesis by simp
  qed
  moreover have "key (?A 1) \<le> key (?A ?p)" using o p by (simp add: ih_rise_ordered_def)
  ultimately show ?thesis by (simp add: ih_rise_ordered_def)
qed

lemma ih_rise_not_root:
  assumes "ih_rise_ordered key A k n" and "key (A k) < key (A (k div 2))" and "2 \<le> k"
  shows "4 \<le> k"
proof (rule ccontr)
  assume "\<not> 4 \<le> k"
  then have "k div 2 = 1" using assms(3) by auto
  with assms(1,2) show False by (auto simp: ih_rise_ordered_def)
qed

lemma ih_sift_up_turn_correct:
  assumes R: "ih_rising h A k n X c0 c1" and k4: "4 \<le> k"
  obtains s h3 where
    "ih_sift_up_turn (A k) (A (k div 2)) (ih_at A n (k div 2 div 2)) (ih_at A n c0) h =
       Some (A (k div 2 div 2), A s, h3)"
    and "ih_size h3 = ih_size h" and "s \<le> n" and "1 \<le> s" and "s \<noteq> k" and "s \<noteq> k div 2"
    and "ih_rising h3 (A(k div 2 := A k, k := A (k div 2))) (k div 2) n X s k"
proof -
  let ?p = "k div 2" and ?A = "A(k div 2 := A k, k := A (k div 2))"
  from R have k: "2 \<le> k" "k \<le> n" "even k \<longrightarrow> k < n" and cs: "{c0, c1} = {2 * k, Suc (2 * k)}" "c0 \<noteq> c1"
    and inj: "inj_on A {1..n}" and K: "ih_kids h A n {}" and P: "ih_prevs h A n {k, c0, c1}"
    and pc: "c1 \<le> n \<longrightarrow> ih_prev h (A c1) = Some (A ?p)" and out: "ih_outside h X" "ih_nodes A n \<subseteq> X"
    by (auto simp: ih_rising_def)
  define s where "s = (if odd k then 2 * ?p else Suc (2 * ?p))"
  have ds: "{k, s} = {2 * ?p, Suc (2 * ?p)}" "k \<noteq> s" using k(1) by (auto simp: s_def)
  have sn: "s \<le> n" using k by (auto simp: s_def)
  have p: "1 \<le> ?p" "2 \<le> ?p" "?p \<le> n" "?p div 2 \<noteq> ?p" "1 \<le> ?p div 2" "?p div 2 \<le> n" "?p < k" using k k4 by auto
  note c = child_places [OF ds p(1)]
  have ck: "c0 \<noteq> k" "c1 \<noteq> k" "c0 div 2 = k" "c1 div 2 = k" "k < c0" "k < c1" 
    using child_places [OF cs] k by auto
  have eq: "A i = A j \<longleftrightarrow> i = j" if "i \<in> {1..n}" "j \<in> {1..n}" for i j using inj that by (rule ih_inj)
  have kd: "?p \<in> {1..n}" "k \<in> {1..n}" "?p div 2 \<in> {1..n}" "s \<in> {1..n}" using p k sn c by auto
  define h1 where "h1 = ih_write_prev (ih_at A n c0) (Some (A ?p)) h"
  have lr1: "ih_left h1 = ih_left h" "ih_right h1 = ih_right h" "ih_root h1 = ih_root h" "ih_size h1 = ih_size h"
    by (simp_all add: h1_def)
  have kids: "ih_left h (A i) = ih_at A n (2 * i)" "ih_right h (A i) = ih_at A n (Suc (2 * i))" if "i \<in> {1..n}" for i
    using K that by (auto simp: ih_kids_def)
  have odd_at: "ih_at A n (Suc (2 * (i div 2))) = Some (A i) \<longleftrightarrow> odd i" if i: "i \<in> {1..n}" for i
  proof (cases "odd i")
    case True
    then have "Suc (2 * (i div 2)) = i" by presburger
    then show ?thesis using True i by simp
  next
    case False
    then have "Suc (2 * (i div 2)) \<noteq> i" by presburger
    then show ?thesis using False eq [OF i, of "Suc (2 * (i div 2))"] by (auto simp: ih_at_def)
  qed
  have right: "ih_right h1 (A ?p) = Some (A k) \<longleftrightarrow> odd k"
    using kids(2) [OF kd(1)] odd_at [OF kd(2)] by (simp add: lr1)
  have sib: "(if odd k then ih_left h1 (A ?p) else ih_right h1 (A ?p)) = Some (A s)"
  proof -
    have "(if odd k then ih_left h1 (A ?p) else ih_right h1 (A ?p)) = ih_at A n s"
      using kids [OF kd(1)] by (simp only: s_def lr1 split: if_split) blast
    then show ?thesis using sn c(4) by simp
  qed
  define h2 where "h2 = (if odd k then ih_swap_with_right_child (A ?p) (A k) h1 else ih_swap_with_left_child (A ?p) (A k) h1)"
  let ?g = "A (?p div 2)"
  define h3 where "h3 = (if ih_right h2 ?g = Some (A ?p) then ih_set_right ?g (Some (A k)) h2 else ih_set_left ?g (Some (A k)) h2)"
  have run: "ih_sift_up_turn (A k) (A ?p) (ih_at A n (?p div 2)) (ih_at A n c0) h = Some (?g, A s, h3)"
    by (simp only: ih_sift_up_turn_def Let_def h1_def [symmetric] right sib ih_bind ih_at_some [OF p(5,6)]
        h2_def [symmetric] h3_def [symmetric])
  have npk: "A ?p \<noteq> A k" using eq [OF kd(1,2)] p(7) by simp
  have kk: "k = (if odd k then Suc (2 * ?p) else 2 * ?p)" by simp
  have f2: "ih_root h2 = ih_root h"
    "ih_left h2 = (ih_left h)(A ?p := ih_at A n (2 * k), A k := if k = 2 * ?p then Some (A ?p) else ih_at A n (2 * ?p))"
    "ih_right h2 = (ih_right h)(A ?p := ih_at A n (Suc (2 * k)),
         A k := if k = 2 * ?p then ih_at A n (Suc (2 * ?p)) else Some (A ?p))"
    "ih_prev h2 = ih_prev h1" "ih_size h2 = ih_size h"
    using kids [OF kd(1)] kids [OF kd(2)] npk kk
    by (auto simp: h2_def ih_swap_with_right_child_def ih_swap_with_left_child_def Let_def ih_sets fun_eq_iff lr1)
  have slot: "h3 = ih_write (ih_slot_of A ?p) (Some (A k)) h2"
  proof -
    have ng: "?g \<noteq> A ?p" "?g \<noteq> A k" using eq [OF kd(3)] kd p by auto
    have *: "ih_right h2 ?g = Some (A ?p) \<longleftrightarrow> odd ?p"
      using kids(2) [OF kd(3)] odd_at [OF kd(1)] ng by (simp add: f2(3))
    show ?thesis unfolding h3_def * using p(2) by (simp add: ih_slot_of_def)
  qed
  have K3: "ih_kids h3 ?A n {}"
    unfolding slot by (rule ih_swap_kids [OF inj K ds k(2) p(1,3) f2(1-3)])
  have pv3: "ih_prev h3 = ih_prev h1" by (simp add: slot f2(4))
  have pv1: "ih_prev h1 (A i) = (if i = c0 \<and> c0 \<le> n then Some (A ?p) else ih_prev h (A i))" if "i \<in> {1..n}" for i
    using eq [OF that, of c0] ck k by (auto simp: h1_def ih_write_prev_def ih_sets ih_at_def)
  have "ih_prev h3 (?A i) = ih_at ?A n (i div 2)" if i: "i \<in> {1..n}" "i \<noteq> ?p" "i \<noteq> s" "i \<noteq> k" for i
  proof (cases "i = c0 \<or> i = c1")
    case True
    then have "ih_prev h1 (A i) = Some (A ?p)" "i div 2 = k" using pv1 [OF i(1)] i pc ck by auto
    then show ?thesis using i p pv3 kd by (simp add: ih_at_swap [OF kd(1,2)])
  next
    case False
    then have "ih_prev h (A i) = ih_at A n (i div 2)" using P i by (simp add: ih_prevs_def)
    moreover have "i div 2 \<noteq> k" using child_places(7) [OF cs, of i] False k by auto
    moreover have "i div 2 \<noteq> ?p" using c(7) [of i] i by auto
    ultimately show ?thesis using pv1 [OF i(1)] False i pv3 by (simp add: ih_at_swap [OF kd(1,2)])
  qed
  then have P3: "ih_prevs h3 ?A n {?p, s, k}" by (simp add: ih_prevs_def)
  have "ih_prev h (A ?p) = Some ?g" using P kd p ck by (auto simp: ih_prevs_def)
  moreover have "?p \<noteq> c0" "?p div 2 \<noteq> k" using p(7) ck(5) div_le_dividend [of ?p 2] by linarith+
  ultimately have pk: "ih_prev h3 (?A k) = Some (?A (?p div 2))"
    using pv1 [OF kd(1)] pv3 p by simp
  have sw: "inj_on ?A {1..n}" "ih_nodes ?A n = ih_nodes A n" by (rule ih_swap_nodes [OF inj kd(1,2)])+
  have "ih_outside h1 X"
    using out by (auto simp: h1_def ih_write_prev_def ih_sets ih_outside_def ih_nodes_def ih_at_def)
  then have O3: "ih_outside h3 X" using pv3 by (simp add: ih_outside_def)
  have rise: "ih_rising h3 ?A ?p n X s k"
    unfolding ih_rising_def using p k ds K3 P3 pk sw out(2) O3 by (auto simp: insert_commute)
  show ?thesis
    by (rule that [OF run _ sn _ _ _ rise]) (use ds c kd in \<open>auto simp: slot f2\<close>)
qed


definition ih_risen :: "(addr \<Rightarrow> 'k::linorder) \<Rightarrow> iheap \<Rightarrow> (nat \<Rightarrow> addr) \<Rightarrow> nat \<Rightarrow> addr set \<Rightarrow> iheap \<Rightarrow> (nat \<Rightarrow> addr) \<Rightarrow> bool" where
  "ih_risen key h A n X h' B \<longleftrightarrow>
     ih_size h' = ih_size h \<and> inj_on B {1..n} \<and> ih_kids h' B n {} \<and> ih_prevs h' B n {} \<and>
     ih_outside h' X \<and> ih_ordered key B n \<and> ih_nodes B n = ih_nodes A n"

lemma ih_rising_finish:
  assumes R: "ih_rising h A k n X s c" and o: "ih_rise_ordered key A k n" and le: "key (A (k div 2)) \<le> key (A k)"
    and n: "s \<le> n" "c \<le> n"
  shows "ih_risen key h A n X
    (ih_set_prev (A k) (Some (A (k div 2))) (ih_set_prev (A c) (Some (A k)) (ih_set_prev (A s) (Some (A k)) h))) A"
    (is "ih_risen _ _ _ _ _ ?h _")
proof -
  from R have k: "2 \<le> k" "k \<le> n" and cs: "{s, c} = {2 * k, Suc (2 * k)}" "s \<noteq> c"
    and inj: "inj_on A {1..n}" and K: "ih_kids h A n {}" and P: "ih_prevs h A n {k, s, c}"
    and out: "ih_outside h X" "ih_nodes A n \<subseteq> X" by (auto simp: ih_rising_def)
  have d: "s div 2 = k" "c div 2 = k" "k < s" "k < c" using child_places [OF cs] k by auto
  have eq: "A i = A j \<longleftrightarrow> i = j" if "i \<in> {1..n}" "j \<in> {1..n}" for i j using inj that by (rule ih_inj)
  have m: "k \<in> {1..n}" "s \<in> {1..n}" "c \<in> {1..n}" using k d n by auto
  have "ih_prev ?h (A i) = ih_at A n (i div 2)" if i: "i \<in> {1..n}" for i
  proof -
    have *: "ih_prev ?h (A i) = (if i = k then Some (A (k div 2)) else if i = c \<or> i = s then Some (A k) else ih_prev h (A i))"
      using eq [OF i m(1)] eq [OF i m(2)] eq [OF i m(3)] by (simp add: ih_sets)
    consider "i = k" | "i \<noteq> k" "i = c \<or> i = s" | "i \<noteq> k" "i \<noteq> c" "i \<noteq> s" by blast
    then show ?thesis
    proof cases
      case 1
      then show ?thesis using * k by simp
    next
      case 2
      then have "i div 2 = k" using d by blast
      then show ?thesis using * 2 k by simp
    next
      case 3
      then show ?thesis using * P i by (simp add: ih_prevs_def)
    qed
  qed
  moreover have "A k \<in> X" "A s \<in> X" "A c \<in> X" using m out(2) by (auto simp: ih_nodes_def)
  then have "ih_outside ?h X" using out(1) by (auto simp: ih_sets ih_outside_def)
  moreover have "ih_ordered key A n"
    using o le unfolding ih_ordered_def ih_rise_ordered_def by metis
  ultimately show ?thesis using inj K by (simp add: ih_risen_def ih_prevs_def ih_kids_def ih_sets)
qed

lemma ih_sift_up_loop_correct:
  assumes "ih_rising h A k n X c0 c1" and "ih_rise_ordered key A k n" and "key (A k) < key (A (k div 2))"
  shows "\<exists>h' B. ih_sift_up_loop key (A k) (A (k div 2)) (ih_at A n (k div 2 div 2)) (ih_at A n c0) (ih_at A n c1) h
      = Some h' \<and> ih_risen key h A n X h' B"
  using assms
proof (induction k arbitrary: h A c0 c1 rule: less_induct)
  case (less k)
  let ?p = "k div 2" and ?A = "A(k div 2 := A k, k := A (k div 2))"
  have k2: "2 \<le> k" "k \<le> n" "inj_on A {1..n}" using less.prems(1) by (auto simp: ih_rising_def)
  have k4: "4 \<le> k" using ih_rise_not_root [OF less.prems(2,3) k2(1)] .
  obtain s h3 where run: "ih_sift_up_turn (A k) (A ?p) (ih_at A n (?p div 2)) (ih_at A n c0) h = Some (A (?p div 2), A s, h3)"
    and sz: "ih_size h3 = ih_size h" and s: "s \<le> n" "1 \<le> s" "s \<noteq> k" "s \<noteq> ?p"
    and R: "ih_rising h3 ?A ?p n X s k"
    by (rule ih_sift_up_turn_correct [OF less.prems(1) k4])
  have O: "ih_rise_ordered key ?A ?p n" by (rule ih_rise_order_step [OF less.prems(2) k4 k2(2) less.prems(3)])
  have p: "?p < k" "?p \<noteq> k" "2 \<le> ?p" "?p \<le> n" "?p div 2 \<noteq> ?p" "?p div 2 \<noteq> k" "?p div 2 < ?p" using k4 k2 by auto
  have kd: "?p \<in> {1..n}" "k \<in> {1..n}" using p k2 by auto
  have N: "ih_nodes ?A n = ih_nodes A n" by (rule ih_swap_nodes(2) [OF k2(3) kd])
  have A: "?A ?p = A k" "?A k = A ?p" "?A (?p div 2) = A (?p div 2)" "?A s = A s" using p s by auto
  have at: "ih_at ?A n s = Some (A s)" "ih_at ?A n k = Some (A ?p)"
    using s by (simp_all add: ih_at_swap [OF kd] kd [simplified])
  show ?case
  proof (cases "key (A k) < key (A (?p div 2))")
    case True
    have "ih_prev h3 (?A (?p div 2)) = ih_at ?A n (?p div 2 div 2)"
    proof -
      have "{s, k} = {2 * ?p, Suc (2 * ?p)}" using R by (simp add: ih_rising_def)
      then have "s \<in> {2 * ?p, Suc (2 * ?p)}" by blast
      then have "s \<noteq> ?p div 2" using p(3,7) by auto
      then have "?p div 2 \<in> {1..n} - {?p, s, k}" using p by auto
      then show ?thesis using R unfolding ih_rising_def ih_prevs_def by blast
    qed
    then have g: "ih_prev h3 (A (?p div 2)) = ih_at ?A n (?p div 2 div 2)" by (simp only: A)
    have "\<exists>h' B. ih_sift_up_loop key (?A ?p) (?A (?p div 2)) (ih_at ?A n (?p div 2 div 2)) (ih_at ?A n s) (ih_at ?A n k) h3
        = Some h' \<and> ih_risen key h3 ?A n X h' B"
      by (rule less.IH [OF p(1) R O]) (simp only: A True)
    then obtain h' B where h': "ih_sift_up_loop key (A k) (A (?p div 2)) (ih_prev h3 (A (?p div 2))) (Some (A s)) (Some (A ?p)) h3
        = Some h'" "ih_risen key h3 ?A n X h' B"
      unfolding A at g by blast
    have "ih_sift_up_loop key (A k) (A ?p) (ih_at A n (?p div 2)) (ih_at A n c0) (ih_at A n c1) h = Some h'"
      by (subst ih_sift_up_loop_turn) (simp only: run h'(1) True option.case prod.case if_True)
    moreover have "ih_risen key h A n X h' B" using h'(2) sz N by (simp add: ih_risen_def)
    ultimately show ?thesis by blast
  next
    case False
    let ?h = "ih_set_prev (A k) (Some (A (?p div 2))) (ih_set_prev (A ?p) (Some (A k)) (ih_set_prev (A s) (Some (A k)) h3))"
    have "ih_sift_up_loop key (A k) (A ?p) (ih_at A n (?p div 2)) (ih_at A n c0) (ih_at A n c1) h = Some ?h"
      by (subst ih_sift_up_loop_turn) (simp only: run False option.case prod.case if_False)
    moreover have "ih_risen key h3 ?A n X ?h ?A"
      using ih_rising_finish [OF R O _ s(1) k2(2)] False unfolding A by simp
    then have "ih_risen key h A n X ?h ?A" using sz N by (simp add: ih_risen_def)
    ultimately show ?thesis by blast
  qed
qed

lemma ih_sift_up_correct:
  assumes k: "2 \<le> k" "k \<le> n" "even k \<longrightarrow> k < n" and inj: "inj_on A {1..n}" and K: "ih_kids h A n {}"
    and P: "ih_prevs h A n {k, 2 * k, Suc (2 * k)}" and out: "ih_outside h X" "ih_nodes A n \<subseteq> X"
    and o: "ih_rise_ordered key A k n" and lt: "key (A k) < key (A (k div 2))"
  shows "\<exists>h' B. ih_sift_up key (A k) (A (k div 2)) h = Some h' \<and> ih_risen key h A n X h' B"
proof -
  let ?h = "ih_write_prev (ih_at A n (Suc (2 * k))) (Some (A (k div 2))) h"
  have eq: "A i = A j \<longleftrightarrow> i = j" if "i \<in> {1..n}" "j \<in> {1..n}" for i j using inj that by (rule ih_inj)
  have k4: "4 \<le> k" by (rule ih_rise_not_root [OF o lt k(1)])
  have pv: "ih_prev ?h (A i) = (if i = Suc (2 * k) then Some (A (k div 2)) else ih_prev h (A i))" if "i \<in> {1..n}" for i
    using eq [OF that, of "Suc (2 * k)"] that by (auto simp: ih_write_prev_def ih_sets ih_at_def)
  have "ih_rising ?h A k n X (2 * k) (Suc (2 * k))"
    unfolding ih_rising_def
  proof (intro conjI)
    show "ih_kids ?h A n {}" using K by (simp add: ih_kids_def)
    show "ih_prevs ?h A n {k, 2 * k, Suc (2 * k)}" using P pv by (simp add: ih_prevs_def)
    show "Suc (2 * k) \<le> n \<longrightarrow> ih_prev ?h (A (Suc (2 * k))) = Some (A (k div 2))" using pv [of "Suc (2 * k)"] by simp
    show "ih_outside ?h X" using out by (auto simp: ih_write_prev_def ih_sets ih_outside_def ih_nodes_def ih_at_def)
  qed (use k inj out in auto)
  from ih_sift_up_loop_correct [OF this o lt] obtain h' B where
    h': "ih_sift_up_loop key (A k) (A (k div 2)) (ih_at A n (k div 2 div 2)) (ih_at A n (2 * k)) (ih_at A n (Suc (2 * k))) ?h = Some h'"
      "ih_risen key ?h A n X h' B" by blast
  have "ih_left h (A k) = ih_at A n (2 * k)" "ih_right h (A k) = ih_at A n (Suc (2 * k))"
    using K k by (auto simp: ih_kids_def)
  moreover have "ih_prev ?h (A (k div 2)) = ih_at A n (k div 2 div 2)"
  proof -
    have m: "k div 2 \<in> {1..n} - {k, 2 * k, Suc (2 * k)}" using k k4 by auto
    then have "ih_prev h (A (k div 2)) = ih_at A n (k div 2 div 2)" using P by (simp add: ih_prevs_def)
    then show ?thesis using pv [of "k div 2"] m by simp
  qed
  ultimately have "ih_sift_up key (A k) (A (k div 2)) h = Some h'"
    using h'(1) by (simp add: ih_sift_up_def Let_def)
  moreover have "ih_risen key h A n X h' B" using h'(2) by (simp add: ih_risen_def)
  ultimately show ?thesis by blast
qed

end
