(* ===== verification/TimerHeap.thy ===== *)
theory TimerHeap
  imports HeapSift
begin

unbundle bit_operations_syntax

text \<open>
  Erasing from the intrusive heap, and the heap as a priority queue: the contract that the timed
  thread scheduler relies on, for every sequence of operations.
\<close>

section \<open>Erasing\<close>

lemma ih_replace_rise:
  assumes "ih_ordered key A n" and "2 \<le> k" "k < n" and lt: "key (A n) < key (A (k div 2))"
  shows "ih_rise_ordered key (A(k := A n)) k (n - 1)" and "even k \<longrightarrow> k < n - 1"
proof -
  have o: "key (A (i div 2)) \<le> key (A i)" if "2 \<le> i" "i \<le> n" for i
    using assms(1) that by (simp add: ih_ordered_def)
  have k: "k div 2 \<noteq> k" "k \<noteq> 1" using assms(2) by auto
  have g: "key (A (k div 2)) \<le> key (A i)" if "i div 2 = k" "i \<le> n" for i
  proof -
    have "key (A (k div 2)) \<le> key (A k)" using o [of k] assms by simp
    also have "\<dots> \<le> key (A i)" using o [of i] that assms(2) by auto
    finally show ?thesis .
  qed
  show "ih_rise_ordered key (A(k := A n)) k (n - 1)"
    unfolding ih_rise_ordered_def
  proof (intro conjI ballI impI)
    fix i assume i: "i \<in> {2..n - 1}" "i \<noteq> k"
    show "key ((A(k := A n)) (i div 2)) \<le> key ((A(k := A n)) i)"
    proof -
      have n: "i \<le> n" "2 \<le> i" using i by auto
      show ?thesis
      proof (cases "i div 2 = k")
        case True
        have "key (A n) \<le> key (A (k div 2))" using lt by simp
        also have "\<dots> \<le> key (A i)" using g [OF True n(1)] .
        finally show ?thesis using True i by simp
      qed (use o [OF n(2,1)] i in simp)
    qed
  next
    fix i assume i: "i \<in> {2 * k, Suc (2 * k)}" "i \<le> n - 1"
    then have "i div 2 = k" "i \<noteq> k" using assms(2) by auto
    with g [of i] i k show "key ((A(k := A n)) (k div 2)) \<le> key ((A(k := A n)) i)" by auto
  next
    show "key ((A(k := A n)) 1) \<le> key ((A(k := A n)) k)"
      using ih_root_min [OF assms(1), of n] assms(3) k by simp
  qed
  show "even k \<longrightarrow> k < n - 1"
  proof (rule ccontr)
    assume "\<not> (even k \<longrightarrow> k < n - 1)"
    then have "n = Suc k" "n div 2 = k div 2" using assms(3) by auto
    with o [of n] assms(2) lt show False by auto
  qed
qed

lemma ih_slot_cong: "A (k div 2) = B (k div 2) \<Longrightarrow> ih_slot_of A k = ih_slot_of B k"
  by (simp add: ih_slot_of_def)

lemma ih_erase_absent:
  assumes "ih_rep h A n" and "node \<notin> ih_nodes A n"
  shows "ih_erase key node h = Some (False, h)"
proof -
  have "ih_prev h node = None" using assms by (simp add: ih_rep_def ih_outside_def)
  moreover have "ih_root h \<noteq> Some node" using assms by (auto simp: ih_rep_def ih_kids_def ih_at_def ih_nodes_def)
  ultimately show ?thesis by (simp add: ih_erase_def)
qed

lemma ih_erase_last:
  assumes R: "ih_rep h A n" and O: "ih_ordered key A n" and n: "1 \<le> n"
  shows "\<exists>h'. ih_erase key (A n) h = Some (True, h') \<and> ih_rep h' A (n - 1) \<and> ih_ordered key A (n - 1) \<and>
    ih_nodes A (n - 1) = ih_nodes A n - {A n}"
proof -
  let ?h1 = "(ih_write (ih_slot_of A n) None h)\<lparr>ih_size := n - 1\<rparr>"
  have K: "ih_kids h A n {}" "ih_size h = n" "inj_on A {1..n}" "ih_prevs h A n {}" "ih_outside h (ih_nodes A n)"
    using R by (auto simp: ih_rep_def)
  have r: "ih_root h = Some (A 1)" using K(1) n by (simp add: ih_kids_def)
  have nin: "\<not> (ih_prev h (A n) = None \<and> ih_root h \<noteq> Some (A n))"
    using K(4) r n by (cases "n = 1") (auto simp: ih_prevs_def ih_at_def)
  have run: "ih_erase key (A n) h = Some (True, ih_set_prev (A n) None ?h1)"
    using nin r K(2) n ih_remove_last_leaf_correct [OF K(1) n] by (simp add: ih_erase_def Let_def)
  have inj': "inj_on A {1..n - 1}" using K(3) by (rule inj_on_subset) auto
  have nn: "A n \<notin> ih_nodes A (n - 1)"
  proof
    assume "A n \<in> ih_nodes A (n - 1)"
    then obtain i where "i \<in> {1..n - 1}" "A n = A i" by (auto simp: ih_nodes_def)
    moreover from this n have "i \<in> {1..n}" "n \<in> {1..n}" "i \<noteq> n" by auto
    ultimately show False using ih_inj [OF K(3), of n i] by simp
  qed
  have "{1..n} = insert n {1..n - 1}" using n by auto
  then have An: "ih_nodes A n = insert (A n) (ih_nodes A (n - 1))" by (simp add: ih_nodes_def)
  have "ih_prev (ih_set_prev (A n) None ?h1) (A i) = ih_at A (n - 1) (i div 2)" if "i \<in> {1..n - 1}" for i
    using that ih_node_neq [OF nn, of i] K(4) by (auto simp: ih_sets ih_prevs_def ih_at_def)
  then have "ih_prevs (ih_set_prev (A n) None ?h1) A (n - 1) {}" by (simp add: ih_prevs_def)
  moreover have "ih_kids (ih_set_prev (A n) None ?h1) A (n - 1) {}"
    using ih_kids_remove_last [OF K(1,3) n] by (simp add: ih_kids_def ih_set_prev_def)
  moreover have "ih_outside (ih_set_prev (A n) None ?h1) (ih_nodes A (n - 1))"
    using K(5) An by (auto simp: ih_outside_def ih_set_prev_def)
  ultimately have "ih_rep (ih_set_prev (A n) None ?h1) A (n - 1)"
    using inj' by (simp add: ih_rep_def ih_set_prev_def)
  moreover have "ih_ordered key A (n - 1)" using O by (auto simp: ih_ordered_def)
  moreover have "ih_nodes A (n - 1) = ih_nodes A n - {A n}" using An nn by auto
  ultimately show ?thesis using run by blast
qed

lemma ih_erase_inner:
  assumes R: "ih_rep h A n" and O: "ih_ordered key A n" and k: "1 \<le> k" "k < n"
  shows "\<exists>h' B. ih_erase key (A k) h = Some (True, h') \<and> ih_rep h' B (n - 1) \<and> ih_ordered key B (n - 1) \<and>
    ih_nodes B (n - 1) = ih_nodes A n - {A k}"
proof -
  let ?A = "A(k := A n)"
  define h1 where "h1 = ih_write (ih_slot_of A n) None h"
  define h2 where "h2 = ih_set_left (A n) (ih_left h1 (A k)) (ih_set_right (A n) (ih_right h1 (A k)) h1)"
  define h3 where "h3 = ih_write (ih_slot_of A k) (Some (A n)) h2"
  define h3' where "h3' = h3\<lparr>ih_size := n - 1\<rparr>"
  define parent where "parent = ih_at A n (k div 2)"
  note r = ih_replace [OF R k, folded h1_def, folded h2_def, folded h3_def]
  have n: "1 \<le> n" using k by simp
  have K: "ih_kids h A n {}" "ih_size h = n" "inj_on A {1..n}" "ih_prevs h A n {}"
    using R by (auto simp: ih_rep_def)
  have root: "ih_root h = Some (A 1)" using K(1) n by (simp add: ih_kids_def)
  have ph: "ih_prev h (A k) = parent" using K(4) k by (simp add: ih_prevs_def parent_def)
  have nin: "\<not> (ih_prev h (A k) = None \<and> ih_root h \<noteq> Some (A k))"
    using ph root k by (cases "k = 1") (auto simp: parent_def ih_at_def)
  have ne: "A n \<noteq> A k" using ih_inj [OF K(3), of n k] k by simp
  have s1: "ih_size h1 = n" using K(2) by (simp add: h1_def)
  have p2: "ih_prev h2 (A k) = parent" using r(6) by (simp add: h3_def parent_def)
  have kk: "k div 2 \<noteq> k" using k by auto
  define slot where "slot = (case parent of None \<Rightarrow> RootSlot
                      | Some q \<Rightarrow> if ih_right h2 q = Some (A k) then RightSlot q else LeftSlot q)"
  have sl: "slot = ih_slot_of A k"
  proof (cases "k = 1")
    case True
    then show ?thesis by (simp add: slot_def parent_def ih_slot_of_def)
  next
    case False
    then have "2 \<le> k" "parent = Some (A (k div 2))" using k by (auto simp: parent_def)
    then show ?thesis using r(8) by (simp add: slot_def ih_slot_of_def)
  qed
  let ?up = "case parent of None \<Rightarrow> False | Some q \<Rightarrow> key (A n) < key q"
  have run: "ih_erase key (A k) h =
     (if ?up then do { h4 \<leftarrow> ih_sift_up key (A n) (the parent) h3'; Some (True, ih_set_prev (A k) None h4) }
      else do { h4 \<leftarrow> ih_sift_down key (A n) slot parent h3'; q \<leftarrow> ih_read slot h4;
                Some (True, ih_set_prev (A k) None (ih_set_prev q parent h4)) })"
  proof -
    have a: "(if ih_size h = 0 then None else ih_root h) = Some (A 1)" using root K(2) n by simp
    have b: "ih_remove_last_leaf RootSlot (ih_root h) (path_bit_mask (ih_size h)) (ih_size h) h = Some (Some (A n), h1)"
      using ih_remove_last_leaf_correct [OF K(1) n] K(2) by (simp add: h1_def)
    have c: "ih_set_left (A n) (ih_left (h1\<lparr>ih_size := ih_size h1 - 1\<rparr>) (A k)) (ih_set_right (A n)
        (ih_right (h1\<lparr>ih_size := ih_size h1 - 1\<rparr>) (A k)) (h1\<lparr>ih_size := ih_size h1 - 1\<rparr>)) = h2\<lparr>ih_size := n - 1\<rparr>"
      using s1 by (simp add: h2_def)
    have d: "ih_write slot (Some (A n)) (h2\<lparr>ih_size := n - 1\<rparr>) = h3'" using sl by (simp add: h3_def h3'_def)
    have e: "ih_prev (h2\<lparr>ih_size := n - 1\<rparr>) (A k) = parent" "ih_right (h2\<lparr>ih_size := n - 1\<rparr>) = ih_right h2"
      using p2 by simp_all
    show ?thesis unfolding ih_erase_def
      by (simp only: nin if_False a b ih_bind prod.case ne Let_def c e slot_def [symmetric] d)
  qed
  have K3: "ih_kids h3' ?A (n - 1) {}" "ih_prevs h3' ?A (n - 1) {k, 2 * k, Suc (2 * k)}"
    "ih_outside h3' (insert (A k) (ih_nodes ?A (n - 1)))" "ih_size h3' = n - 1"
    using r by (simp_all add: h3'_def)
  have z: "A k \<notin> ih_nodes ?A (n - 1)" using r(2) by simp
  show ?thesis
  proof (cases ?up)
    case True
    then have k2: "2 \<le> k" and par: "parent = Some (A (k div 2))" and lt: "key (A n) < key (A (k div 2))"
      using k by (auto simp: parent_def ih_at_def split: if_splits)
    note q = ih_replace_rise [OF O k2 k(2) lt]
    have "\<exists>h' B. ih_sift_up key (?A k) (?A (k div 2)) h3' = Some h' \<and>
        ih_risen key h3' ?A (n - 1) (insert (A k) (ih_nodes ?A (n - 1))) h' B"
    proof (rule ih_sift_up_correct [OF k2 _ q(2) r(1) K3(1) K3(2) K3(3) _ q(1)])
      show "k \<le> n - 1" using k by simp
      show "ih_nodes ?A (n - 1) \<subseteq> insert (A k) (ih_nodes ?A (n - 1))" by blast
      show "key (?A k) < key (?A (k div 2))" using lt kk by simp
    qed
    then obtain h4 B where h4: "ih_sift_up key (A n) (A (k div 2)) h3' = Some h4"
      "ih_risen key h3' ?A (n - 1) (insert (A k) (ih_nodes ?A (n - 1))) h4 B" using kk by auto
    have B: "ih_size h4 = n - 1" "inj_on B {1..n - 1}" "ih_kids h4 B (n - 1) {}" "ih_prevs h4 B (n - 1) {}"
      "ih_outside h4 (insert (A k) (ih_nodes ?A (n - 1)))" "ih_ordered key B (n - 1)"
      "ih_nodes B (n - 1) = ih_nodes ?A (n - 1)" using h4(2) K3(4) by (auto simp: ih_risen_def)
    have nk: "B i \<noteq> A k" if "i \<in> {1..n - 1}" for i
      using z B(7) that ih_node_neq [of "A k" B "n - 1" i] by auto
    have "ih_rep (ih_set_prev (A k) None h4) B (n - 1)"
      using B nk by (auto simp: ih_rep_def ih_sets ih_kids_def ih_prevs_def ih_outside_def)
    moreover have "ih_erase key (A k) h = Some (True, ih_set_prev (A k) None h4)"
      using run True h4(1) par by simp
    ultimately show ?thesis using B r(2) by auto
  next
    case False
    have le: "k = 1 \<or> key (A (k div 2)) \<le> key (A n)"
    proof (cases "k = 1")
      assume "k \<noteq> 1"
      then have "1 \<le> k div 2" "k div 2 \<le> n" using k by auto
      then have "\<not> key (A n) < key (A (k div 2))" using False by (simp add: parent_def)
      then show ?thesis by (meson not_le_imp_less)
    qed simp
    have S: "ih_sinking h3' ?A k k (n - 1) (insert (A k) (ih_nodes ?A (n - 1)))"
      using K3 r(1) k by (auto simp: ih_sinking_def)
    have "ih_sink_ordered key ?A k (n - 1)" by (rule ih_replace_order [OF O k le])
    from ih_sift_down_correct [OF S this, of parent] obtain h4 B where
      h4: "ih_sift_down key (?A k) (ih_slot_of ?A k) parent h3' = Some h4"
        "ih_sunk key h3' ?A k (n - 1) (insert (A k) (ih_nodes ?A (n - 1))) h4 B" by auto
    have slA: "ih_slot_of ?A k = slot" unfolding sl by (rule ih_slot_cong) (use kk in simp)
    have Bk: "B (k div 2) = A (k div 2)" "ih_kids h4 B (n - 1) {}"
      using h4(2) k kk by (auto simp: ih_sunk_def div_less_dividend)
    have sB: "ih_slot_of A k = ih_slot_of B k" by (rule ih_slot_cong) (use Bk(1) in simp)
    have "ih_read slot h4 = ih_at B (n - 1) k"
      unfolding sl sB using Bk(2) k by (intro ih_read_slot) auto
    then have "ih_read slot h4 = Some (B k)" using k by simp
    then have e: "ih_erase key (A k) h = Some (True, ih_set_prev (A k) None (ih_set_prev (B k) parent h4))"
      using run False h4(1) by (simp add: slA)
    have par: "parent = ih_at B (n - 1) (k div 2)" using Bk(1) k by (auto simp: parent_def ih_at_def)
    have k': "k \<le> n - 1" using k by simp
    note f = ih_sunk_finish [OF h4(2) K3(4) k(1) k', of "A k"]
    have "ih_rep (ih_set_prev (A k) None (ih_set_prev (B k) parent h4)) B (n - 1)"
      "ih_ordered key B (n - 1)" "ih_nodes B (n - 1) = ih_nodes ?A (n - 1)"
      unfolding par using f z by auto
    then show ?thesis using e r(2) by auto
  qed
qed

text \<open>Erasing any node.\<close>

lemma ih_erase_correct:
  assumes R: "ih_rep h A n" and O: "ih_ordered key A n" and m: "node \<in> ih_nodes A n"
  shows "\<exists>h' B. ih_erase key node h = Some (True, h') \<and> ih_rep h' B (n - 1) \<and> ih_ordered key B (n - 1) \<and>
    ih_nodes B (n - 1) = ih_nodes A n - {node}"
proof -
  from m obtain k where k: "1 \<le> k" "k \<le> n" "node = A k" by (auto simp: ih_nodes_def)
  show ?thesis
  proof (cases "k = n")
    case True
    with ih_erase_last [OF R O] k show ?thesis by blast
  next
    case False
    with ih_erase_inner [OF R O k(1)] k show ?thesis by (metis le_neq_implies_less)
  qed
qed

section \<open>The contract of a timer queue\<close>

text \<open>
  What the client of a timer queue sees: the queue holds a set of nodes, and its front is one of
  those with the least key.
\<close>

locale timer_queue =
  fixes holds :: "'q \<Rightarrow> addr set \<Rightarrow> bool" and key :: "addr \<Rightarrow> 'k::linorder"
    and emptyq :: 'q and ins :: "addr \<Rightarrow> 'q \<Rightarrow> 'q option" and front :: "'q \<Rightarrow> addr option"
    and pop :: "'q \<Rightarrow> 'q option" and del :: "addr \<Rightarrow> 'q \<Rightarrow> (bool \<times> 'q) option"
  assumes holds_empty: "holds emptyq {}"
    and holds_finite: "holds q S \<Longrightarrow> finite S"
    and holds_ins: "holds q S \<Longrightarrow> x \<notin> S \<Longrightarrow> \<exists>q'. ins x q = Some q' \<and> holds q' (insert x S)"
    and front_none: "holds q S \<Longrightarrow> front q = None \<longleftrightarrow> S = {}"
    and front_least: "holds q S \<Longrightarrow> front q = Some x \<Longrightarrow> x \<in> S \<and> (\<forall>y \<in> S. key x \<le> key y)"
    and holds_pop: "holds q S \<Longrightarrow> \<exists>q'. pop q = Some q' \<and> holds q' (S - set_option (front q))"
    and holds_del: "holds q S \<Longrightarrow> \<exists>q'. del x q = Some (x \<in> S, q') \<and> holds q' (S - {x})"

text \<open>A client's run, and the runs a set with a least element allows.\<close>

datatype tq_op = TqInsert addr | TqPop | TqErase addr
datatype tq_result = TqDone | TqFront "addr option" | TqErased bool

fun tq_exec :: "(addr \<Rightarrow> 'q \<Rightarrow> 'q option) \<Rightarrow> ('q \<Rightarrow> addr option) \<Rightarrow> ('q \<Rightarrow> 'q option) \<Rightarrow>
    (addr \<Rightarrow> 'q \<Rightarrow> (bool \<times> 'q) option) \<Rightarrow> tq_op list \<Rightarrow> 'q \<Rightarrow> (tq_result list \<times> 'q) option" where
  "tq_exec ins front pop del [] q = Some ([], q)"
| "tq_exec ins front pop del (TqInsert x # ops) q = do {
     q' \<leftarrow> ins x q; (rs, r) \<leftarrow> tq_exec ins front pop del ops q'; Some (TqDone # rs, r) }"
| "tq_exec ins front pop del (TqPop # ops) q = do {
     q' \<leftarrow> pop q; (rs, r) \<leftarrow> tq_exec ins front pop del ops q'; Some (TqFront (front q) # rs, r) }"
| "tq_exec ins front pop del (TqErase x # ops) q = do {
     (b, q') \<leftarrow> del x q; (rs, r) \<leftarrow> tq_exec ins front pop del ops q'; Some (TqErased b # rs, r) }"

fun tq_allows :: "(addr \<Rightarrow> 'k::linorder) \<Rightarrow> tq_op list \<Rightarrow> tq_result list \<Rightarrow> addr set \<Rightarrow> addr set \<Rightarrow> bool" where
  "tq_allows key [] [] S S' = (S' = S)"
| "tq_allows key (TqInsert x # ops) (TqDone # rs) S S' = tq_allows key ops rs (insert x S) S'"
| "tq_allows key (TqPop # ops) (TqFront None # rs) S S' = (S = {} \<and> tq_allows key ops rs S S')"
| "tq_allows key (TqPop # ops) (TqFront (Some x) # rs) S S' =
     (x \<in> S \<and> (\<forall>y \<in> S. key x \<le> key y) \<and> tq_allows key ops rs (S - {x}) S')"
| "tq_allows key (TqErase x # ops) (TqErased b # rs) S S' = (b = (x \<in> S) \<and> tq_allows key ops rs (S - {x}) S')"
| "tq_allows key _ _ S S' = False"

text \<open>The client inserts no node that may still be in the queue: one inserted before and not erased since.\<close>

fun tq_client_ok :: "addr set \<Rightarrow> tq_op list \<Rightarrow> bool" where
  "tq_client_ok U [] = True"
| "tq_client_ok U (TqInsert x # ops) = (x \<notin> U \<and> tq_client_ok (insert x U) ops)"
| "tq_client_ok U (TqPop # ops) = tq_client_ok U ops"
| "tq_client_ok U (TqErase x # ops) = tq_client_ok (U - {x}) ops"

text \<open>The loop of a client that takes the due nodes off the front.\<close>

partial_function (option) tq_fire :: "('q \<Rightarrow> addr option) \<Rightarrow> ('q \<Rightarrow> 'q option) \<Rightarrow> (addr \<Rightarrow> bool) \<Rightarrow> 'q \<Rightarrow>
    (addr list \<times> 'q) option" where
  "tq_fire front pop due q =
     (case front q of
        None \<Rightarrow> Some ([], q)
      | Some x \<Rightarrow>
          if due x then do { q' \<leftarrow> pop q; (xs, r) \<leftarrow> tq_fire front pop due q'; Some (x # xs, r) }
          else Some ([], q))"

context timer_queue
begin

lemma run_allowed:
  assumes "holds q S" and "S \<subseteq> U" and "tq_client_ok U ops"
  shows "\<exists>rs q' S'. tq_exec ins front pop del ops q = Some (rs, q') \<and> tq_allows key ops rs S S' \<and> holds q' S'"
  using assms
proof (induction ops arbitrary: q S U)
  case Nil
  then show ?case by auto
next
  case (Cons op ops)
  show ?case
  proof (cases op)
    case (TqInsert x)
    with Cons.prems have "x \<notin> S" by auto
    from holds_ins [OF Cons.prems(1) this] obtain q1 where q1: "ins x q = Some q1" "holds q1 (insert x S)" by blast
    with Cons.IH [OF q1(2), of "insert x U"] Cons.prems TqInsert show ?thesis by fastforce
  next
    case TqPop
    from holds_pop [OF Cons.prems(1)] obtain q1 where q1: "pop q = Some q1" "holds q1 (S - set_option (front q))"
      by blast
    moreover have "S - set_option (front q) \<subseteq> U" "tq_client_ok U ops" using Cons.prems TqPop by auto
    from Cons.IH [OF q1(2) this] obtain rs r S' where
      r: "tq_exec ins front pop del ops q1 = Some (rs, r)" "tq_allows key ops rs (S - set_option (front q)) S'" "holds r S'"
      by blast
    moreover have "tq_allows key (op # ops) (TqFront (front q) # rs) S S'"
      using r(2) front_none [OF Cons.prems(1)] front_least [OF Cons.prems(1)] TqPop by (cases "front q") auto
    ultimately show ?thesis using TqPop by force
  next
    case (TqErase x)
    from holds_del [OF Cons.prems(1)] obtain q1 where q1: "del x q = Some (x \<in> S, q1)" "holds q1 (S - {x})" by blast
    with Cons.IH [OF q1(2), of "U - {x}"] Cons.prems TqErase show ?thesis by fastforce
  qed
qed

text \<open>The loop takes the due nodes, in the order of their keys.\<close>

lemma fire_due:
  assumes "holds q S" and "\<forall>x \<in> S. \<forall>y \<in> S. key x \<le> key y \<longrightarrow> due y \<longrightarrow> due x"
  shows "\<exists>xs q'. tq_fire front pop due q = Some (xs, q') \<and> distinct xs \<and> set xs = {x \<in> S. due x} \<and>
    sorted (map key xs) \<and> holds q' (S - set xs)"
  using assms
proof (induction "card S" arbitrary: q S rule: less_induct)
  case less
  show ?case
  proof (cases "front q")
    case None
    with front_none [OF less.prems(1)] less.prems show ?thesis by (subst tq_fire.simps) auto
  next
    case (Some x)
    note least = front_least [OF less.prems(1) Some]
    show ?thesis
    proof (cases "due x")
      case False
      with least less.prems(2) have "{y \<in> S. due y} = {}" by blast
      with Some False less.prems show ?thesis by (subst tq_fire.simps) auto
    next
      case True
      from holds_pop [OF less.prems(1)] Some obtain q1 where q1: "pop q = Some q1" "holds q1 (S - {x})" by auto
      have "card (S - {x}) < card S"
        using least holds_finite [OF less.prems(1)] by (intro card_Diff1_less) auto
      moreover have "\<forall>x' \<in> S - {x}. \<forall>y \<in> S - {x}. key x' \<le> key y \<longrightarrow> due y \<longrightarrow> due x'" using less.prems(2) by blast
      ultimately obtain xs q' where
        r: "tq_fire front pop due q1 = Some (xs, q')" "distinct xs" "set xs = {y \<in> S - {x}. due y}"
          "sorted (map key xs)" "holds q' (S - {x} - set xs)" using less.hyps [OF _ q1(2)] by blast
      have "tq_fire front pop due q = Some (x # xs, q')"
        using Some True q1 r(1) by (subst tq_fire.simps) simp
      moreover have "S - set (x # xs) = S - {x} - set xs" by auto
      moreover have "set (x # xs) = {y \<in> S. due y}" using r(3) True least by auto
      moreover have "sorted (map key (x # xs))" "distinct (x # xs)" using r(2,3,4) least by auto
      ultimately show ?thesis using r(5) by metis
    qed
  qed
qed

end

text \<open>The intrusive heap meets the contract, whatever the keys are.\<close>

definition ih_holds :: "(addr \<Rightarrow> 'k::linorder) \<Rightarrow> iheap \<Rightarrow> addr set \<Rightarrow> bool" where
  "ih_holds key h S \<longleftrightarrow> (\<exists>A n. ih_rep h A n \<and> ih_ordered key A n \<and> ih_nodes A n = S)"

definition ih_empty :: iheap where
  "ih_empty = \<lparr>ih_root = None, ih_size = 0, ih_left = (\<lambda>_. None), ih_right = (\<lambda>_. None), ih_prev = (\<lambda>_. None)\<rparr>"

definition ih_front :: "iheap \<Rightarrow> addr option" where
  "ih_front h = ih_root h"

lemma ih_front_at: "ih_rep h A n \<Longrightarrow> ih_front h = ih_at A n 1"
  by (simp add: ih_front_def ih_rep_def ih_kids_def)

interpretation ih: timer_queue "ih_holds key" key ih_empty "ih_insert key" ih_front "ih_pop_front key" "ih_erase key"
  for key :: "addr \<Rightarrow> 'k::linorder"
proof unfold_locales
  show "ih_holds key ih_empty {}"
    unfolding ih_holds_def
    by (intro exI [of _ id] exI [of _ 0])
       (auto simp: ih_rep_def ih_empty_def ih_kids_def ih_prevs_def ih_outside_def ih_ordered_def ih_nodes_def)
next
  fix q S assume "ih_holds key q S"
  then show "finite S" by (auto simp: ih_holds_def ih_nodes_def)
next
  fix q S x assume "ih_holds key q S" "x \<notin> S"
  then show "\<exists>q'. ih_insert key x q = Some q' \<and> ih_holds key q' (insert x S)"
    unfolding ih_holds_def using ih_insert_correct [of q _ _ key x] by metis
next
  fix q S assume "ih_holds key q S"
  then obtain A n where "ih_rep q A n" "ih_nodes A n = S" by (auto simp: ih_holds_def)
  then show "(ih_front q = None) = (S = {})" by (auto simp: ih_front_at ih_at_def ih_nodes_def)
next
  fix q S x assume "ih_holds key q S" and f: "ih_front q = Some x"
  then obtain A n where h: "ih_rep q A n" "ih_ordered key A n" "ih_nodes A n = S" by (auto simp: ih_holds_def)
  with f have "1 \<le> n" "x = A 1" by (auto simp: ih_front_at ih_at_def split: if_splits)
  with h(3) ih_root_min [OF h(2)] show "x \<in> S \<and> (\<forall>y \<in> S. key x \<le> key y)" by (auto simp: ih_nodes_def)
next
  fix q S assume "ih_holds key q S"
  then obtain A n where h: "ih_rep q A n" "ih_ordered key A n" "ih_nodes A n = S" by (auto simp: ih_holds_def)
  have "S - set_option (ih_front q) = S - {A 1}"
    using h by (auto simp: ih_front_at ih_at_def ih_nodes_def)
  with ih_pop_front_correct [OF h(1,2)] h(3)
  show "\<exists>q'. ih_pop_front key q = Some q' \<and> ih_holds key q' (S - set_option (ih_front q))"
    unfolding ih_holds_def by metis
next
  fix q S x assume "ih_holds key q S"
  then obtain A n where h: "ih_rep q A n" "ih_ordered key A n" "ih_nodes A n = S" by (auto simp: ih_holds_def)
  show "\<exists>q'. ih_erase key x q = Some (x \<in> S, q') \<and> ih_holds key q' (S - {x})"
  proof (cases "x \<in> S")
    case True
    with ih_erase_correct [OF h(1,2), of x] h(3) show ?thesis unfolding ih_holds_def by metis
  next
    case False
    with ih_erase_absent [OF h(1), of x key] h show ?thesis unfolding ih_holds_def by auto
  qed
qed

section \<open>Properties\<close>

text \<open>
  Claim C27.  The intrusive heap is a priority queue: on every sequence of \<open>insert\<close>, \<open>pop_front\<close>
  and \<open>erase\<close> that inserts no node twice, starting from the empty heap, no operation dereferences
  a null pointer, fails an assertion or loops; \<open>front\<close> is a node with the least key and
  \<open>pop_front\<close> removes exactly it; \<open>erase\<close> removes exactly its argument and returns whether the
  heap held it; and the final heap holds exactly the nodes left.
\<close>

theorem ih_is_priority_queue:
  assumes "tq_client_ok {} ops"
  shows "\<exists>rs h S. tq_exec (ih_insert key) ih_front (ih_pop_front key) (ih_erase key) ops ih_empty = Some (rs, h) \<and>
    tq_allows key ops rs {} S \<and> ih_holds key h S"
  by (rule ih.run_allowed [OF ih.holds_empty _ assms]) simp

theorem ih_is_priority_queue_witness:
  shows "tq_client_ok {} [TqInsert 7, TqInsert 3, TqInsert 9, TqErase 7, TqInsert 7, TqPop] \<and>
    (\<exists>h S. tq_exec (ih_insert id) ih_front (ih_pop_front id) (ih_erase id)
        [TqInsert 7, TqInsert 3, TqInsert 9, TqErase 7, TqInsert 7, TqPop] ih_empty =
        Some ([TqDone, TqDone, TqDone, TqErased True, TqDone, TqFront (Some 3)], h) \<and> ih_holds id h {7, 9::addr})"
proof -
  let ?ops = "[TqInsert 7, TqInsert 3, TqInsert 9, TqErase 7, TqInsert 7, TqPop]"
  have ok: "tq_client_ok {} ?ops" by simp
  from ih_is_priority_queue [OF ok, of id] obtain rs h S where
    r: "tq_exec (ih_insert id) ih_front (ih_pop_front id) (ih_erase id) ?ops ih_empty = Some (rs, h)"
      "tq_allows id ?ops rs {} S" "ih_holds id h S" by blast
  have "map_option fst (tq_exec (ih_insert id) ih_front (ih_pop_front id) (ih_erase id) ?ops ih_empty) =
      Some [TqDone, TqDone, TqDone, TqErased True, TqDone, TqFront (Some 3)]" by code_simp
  then have rs: "rs = [TqDone, TqDone, TqDone, TqErased True, TqDone, TqFront (Some 3)]" using r(1) by simp
  then have "S = {7, 9}" using r(2) by auto
  then show ?thesis using ok r rs by blast
qed

end
