(* ===== verification/MpscQueue.thy ===== *)
theory MpscQueue
  imports Prelude
begin

text \<open>
  The multi-producer single-consumer queue of
  \<^verbatim>\<open>include/stdexec/__detail/__intrusive_mpsc_queue.hpp\<close>.

  Any number of producers run \<open>push_back\<close> and one consumer runs \<open>pop_front\<close>, one atomic access
  per step; \<open>mq_pc\<close> and \<open>mq_con\<close> are their program counters with their local variables.  The
  queue's own node is \<open>mq_stub\<close>.  Accesses are sequentially consistent.

  The fields \<open>mq_order\<close>, \<open>mq_log\<close>, \<open>mq_taken\<close> and \<open>mq_held\<close> are ghost state: the nodes from the
  tail to the head in the order of their exchanges, every node ever pushed in that order, every
  node popped, and the nodes that the callers of \<open>push_back\<close> have handed over and not yet got
  back.
\<close>

section \<open>State\<close>

datatype mq_pc = MqIdle | MqStore addr | MqExchange addr | MqLink addr addr | MqReturn bool

datatype mq_con =
    CoIdle
  | CoNext
  | CoNext2 addr
  | CoHead addr
  | CoStubStore addr
  | CoStubExchange addr
  | CoStubLink addr addr
  | CoReload addr
  | CoReturn "addr option"

record mq_state =
  mq_head :: addr
  mq_tail :: addr
  mq_next :: links
  mq_pc :: "nat \<Rightarrow> mq_pc"
  mq_con :: mq_con
  mq_order :: "addr list"
  mq_log :: "addr list"
  mq_taken :: "addr list"
  mq_held :: "addr set"

definition mq_stub :: addr where
  "mq_stub = 0"

definition mq_empty :: mq_state where
  "mq_empty = \<lparr>mq_head = mq_stub, mq_tail = mq_stub, mq_next = (\<lambda>_. None), mq_pc = (\<lambda>_. MqIdle),
     mq_con = CoIdle, mq_order = [mq_stub], mq_log = [], mq_taken = [], mq_held = {}\<rparr>"

definition mq_goto :: "nat \<Rightarrow> mq_pc \<Rightarrow> mq_state \<Rightarrow> mq_state" where
  "mq_goto t pc s = s\<lparr>mq_pc := (mq_pc s)(t := pc)\<rparr>"

definition mq_link :: "addr \<Rightarrow> addr option \<Rightarrow> mq_state \<Rightarrow> mq_state" where
  "mq_link a p s = s\<lparr>mq_next := (mq_next s)(a := p)\<rparr>"

section \<open>The methods\<close>

text \<open>\<open>push_back\<close>: the call, the three accesses, and the return with its result.\<close>

definition mq_push_call :: "nat \<Rightarrow> addr \<Rightarrow> mq_state \<Rightarrow> mq_state" where
  "mq_push_call t x s = mq_goto t (MqStore x) (s\<lparr>mq_held := insert x (mq_held s)\<rparr>)"

definition mq_push_step :: "nat \<Rightarrow> mq_state \<Rightarrow> mq_state" where
  "mq_push_step t s =
     (case mq_pc s t of
        MqStore x \<Rightarrow> mq_goto t (MqExchange x) (mq_link x None s)
      | MqExchange x \<Rightarrow> mq_goto t (MqLink (mq_head s) x)
          (s\<lparr>mq_head := x, mq_order := mq_order s @ [x], mq_log := mq_log s @ [x]\<rparr>)
      | MqLink p x \<Rightarrow> mq_goto t (MqReturn (p = mq_stub)) (mq_link p (Some x) s)
      | _ \<Rightarrow> s)"

definition mq_push_return :: "nat \<Rightarrow> mq_state \<Rightarrow> mq_state" where
  "mq_push_return t s = mq_goto t MqIdle s"

text \<open>
  \<open>pop_front\<close>.  Moving the tail off a node takes the node out of the queue; the stub goes back
  in by its own \<open>push_back\<close>.
\<close>

definition mq_pop_call :: "mq_state \<Rightarrow> mq_state" where
  "mq_pop_call s = s\<lparr>mq_con := CoNext\<rparr>"

definition mq_advance :: "addr \<Rightarrow> mq_con \<Rightarrow> mq_state \<Rightarrow> mq_state" where
  "mq_advance n con s = s\<lparr>mq_tail := n, mq_con := con, mq_order := tl (mq_order s),
     mq_taken := mq_taken s @ (case con of CoReturn (Some x) \<Rightarrow> [x] | _ \<Rightarrow> [])\<rparr>"

definition mq_pop_step :: "mq_state \<Rightarrow> mq_state" where
  "mq_pop_step s =
     (case mq_con s of
        CoNext \<Rightarrow>
          (let tail = mq_tail s; nxt = mq_next s tail in
           if tail = mq_stub then
             (case nxt of None \<Rightarrow> s\<lparr>mq_con := CoReturn None\<rparr> | Some n \<Rightarrow> mq_advance n (CoNext2 n) s)
           else
             (case nxt of None \<Rightarrow> s\<lparr>mq_con := CoHead tail\<rparr> | Some n \<Rightarrow> mq_advance n (CoReturn (Some tail)) s))
      | CoNext2 tail \<Rightarrow>
          (case mq_next s tail of
             None \<Rightarrow> s\<lparr>mq_con := CoHead tail\<rparr> | Some n \<Rightarrow> mq_advance n (CoReturn (Some tail)) s)
      | CoHead tail \<Rightarrow> s\<lparr>mq_con := (if tail \<noteq> mq_head s then CoReturn None else CoStubStore tail)\<rparr>
      | CoStubStore tail \<Rightarrow> mq_link mq_stub None (s\<lparr>mq_con := CoStubExchange tail\<rparr>)
      | CoStubExchange tail \<Rightarrow>
          s\<lparr>mq_head := mq_stub, mq_order := mq_order s @ [mq_stub], mq_con := CoStubLink tail (mq_head s)\<rparr>
      | CoStubLink tail p \<Rightarrow> mq_link p (Some mq_stub) (s\<lparr>mq_con := CoReload tail\<rparr>)
      | CoReload tail \<Rightarrow>
          (case mq_next s tail of
             None \<Rightarrow> s\<lparr>mq_con := CoReturn None\<rparr> | Some n \<Rightarrow> mq_advance n (CoReturn (Some tail)) s)
      | _ \<Rightarrow> s)"

definition mq_pop_return :: "mq_state \<Rightarrow> mq_state" where
  "mq_pop_return s =
     (case mq_con s of
        CoReturn r \<Rightarrow> s\<lparr>mq_con := CoIdle, mq_held := mq_held s - set_option r\<rparr>
      | _ \<Rightarrow> s)"

text \<open>
  All threads together.  A caller of \<open>push_back\<close> hands over a node that the queue does not
  hold; there is one consumer.
\<close>

inductive mq_step :: "mq_state \<Rightarrow> mq_state \<Rightarrow> bool" where
  mq_call: "mq_pc s t = MqIdle \<Longrightarrow> x \<noteq> mq_stub \<Longrightarrow> x \<notin> mq_held s \<Longrightarrow> mq_step s (mq_push_call t x s)"
| mq_push: "mq_step s (mq_push_step t s)"
| mq_return: "mq_pc s t = MqReturn b \<Longrightarrow> mq_step s (mq_push_return t s)"
| mq_pop: "mq_con s = CoIdle \<Longrightarrow> mq_step s (mq_pop_call s)"
| mq_pops: "mq_step s (mq_pop_step s)"
| mq_popped: "mq_step s (mq_pop_return s)"

section \<open>The invariant\<close>

primrec adj :: "'a list \<Rightarrow> 'a \<Rightarrow> 'a \<Rightarrow> bool" where
  "adj [] a b = False"
| "adj (y # ys) a b = (ys \<noteq> [] \<and> a = y \<and> b = hd ys \<or> adj ys a b)"

lemma adj_snoc [simp]: "adj (xs @ [x]) a b \<longleftrightarrow> adj xs a b \<or> xs \<noteq> [] \<and> a = last xs \<and> b = x"
  by (induction xs) (auto simp: hd_append)

lemma adj_mem: "adj xs a b \<Longrightarrow> a \<in> set xs \<and> b \<in> set xs"
  by (induction xs) auto

lemma adj_tl_mem: "adj xs a b \<Longrightarrow> b \<in> set (tl xs)"
  by (induction xs) (auto simp: neq_Nil_conv dest: adj_mem)

lemma adj_last: "adj xs a b \<Longrightarrow> distinct xs \<Longrightarrow> a \<noteq> last xs"
  by (induction xs) (auto dest: adj_mem)

lemma adj_unique: "adj xs a b \<Longrightarrow> adj xs a c \<Longrightarrow> distinct xs \<Longrightarrow> b = c"
  by (induction xs) (auto dest: adj_mem)

lemma adj_unique_left: "adj xs a c \<Longrightarrow> adj xs b c \<Longrightarrow> distinct xs \<Longrightarrow> a = b"
  by (induction xs) (auto dest: adj_tl_mem simp: neq_Nil_conv)

definition mq_linking :: "mq_state \<Rightarrow> addr \<Rightarrow> addr \<Rightarrow> bool" where
  "mq_linking s a b \<longleftrightarrow> (\<exists>t. mq_pc s t = MqLink a b) \<or> (\<exists>u. mq_con s = CoStubLink u a \<and> b = mq_stub)"

text \<open>The node a producer is pushing, and whether it is still out of the queue.\<close>

fun mq_node :: "mq_pc \<Rightarrow> addr option" where
  "mq_node (MqStore x) = Some x"
| "mq_node (MqExchange x) = Some x"
| "mq_node (MqLink p x) = Some x"
| "mq_node _ = None"

fun mq_outside :: "mq_pc \<Rightarrow> addr option" where
  "mq_outside (MqStore x) = Some x"
| "mq_outside (MqExchange x) = Some x"
| "mq_outside _ = None"

fun mq_con_ok :: "mq_con \<Rightarrow> mq_state \<Rightarrow> bool" where
  "mq_con_ok (CoNext2 u) s \<longleftrightarrow> u = mq_tail s \<and> u \<noteq> mq_stub"
| "mq_con_ok (CoHead u) s \<longleftrightarrow> u = mq_tail s \<and> u \<noteq> mq_stub"
| "mq_con_ok (CoStubStore u) s \<longleftrightarrow> u = mq_tail s \<and> u \<noteq> mq_stub \<and> mq_stub \<notin> set (mq_order s)"
| "mq_con_ok (CoStubExchange u) s \<longleftrightarrow>
     u = mq_tail s \<and> u \<noteq> mq_stub \<and> mq_stub \<notin> set (mq_order s) \<and> mq_next s mq_stub = None"
| "mq_con_ok (CoStubLink u p) s \<longleftrightarrow> u = mq_tail s \<and> u \<noteq> mq_stub"
| "mq_con_ok (CoReload u) s \<longleftrightarrow> u = mq_tail s \<and> u \<noteq> mq_stub"
| "mq_con_ok (CoReturn (Some x)) s \<longleftrightarrow>
     x \<noteq> mq_stub \<and> x \<in> mq_held s \<and> x \<notin> set (mq_order s) \<and> (\<forall>t. mq_node (mq_pc s t) \<noteq> Some x) \<and>
     mq_taken s \<noteq> [] \<and> last (mq_taken s) = x"
| "mq_con_ok _ s = True"

definition mq_chained :: "mq_state \<Rightarrow> bool" where
  "mq_chained s \<longleftrightarrow>
     mq_order s \<noteq> [] \<and> distinct (mq_order s) \<and> hd (mq_order s) = mq_tail s \<and> last (mq_order s) = mq_head s \<and>
     mq_next s (mq_head s) = None \<and>
     (\<forall>a b. adj (mq_order s) a b \<longrightarrow> mq_next s a = (if mq_linking s a b then None else Some b)) \<and>
     (\<forall>a b. mq_linking s a b \<longrightarrow> adj (mq_order s) a b)"

definition mq_owned :: "mq_state \<Rightarrow> bool" where
  "mq_owned s \<longleftrightarrow>
     (\<forall>t x. mq_node (mq_pc s t) = Some x \<longrightarrow> x \<noteq> mq_stub \<and> x \<in> mq_held s) \<and>
     (\<forall>t t' x. mq_node (mq_pc s t) = Some x \<longrightarrow> mq_node (mq_pc s t') = Some x \<longrightarrow> t = t') \<and>
     (\<forall>t x. mq_outside (mq_pc s t) = Some x \<longrightarrow> x \<notin> set (mq_order s)) \<and>
     (\<forall>t x. mq_pc s t = MqExchange x \<longrightarrow> mq_next s x = None) \<and>
     set (mq_order s) - {mq_stub} \<subseteq> mq_held s"

definition mq_content :: "mq_state \<Rightarrow> addr list" where
  "mq_content s = filter (\<lambda>x. x \<noteq> mq_stub) (mq_order s)"

definition mq_inv :: "mq_state \<Rightarrow> bool" where
  "mq_inv s \<longleftrightarrow> mq_chained s \<and> mq_owned s \<and> mq_con_ok (mq_con s) s \<and> mq_log s = mq_taken s @ mq_content s"

lemma mq_inv_empty: "mq_inv mq_empty"
  by (simp add: mq_inv_def mq_empty_def mq_chained_def mq_owned_def mq_content_def mq_linking_def)

lemmas mq_defs = mq_chained_def mq_owned_def mq_content_def mq_linking_def

lemma mq_inv_owned:
  assumes "mq_inv s"
  shows "mq_node (mq_pc s t) = Some x \<Longrightarrow> x \<noteq> mq_stub" "mq_node (mq_pc s t) = Some x \<Longrightarrow> x \<in> mq_held s"
    and "mq_node (mq_pc s t) = Some x \<Longrightarrow> mq_node (mq_pc s t') = Some x \<Longrightarrow> t = t'"
    and "mq_outside (mq_pc s t) = Some x \<Longrightarrow> x \<notin> set (mq_order s)"
    and "mq_pc s t = MqExchange x \<Longrightarrow> mq_next s x = None"
    and "x \<in> set (mq_order s) \<Longrightarrow> x \<noteq> mq_stub \<Longrightarrow> x \<in> mq_held s"
  using assms unfolding mq_inv_def mq_owned_def by blast+

lemma mq_order_held: "mq_inv s \<Longrightarrow> set (mq_order s) - {mq_stub} \<subseteq> mq_held s"
  by (simp add: mq_inv_def mq_owned_def)

lemma mq_linking_adj: "mq_inv s \<Longrightarrow> mq_linking s a b \<Longrightarrow> adj (mq_order s) a b"
  by (simp add: mq_inv_def mq_chained_def)

lemma mq_outside_node: "mq_outside pc = Some x \<Longrightarrow> mq_node pc = Some x"
  by (cases pc) auto

lemma mq_linking_goto:
  assumes "mq_pc s' = (mq_pc s)(t := pc)" and "mq_con s' = mq_con s"
  shows "mq_linking s' a b \<longleftrightarrow> pc = MqLink a b \<or> (\<exists>t'. t' \<noteq> t \<and> mq_pc s t' = MqLink a b) \<or>
    (\<exists>u. mq_con s = CoStubLink u a \<and> b = mq_stub)"
  using assms by (auto simp: mq_linking_def)

lemma mq_linking_more:
  assumes "mq_pc s' = (mq_pc s)(t := pc)" and "mq_con s' = mq_con s" and "\<And>a b. mq_pc s t \<noteq> MqLink a b"
  shows "mq_linking s' a b \<longleftrightarrow> pc = MqLink a b \<or> mq_linking s a b"
  unfolding mq_linking_goto [OF assms(1,2)] mq_linking_def [of s] using assms(3) by metis

lemma mq_linking_less:
  assumes "mq_pc s' = (mq_pc s)(t := pc)" and "mq_con s' = mq_con s" and "\<And>a b. pc \<noteq> MqLink a b"
    and "mq_pc s t = MqLink p x" "x \<noteq> mq_stub" "\<And>t' b. mq_pc s t' = MqLink b x \<Longrightarrow> t' = t"
  shows "mq_linking s' a b \<longleftrightarrow> mq_linking s a b \<and> \<not> (a = p \<and> b = x)"
proof -
  have "(\<exists>t'. t' \<noteq> t \<and> mq_pc s t' = MqLink a b) \<longleftrightarrow> (\<exists>t'. mq_pc s t' = MqLink a b) \<and> \<not> (a = p \<and> b = x)"
    using assms(4,6) by (metis mq_pc.inject(3))
  moreover have "\<not> (\<exists>u. mq_con s = CoStubLink u a \<and> b = mq_stub) \<or> b \<noteq> x" using assms(5) by auto
  ultimately show ?thesis unfolding mq_linking_goto [OF assms(1,2)] mq_linking_def [of s] using assms(3) by blast
qed

lemma mq_owned_goto:
  assumes i: "mq_inv s" and pc: "mq_pc s' = (mq_pc s)(t := pc)" and held: "mq_held s \<subseteq> mq_held s'"
    and order: "set (mq_order s') \<subseteq> set (mq_order s) \<union> set_option (mq_node (mq_pc s t))"
    and nxt: "\<And>y. y \<notin> set (mq_order s) \<Longrightarrow> mq_next s' y = mq_next s y \<or> mq_next s' y = None"
    and node: "\<And>x. mq_node pc = Some x \<Longrightarrow>
      mq_node (mq_pc s t) = Some x \<or> x \<notin> mq_held s \<and> x \<noteq> mq_stub \<and> x \<in> mq_held s'"
    and out: "\<And>x. mq_outside pc = Some x \<Longrightarrow> x \<notin> set (mq_order s')"
    and exch: "\<And>x. pc = MqExchange x \<Longrightarrow> mq_next s' x = None"
  shows "mq_owned s'"
  unfolding mq_owned_def
proof (intro conjI allI impI)
  have n: "x \<noteq> mq_stub \<and> x \<in> mq_held s' \<and> (\<forall>t'. t' \<noteq> t \<longrightarrow> mq_node (mq_pc s t') \<noteq> Some x)"
    if "mq_node pc = Some x" for x
    using node [OF that] mq_inv_owned(1,2) [OF i, of _ x] mq_inv_owned(3) [OF i, of t x] held by auto
  {
    fix t1 t2 x assume a: "mq_node (mq_pc s' t1) = Some x" "mq_node (mq_pc s' t2) = Some x"
    show "t1 = t2"
    proof (cases "t1 = t \<or> t2 = t")
      case True
      then show ?thesis using a n [of x] by (auto simp: pc split: if_splits)
    next
      case False
      then show ?thesis using a mq_inv_owned(3) [OF i] by (simp add: pc)
    qed
  next
    fix t1 x assume a: "mq_node (mq_pc s' t1) = Some x"
    show "x \<noteq> mq_stub" "x \<in> mq_held s'"
      using a n [of x] mq_inv_owned(1,2) [OF i, of t1 x] held by (auto simp: pc split: if_splits)
  next
    fix t1 x assume a: "mq_outside (mq_pc s' t1) = Some x"
    show "x \<notin> set (mq_order s')"
    proof (cases "t1 = t")
      case False
      then have o: "mq_outside (mq_pc s t1) = Some x" using a by (simp add: pc)
      then have "mq_node (mq_pc s t) \<noteq> Some x" using mq_inv_owned(3) [OF i, of t1 x t] mq_outside_node False by blast
      then show ?thesis using order mq_inv_owned(4) [OF i o] by auto
    qed (use a out in \<open>simp add: pc\<close>)
  next
    fix t1 x assume a: "mq_pc s' t1 = MqExchange x"
    show "mq_next s' x = None"
    proof (cases "t1 = t")
      case False
      then have "mq_pc s t1 = MqExchange x" using a by (simp add: pc)
      with mq_inv_owned(4) [OF i, of t1 x] mq_inv_owned(5) [OF i, of t1 x] nxt [of x] show ?thesis by auto
    qed (use a exch in \<open>simp add: pc\<close>)
  }
  show "set (mq_order s') - {mq_stub} \<subseteq> mq_held s'"
    using order mq_order_held [OF i] mq_inv_owned(2) [OF i, of t] held by (cases "mq_node (mq_pc s t)") auto
qed

lemma mq_con_goto:
  assumes i: "mq_inv s" and pc: "mq_pc s' = (mq_pc s)(t := pc)"
    and same: "mq_con s' = mq_con s" "mq_tail s' = mq_tail s" "mq_taken s' = mq_taken s" "mq_held s \<subseteq> mq_held s'"
    and order: "set (mq_order s') \<subseteq> set (mq_order s) \<union> set_option (mq_node (mq_pc s t))"
    and nxt: "mq_stub \<notin> set (mq_order s) \<Longrightarrow> mq_next s mq_stub = None \<Longrightarrow> mq_next s' mq_stub = None"
    and node: "\<And>x. mq_node pc = Some x \<Longrightarrow> mq_node (mq_pc s t) = Some x \<or> x \<notin> mq_held s"
  shows "mq_con_ok (mq_con s') s'"
proof -
  have c: "mq_con_ok (mq_con s) s" using i by (simp add: mq_inv_def)
  have st: "mq_stub \<notin> set (mq_order s')" if "mq_stub \<notin> set (mq_order s)"
    using that order mq_inv_owned(1) [OF i, of t mq_stub] by auto
  have rt: "mq_con_ok (CoReturn (Some x)) s'" if x: "mq_con s = CoReturn (Some x)" for x
  proof -
    have o: "x \<noteq> mq_stub" "x \<in> mq_held s" "x \<notin> set (mq_order s)" "\<And>t. mq_node (mq_pc s t) \<noteq> Some x"
      "mq_taken s \<noteq> []" "last (mq_taken s) = x" using c x by auto
    have "mq_node (mq_pc s' t') \<noteq> Some x" for t' using o(2,4) node [of x] by (auto simp: pc)
    moreover have "x \<notin> set (mq_order s')" using o(3,4) order by auto
    ultimately show ?thesis using o same by auto
  qed
  show ?thesis using c st rt nxt unfolding same by (cases "(mq_con s, s)" rule: mq_con_ok.cases) (auto simp: same)
qed

lemma mq_linking_same:
  assumes "mq_pc s' = (mq_pc s)(t := pc)" and "mq_con s' = mq_con s"
    and "\<And>a b. mq_pc s t \<noteq> MqLink a b" "\<And>a b. pc \<noteq> MqLink a b"
  shows "mq_linking s' = mq_linking s"
  using assms(3,4) by (intro ext) (metis mq_linking_goto [OF assms(1,2)] mq_linking_def)

lemma mq_con_ok_cong:
  assumes "mq_con_ok c s" and "mq_tail s' = mq_tail s" "mq_order s' = mq_order s" "mq_taken s' = mq_taken s"
    and "mq_held s \<subseteq> mq_held s'" and "mq_next s mq_stub = None \<Longrightarrow> mq_stub \<notin> set (mq_order s) \<Longrightarrow> mq_next s' mq_stub = None"
    and "\<And>t x. c = CoReturn (Some x) \<Longrightarrow> mq_node (mq_pc s t) \<noteq> Some x \<Longrightarrow> mq_node (mq_pc s' t) \<noteq> Some x"
  shows "mq_con_ok c s'"
  using assms by (cases "(c, s)" rule: mq_con_ok.cases) auto

lemma mq_inv_call:
  assumes i: "mq_inv s" and t: "mq_pc s t = MqIdle" and x: "x \<noteq> mq_stub" "x \<notin> mq_held s"
  shows "mq_inv (mq_push_call t x s)"
proof -
  let ?s = "mq_push_call t x s"
  have n: "mq_node (mq_pc s t') \<noteq> Some x" "mq_outside (mq_pc s t') \<noteq> Some x" for t'
    using mq_inv_owned(2) [OF i, of t' x] x mq_outside_node by auto
  have no: "x \<notin> set (mq_order s)" using mq_inv_owned(6) [OF i] x by blast
  have l: "mq_linking ?s = mq_linking s"
    by (rule mq_linking_same [of _ _ t "MqStore x"]) (use t in \<open>auto simp: mq_push_call_def mq_goto_def\<close>)
  have "mq_chained ?s" using i l by (auto simp: mq_inv_def mq_chained_def mq_push_call_def mq_goto_def)
  moreover have "mq_owned ?s"
    by (rule mq_owned_goto [OF i, of _ t "MqStore x"])
       (use n x no t in \<open>auto simp: mq_push_call_def mq_goto_def\<close>)
  moreover have "mq_con_ok (mq_con ?s) ?s"
    by (rule mq_con_goto [OF i, of _ t "MqStore x"]) (use t x in \<open>auto simp: mq_push_call_def mq_goto_def\<close>)
  ultimately show ?thesis using i by (auto simp: mq_inv_def mq_push_call_def mq_goto_def mq_content_def)
qed

lemma mq_inv_store:
  assumes i: "mq_inv s" and t: "mq_pc s t = MqStore x"
  shows "mq_inv (mq_push_step t s)"
proof -
  let ?s = "mq_goto t (MqExchange x) (mq_link x None s)"
  have x: "x \<notin> set (mq_order s)" "x \<noteq> mq_stub" "x \<in> mq_held s"
    using mq_inv_owned(4) [OF i, of t x] mq_inv_owned(1,2) [OF i, of t x] t by auto
  have l: "mq_linking ?s = mq_linking s"
    by (rule mq_linking_same [of _ _ t "MqExchange x"]) (use t in \<open>auto simp: mq_goto_def mq_link_def\<close>)
  have h: "mq_head s \<in> set (mq_order s)" using i by (auto simp: mq_inv_def mq_chained_def dest!: last_in_set)
  have "mq_chained ?s"
    using i l x by (auto simp: mq_inv_def mq_chained_def mq_goto_def mq_link_def dest: adj_mem)
  moreover have "mq_owned ?s"
    by (rule mq_owned_goto [OF i, of _ t "MqExchange x"])
       (use t x in \<open>auto simp: mq_goto_def mq_link_def\<close>)
  moreover have "mq_con_ok (mq_con ?s) ?s"
    by (rule mq_con_goto [OF i, of _ t "MqExchange x"]) (use t x in \<open>auto simp: mq_goto_def mq_link_def\<close>)
  ultimately show ?thesis
    using i t by (auto simp: mq_inv_def mq_push_step_def mq_goto_def mq_content_def mq_link_def)
qed

lemma mq_inv_exchange:
  assumes i: "mq_inv s" and t: "mq_pc s t = MqExchange x"
  shows "mq_inv (mq_push_step t s)"
proof -
  let ?s = "mq_goto t (MqLink (mq_head s) x)
          (s\<lparr>mq_head := x, mq_order := mq_order s @ [x], mq_log := mq_log s @ [x]\<rparr>)"
  have x: "x \<notin> set (mq_order s)" "x \<noteq> mq_stub" "mq_next s x = None" "x \<in> mq_held s"
    using mq_inv_owned(4) [OF i, of t x] mq_inv_owned(1,2) [OF i, of t x] mq_inv_owned(5) [OF i t] t by auto
  have l: "mq_linking ?s a b \<longleftrightarrow> mq_linking s a b \<or> a = mq_head s \<and> b = x" for a b
    by (subst mq_linking_more [of _ s t "MqLink (mq_head s) x"]) (use t in \<open>auto simp: mq_goto_def\<close>)
  have nl: "\<not> mq_linking s a x" for a using mq_linking_adj [OF i, of a x] x(1) adj_mem by metis
  have "mq_chained ?s"
    using i l x by (auto simp: mq_inv_def mq_chained_def mq_goto_def dest: adj_mem)
  moreover have "mq_owned ?s" 
    by (rule mq_owned_goto [OF i, of _ t "MqLink (mq_head s) x"])
       (use t in \<open>auto simp: mq_goto_def\<close>)
  moreover have "mq_con_ok (mq_con ?s) ?s"
    by (rule mq_con_goto [OF i, of _ t "MqLink (mq_head s) x"]) (use t x in \<open>auto simp: mq_goto_def\<close>)
  ultimately show ?thesis
    using i t x by (auto simp: mq_inv_def mq_push_step_def mq_goto_def mq_content_def)
qed

lemma mq_chained_link:
  assumes i: "mq_inv s" and a: "adj (mq_order s) p x"
    and l: "\<And>c b. mq_linking s' c b \<longleftrightarrow> mq_linking s c b \<and> \<not> (c = p \<and> b = x)"
    and "mq_order s' = mq_order s" "mq_tail s' = mq_tail s" "mq_head s' = mq_head s"
      "mq_next s' = (mq_next s)(p := Some x)"
  shows "mq_chained s'"
proof -
  have c: "distinct (mq_order s)" "last (mq_order s) = mq_head s"
    "\<And>a b. adj (mq_order s) a b \<Longrightarrow> mq_next s a = (if mq_linking s a b then None else Some b)"
    using i by (auto simp: mq_inv_def mq_chained_def)
  have "p \<noteq> mq_head s" using adj_last [OF a c(1)] c(2) by simp
  moreover have "mq_next s' b = (if mq_linking s' b d then None else Some d)" if "adj (mq_order s) b d" for b d
    using adj_unique [OF a _ c(1), of d] c(3) [OF that] that assms(7) l by (cases "b = p") auto
  ultimately show ?thesis using i assms(4-7) l by (simp add: mq_inv_def mq_chained_def)
qed

lemma mq_inv_link:
  assumes i: "mq_inv s" and t: "mq_pc s t = MqLink p x"
  shows "mq_inv (mq_push_step t s)"
proof -
  let ?s = "mq_goto t (MqReturn (p = mq_stub)) (mq_link p (Some x) s)"
  have p: "mq_linking s p x" using t by (auto simp: mq_linking_def)
  then have a: "adj (mq_order s) p x" using i by (auto simp: mq_inv_def mq_chained_def)
  have x: "x \<noteq> mq_stub" using mq_inv_owned(1) [OF i, of t x] t by simp
  have d: "distinct (mq_order s)" using i by (auto simp: mq_inv_def mq_chained_def)
  have un: "mq_pc s t' = MqLink b x \<Longrightarrow> t' = t" for t' b
    using mq_inv_owned(3) [OF i, of t' x t] t by simp
  have l: "mq_linking ?s c b \<longleftrightarrow> mq_linking s c b \<and> \<not> (c = p \<and> b = x)" for c b
  proof (rule mq_linking_less [OF _ _ _ t x un])
    show "mq_pc ?s = (mq_pc s)(t := MqReturn (p = mq_stub))" by (simp add: mq_goto_def mq_link_def)
  qed (simp_all add: mq_goto_def mq_link_def)
  have "mq_chained ?s" by (rule mq_chained_link [OF i a l]) (simp_all add: mq_goto_def mq_link_def)
  moreover have "mq_owned ?s" 
    by (rule mq_owned_goto [OF i, of _ t "MqReturn (p = mq_stub)"])
       (use adj_mem [OF a] t in \<open>auto simp: mq_goto_def mq_link_def\<close>)
  moreover have "mq_con_ok (mq_con ?s) ?s"
    by (rule mq_con_goto [OF i, of _ t "MqReturn (p = mq_stub)"])
       (use t adj_mem [OF a] in \<open>auto simp: mq_goto_def mq_link_def\<close>)
  ultimately show ?thesis
    using i t x by (auto simp: mq_inv_def mq_push_step_def mq_goto_def mq_content_def mq_link_def)
qed

lemma mq_inv_push: "mq_inv s \<Longrightarrow> mq_inv (mq_push_step t s)"
proof (cases "mq_pc s t")
  case MqIdle
  then show "mq_inv s \<Longrightarrow> ?thesis" by (simp add: mq_push_step_def)
next
  case (MqReturn b)
  then show "mq_inv s \<Longrightarrow> ?thesis" by (simp add: mq_push_step_def)
qed (use mq_inv_store mq_inv_exchange mq_inv_link in blast)+

lemma mq_inv_return:
  assumes i: "mq_inv s" and t: "mq_pc s t = MqReturn b"
  shows "mq_inv (mq_push_return t s)"
proof -
  let ?s = "mq_push_return t s"
  have l: "mq_linking ?s = mq_linking s"
    by (rule mq_linking_same [of _ _ t MqIdle]) (use t in \<open>auto simp: mq_push_return_def mq_goto_def\<close>)
  have "mq_chained ?s" using i l by (auto simp: mq_inv_def mq_chained_def mq_push_return_def mq_goto_def)
  moreover have "mq_owned ?s" 
    by (rule mq_owned_goto [OF i, of _ t MqIdle])
       (use t in \<open>auto simp: mq_push_return_def mq_goto_def\<close>)
  moreover have "mq_con_ok (mq_con ?s) ?s"
    by (rule mq_con_goto [OF i, of _ t MqIdle]) (use t in \<open>auto simp: mq_push_return_def mq_goto_def\<close>)
  ultimately show ?thesis using i by (auto simp: mq_inv_def mq_push_return_def mq_goto_def mq_content_def)
qed

text \<open>The consumer.\<close>

lemma mq_inv_con:
  assumes "mq_inv s" and "\<not> (\<exists>u p. mq_con s = CoStubLink u p)" "\<not> (\<exists>u p. c = CoStubLink u p)" and "mq_con_ok c s"
  shows "mq_inv (s\<lparr>mq_con := c\<rparr>)"
proof -
  have l: "mq_linking (s\<lparr>mq_con := c\<rparr>) = mq_linking s"
    using assms(2,3) by (auto simp: mq_linking_def fun_eq_iff)
  have "mq_con_ok c (s\<lparr>mq_con := c\<rparr>)" using assms(4) by (rule mq_con_ok_cong) auto
  then show ?thesis using assms(1) l by (auto simp: mq_inv_def mq_chained_def mq_owned_def mq_content_def)
qed

lemma mq_inv_advance:
  assumes i: "mq_inv s" and n: "mq_next s (mq_tail s) = Some n" and c: "\<not> (\<exists>u p. mq_con s = CoStubLink u p)"
    and k: "(mq_tail s = mq_stub \<and> con = CoNext2 n) \<or> (mq_tail s \<noteq> mq_stub \<and> con = CoReturn (Some (mq_tail s)))"
  shows "mq_inv (mq_advance n con s)"
proof -
  let ?s = "mq_advance n con s"
  obtain os where os: "mq_order s = mq_tail s # os"
    using i by (cases "mq_order s") (auto simp: mq_inv_def mq_chained_def)
  have ch: "distinct (mq_order s)" "last (mq_order s) = mq_head s" "mq_next s (mq_head s) = None"
    "\<And>a b. adj (mq_order s) a b \<Longrightarrow> mq_next s a = (if mq_linking s a b then None else Some b)"
    "\<And>a b. mq_linking s a b \<Longrightarrow> adj (mq_order s) a b"
    using i by (auto simp: mq_inv_def mq_chained_def)
  have ne: "os \<noteq> []" using ch(2,3) n os by auto
  have "mq_next s (mq_tail s) = (if mq_linking s (mq_tail s) (hd os) then None else Some (hd os))"
    by (rule ch(4)) (use os ne in simp)
  then have nl: "\<not> mq_linking s (mq_tail s) (hd os)" "n = hd os" using n by (auto split: if_splits)
  have l: "mq_linking ?s = mq_linking s" using c k by (auto simp: mq_linking_def mq_advance_def fun_eq_iff)
  have ad: "mq_linking s a b \<Longrightarrow> adj os a b" for a b
    using ch(5) [of a b] nl os by auto
  have chained: "mq_chained ?s"
    using ch os ne nl ad unfolding mq_chained_def l by (auto simp: mq_advance_def)
  have ow: "mq_owned ?s" using i os by (auto simp: mq_inv_def mq_owned_def mq_advance_def)
  have hn: "mq_node (mq_pc s t) \<noteq> Some (mq_tail s)" for t
  proof
    assume m: "mq_node (mq_pc s t) = Some (mq_tail s)"
    show False
    proof (cases "mq_pc s t")
      case (MqLink p x)
      with m have "mq_linking s p (mq_tail s)" by (auto simp: mq_linking_def)
      from adj_tl_mem [OF ch(5) [OF this]] os ch(1) show False by simp
    qed (use m os mq_inv_owned(4) [OF i, of t "mq_tail s"] in auto)
  qed
  have "mq_con_ok con ?s"
    using k
  proof
    assume "mq_tail s = mq_stub \<and> con = CoNext2 n"
    moreover have "n \<in> set os" using nl(2) ne by simp
    ultimately show ?thesis using os ch(1) by (auto simp: mq_advance_def)
  next
    assume k: "mq_tail s \<noteq> mq_stub \<and> con = CoReturn (Some (mq_tail s))"
    have "mq_tail s \<in> mq_held s" using i k os by (auto simp: mq_inv_def mq_owned_def)
    then show ?thesis using k hn os ch(1) by (auto simp: mq_advance_def)
  qed
  moreover have "mq_log ?s = mq_taken ?s @ mq_content ?s"
    using i k os by (auto simp: mq_inv_def mq_advance_def mq_content_def)
  ultimately show ?thesis using chained ow by (simp add: mq_inv_def mq_advance_def)
qed

lemma mq_inv_pop:
  assumes i: "mq_inv s"
  shows "mq_inv (mq_pop_step s)"
proof (cases "mq_con s")
  case CoNext
  then show ?thesis using i mq_inv_con [OF i] mq_inv_advance [OF i]
    by (auto simp: mq_pop_step_def Let_def split: option.splits)
next
  case (CoNext2 u)
  then have "u = mq_tail s" "u \<noteq> mq_stub" using i by (auto simp: mq_inv_def)
  then show ?thesis using CoNext2 mq_inv_con [OF i] mq_inv_advance [OF i]
    by (auto simp: mq_pop_step_def split: option.splits)
next
  case (CoHead u)
  then have u: "u = mq_tail s" "u \<noteq> mq_stub" using i by (auto simp: mq_inv_def)
  have "mq_stub \<notin> set (mq_order s)" if "u = mq_head s"
  proof -
    have o: "distinct (mq_order s)" "hd (mq_order s) = last (mq_order s)" "mq_order s \<noteq> []" "hd (mq_order s) = u"
      using that u i by (auto simp: mq_inv_def mq_chained_def)
    then have "mq_order s = [u]" by (cases "mq_order s") (auto split: if_splits)
    then show ?thesis using u by simp
  qed
  then show ?thesis using u CoHead mq_inv_con [OF i] by (auto simp: mq_pop_step_def)
next
  case (CoStubStore u)
  then have u: "u = mq_tail s" "u \<noteq> mq_stub" "mq_stub \<notin> set (mq_order s)" using i by (auto simp: mq_inv_def)
  have l: "mq_linking (mq_pop_step s) = mq_linking s"
    using CoStubStore by (auto simp: mq_linking_def mq_pop_step_def mq_link_def fun_eq_iff)
  have h: "mq_head s \<noteq> mq_stub" using u i by (auto simp: mq_inv_def mq_chained_def dest!: last_in_set)
  show ?thesis
    using i u CoStubStore h unfolding mq_inv_def mq_chained_def l
    by (auto simp: mq_pop_step_def mq_link_def mq_owned_def mq_content_def dest: adj_mem)
next
  case (CoStubExchange u)
  then have u: "u = mq_tail s" "u \<noteq> mq_stub" "mq_stub \<notin> set (mq_order s)" "mq_next s mq_stub = None"
    using i by (auto simp: mq_inv_def)
  have l: "mq_linking (mq_pop_step s) a b \<longleftrightarrow> mq_linking s a b \<or> a = mq_head s \<and> b = mq_stub" for a b
    using CoStubExchange by (auto simp: mq_linking_def mq_pop_step_def)
  have "mq_outside (mq_pc s t) \<noteq> Some mq_stub" for t
    using mq_inv_owned(1) [OF i, of t mq_stub] mq_outside_node by blast
  then show ?thesis
    using i u CoStubExchange unfolding mq_inv_def mq_chained_def l
    by (auto simp: mq_pop_step_def mq_owned_def mq_content_def dest: adj_mem)
next
  case (CoStubLink u p)
  then have u: "u = mq_tail s" "u \<noteq> mq_stub" using i by (auto simp: mq_inv_def)
  have pl: "mq_linking s p mq_stub" using CoStubLink by (auto simp: mq_linking_def)
  then have a: "adj (mq_order s) p mq_stub" using i by (auto simp: mq_inv_def mq_chained_def)
  have d: "distinct (mq_order s)" using i by (auto simp: mq_inv_def mq_chained_def)
  have np: "mq_pc s t \<noteq> MqLink b mq_stub" for t b
    using mq_inv_owned(1) [OF i, of t mq_stub] by auto
  have l: "mq_linking (mq_pop_step s) c b \<longleftrightarrow> mq_linking s c b \<and> \<not> (c = p \<and> b = mq_stub)" for c b
    using CoStubLink np by (auto simp: mq_linking_def mq_pop_step_def mq_link_def)
  have "mq_chained (mq_pop_step s)"
    by (rule mq_chained_link [OF i a l]) (simp_all add: CoStubLink mq_pop_step_def mq_link_def)
  moreover have "mq_pc s t \<noteq> MqExchange p" for t using mq_inv_owned(4) [OF i, of t p] adj_mem [OF a] by auto
  ultimately show ?thesis using i u CoStubLink
    by (auto simp: mq_inv_def mq_pop_step_def mq_link_def mq_owned_def mq_content_def dest: adj_mem)
next
  case (CoReload u)
  then have "u = mq_tail s" "u \<noteq> mq_stub" using i by (auto simp: mq_inv_def)
  then show ?thesis using CoReload mq_inv_con [OF i] mq_inv_advance [OF i]
    by (auto simp: mq_pop_step_def split: option.splits)
qed (use i in \<open>auto simp: mq_pop_step_def\<close>)

lemma mq_inv_popped:
  assumes i: "mq_inv s"
  shows "mq_inv (mq_pop_return s)"
proof (cases "mq_con s")
  case (CoReturn r)
  have l: "mq_linking (mq_pop_return s) = mq_linking s"
    using CoReturn by (auto simp: mq_linking_def mq_pop_return_def fun_eq_iff)
  have "mq_owned (mq_pop_return s)"
    using i CoReturn by (cases r) (fastforce simp: mq_inv_def mq_owned_def mq_pop_return_def)+
  then show ?thesis using i CoReturn unfolding mq_inv_def mq_chained_def l
    by (simp add: mq_pop_return_def mq_content_def)
qed (use i in \<open>auto simp: mq_pop_return_def\<close>)

lemma mq_inv_step: "mq_step s s' \<Longrightarrow> mq_inv s \<Longrightarrow> mq_inv s'"
proof (induction rule: mq_step.induct)
  case (mq_pop s)
  then show ?case unfolding mq_pop_call_def by (intro mq_inv_con) auto
qed (simp_all add: mq_inv_call mq_inv_push mq_inv_return mq_inv_pop mq_inv_popped)

interpretation mq: safe_system "\<lambda>s. s = mq_empty" mq_step mq_inv
  by unfold_locales (auto intro: mq_inv_step mq_inv_empty)

section \<open>A consumer that is not disturbed\<close>

lemma mq_order_cases:
  assumes "mq_inv s"
  obtains os where "mq_order s = mq_tail s # os" "distinct (mq_tail s # os)" "mq_head s = last (mq_tail s # os)"
proof -
  have "mq_order s \<noteq> []" "hd (mq_order s) = mq_tail s" "distinct (mq_order s)" "last (mq_order s) = mq_head s"
    using assms by (auto simp: mq_inv_def mq_chained_def)
  then show ?thesis using that [of "tl (mq_order s)"] by (cases "mq_order s") auto
qed

lemma mq_next_settled:
  assumes i: "mq_inv s" and l: "\<And>a b. \<not> mq_linking s a b" and o: "mq_order s = us @ a # os"
  shows "mq_next s a = (case os of [] \<Rightarrow> None | b # _ \<Rightarrow> Some b)"
proof (cases os)
  case Nil
  then have "a = mq_head s" "mq_next s (mq_head s) = None" using i o by (auto simp: mq_inv_def mq_chained_def)
  then show ?thesis using Nil by simp
next
  case (Cons b bs)
  have "adj (us @ a # os) a b" using Cons by (induction us) auto
  then show ?thesis using i l o Cons by (auto simp: mq_inv_def mq_chained_def)
qed

text \<open>From the load of the head on, when the node is the last one.\<close>

lemma mq_pop_last:
  assumes "mq_con s = CoHead u" and "mq_head s = u"
  shows "mq_con ((mq_pop_step ^^ 5) s) = CoReturn (Some u)"
  using assms by (simp add: numeral_eq_Suc mq_pop_step_def mq_link_def mq_advance_def)

lemma mq_pop_alone:
  assumes i: "mq_inv s" and c: "mq_con s = CoIdle" and p: "\<And>t p x. mq_pc s t \<noteq> MqLink p x"
  shows "\<exists>k. mq_con ((mq_pop_step ^^ k) (mq_pop_call s)) =
    CoReturn (case mq_content s of [] \<Rightarrow> None | x # _ \<Rightarrow> Some x)"
proof -
  let ?s = "mq_pop_call s"
  have l: "\<not> mq_linking s a b" for a b using c p by (simp add: mq_linking_def)
  obtain os where o: "mq_order s = mq_tail s # os" "distinct (mq_tail s # os)" "mq_head s = last (mq_tail s # os)"
    by (rule mq_order_cases [OF i])
  have n: "mq_next s (mq_tail s) = (case os of [] \<Rightarrow> None | b # _ \<Rightarrow> Some b)"
    using mq_next_settled [OF i l, of "[]"] o(1) by simp
  show ?thesis
  proof (cases "mq_tail s = mq_stub")
    case False
    then have ct: "mq_content s = mq_tail s # filter (\<lambda>x. x \<noteq> mq_stub) os" using o by (simp add: mq_content_def)
    show ?thesis
    proof (cases os)
      case Nil
      have "mq_con (mq_pop_step ?s) = CoHead (mq_tail s)" "mq_head (mq_pop_step ?s) = mq_tail s"
        using False n o Nil by (simp_all add: mq_pop_step_def mq_pop_call_def)
      from mq_pop_last [OF this] have "mq_con ((mq_pop_step ^^ 6) ?s) = CoReturn (Some (mq_tail s))"
        by (simp add: numeral_eq_Suc funpow_swap1)
      then show ?thesis using ct by (intro exI [of _ 6]) simp
    next
      case (Cons b bs)
      then have "mq_con ((mq_pop_step ^^ 1) ?s) = CoReturn (Some (mq_tail s))"
        using False n by (simp add: mq_pop_step_def mq_pop_call_def mq_advance_def Let_def)
      then show ?thesis using ct by (metis list.simps(5))
    qed
  next
    case True
    show ?thesis
    proof (cases os)
      case Nil
      then have "mq_con ((mq_pop_step ^^ 1) ?s) = CoReturn None" "mq_content s = []"
        using True n o by (simp_all add: mq_pop_step_def mq_pop_call_def mq_content_def)
      then show ?thesis by (metis list.simps(4))
    next
      case (Cons b bs)
      have b: "b \<noteq> mq_stub" using o(2) Cons True by auto
      then have ct: "mq_content s = b # filter (\<lambda>x. x \<noteq> mq_stub) bs"
        using o Cons True by (simp add: mq_content_def)
      let ?s1 = "mq_pop_step ?s"
      have s1: "mq_con ?s1 = CoNext2 b" "mq_head ?s1 = mq_head s" "mq_next ?s1 = mq_next s"
        using True n Cons by (simp_all add: mq_pop_step_def mq_pop_call_def mq_advance_def)
      have nb: "mq_next s b = (case bs of [] \<Rightarrow> None | b # _ \<Rightarrow> Some b)"
        using mq_next_settled [OF i l, of "[mq_tail s]"] o(1) Cons by simp
      show ?thesis
      proof (cases bs)
        case Nil
        then have "mq_con (mq_pop_step ?s1) = CoHead b" "mq_head (mq_pop_step ?s1) = b"
          using s1 nb o(3) Cons by (simp_all add: mq_pop_step_def)
        from mq_pop_last [OF this] have "mq_con ((mq_pop_step ^^ 7) ?s) = CoReturn (Some b)"
          by (simp add: numeral_eq_Suc funpow_swap1)
        then show ?thesis using ct by (intro exI [of _ 7]) simp
      next
        case (Cons d ds)
        then have "mq_con ((mq_pop_step ^^ 2) ?s) = CoReturn (Some b)"
          using s1 nb by (simp add: numeral_eq_Suc mq_pop_step_def mq_advance_def)
        then show ?thesis using ct by (intro exI [of _ 2]) simp
      qed
    qed
  qed
qed

section \<open>Properties\<close>

text \<open>
  Claim C28.  Under any interleaving of producers and the consumer the queue is first in, first
  out: the nodes popped are, in order, the first ones of those pushed in the order of the
  producers' exchanges, and the rest is still in the queue; a node that \<open>pop_front\<close> returns has
  left the queue and no thread will write to it any more; and a \<open>pop_front\<close> that starts when no
  producer is between its exchange and its link and runs undisturbed returns the oldest node,
  null only if there is none.
\<close>

theorem mq_fifo:
  assumes "reach (\<lambda>s. s = mq_empty) mq_step s"
  shows "mq_log s = mq_taken s @ mq_content s \<and>
    (\<forall>x. mq_con s = CoReturn (Some x) \<longrightarrow> last (mq_taken s) = x \<and> x \<notin> set (mq_order s) \<and>
      (\<forall>t. mq_node (mq_pc s t) \<noteq> Some x) \<and> (\<forall>b. \<not> mq_linking s x b)) \<and>
    (mq_con s = CoIdle \<longrightarrow> (\<forall>t p x. mq_pc s t \<noteq> MqLink p x) \<longrightarrow>
      (\<exists>k. mq_con ((mq_pop_step ^^ k) (mq_pop_call s)) =
        CoReturn (case mq_content s of [] \<Rightarrow> None | x # _ \<Rightarrow> Some x)))"
proof (intro conjI)
  have i: "mq_inv s" using assms by (rule mq.reach_inv)
  then show "mq_log s = mq_taken s @ mq_content s" by (simp add: mq_inv_def)
  have "mq_con_ok (mq_con s) s" using i by (simp add: mq_inv_def)
  moreover have "x \<in> set (mq_order s)" if "mq_linking s x b" for x b
    using mq_linking_adj [OF i that] adj_mem by metis
  ultimately show "\<forall>x. mq_con s = CoReturn (Some x) \<longrightarrow> last (mq_taken s) = x \<and> x \<notin> set (mq_order s) \<and>
      (\<forall>t. mq_node (mq_pc s t) \<noteq> Some x) \<and> (\<forall>b. \<not> mq_linking s x b)"
    by auto
  show "mq_con s = CoIdle \<longrightarrow> (\<forall>t p x. mq_pc s t \<noteq> MqLink p x) \<longrightarrow>
      (\<exists>k. mq_con ((mq_pop_step ^^ k) (mq_pop_call s)) =
        CoReturn (case mq_content s of [] \<Rightarrow> None | x # _ \<Rightarrow> Some x))"
    using mq_pop_alone [OF i] by blast
qed

text \<open>Two pushes, the second of them between its exchange and its link while the consumer pops.\<close>

definition mq_example :: mq_state where
  "mq_example =
     (let s1 = mq_push_step 1 (mq_push_step 1 (mq_push_step 1 (mq_push_call 1 5 mq_empty)));
          s2 = mq_push_step 2 (mq_push_step 2 (mq_push_call 2 6 s1));
          s3 = (mq_pop_step ^^ 3) (mq_pop_call s2);
          s4 = mq_push_step 2 (mq_pop_return s3)
      in (mq_pop_step ^^ 1) (mq_pop_call s4))"

lemma mq_pops_reach: "reach init mq_step s \<Longrightarrow> reach init mq_step ((mq_pop_step ^^ k) s)"
  by (induction k) (auto intro: reach_step mq_step.mq_pops)

lemma mq_example_reach: "reach (\<lambda>s. s = mq_empty) mq_step mq_example"
proof -
  let ?R = "reach (\<lambda>s. s = mq_empty) mq_step"
  define s1 where "s1 = mq_push_step 1 (mq_push_step 1 (mq_push_step 1 (mq_push_call 1 5 mq_empty)))"
  define s2 where "s2 = mq_push_step 2 (mq_push_step 2 (mq_push_call 2 6 s1))"
  define s3 where "s3 = (mq_pop_step ^^ 3) (mq_pop_call s2)"
  define s4 where "s4 = mq_push_step 2 (mq_pop_return s3)"
  note ds = mq_push_step_def mq_push_call_def mq_empty_def mq_goto_def mq_link_def mq_stub_def
  have "?R mq_empty" by (rule reach_init) simp
  moreover have "mq_step mq_empty (mq_push_call 1 5 mq_empty)"
    by (rule mq_call) (simp_all add: mq_empty_def mq_stub_def)
  ultimately have "?R s1" unfolding s1_def by (meson reach_step mq_push)
  moreover have "mq_step s1 (mq_push_call 2 6 s1)"
    by (rule mq_call) (simp_all add: s1_def ds)
  ultimately have "?R s2" unfolding s2_def by (meson reach_step mq_push)
  moreover have "mq_step s2 (mq_pop_call s2)" by (rule mq_pop) (simp add: s2_def s1_def ds)
  ultimately have "?R s3" unfolding s3_def by (meson reach_step mq_pops_reach)
  then have "?R s4" unfolding s4_def by (meson reach_step mq_push mq_popped)
  moreover have "mq_step s4 (mq_pop_call s4)"
    by (rule mq_pop) (simp add: s4_def s3_def s2_def s1_def ds numeral_eq_Suc mq_pop_call_def
        mq_pop_step_def mq_advance_def mq_pop_return_def)
  ultimately show ?thesis
    unfolding mq_example_def Let_def s1_def s2_def s3_def s4_def by (meson reach_step mq_pops_reach)
qed

theorem mq_fifo_witness:
  "mq_log mq_example = mq_taken mq_example @ mq_content mq_example \<and> mq_con mq_example = CoReturn (Some 5) \<and>
   mq_content mq_example = [6] \<and> 5 \<notin> set (mq_order mq_example)"
proof -
  have "mq_con mq_example = CoReturn (Some 5)" "mq_content mq_example = [6]" by code_simp+
  with mq_fifo [OF mq_example_reach] show ?thesis by blast
qed

end
