(* ===== verification/TimedThread.thy ===== *)
theory TimedThread
  imports MpscQueue TimerHeap
begin

text \<open>
  The timed thread scheduler of \<^verbatim>\<open>include/exec/timed_thread_scheduler.hpp\<close>: the operations that
  \<open>schedule_at\<close> starts, their stop callbacks, and the context's thread, which moves commands
  from the queue of \<open>MpscQueue\<close> to the heap of \<open>TimerHeap\<close> and fires the timers that are due.

  Operation \<open>i\<close> is two commands, its \<^verbatim>\<open>timed_thread_schedule_operation_base\<close> at the address
  \<open>tc_task i\<close>, which is also its heap node, and its \<^verbatim>\<open>stop_op_\<close> at \<open>tc_stop_op i\<close>.  The threads are
  the context's (\<open>Runner\<close>), the one that starts operation \<open>i\<close> and the one that runs its stop
  callback; they take one atomic access, critical section or heap operation per step, and the
  queue's threads advance by the steps of \<open>MpscQueue\<close>.  The log of completions, the set of
  operations in the heap and the flag of a callback that came too late are ghost state.
\<close>

section \<open>Time points\<close>

datatype when_type = WhenType (when_time: int) (when_counter: nat)

definition when_less :: "when_type \<Rightarrow> when_type \<Rightarrow> bool" where
  "when_less lhs rhs \<longleftrightarrow> when_time lhs < when_time rhs \<or>
     (\<not> when_time rhs < when_time lhs \<and> when_counter lhs < when_counter rhs)"

instantiation when_type :: linorder
begin

definition less_when_type :: "when_type \<Rightarrow> when_type \<Rightarrow> bool" where
  "(lhs :: when_type) < rhs \<longleftrightarrow> when_less lhs rhs"

definition less_eq_when_type :: "when_type \<Rightarrow> when_type \<Rightarrow> bool" where
  "lhs \<le> rhs \<longleftrightarrow> (lhs :: when_type) < rhs \<or> lhs = rhs"

instance
  by intro_classes (auto simp: less_when_type_def when_less_def less_eq_when_type_def intro: when_type.expand)

end

section \<open>State\<close>

datatype tc_outcome = TcValue | TcStopped

datatype tc_thread = Runner | Starter nat | Callback nat

datatype tc_pc =
    TcIdle
  | TcCas
  | TcArmed
  | TcCall
  | TcRemoved
  | TcSubmit addr
  | TcPushing
  | TcNotify
  | TcLeave
  | TcRestore int
  | TcDec nat tc_outcome tc_pc
  | TcReset nat tc_outcome tc_pc
  | TcComplete nat tc_outcome tc_pc
  | TcDone
  | TcPop
  | TcPopping
  | TcInsert addr
  | TcErase addr
  | TcNow
  | TcFire int
  | TcWait int
  | TcClose
  | TcDrain
  | TcExit

record tc_state =
  tc_queue :: mq_state
  tc_heap :: iheap
  tc_when :: "addr \<Rightarrow> when_type"
  tc_counter :: nat
  tc_inflight :: int
  tc_ready :: bool
  tc_stop :: bool
  tc_time :: "nat \<Rightarrow> int"
  tc_now :: int
  tc_ref :: "nat \<Rightarrow> int"
  tc_pc :: "tc_thread \<Rightarrow> tc_pc"
  tc_log :: "(nat \<times> tc_outcome) list"
  tc_in :: "addr set"
  tc_late :: "nat \<Rightarrow> int"

definition tc_task :: "nat \<Rightarrow> addr" where
  "tc_task i = 2 * i + 2"

definition tc_stop_op :: "nat \<Rightarrow> addr" where
  "tc_stop_op i = 2 * i + 3"

definition tc_op :: "addr \<Rightarrow> nat" where
  "tc_op c = (c - 2) div 2"

fun tc_tid :: "tc_thread \<Rightarrow> nat" where
  "tc_tid Runner = 0"
| "tc_tid (Starter i) = 2 * i + 1"
| "tc_tid (Callback i) = 2 * i + 2"

definition context_closed :: int where
  "context_closed = - (2 ^ 62)"

definition tc_timeout :: int where
  "tc_timeout = 2 * 10 ^ 9"

definition tc_init :: "tc_state \<Rightarrow> bool" where
  "tc_init s \<longleftrightarrow> tc_queue s = mq_empty \<and> tc_heap s = ih_empty \<and> tc_counter s = 1 \<and> tc_inflight s = 0 \<and>
     \<not> tc_ready s \<and> \<not> tc_stop s \<and> (\<forall>i. tc_ref s i = 0) \<and> tc_pc s = (\<lambda>_. TcIdle)(Runner := TcPop) \<and>
     tc_log s = [] \<and> tc_in s = {} \<and> (\<forall>i. tc_late s i = 0)"

definition tc_goto :: "tc_thread \<Rightarrow> tc_pc \<Rightarrow> tc_state \<Rightarrow> tc_state" where
  "tc_goto t pc s = s\<lparr>tc_pc := (tc_pc s)(t := pc)\<rparr>"

section \<open>The operation\<close>

text \<open>\<open>start\<close>: register the stop callback, claim the operation, submit the schedule command.\<close>

inductive tc_start_step :: "nat \<Rightarrow> tc_state \<Rightarrow> tc_state \<Rightarrow> bool" for i where
  start_emplace: "tc_pc s (Starter i) = TcIdle \<Longrightarrow>
     tc_start_step i s (tc_goto (Starter i) TcCas (tc_goto (Callback i) TcArmed s))"
| start_claim: "tc_pc s (Starter i) = TcCas \<Longrightarrow> tc_ref s i = 0 \<Longrightarrow>
     tc_start_step i s (tc_goto (Starter i) (TcSubmit (tc_task i)) (s\<lparr>tc_ref := (tc_ref s)(i := 1)\<rparr>))"
| start_stopped: "tc_pc s (Starter i) = TcCas \<Longrightarrow> tc_ref s i \<noteq> 0 \<Longrightarrow>
     tc_start_step i s (tc_goto (Starter i) (TcReset i TcStopped TcDone) s)"

text \<open>\<open>request_stop\<close>, the stop callback: submit the stop command if the operation is pending.\<close>

inductive tc_callback_step :: "nat \<Rightarrow> tc_state \<Rightarrow> tc_state \<Rightarrow> bool" for i where
  callback_invoke: "tc_pc s (Callback i) = TcArmed \<Longrightarrow> tc_callback_step i s (tc_goto (Callback i) TcCall s)"
| callback_pending: "tc_pc s (Callback i) = TcCall \<Longrightarrow> tc_ref s i = 1 \<Longrightarrow>
     tc_callback_step i s (tc_goto (Callback i) (TcSubmit (tc_stop_op i)) (s\<lparr>tc_ref := (tc_ref s)(i := 2)\<rparr>))"
| callback_other: "tc_pc s (Callback i) = TcCall \<Longrightarrow> tc_ref s i \<noteq> 1 \<Longrightarrow>
     tc_callback_step i s (tc_goto (Callback i) TcDone
       (s\<lparr>tc_ref := (tc_ref s)(i := tc_ref s i + 1), tc_late := (tc_late s)(i := 1)\<rparr>))"

text \<open>
  The functions \<open>set_value_\<close> and \<open>set_stopped_\<close> of an operation and of its stop command: drop
  one reference, and the last one removes the callback, waiting while another thread runs it, and
  completes the receiver.
\<close>

definition tc_can_reset :: "tc_thread \<Rightarrow> nat \<Rightarrow> tc_state \<Rightarrow> bool" where
  "tc_can_reset t i s \<longleftrightarrow> t = Callback i \<or> tc_pc s (Callback i) \<in> {TcArmed, TcRemoved, TcDone}"

definition tc_remove_callback :: "nat \<Rightarrow> tc_state \<Rightarrow> tc_state" where
  "tc_remove_callback i s =
     (if tc_pc s (Callback i) = TcArmed then tc_goto (Callback i) TcRemoved s else s)"

inductive tc_release_step :: "tc_thread \<Rightarrow> tc_state \<Rightarrow> tc_state \<Rightarrow> bool" for t where
  release_last: "tc_pc s t = TcDec i k pc \<Longrightarrow> tc_ref s i = 1 \<Longrightarrow>
     tc_release_step t s (tc_goto t (TcReset i k pc) (s\<lparr>tc_ref := (tc_ref s)(i := 0)\<rparr>))"
| release_one: "tc_pc s t = TcDec i k pc \<Longrightarrow> tc_ref s i \<noteq> 1 \<Longrightarrow>
     tc_release_step t s (tc_goto t pc (s\<lparr>tc_ref := (tc_ref s)(i := tc_ref s i - 1)\<rparr>))"
| release_reset: "tc_pc s t = TcReset i k pc \<Longrightarrow> tc_can_reset t i s \<Longrightarrow>
     tc_release_step t s (tc_goto t (TcComplete i k pc) (tc_remove_callback i s))"
| release_complete: "tc_pc s t = TcComplete i k pc \<Longrightarrow>
     tc_release_step t s (tc_goto t pc (s\<lparr>tc_log := tc_log s @ [(i, k)]\<rparr>))"

section \<open>The context\<close>

text \<open>\<open>schedule\<close>, by any thread but the context's.\<close>

inductive tc_schedule_step :: "tc_thread \<Rightarrow> tc_state \<Rightarrow> tc_state \<Rightarrow> bool" for t where
  schedule_enter: "tc_pc s t = TcSubmit c \<Longrightarrow> 0 \<le> tc_inflight s \<Longrightarrow>
     tc_schedule_step t s (tc_goto t TcPushing
       (s\<lparr>tc_inflight := tc_inflight s + 1, tc_queue := mq_push_call (tc_tid t) c (tc_queue s)\<rparr>))"
| schedule_closed: "tc_pc s t = TcSubmit c \<Longrightarrow> tc_inflight s < 0 \<Longrightarrow>
     tc_schedule_step t s (tc_goto t (TcDec (tc_op c) TcStopped (TcRestore (tc_inflight s)))
       (s\<lparr>tc_inflight := tc_inflight s + 1\<rparr>))"
| schedule_restore: "tc_pc s t = TcRestore n \<Longrightarrow>
     tc_schedule_step t s (tc_goto t TcDone
       (s\<lparr>tc_inflight := (if tc_inflight s = n then context_closed else tc_inflight s)\<rparr>))"
| schedule_pushing: "tc_pc s t = TcPushing \<Longrightarrow>
     tc_schedule_step t s (s\<lparr>tc_queue := mq_push_step (tc_tid t) (tc_queue s)\<rparr>)"
| schedule_pushed: "tc_pc s t = TcPushing \<Longrightarrow> mq_pc (tc_queue s) (tc_tid t) = MqReturn b \<Longrightarrow>
     tc_schedule_step t s (tc_goto t (if b then TcNotify else TcLeave)
       (s\<lparr>tc_queue := mq_push_return (tc_tid t) (tc_queue s)\<rparr>))"
| schedule_notify: "tc_pc s t = TcNotify \<Longrightarrow> tc_schedule_step t s (tc_goto t TcLeave (s\<lparr>tc_ready := True\<rparr>))"
| schedule_leave: "tc_pc s t = TcLeave \<Longrightarrow>
     tc_schedule_step t s (tc_goto t TcDone (s\<lparr>tc_inflight := tc_inflight s - 1\<rparr>))"

text \<open>
  \<open>run\<close>: take every command, fire the timers that are due, wait; on a stop request close the
  context and drain the heap.
\<close>

inductive tc_run_step :: "tc_state \<Rightarrow> tc_state \<Rightarrow> bool" where
  run_pop: "tc_pc s Runner = TcPop \<Longrightarrow>
     tc_run_step s (tc_goto Runner TcPopping (s\<lparr>tc_queue := mq_pop_call (tc_queue s)\<rparr>))"
| run_popping: "tc_pc s Runner = TcPopping \<Longrightarrow>
     tc_run_step s (s\<lparr>tc_queue := mq_pop_step (tc_queue s)\<rparr>)"
| run_popped: "tc_pc s Runner = TcPopping \<Longrightarrow> mq_con (tc_queue s) = CoReturn (Some c) \<Longrightarrow>
     tc_run_step s (tc_goto Runner (if even c then TcInsert c else TcErase (tc_task (tc_op c)))
       (s\<lparr>tc_queue := mq_pop_return (tc_queue s)\<rparr>))"
| run_none: "tc_pc s Runner = TcPopping \<Longrightarrow> mq_con (tc_queue s) = CoReturn None \<Longrightarrow>
     tc_run_step s (tc_goto Runner TcNow (s\<lparr>tc_queue := mq_pop_return (tc_queue s)\<rparr>))"
| run_insert: "tc_pc s Runner = TcInsert c \<Longrightarrow>
     when' = (tc_when s)(c := WhenType (tc_time s (tc_op c)) (tc_counter s)) \<Longrightarrow>
     ih_insert when' c (tc_heap s) = Some h \<Longrightarrow>
     tc_run_step s (tc_goto Runner TcPop
       (s\<lparr>tc_when := when', tc_counter := tc_counter s + 1, tc_heap := h, tc_in := insert c (tc_in s)\<rparr>))"
| run_erase: "tc_pc s Runner = TcErase c \<Longrightarrow> ih_erase (tc_when s) c (tc_heap s) = Some (b, h) \<Longrightarrow>
     tc_run_step s (tc_goto Runner
       (let stop = TcDec (tc_op c) TcStopped TcPop in if b then TcDec (tc_op c) TcStopped stop else stop)
       (s\<lparr>tc_heap := h, tc_in := tc_in s - {c}\<rparr>))"
| run_now: "tc_pc s Runner = TcNow \<Longrightarrow> tc_run_step s (tc_goto Runner (TcFire (tc_now s)) s)"
| run_fire: "tc_pc s Runner = TcFire n \<Longrightarrow> ih_front (tc_heap s) = Some c \<Longrightarrow> tc_time s (tc_op c) \<le> n \<Longrightarrow>
     ih_pop_front (tc_when s) (tc_heap s) = Some h \<Longrightarrow>
     tc_run_step s (tc_goto Runner (TcDec (tc_op c) TcValue (TcFire n))
       (s\<lparr>tc_heap := h, tc_in := tc_in s - {c}\<rparr>))"
| run_fired: "tc_pc s Runner = TcFire n \<Longrightarrow>
     (case ih_front (tc_heap s) of None \<Rightarrow> d = n + tc_timeout
      | Some c \<Rightarrow> n < tc_time s (tc_op c) \<and> d = tc_time s (tc_op c)) \<Longrightarrow>
     tc_run_step s (tc_goto Runner (TcWait d) s)"
| run_woken: "tc_pc s Runner = TcWait d \<Longrightarrow> tc_ready s \<or> tc_stop s \<or> d \<le> tc_now s \<Longrightarrow>
     tc_run_step s (tc_goto Runner (if tc_stop s then TcClose else TcPop) (s\<lparr>tc_ready := False\<rparr>))"
| run_close: "tc_pc s Runner = TcClose \<Longrightarrow> tc_inflight s = 0 \<Longrightarrow>
     tc_run_step s (tc_goto Runner TcDrain (s\<lparr>tc_inflight := context_closed\<rparr>))"
| run_drain: "tc_pc s Runner = TcDrain \<Longrightarrow> ih_front (tc_heap s) = Some c \<Longrightarrow>
     ih_pop_front (tc_when s) (tc_heap s) = Some h \<Longrightarrow>
     tc_run_step s (tc_goto Runner (TcDec (tc_op c) TcStopped TcDrain)
       (s\<lparr>tc_heap := h, tc_in := tc_in s - {c}\<rparr>))"
| run_exit: "tc_pc s Runner = TcDrain \<Longrightarrow> ih_front (tc_heap s) = None \<Longrightarrow>
     tc_run_step s (tc_goto Runner TcExit s)"

text \<open>The whole system, with the destructor's \<open>request_stop\<close> and the clock.\<close>

inductive tc_step :: "tc_state \<Rightarrow> tc_state \<Rightarrow> bool" where
  tc_starts: "tc_start_step i s s' \<Longrightarrow> tc_step s s'"
| tc_calls: "tc_callback_step i s s' \<Longrightarrow> tc_step s s'"
| tc_releases: "tc_release_step t s s' \<Longrightarrow> tc_step s s'"
| tc_schedules: "tc_schedule_step t s s' \<Longrightarrow> tc_step s s'"
| tc_runs: "tc_run_step s s' \<Longrightarrow> tc_step s s'"
| tc_request_stop: "tc_step s (s\<lparr>tc_stop := True\<rparr>)"
| tc_tick: "tc_now s \<le> n \<Longrightarrow> tc_step s (s\<lparr>tc_now := n\<rparr>)"

section \<open>The invariant\<close>

text \<open>The references to operation \<open>i\<close> that a thread holds, and the completions it is about to make.\<close>

fun tc_holds :: "tc_pc \<Rightarrow> nat \<Rightarrow> int" where
  "tc_holds (TcSubmit c) i = of_bool (tc_op c = i)"
| "tc_holds (TcInsert c) i = of_bool (tc_op c = i)"
| "tc_holds (TcErase c) i = of_bool (tc_op c = i)"
| "tc_holds (TcDec j k pc) i = of_bool (j = i) + tc_holds pc i"
| "tc_holds (TcReset j k pc) i = tc_holds pc i"
| "tc_holds (TcComplete j k pc) i = tc_holds pc i"
| "tc_holds _ i = 0"

fun tc_finishing :: "tc_pc \<Rightarrow> nat \<Rightarrow> int" where
  "tc_finishing (TcReset j k pc) i = of_bool (j = i)"
| "tc_finishing (TcComplete j k pc) i = of_bool (j = i)"
| "tc_finishing _ i = 0"

text \<open>Which program counters a thread can have.\<close>

fun tc_client_ok :: "nat \<Rightarrow> addr \<Rightarrow> tc_pc \<Rightarrow> bool" where
  "tc_client_ok i c (TcSubmit d) \<longleftrightarrow> d = c"
| "tc_client_ok i c (TcDec j k pc) \<longleftrightarrow> j = i \<and> k = TcStopped \<and> (\<exists>n. pc = TcRestore n)"
| "tc_client_ok i c (TcReset j k pc) \<longleftrightarrow> j = i \<and> k = TcStopped \<and> (pc = TcDone \<or> (\<exists>n. pc = TcRestore n))"
| "tc_client_ok i c (TcComplete j k pc) \<longleftrightarrow> j = i \<and> k = TcStopped \<and> (pc = TcDone \<or> (\<exists>n. pc = TcRestore n))"
| "tc_client_ok i c pc \<longleftrightarrow> pc \<in> {TcPushing, TcNotify, TcLeave, TcDone} \<or> (\<exists>n. pc = TcRestore n)"

fun tc_runner_end :: "tc_pc \<Rightarrow> bool" where
  "tc_runner_end (TcFire n) = True"
| "tc_runner_end pc \<longleftrightarrow> pc \<in> {TcPop, TcDrain}"

fun tc_runner_cont :: "tc_pc \<Rightarrow> bool" where
  "tc_runner_cont (TcDec j k pc) \<longleftrightarrow> k = TcStopped \<and> pc = TcPop"
| "tc_runner_cont pc \<longleftrightarrow> tc_runner_end pc"

fun tc_runner_ok :: "tc_pc \<Rightarrow> bool" where
  "tc_runner_ok (TcInsert c) \<longleftrightarrow> c \<in> range tc_task"
| "tc_runner_ok (TcErase c) \<longleftrightarrow> c \<in> range tc_task"
| "tc_runner_ok (TcDec j k pc) \<longleftrightarrow> tc_runner_cont pc"
| "tc_runner_ok (TcReset j k pc) \<longleftrightarrow> tc_runner_cont pc"
| "tc_runner_ok (TcComplete j k pc) \<longleftrightarrow> tc_runner_cont pc"
| "tc_runner_ok (TcFire n) = True"
| "tc_runner_ok (TcWait d) = True"
| "tc_runner_ok pc \<longleftrightarrow> pc \<in> {TcPop, TcPopping, TcNow, TcClose, TcDrain, TcExit}"

fun tc_ok :: "tc_thread \<Rightarrow> tc_pc \<Rightarrow> bool" where
  "tc_ok Runner pc = tc_runner_ok pc"
| "tc_ok (Starter i) pc \<longleftrightarrow> pc \<in> {TcIdle, TcCas} \<or> tc_client_ok i (tc_task i) pc"
| "tc_ok (Callback i) pc \<longleftrightarrow> pc \<in> {TcIdle, TcArmed, TcCall, TcRemoved} \<or>
     tc_client_ok i (tc_stop_op i) pc \<and> \<not> (\<exists>j k. pc = TcReset j k TcDone) \<and> \<not> (\<exists>j k. pc = TcComplete j k TcDone)"

definition tc_shapes :: "tc_state \<Rightarrow> bool" where
  "tc_shapes s \<longleftrightarrow> (\<forall>t. tc_ok t (tc_pc s t))"

definition tc_queued :: "tc_state \<Rightarrow> bool" where
  "tc_queued s \<longleftrightarrow> mq_inv (tc_queue s) \<and>
     (\<forall>t. mq_pc (tc_queue s) (tc_tid t) \<noteq> MqIdle \<longrightarrow> tc_pc s t = TcPushing) \<and>
     (mq_con (tc_queue s) \<noteq> CoIdle \<longrightarrow> tc_pc s Runner = TcPopping) \<and>
     mq_held (tc_queue s) \<subseteq> range tc_task \<union> range tc_stop_op"

definition tc_heaped :: "tc_state \<Rightarrow> bool" where
  "tc_heaped s \<longleftrightarrow> ih_holds (tc_when s) (tc_heap s) (tc_in s) \<and> tc_in s \<subseteq> range tc_task"

definition tc_owned :: "tc_state \<Rightarrow> bool" where
  "tc_owned s \<longleftrightarrow>
     (\<forall>i. tc_pc s (Starter i) \<in> {TcIdle, TcCas, TcSubmit (tc_task i)} \<longrightarrow>
        tc_task i \<notin> mq_held (tc_queue s) \<and> tc_task i \<notin> tc_in s \<and> tc_pc s Runner \<noteq> TcInsert (tc_task i)) \<and>
     (\<forall>i. tc_pc s (Callback i) \<in> {TcIdle, TcArmed, TcCall, TcRemoved, TcSubmit (tc_stop_op i)} \<longrightarrow>
        tc_stop_op i \<notin> mq_held (tc_queue s) \<and> tc_pc s Runner \<noteq> TcErase (tc_task i)) \<and>
     (\<forall>i. tc_task i \<in> mq_held (tc_queue s) \<longrightarrow> tc_task i \<notin> tc_in s \<and> tc_pc s Runner \<noteq> TcInsert (tc_task i)) \<and>
     (\<forall>c. tc_pc s Runner = TcInsert c \<longrightarrow> c \<notin> tc_in s) \<and>
     (\<forall>i. tc_pc s Runner = TcErase (tc_task i) \<longrightarrow> tc_stop_op i \<notin> mq_held (tc_queue s))"

definition tc_store :: "tc_state \<Rightarrow> nat \<Rightarrow> int" where
  "tc_store s i =
     of_bool (tc_task i \<in> mq_held (tc_queue s)) + of_bool (tc_stop_op i \<in> mq_held (tc_queue s)) +
     of_bool (tc_task i \<in> tc_in s)"

definition tc_tokens :: "tc_state \<Rightarrow> nat \<Rightarrow> int" where
  "tc_tokens s i = tc_store s i +
     tc_holds (tc_pc s Runner) i + tc_holds (tc_pc s (Starter i)) i + tc_holds (tc_pc s (Callback i)) i"

definition tc_counted :: "tc_state \<Rightarrow> bool" where
  "tc_counted s \<longleftrightarrow>
     (\<forall>i. tc_ref s i = tc_tokens s i + tc_late s i) \<and>
     (\<forall>i. tc_late s i = 0 \<or> tc_late s i = 1 \<and> tc_tokens s i = 0 \<and> tc_pc s (Callback i) = TcDone) \<and>
     (\<forall>i. tc_pc s (Callback i) \<in> {TcIdle, TcArmed, TcCall, TcRemoved} \<longrightarrow> tc_tokens s i \<le> 1) \<and>
     (\<forall>i. tc_pc s (Starter i) \<in> {TcIdle, TcCas} \<longrightarrow> tc_tokens s i = 0)"

definition tc_completions :: "tc_state \<Rightarrow> nat \<Rightarrow> int" where
  "tc_completions s i =
     int (count_list (map fst (tc_log s)) i) +
     tc_finishing (tc_pc s Runner) i + tc_finishing (tc_pc s (Starter i)) i + tc_finishing (tc_pc s (Callback i)) i"

definition tc_finished :: "tc_state \<Rightarrow> bool" where
  "tc_finished s \<longleftrightarrow>
     (\<forall>i. tc_completions s i = of_bool (tc_pc s (Starter i) \<notin> {TcIdle, TcCas} \<and> tc_tokens s i = 0))"

definition tc_unarmed :: "tc_state \<Rightarrow> bool" where
  "tc_unarmed s \<longleftrightarrow>
     (\<forall>i. tc_pc s (Callback i) = TcIdle \<longleftrightarrow> tc_pc s (Starter i) = TcIdle) \<and>
     (\<forall>t i k pc. tc_pc s t = TcComplete i k pc \<longrightarrow> tc_pc s (Callback i) \<notin> {TcIdle, TcArmed, TcCall}) \<and>
     (\<forall>i k. (i, k) \<in> set (tc_log s) \<longrightarrow> tc_pc s (Callback i) \<notin> {TcIdle, TcArmed, TcCall})"

fun tc_due_pc :: "tc_pc \<Rightarrow> (nat \<Rightarrow> int) \<Rightarrow> int \<Rightarrow> bool" where
  "tc_due_pc (TcFire n) tp now \<longleftrightarrow> n \<le> now"
| "tc_due_pc (TcDec i k pc) tp now \<longleftrightarrow> (k = TcValue \<longrightarrow> tp i \<le> now) \<and> tc_due_pc pc tp now"
| "tc_due_pc (TcReset i k pc) tp now \<longleftrightarrow> (k = TcValue \<longrightarrow> tp i \<le> now) \<and> tc_due_pc pc tp now"
| "tc_due_pc (TcComplete i k pc) tp now \<longleftrightarrow> (k = TcValue \<longrightarrow> tp i \<le> now) \<and> tc_due_pc pc tp now"
| "tc_due_pc _ tp now = True"

definition tc_due :: "tc_state \<Rightarrow> bool" where
  "tc_due s \<longleftrightarrow> tc_due_pc (tc_pc s Runner) (tc_time s) (tc_now s) \<and>
     (\<forall>i. (i, TcValue) \<in> set (tc_log s) \<longrightarrow> tc_time s i \<le> tc_now s)"

definition tc_inv :: "tc_state \<Rightarrow> bool" where
  "tc_inv s \<longleftrightarrow> tc_shapes s \<and> tc_queued s \<and> tc_heaped s \<and> tc_owned s \<and> tc_counted s \<and> tc_finished s \<and>
     tc_unarmed s \<and> tc_due s"

lemma tc_addr [simp]:
  "tc_op (tc_task i) = i" "tc_op (tc_stop_op i) = i" "tc_task i \<noteq> tc_stop_op j" "tc_stop_op j \<noteq> tc_task i"
  "tc_task i = tc_task j \<longleftrightarrow> i = j" "tc_stop_op i = tc_stop_op j \<longleftrightarrow> i = j"
  "tc_task i \<noteq> mq_stub" "tc_stop_op i \<noteq> mq_stub" "even (tc_task i)" "odd (tc_stop_op i)"
proof -
  have "(2 * i + 3 - 2) div 2 = i" by simp
  then show "tc_op (tc_stop_op i) = i" unfolding tc_op_def tc_stop_op_def .
  show "tc_task i \<noteq> tc_stop_op j" "tc_stop_op j \<noteq> tc_task i"
    unfolding tc_task_def tc_stop_op_def by presburger+
qed (simp_all add: tc_op_def tc_task_def tc_stop_op_def mq_stub_def)

lemma tc_tid_inj [simp]: "tc_tid t = tc_tid u \<longleftrightarrow> t = u"
proof (cases t; cases u)
  fix i j assume "t = Starter i" "u = Callback j"
  then show ?thesis by simp presburger
next
  fix i j assume "t = Callback i" "u = Starter j"
  then show ?thesis by simp presburger
qed auto

lemma tc_inv_init:
  assumes "tc_init s"
  shows "tc_inv s"
proof -
  have "tc_pc s Runner = TcPop" "tc_pc s (Starter i) = TcIdle" "tc_pc s (Callback i) = TcIdle" for i
    using assms by (auto simp: tc_init_def)
  moreover have "tc_pc s t \<noteq> TcComplete i k pc" "tc_pc s t \<noteq> TcPushing" for t i k pc using assms by (auto simp: tc_init_def)
  moreover have "tc_ok t (tc_pc s t)" for t using assms by (cases t) (auto simp: tc_init_def)
  moreover have "ih_holds (tc_when s) ih_empty {}" by (rule ih.holds_empty)
  ultimately show ?thesis using assms mq_inv_empty
    by (simp add: tc_init_def tc_inv_def tc_shapes_def tc_queued_def tc_heaped_def tc_owned_def tc_counted_def
        tc_finished_def tc_unarmed_def tc_due_def tc_tokens_def tc_store_def tc_completions_def mq_empty_def)
qed

subsection \<open>The queue inside the context\<close>

lemma mq_step_held [simp]:
  "mq_held (mq_push_step t q) = mq_held q" "mq_held (mq_pop_step q) = mq_held q" "mq_held (mq_pop_call q) = mq_held q"
  "mq_held (mq_push_return t q) = mq_held q" "mq_held (mq_push_call t x q) = insert x (mq_held q)"
  by (auto simp: mq_push_step_def mq_pop_step_def mq_pop_call_def mq_push_return_def mq_push_call_def mq_goto_def
      mq_link_def mq_advance_def Let_def split: mq_pc.splits mq_con.splits option.splits)

lemma mq_pop_return_held [simp]: "mq_con q = CoReturn r \<Longrightarrow> mq_held (mq_pop_return q) = mq_held q - set_option r"
  by (simp add: mq_pop_return_def)

lemma mq_step_pc [simp]:
  "mq_pc (mq_pop_step q) = mq_pc q" "mq_pc (mq_pop_call q) = mq_pc q" "mq_pc (mq_pop_return q) = mq_pc q"
  "mq_pc (mq_push_return t q) = (mq_pc q)(t := MqIdle)" "mq_pc (mq_push_call t x q) = (mq_pc q)(t := MqStore x)"
  by (auto simp: mq_pop_step_def mq_pop_call_def mq_push_return_def mq_push_call_def mq_goto_def mq_pop_return_def
      mq_link_def mq_advance_def Let_def split: mq_con.splits option.splits)

lemma mq_push_step_pc: "n \<noteq> t \<Longrightarrow> mq_pc (mq_push_step t q) n = mq_pc q n"
  by (auto simp: mq_push_step_def mq_goto_def mq_link_def split: mq_pc.splits)

lemma mq_step_con [simp]:
  "mq_con (mq_push_step t q) = mq_con q" "mq_con (mq_push_return t q) = mq_con q" "mq_con (mq_push_call t x q) = mq_con q"
  by (auto simp: mq_push_step_def mq_push_return_def mq_push_call_def mq_goto_def mq_link_def split: mq_pc.splits)

lemma mq_con_call [simp]: "mq_con (mq_pop_call q) = CoNext"
  by (simp add: mq_pop_call_def)

lemma mq_con_return [simp]: "mq_con q = CoReturn r \<Longrightarrow> mq_con (mq_pop_return q) = CoIdle"
  by (simp add: mq_pop_return_def)

lemma mq_returned_held:
  assumes "mq_inv q" and "mq_con q = CoReturn (Some c)"
  shows "c \<in> mq_held q"
proof -
  have "mq_con_ok (CoReturn (Some c)) q" using assms by (simp add: mq_inv_def)
  then show ?thesis by simp
qed

inductive_cases tc_start_stepE: "tc_start_step i s s'"
inductive_cases tc_callback_stepE: "tc_callback_step i s s'"
inductive_cases tc_release_stepE: "tc_release_step t s s'"
inductive_cases tc_schedule_stepE: "tc_schedule_step t s s'"
inductive_cases tc_run_stepE: "tc_run_step s s'"
inductive_cases tc_stepE: "tc_step s s'"

named_theorems tc_simps
lemmas [tc_simps] = tc_goto_def tc_remove_callback_def

subsection \<open>Program counters\<close>

lemma tc_shapes_goto: "tc_shapes s \<Longrightarrow> tc_ok t pc \<Longrightarrow> tc_shapes (tc_goto t pc s)"
  by (simp add: tc_shapes_def tc_goto_def)

lemma tc_shapes_pc: "tc_shapes s \<Longrightarrow> tc_pc s' = tc_pc s \<Longrightarrow> tc_shapes s'"
  by (simp add: tc_shapes_def)

lemma tc_ok_cont:
  "tc_ok t (TcDec i k pc) \<Longrightarrow> tc_ok t pc \<and> tc_ok t (TcReset i k pc)"
  "tc_ok t (TcReset i k pc) \<Longrightarrow> tc_ok t (TcComplete i k pc)"
  "tc_ok t (TcComplete i k pc) \<Longrightarrow> tc_ok t pc"
  by (cases t; cases pc; auto)+

lemma tc_ok_client:
  "tc_ok t (TcSubmit c) \<Longrightarrow> tc_ok t TcPushing \<and> tc_ok t (TcDec (tc_op c) TcStopped (TcRestore n))"
  "tc_ok t TcPushing \<Longrightarrow> tc_ok t TcNotify \<and> tc_ok t TcLeave"
  "tc_ok t TcNotify \<Longrightarrow> tc_ok t TcLeave"
  "tc_ok t TcLeave \<Longrightarrow> tc_ok t TcDone"
  "tc_ok t (TcRestore n) \<Longrightarrow> tc_ok t TcDone"
  by (cases t; auto)+

lemma tc_shapes_step:
  assumes "tc_step s s'" and sh: "tc_shapes s"
    and held: "mq_inv (tc_queue s)" "mq_held (tc_queue s) \<subseteq> range tc_task \<union> range tc_stop_op" "tc_in s \<subseteq> range tc_task"
  shows "tc_shapes s'"
  using assms(1)
proof cases
  case (tc_starts i)
  then show ?thesis
    using sh by (elim tc_start_stepE) (auto simp: tc_simps tc_shapes_def)
next
  case (tc_calls i)
  then show ?thesis
    using sh by (elim tc_callback_stepE) (auto simp: tc_simps tc_shapes_def)
next
  case (tc_releases t)
  have ok: "tc_ok t (tc_pc s t)" using sh by (simp add: tc_shapes_def)
  from tc_releases show ?thesis
  proof (cases rule: tc_release_step.cases)
    case (release_last i k pc)
    then have "tc_ok t (TcReset i k pc)" using ok tc_ok_cont(1) by metis
    with release_last sh show ?thesis by (simp add: tc_simps tc_shapes_def)
  next
    case (release_one i k pc)
    then have "tc_ok t pc" using ok tc_ok_cont(1) by metis
    with release_one sh show ?thesis by (simp add: tc_simps tc_shapes_def)
  next
    case (release_reset i k pc)
    then have "tc_ok t (TcComplete i k pc)" using ok tc_ok_cont(2) by metis
    with release_reset sh show ?thesis by (simp add: tc_simps tc_shapes_def)
  next
    case (release_complete i k pc)
    then have "tc_ok t pc" using ok tc_ok_cont(3) by metis
    with release_complete sh show ?thesis by (simp add: tc_simps tc_shapes_def)
  qed
next
  case (tc_schedules t)
  have ok: "tc_ok t (tc_pc s t)" using sh by (simp add: tc_shapes_def)
  from tc_schedules show ?thesis
    by (cases rule: tc_schedule_step.cases) (use sh ok in \<open>auto simp: tc_simps tc_shapes_def dest: tc_ok_client\<close>)
next
  case tc_runs
  have ok: "tc_ok Runner (tc_pc s Runner)" using sh by (simp add: tc_shapes_def)
  from tc_runs show ?thesis
  proof (cases rule: tc_run_step.cases)
    case (run_popped c)
    then have "c \<in> range tc_task \<union> range tc_stop_op" using mq_returned_held [OF held(1)] held(2) by blast
    with run_popped sh show ?thesis by (auto simp: tc_simps tc_shapes_def)
  qed (use ok sh in \<open>auto simp: tc_simps tc_shapes_def Let_def\<close>)
qed (use sh in \<open>simp_all add: tc_shapes_def\<close>)

subsection \<open>The command queue\<close>

lemma tc_queued_frame:
  assumes "tc_queued s" and "tc_queue s' = tc_queue s" and "\<And>t. tc_pc s t = TcPushing \<Longrightarrow> tc_pc s' t = TcPushing"
    and "tc_pc s Runner = TcPopping \<Longrightarrow> tc_pc s' Runner = TcPopping"
  shows "tc_queued s'"
  using assms by (auto simp: tc_queued_def)

lemma tc_submit_fresh:
  assumes o: "tc_owned s" and sh: "tc_shapes s" and t: "tc_pc s t = TcSubmit c"
  shows "c \<notin> mq_held (tc_queue s)" and "c \<noteq> mq_stub" and "c \<in> range tc_task \<union> range tc_stop_op"
proof -
  have ok: "tc_ok t (TcSubmit c)" using sh t by (metis tc_shapes_def)
  show "c \<notin> mq_held (tc_queue s)" "c \<noteq> mq_stub" "c \<in> range tc_task \<union> range tc_stop_op"
    using ok o t by (cases t; auto simp: tc_owned_def)+
qed

lemma tc_queued_schedule:
  assumes st: "tc_schedule_step t s s'" and i: "tc_inv s"
  shows "tc_queued s'"
proof -
  have q: "tc_queued s" "mq_inv (tc_queue s)" and sh: "tc_shapes s" and ow: "tc_owned s"
    using i by (auto simp: tc_inv_def tc_queued_def)
  have runner: "t \<noteq> Runner" if "tc_pc s t \<in> {TcPushing, TcNotify, TcLeave} \<or> (\<exists>c. tc_pc s t = TcSubmit c) \<or> (\<exists>n. tc_pc s t = TcRestore n)"
    using sh that unfolding tc_shapes_def by (cases t) (auto dest: spec [of _ Runner])
  from st show ?thesis
  proof (cases rule: tc_schedule_step.cases)
    case (schedule_enter c)
    note f = tc_submit_fresh [OF ow sh schedule_enter(2)]
    have idle: "mq_pc (tc_queue s) (tc_tid t) = MqIdle"
      using q(1) schedule_enter(2) by (auto simp: tc_queued_def)
    then show ?thesis using schedule_enter q runner f mq_inv_call [OF q(2) idle f(2,1)]
      by (auto simp: tc_simps tc_queued_def)
  next
    case (schedule_pushing)
    have "tc_pc s u = TcPushing" if "mq_pc (mq_push_step (tc_tid t) (tc_queue s)) (tc_tid u) \<noteq> MqIdle" for u
      using that schedule_pushing q(1) by (cases "u = t") (auto simp: mq_push_step_pc tc_queued_def)
    then show ?thesis using schedule_pushing q mq_inv_push [OF q(2)] by (simp add: tc_queued_def)
  next
    case (schedule_pushed b)
    then show ?thesis using q runner mq_inv_return [OF q(2) schedule_pushed(3)]
      by (auto simp: tc_simps tc_queued_def)
  qed (use q(1) runner in \<open>auto simp: tc_simps elim!: tc_queued_frame\<close>)
qed

lemma tc_queued_run:
  assumes st: "tc_run_step s s'" and i: "tc_inv s"
  shows "tc_queued s'"
proof -
  have q: "tc_queued s" "mq_inv (tc_queue s)" and sh: "tc_shapes s"
    using i by (auto simp: tc_inv_def tc_queued_def)
  have r0: "mq_pc (tc_queue s) 0 \<noteq> MqIdle \<Longrightarrow> tc_pc s Runner = TcPushing"
    using q(1) unfolding tc_queued_def by (metis tc_tid.simps(1))
  from st show ?thesis
  proof (cases rule: tc_run_step.cases)
    case run_pop
    then have "mq_con (tc_queue s) = CoIdle" using q(1) by (auto simp: tc_queued_def)
    then have "mq_inv (mq_pop_call (tc_queue s))" using q(2) mq_inv_step mq_step.mq_pop by blast
    then show ?thesis using run_pop r0 q(1) by (auto simp: tc_simps tc_queued_def)
  next
    case run_popping
    then show ?thesis using q mq_inv_pop [OF q(2)] by (auto simp: tc_simps tc_queued_def)
  next
    case (run_popped c)
    then show ?thesis using r0 q mq_inv_popped [OF q(2)] by (auto simp: tc_simps tc_queued_def)
  next
    case run_none
    then show ?thesis using r0 q mq_inv_popped [OF q(2)] by (auto simp: tc_simps tc_queued_def)
  qed (use q(1) in \<open>auto simp: tc_simps Let_def elim!: tc_queued_frame\<close>)
qed

lemma tc_queued_step:
  assumes st: "tc_step s s'" and i: "tc_inv s"
  shows "tc_queued s'"
  using st
proof cases
  case (tc_starts i)
  have c: "tc_pc s (Callback i) = TcIdle \<longleftrightarrow> tc_pc s (Starter i) = TcIdle" and q: "tc_queued s"
    using assms(2) by (auto simp: tc_inv_def tc_unarmed_def)
  from tc_starts show ?thesis using c by (elim tc_start_stepE) (auto simp: tc_simps intro!: tc_queued_frame [OF q])
next
  case (tc_calls i)
  then show ?thesis using i by (elim tc_callback_stepE) (auto simp: tc_simps tc_inv_def elim!: tc_queued_frame)
next
  case (tc_releases t)
  then show ?thesis using i by (elim tc_release_stepE) (auto simp: tc_simps tc_inv_def elim!: tc_queued_frame)
next
  case (tc_schedules t)
  then show ?thesis using i by (rule tc_queued_schedule)
next
  case tc_runs
  then show ?thesis using i by (rule tc_queued_run)
qed (use i in \<open>auto simp: tc_inv_def elim!: tc_queued_frame\<close>)

subsection \<open>The heap\<close>

lemma ih_holds_cong:
  assumes "ih_holds key h S" and "\<And>x. x \<in> S \<Longrightarrow> key' x = key x"
  shows "ih_holds key' h S"
proof -
  obtain A n where h: "ih_rep h A n" "ih_ordered key A n" "ih_nodes A n = S" using assms(1) by (auto simp: ih_holds_def)
  have "key' (A i) = key (A i)" if "1 \<le> i" "i \<le> n" for i using assms(2) h(3) that by (auto simp: ih_nodes_def)
  then have "ih_ordered key' A n" using h(2) by (auto simp: ih_ordered_def)
  then show ?thesis using h by (auto simp: ih_holds_def)
qed

lemma tc_heaped_step:
  assumes st: "tc_step s s'" and i: "tc_inv s"
  shows "tc_heaped s'"
  using st
proof cases
  case (tc_starts i)
  then show ?thesis using assms(2) by (elim tc_start_stepE) (auto simp: tc_simps tc_inv_def tc_heaped_def)
next
  case (tc_calls i)
  then show ?thesis using assms(2) by (elim tc_callback_stepE) (auto simp: tc_simps tc_inv_def tc_heaped_def)
next
  case (tc_releases t)
  then show ?thesis using assms(2) by (elim tc_release_stepE) (auto simp: tc_simps tc_inv_def tc_heaped_def)
next
  case (tc_schedules t)
  then show ?thesis using assms(2) by (elim tc_schedule_stepE) (auto simp: tc_simps tc_inv_def tc_heaped_def)
next
  case tc_runs
  have h: "ih_holds (tc_when s) (tc_heap s) (tc_in s)" "tc_in s \<subseteq> range tc_task" and ow: "tc_owned s"
    and ok: "tc_ok Runner (tc_pc s Runner)"
    using i by (auto simp: tc_inv_def tc_heaped_def tc_shapes_def)
  have pop: "ih_holds (tc_when s) h' (tc_in s - {c})"
    if "ih_front (tc_heap s) = Some c" "ih_pop_front (tc_when s) (tc_heap s) = Some h'" for c h'
    using ih.holds_pop [OF h(1)] that by auto
  from tc_runs show ?thesis
  proof (cases rule: tc_run_step.cases)
    case (run_insert c when' h')
    then have c: "c \<notin> tc_in s" "c \<in> range tc_task" using ow ok by (auto simp: tc_owned_def)
    have "ih_holds when' (tc_heap s) (tc_in s)"
      by (rule ih_holds_cong [OF h(1)]) (use c(1) run_insert(3) in auto)
    from ih.holds_ins [OF this c(1)] run_insert h(2) c(2) show ?thesis by (auto simp: tc_simps tc_heaped_def)
  next
    case (run_erase c b h')
    from ih.holds_del [OF h(1), of c] run_erase h(2) show ?thesis by (auto simp: tc_simps tc_heaped_def)
  next
    case (run_fire n c h')
    from pop [OF run_fire(3,5)] run_fire h(2) show ?thesis by (auto simp: tc_simps tc_heaped_def)
  next
    case (run_drain c h')
    from pop [OF run_drain(3,4)] run_drain h(2) show ?thesis by (auto simp: tc_simps tc_heaped_def)
  qed (use h in \<open>auto simp: tc_simps tc_heaped_def\<close>)
qed (use i in \<open>auto simp: tc_inv_def tc_heaped_def\<close>)

subsection \<open>Due times\<close>

lemma tc_due_mono: "tc_due_pc pc tp n \<Longrightarrow> n \<le> m \<Longrightarrow> tc_due_pc pc tp m"
  by (induction pc) auto

lemma tc_due_frame:
  assumes "tc_due s" and "tc_pc s' Runner = tc_pc s Runner" "tc_time s' = tc_time s" "tc_now s' = tc_now s" "tc_log s' = tc_log s"
  shows "tc_due s'"
  using assms by (simp add: tc_due_def)

lemma tc_due_step:
  assumes st: "tc_step s s'" and i: "tc_inv s"
  shows "tc_due s'"
proof -
  have d: "tc_due s" and sh: "tc_shapes s" using i by (auto simp: tc_inv_def)
  from st show ?thesis
  proof cases
    case (tc_starts i)
    then show ?thesis by (elim tc_start_stepE) (auto simp: tc_simps intro!: tc_due_frame [OF d])
  next
    case (tc_calls i)
    then show ?thesis by (elim tc_callback_stepE) (auto simp: tc_simps intro!: tc_due_frame [OF d])
  next
    case (tc_releases t)
    then show ?thesis
    proof (cases rule: tc_release_step.cases)
      case (release_complete i k pc)
      have "k = TcStopped" if "t \<noteq> Runner"
        using sh that release_complete(2) unfolding tc_shapes_def by (cases t) (auto dest: spec [of _ t])
      with release_complete d show ?thesis by (cases "t = Runner") (auto simp: tc_simps tc_due_def)
    qed (use d in \<open>auto simp: tc_simps tc_due_def\<close>)
  next
    case (tc_schedules t)
    have "t \<noteq> Runner"
    proof
      assume "t = Runner"
      with tc_schedules sh show False
        by (elim tc_schedule_stepE) (auto simp: tc_shapes_def dest: spec [of _ Runner])
    qed
    with tc_schedules show ?thesis by (elim tc_schedule_stepE) (auto simp: tc_simps intro!: tc_due_frame [OF d])
  next
    case tc_runs
    then show ?thesis using d by (elim tc_run_stepE) (auto simp: tc_simps tc_due_def Let_def)
  next
    case (tc_tick n)
    then show ?thesis using d tc_due_mono [of "tc_pc s Runner" "tc_time s" "tc_now s" n] by (force simp: tc_due_def)
  qed (use d in \<open>auto simp: tc_due_def\<close>)
qed

subsection \<open>Where an operation's commands are\<close>

lemma tc_owned_frame:
  assumes "tc_owned s" and "mq_held (tc_queue s') = mq_held (tc_queue s)" and "tc_in s' = tc_in s"
    and "\<And>i. tc_pc s' (Starter i) \<in> {TcIdle, TcCas, TcSubmit (tc_task i)} \<Longrightarrow>
      tc_pc s (Starter i) \<in> {TcIdle, TcCas, TcSubmit (tc_task i)}"
    and "\<And>i. tc_pc s' (Callback i) \<in> {TcIdle, TcArmed, TcCall, TcRemoved, TcSubmit (tc_stop_op i)} \<Longrightarrow>
      tc_pc s (Callback i) \<in> {TcIdle, TcArmed, TcCall, TcRemoved, TcSubmit (tc_stop_op i)}"
    and "\<And>c. tc_pc s' Runner \<in> {TcInsert c, TcErase c} \<Longrightarrow> tc_pc s' Runner = tc_pc s Runner"
  shows "tc_owned s'"
  using assms(1) unfolding tc_owned_def assms(2,3)
  by (elim conjE, intro conjI) (use assms(4-6) in \<open>metis insertI1 insertI2\<close>)+

text \<open>What a thread does after dropping a reference is not a submission or a heap operation.\<close>

fun tc_plain :: "tc_pc \<Rightarrow> bool" where
  "tc_plain TcIdle = False"
| "tc_plain TcCas = False"
| "tc_plain TcArmed = False"
| "tc_plain TcCall = False"
| "tc_plain TcRemoved = False"
| "tc_plain (TcSubmit c) = False"
| "tc_plain (TcInsert c) = False"
| "tc_plain (TcErase c) = False"
| "tc_plain TcPopping = False"
| "tc_plain TcPushing = False"
| "tc_plain _ = True"

lemma tc_plain_cont:
  "tc_ok t (TcDec i k pc) \<Longrightarrow> tc_plain pc" "tc_ok t (TcReset i k pc) \<Longrightarrow> tc_plain pc"
  "tc_ok t (TcComplete i k pc) \<Longrightarrow> tc_plain pc"
  by (cases t; cases pc; auto)+

lemma tc_plain_cases:
  assumes "tc_plain pc"
  shows "pc \<notin> {TcIdle, TcCas, TcSubmit c}" "pc \<notin> {TcIdle, TcArmed, TcCall, TcRemoved, TcSubmit c}"
    "pc \<notin> {TcInsert c, TcErase c}" "pc \<noteq> TcPopping" "pc \<noteq> TcPushing"
  using assms by auto

lemma tc_owned_plain:
  assumes "tc_owned s" and "tc_plain pc"
    and "mq_held (tc_queue s') = mq_held (tc_queue s)" and "tc_in s' = tc_in s"
    and "tc_pc s' = (tc_pc s)(t := pc) \<or>
      (\<exists>i. tc_pc s (Callback i) = TcArmed \<and> tc_pc s' = (tc_pc s)(Callback i := TcRemoved, t := pc))"
  shows "tc_owned s'"
proof (rule tc_owned_frame [OF assms(1,3,4)])
  show "tc_pc s (Starter i) \<in> {TcIdle, TcCas, TcSubmit (tc_task i)}"
    if "tc_pc s' (Starter i) \<in> {TcIdle, TcCas, TcSubmit (tc_task i)}" for i
    using that assms(5) tc_plain_cases(1) [OF assms(2), of "tc_task i"] by (auto split: if_splits)
  show "tc_pc s (Callback i) \<in> {TcIdle, TcArmed, TcCall, TcRemoved, TcSubmit (tc_stop_op i)}"
    if "tc_pc s' (Callback i) \<in> {TcIdle, TcArmed, TcCall, TcRemoved, TcSubmit (tc_stop_op i)}" for i
    using that assms(5) tc_plain_cases(2) [OF assms(2), of "tc_stop_op i"] by (auto split: if_splits)
  show "tc_pc s' Runner = tc_pc s Runner" if "tc_pc s' Runner \<in> {TcInsert c, TcErase c}" for c
    using that assms(5) tc_plain_cases(3) [OF assms(2), of c] by (auto split: if_splits)
qed

lemma tc_owned_start:
  assumes st: "tc_start_step i s s'" and inv: "tc_inv s"
  shows "tc_owned s'"
proof -
  have o: "tc_owned s" and c: "tc_pc s (Callback i) = TcIdle \<longleftrightarrow> tc_pc s (Starter i) = TcIdle"
    using inv by (auto simp: tc_inv_def tc_unarmed_def)
  from st show ?thesis
  proof (cases rule: tc_start_step.cases)
    case start_emplace
    then show ?thesis using c by (intro tc_owned_frame [OF o]) (auto simp: tc_simps split: if_splits)
  next
    case start_claim
    then show ?thesis by (intro tc_owned_frame [OF o]) (auto simp: tc_simps split: if_splits)
  next
    case start_stopped
    then show ?thesis by (intro tc_owned_frame [OF o]) (auto simp: tc_simps split: if_splits)
  qed
qed

lemma tc_owned_schedule:
  assumes st: "tc_schedule_step t s s'" and inv: "tc_inv s"
  shows "tc_owned s'"
proof -
  have o: "tc_owned s" and sh: "tc_shapes s" using inv by (auto simp: tc_inv_def)
  have ok: "tc_ok t (tc_pc s t)" using sh by (simp add: tc_shapes_def)
  from st show ?thesis
  proof (cases rule: tc_schedule_step.cases)
    case (schedule_enter c)
    then show ?thesis using ok o by (cases t) (auto simp: tc_simps tc_owned_def)
  next
    case (schedule_pushed b)
    then show ?thesis by (cases b) (auto simp: tc_simps intro!: tc_owned_plain [OF o])
  next
    case schedule_pushing
    then show ?thesis by (auto intro!: tc_owned_frame [OF o])
  qed (auto simp: tc_simps intro!: tc_owned_plain [OF o])
qed

lemma tc_owned_run:
  assumes st: "tc_run_step s s'" and inv: "tc_inv s"
  shows "tc_owned s'"
proof -
  have o: "tc_owned s" and q: "mq_inv (tc_queue s)" "mq_held (tc_queue s) \<subseteq> range tc_task \<union> range tc_stop_op"
    using inv by (auto simp: tc_inv_def tc_queued_def)
  from st show ?thesis
  proof (cases rule: tc_run_step.cases)
    case run_pop
    then show ?thesis by (auto simp: tc_simps intro!: tc_owned_frame [OF o] split: if_splits)
  next
    case run_popping
    then show ?thesis by (auto intro!: tc_owned_frame [OF o])
  next
    case (run_popped c)
    have c: "c \<in> mq_held (tc_queue s)" by (rule mq_returned_held [OF q(1) run_popped(3)])
    with q(2) consider i where "c = tc_task i" | i where "c = tc_stop_op i" by blast
    then show ?thesis using run_popped c o by cases (auto simp: tc_simps tc_owned_def)
  next
    case (run_insert c when' h)
    then show ?thesis using o by (auto simp: tc_simps tc_owned_def)
  next
    case (run_erase c b h)
    then show ?thesis using o by (auto simp: tc_simps tc_owned_def Let_def)
  next
    case (run_fire n c h)
    then show ?thesis using o by (auto simp: tc_simps tc_owned_def)
  next
    case (run_drain c h)
    then show ?thesis using o by (auto simp: tc_simps tc_owned_def)
  qed (auto simp: tc_simps intro!: tc_owned_plain [OF o])
qed

lemma tc_owned_step:
  assumes st: "tc_step s s'" and i: "tc_inv s"
  shows "tc_owned s'"
proof -
  have o: "tc_owned s" and sh: "tc_shapes s" using i by (auto simp: tc_inv_def)
  from st show ?thesis
  proof cases
    case (tc_starts i)
    then show ?thesis using assms(2) by (rule tc_owned_start)
  next
    case (tc_calls i)
    then show ?thesis
    proof (cases rule: tc_callback_step.cases)
      case callback_invoke
      then show ?thesis by (intro tc_owned_frame [OF o]) (auto simp: tc_simps split: if_splits)
    next
      case callback_pending
      then show ?thesis by (intro tc_owned_frame [OF o]) (auto simp: tc_simps split: if_splits)
    next
      case callback_other
      then show ?thesis by (intro tc_owned_frame [OF o]) (auto simp: tc_simps split: if_splits)
    qed
  next
    case (tc_releases t)
    have ok: "tc_ok t (tc_pc s t)" using sh by (simp add: tc_shapes_def)
    from tc_releases show ?thesis
    proof (cases rule: tc_release_step.cases)
      case (release_last i k pc)
      show ?thesis by (rule tc_owned_plain [OF o, of "TcReset i k pc" _ t]) (simp_all add: release_last tc_simps)
    next
      case (release_one i k pc)
      from ok have "tc_ok t (TcDec i k pc)" by (simp only: release_one(2))
      then have "tc_plain pc" by (rule tc_plain_cont)
      then show ?thesis
        by (intro tc_owned_plain [OF o, of pc _ t]) (simp_all add: release_one tc_simps)
    next
      case (release_reset i k pc)
      show ?thesis
        by (rule tc_owned_plain [OF o, of "TcComplete i k pc" _ t])
           (use release_reset in \<open>auto simp: tc_simps\<close>)
    next
      case (release_complete i k pc)
      from ok have "tc_ok t (TcComplete i k pc)" by (simp only: release_complete(2))
      then have "tc_plain pc" by (rule tc_plain_cont)
      then show ?thesis
        by (intro tc_owned_plain [OF o, of pc _ t])
           (simp_all add: release_complete tc_simps)
    qed
  next
    case (tc_schedules t)
    then show ?thesis using assms(2) by (rule tc_owned_schedule)
  next
    case tc_runs
    then show ?thesis using assms(2) by (rule tc_owned_run)
  qed (use o in \<open>auto intro!: tc_owned_frame [OF o]\<close>)
qed

subsection \<open>Callbacks\<close>

lemma tc_unarmed_frame:
  assumes "tc_unarmed s" and "tc_log s' = tc_log s"
    and "\<And>i. tc_pc s' (Callback i) = TcIdle \<longleftrightarrow> tc_pc s (Callback i) = TcIdle"
    and "\<And>i. tc_pc s' (Starter i) = TcIdle \<longleftrightarrow> tc_pc s (Starter i) = TcIdle"
    and "\<And>i. tc_pc s' (Callback i) \<in> {TcIdle, TcArmed, TcCall} \<Longrightarrow> tc_pc s (Callback i) \<in> {TcIdle, TcArmed, TcCall}"
    and "\<And>t i k pc. tc_pc s' t = TcComplete i k pc \<Longrightarrow> \<exists>pc'. tc_pc s t = TcComplete i k pc'"
  shows "tc_unarmed s'"
  using assms(1) unfolding tc_unarmed_def assms(2,3,4) by (meson assms(5,6))

lemma tc_unarmedD:
  assumes "tc_unarmed s"
  shows "tc_pc s (Callback i) = TcIdle \<longleftrightarrow> tc_pc s (Starter i) = TcIdle"
    and "tc_pc s t = TcComplete i k pc \<Longrightarrow> tc_pc s (Callback i) \<notin> {TcIdle, TcArmed, TcCall}"
    and "(i, k) \<in> set (tc_log s) \<Longrightarrow> tc_pc s (Callback i) \<notin> {TcIdle, TcArmed, TcCall}"
  using assms unfolding tc_unarmed_def by blast+

lemma tc_unarmedI:
  assumes "\<And>i. tc_pc s (Callback i) = TcIdle \<longleftrightarrow> tc_pc s (Starter i) = TcIdle"
    and "\<And>t i k pc. tc_pc s t = TcComplete i k pc \<Longrightarrow> tc_pc s (Callback i) \<notin> {TcIdle, TcArmed, TcCall}"
    and "\<And>i k. (i, k) \<in> set (tc_log s) \<Longrightarrow> tc_pc s (Callback i) \<notin> {TcIdle, TcArmed, TcCall}"
  shows "tc_unarmed s"
  using assms unfolding tc_unarmed_def by blast

lemma tc_finishing_cont:
  "tc_ok t (TcDec i k pc) \<Longrightarrow> tc_finishing pc j = 0" "tc_ok t (TcReset i k pc) \<Longrightarrow> tc_finishing pc j = 0"
  "tc_ok t (TcComplete i k pc) \<Longrightarrow> tc_finishing pc j = 0"
  by (cases t; cases pc; auto)+

lemma tc_not_complete: "tc_finishing pc i = 0 \<Longrightarrow> pc \<noteq> TcComplete i k p"
  by auto

lemma tc_unarmed_plain:
  assumes u: "tc_unarmed s" and "tc_plain pc" and "\<And>i. tc_finishing pc i = 0" and "tc_plain (tc_pc s t) \<or> tc_pc s t \<notin> {TcIdle, TcArmed, TcCall}"
    and "tc_log s' = tc_log s" and pc: "tc_pc s' = (tc_pc s)(t := pc)"
  shows "tc_unarmed s'"
proof (rule tc_unarmed_frame [OF u assms(5)])
  have old: "tc_pc s t \<noteq> TcIdle" using assms(4) by auto
  have new: "pc \<notin> {TcIdle, TcArmed, TcCall}" using assms(2) by auto
  show "tc_pc s' (Callback i) = TcIdle \<longleftrightarrow> tc_pc s (Callback i) = TcIdle"
    "tc_pc s' (Starter i) = TcIdle \<longleftrightarrow> tc_pc s (Starter i) = TcIdle" for i
    using old new by (auto simp: pc)
  show "tc_pc s (Callback i) \<in> {TcIdle, TcArmed, TcCall}" if "tc_pc s' (Callback i) \<in> {TcIdle, TcArmed, TcCall}" for i
    using that new by (auto simp: pc split: if_splits)
  show "\<exists>pc'. tc_pc s t' = TcComplete i k pc'" if "tc_pc s' t' = TcComplete i k q" for t' i k q
    using that tc_not_complete [OF assms(3)] by (auto simp: pc split: if_splits)
qed

lemma tc_unarmed_release:
  assumes st: "tc_release_step t s s'" and inv: "tc_inv s"
  shows "tc_unarmed s'"
proof -
  have u: "tc_unarmed s" and ok: "tc_ok t (tc_pc s t)" using inv by (auto simp: tc_inv_def tc_shapes_def)
  from st show ?thesis
  proof (cases rule: tc_release_step.cases)
    case (release_last i k pc)
    then show ?thesis by (intro tc_unarmed_frame [OF u]) (auto simp: tc_simps split: if_splits)
  next
    case (release_one i k pc)
    have o: "tc_ok t (TcDec i k pc)" using ok by (simp only: release_one(2))
    from tc_plain_cont(1) [OF o] tc_finishing_cont(1) [OF o] release_one show ?thesis
      by (intro tc_unarmed_plain [OF u, of pc t]) (auto simp: tc_simps)
  next
    case (release_reset i k pc)
    note u' = tc_unarmedD [OF u]
    define s1 where "s1 = tc_remove_callback i s"
    have s1: "tc_pc s1 = (if tc_pc s (Callback i) = TcArmed then (tc_pc s)(Callback i := TcRemoved) else tc_pc s)"
      "tc_log s1 = tc_log s" by (auto simp: s1_def tc_simps)
    have c1: "tc_pc s' (Callback i) \<notin> {TcIdle, TcArmed, TcCall}"
      using release_reset(3) unfolding release_reset(1) s1_def [symmetric]
      by (auto simp: s1 tc_goto_def tc_can_reset_def)
    have pc': "tc_pc s' = (tc_pc s1)(t := TcComplete i k pc)" unfolding release_reset(1) s1_def by (simp add: tc_goto_def)
    have cb: "tc_pc s' (Callback j) \<notin> {TcIdle, TcArmed, TcCall}" if "tc_pc s (Callback j) \<notin> {TcIdle, TcArmed, TcCall}" for j
      using that by (auto simp: pc' s1(1))
    have "tc_log s' = tc_log s" using release_reset by (simp add: tc_simps)
    moreover have "tc_pc s' (Callback j) = TcIdle \<longleftrightarrow> tc_pc s' (Starter j) = TcIdle" for j
      using u'(1) [of j] release_reset(2) by (auto simp: pc' s1(1))
    moreover have "tc_pc s' (Callback j) \<notin> {TcIdle, TcArmed, TcCall}" if "tc_pc s' t' = TcComplete j k' q" for t' j k' q
    proof (cases "t' = t")
      case True
      then show ?thesis using that c1 by (simp add: pc')
    next
      case False
      then have "tc_pc s t' = TcComplete j k' q" using that by (auto simp: pc' s1(1) split: if_splits)
      from u'(2) [OF this] show ?thesis by (rule cb)
    qed
    moreover have "tc_pc s' (Callback j) \<notin> {TcIdle, TcArmed, TcCall}" if "(j, k') \<in> set (tc_log s)" for j k'
      using u'(3) [OF that] by (rule cb)
    ultimately show ?thesis unfolding tc_unarmed_def by metis
  next
    case (release_complete i k pc)
    have o: "tc_ok t (TcComplete i k pc)" using ok by (simp only: release_complete(2))
    have p: "tc_plain pc" by (rule tc_plain_cont(3) [OF o])
    have f: "tc_finishing pc j = 0" for j by (rule tc_finishing_cont(3) [OF o])
    have "tc_unarmed (tc_goto t pc s)"
      by (rule tc_unarmed_plain [OF u, of pc t]) (use p f release_complete(2) in \<open>auto simp: tc_simps\<close>)
    note d = tc_unarmedD [OF this]
    have ci: "tc_pc (tc_goto t pc s) (Callback i) \<notin> {TcIdle, TcArmed, TcCall}"
      using tc_unarmedD(2) [OF u release_complete(2)] p by (auto simp: tc_goto_def)
    have e: "tc_pc s' = tc_pc (tc_goto t pc s)" "tc_log s' = tc_log (tc_goto t pc s) @ [(i, k)]"
      unfolding release_complete(1) by (simp_all add: tc_goto_def)
    show ?thesis
    proof (rule tc_unarmedI)
      show "tc_pc s' (Callback j) \<notin> {TcIdle, TcArmed, TcCall}" if "(j, k') \<in> set (tc_log s')" for j k'
        using that ci d(3) unfolding e by (cases "j = i") auto
    qed (use d(1,2) in \<open>unfold e, blast\<close>)+
  qed
qed

lemma tc_unarmed_step:
  assumes st: "tc_step s s'" and i: "tc_inv s"
  shows "tc_unarmed s'"
proof -
  have u: "tc_unarmed s" and sh: "tc_shapes s" using i by (auto simp: tc_inv_def)
  from st show ?thesis
  proof cases
    case (tc_starts i)
    then show ?thesis
    proof (cases rule: tc_start_step.cases)
      case start_emplace
      note u' = tc_unarmedD [OF u]
      have c: "tc_pc s (Callback i) = TcIdle" using u'(1) start_emplace by simp
      have "tc_pc s' (Callback j) = TcIdle \<longleftrightarrow> tc_pc s' (Starter j) = TcIdle" for j
        using u'(1) [of j] start_emplace by (auto simp: tc_simps)
      moreover have "tc_pc s' (Callback j) \<notin> {TcIdle, TcArmed, TcCall}" if "tc_pc s' t = TcComplete j k q" for t j k q
      proof -
        have "tc_pc s t = TcComplete j k q" using that start_emplace by (auto simp: tc_simps split: if_splits)
        from u'(2) [OF this] c show ?thesis using start_emplace by (auto simp: tc_simps)
      qed
      moreover have "tc_pc s' (Callback j) \<notin> {TcIdle, TcArmed, TcCall}" if "(j, k) \<in> set (tc_log s')" for j k
      proof -
        have "(j, k) \<in> set (tc_log s)" using that start_emplace by (simp add: tc_simps)
        from u'(3) [OF this] c show ?thesis using start_emplace by (auto simp: tc_simps)
      qed
      ultimately show ?thesis unfolding tc_unarmed_def by metis
    next
      case start_claim
      then show ?thesis by (intro tc_unarmed_frame [OF u]) (auto simp: tc_simps split: if_splits)
    next
      case start_stopped
      then show ?thesis by (intro tc_unarmed_frame [OF u]) (auto simp: tc_simps split: if_splits)
    qed
  next
    case (tc_calls i)
    then show ?thesis
      by (cases rule: tc_callback_step.cases; intro tc_unarmed_frame [OF u]) (auto simp: tc_simps split: if_splits)
  next
    case (tc_releases t)
    then show ?thesis using assms(2) by (rule tc_unarmed_release)
  next
    case (tc_schedules t)
    then show ?thesis
      by (cases rule: tc_schedule_step.cases; intro tc_unarmed_frame [OF u]) (auto simp: tc_simps split: if_splits)
  next
    case tc_runs
    then show ?thesis
      by (cases rule: tc_run_step.cases; intro tc_unarmed_frame [OF u]) (auto simp: tc_simps Let_def split: if_splits)
  qed (use u in \<open>auto intro!: tc_unarmed_frame [OF u]\<close>)
qed

subsection \<open>Reference counts\<close>

lemma tc_holds_nonneg [simp]: "0 \<le> tc_holds pc i"
  by (induction pc) auto

lemma tc_holds_client: "tc_client_ok j c pc \<Longrightarrow> tc_op c = j \<Longrightarrow> j \<noteq> i \<Longrightarrow> tc_holds pc i = 0"
  by (cases pc) auto

lemma tc_holds_other:
  "tc_ok (Starter j) pc \<Longrightarrow> j \<noteq> i \<Longrightarrow> tc_holds pc i = 0" "tc_ok (Callback j) pc \<Longrightarrow> j \<noteq> i \<Longrightarrow> tc_holds pc i = 0"
  using tc_holds_client [of j "tc_task j" pc i] tc_holds_client [of j "tc_stop_op j" pc i] by auto

lemma tc_tokens_goto:
  assumes "tc_shapes s" and "tc_ok t pc" and pc: "tc_pc s' = (tc_pc s)(t := pc)"
  shows "tc_tokens s' i = tc_tokens s i + (tc_store s' i - tc_store s i) + (tc_holds pc i - tc_holds (tc_pc s t) i)"
proof -
  have ok: "tc_ok t (tc_pc s t)" using assms(1) by (simp add: tc_shapes_def)
  show ?thesis
  proof (cases t)
    case (Starter j)
    with ok assms(2) tc_holds_other(1) [of j _ i] show ?thesis by (cases "j = i") (simp_all add: tc_tokens_def pc)
  next
    case (Callback j)
    with ok assms(2) tc_holds_other(2) [of j _ i] show ?thesis by (cases "j = i") (simp_all add: tc_tokens_def pc)
  qed (simp add: tc_tokens_def pc)
qed

lemma tc_tokens_ge:
  assumes "tc_shapes s"
  shows "tc_holds (tc_pc s t) i \<le> tc_tokens s i"
proof -
  have ok: "tc_ok t (tc_pc s t)" using assms by (simp add: tc_shapes_def)
  have n: "0 \<le> tc_store s i" by (simp add: tc_store_def)
  show ?thesis
  proof (cases t)
    case (Starter j)
    with ok n tc_holds_other(1) [of j _ i] show ?thesis by (cases "j = i") (auto simp: tc_tokens_def)
  next
    case (Callback j)
    with ok n tc_holds_other(2) [of j _ i] show ?thesis by (cases "j = i") (auto simp: tc_tokens_def)
  qed (use n in \<open>simp add: tc_tokens_def\<close>)
qed

lemma tc_finishing_other:
  "tc_ok (Starter j) pc \<Longrightarrow> j \<noteq> i \<Longrightarrow> tc_finishing pc i = 0" "tc_ok (Callback j) pc \<Longrightarrow> j \<noteq> i \<Longrightarrow> tc_finishing pc i = 0"
  by (cases pc; auto)+

lemma tc_completions_goto:
  assumes "tc_shapes s" and "tc_ok t pc" and pc: "tc_pc s' = (tc_pc s)(t := pc)" and "tc_log s' = tc_log s"
  shows "tc_completions s' i = tc_completions s i + (tc_finishing pc i - tc_finishing (tc_pc s t) i)"
proof -
  have ok: "tc_ok t (tc_pc s t)" using assms(1) by (simp add: tc_shapes_def)
  show ?thesis
  proof (cases t)
    case (Starter j)
    with ok assms tc_finishing_other(1) [of j _ i] show ?thesis by (cases "j = i") (simp_all add: tc_completions_def pc)
  next
    case (Callback j)
    with ok assms tc_finishing_other(2) [of j _ i] show ?thesis by (cases "j = i") (simp_all add: tc_completions_def pc)
  qed (use assms in \<open>simp add: tc_completions_def pc\<close>)
qed

text \<open>Steps that move references and completions without making any.\<close>

definition tc_kept :: "tc_state \<Rightarrow> tc_state \<Rightarrow> bool" where
  "tc_kept s s' \<longleftrightarrow> tc_tokens s' = tc_tokens s \<and> tc_completions s' = tc_completions s \<and> tc_ref s' = tc_ref s \<and>
     tc_late s' = tc_late s \<and>
     (\<forall>i. tc_pc s (Callback i) = TcDone \<longrightarrow> tc_pc s' (Callback i) = TcDone) \<and>
     (\<forall>i. tc_pc s' (Callback i) \<in> {TcIdle, TcArmed, TcCall, TcRemoved} \<longrightarrow>
          tc_pc s (Callback i) \<in> {TcIdle, TcArmed, TcCall, TcRemoved}) \<and>
     (\<forall>i. tc_pc s' (Starter i) \<in> {TcIdle, TcCas} \<longleftrightarrow> tc_pc s (Starter i) \<in> {TcIdle, TcCas})"

lemma tc_kept_counted:
  assumes "tc_kept s s'" and "tc_counted s" and "tc_finished s"
  shows "tc_counted s'" and "tc_finished s'"
proof -
  have k: "tc_tokens s' = tc_tokens s" "tc_completions s' = tc_completions s" "tc_ref s' = tc_ref s" "tc_late s' = tc_late s"
    and p: "\<And>i. tc_pc s (Callback i) = TcDone \<Longrightarrow> tc_pc s' (Callback i) = TcDone"
      "\<And>i. tc_pc s' (Callback i) \<in> {TcIdle, TcArmed, TcCall, TcRemoved} \<Longrightarrow>
          tc_pc s (Callback i) \<in> {TcIdle, TcArmed, TcCall, TcRemoved}"
      "\<And>i. tc_pc s' (Starter i) \<in> {TcIdle, TcCas} \<longleftrightarrow> tc_pc s (Starter i) \<in> {TcIdle, TcCas}"
    using assms(1) unfolding tc_kept_def by blast+
  show "tc_counted s'" using assms(2) p unfolding tc_counted_def k by meson
  show "tc_finished s'" using assms(3) unfolding tc_finished_def k p(3) .
qed

text \<open>What a step of thread \<open>t\<close> alone must meet for that.\<close>

lemma tc_kept_goto:
  assumes sh: "tc_shapes s" and ok: "tc_ok t pc" and pc: "tc_pc s' = (tc_pc s)(t := pc)"
    and tok: "\<And>i. tc_store s' i + tc_holds pc i = tc_store s i + tc_holds (tc_pc s t) i"
    and fin: "\<And>i. tc_finishing pc i = tc_finishing (tc_pc s t) i"
    and same: "tc_log s' = tc_log s" "tc_ref s' = tc_ref s" "tc_late s' = tc_late s"
    and plain: "pc \<notin> {TcIdle, TcArmed, TcCall, TcRemoved, TcCas}" "tc_pc s t \<notin> {TcDone, TcIdle, TcCas}"
  shows "tc_kept s s'"
proof -
  have "tc_tokens s' i = tc_tokens s i" for i using tc_tokens_goto [OF sh ok pc, of i] tok [of i] by simp
  moreover have "tc_completions s' i = tc_completions s i" for i
    using tc_completions_goto [OF sh ok pc same(1), of i] fin [of i] by simp
  moreover have "tc_pc s' (Callback i) = TcDone" if "tc_pc s (Callback i) = TcDone" for i
    using that plain(2) by (auto simp: pc)
  moreover have "tc_pc s (Callback i) \<in> {TcIdle, TcArmed, TcCall, TcRemoved}"
    if "tc_pc s' (Callback i) \<in> {TcIdle, TcArmed, TcCall, TcRemoved}" for i
    using that plain(1) by (auto simp: pc split: if_splits)
  moreover have "tc_pc s' (Starter i) \<in> {TcIdle, TcCas} \<longleftrightarrow> tc_pc s (Starter i) \<in> {TcIdle, TcCas}" for i
    using plain by (auto simp: pc)
  ultimately show ?thesis using same(2,3) unfolding tc_kept_def by blast
qed

lemma tc_kept_same:
  assumes "tc_pc s' = tc_pc s" "tc_store s' = tc_store s" "tc_log s' = tc_log s" "tc_ref s' = tc_ref s" "tc_late s' = tc_late s"
  shows "tc_kept s s'"
  using assms unfolding tc_kept_def tc_tokens_def tc_completions_def by auto

lemma tc_kept_schedule:
  assumes st: "tc_schedule_step t s s'" and i: "tc_inv s"
  shows "tc_kept s s'"
proof -
  have sh: "tc_shapes s" "tc_owned s" and ok: "tc_ok t (tc_pc s t)" using i by (auto simp: tc_inv_def tc_shapes_def)
  from st show ?thesis
  proof (cases rule: tc_schedule_step.cases)
    case (schedule_enter c)
    note f = tc_submit_fresh [OF sh(2,1) schedule_enter(2)]
    have "tc_store s' i = tc_store s i + of_bool (tc_op c = i)" for i
      using f(1,3) schedule_enter(1) by (auto simp: tc_store_def tc_goto_def)
    with schedule_enter ok show ?thesis
      by (intro tc_kept_goto [OF sh(1), of t TcPushing]) (auto simp: tc_goto_def dest: tc_ok_client)
  next
    case (schedule_closed c)
    with ok show ?thesis
      by (intro tc_kept_goto [OF sh(1), of t "TcDec (tc_op c) TcStopped (TcRestore (tc_inflight s))"])
         (auto simp: tc_goto_def tc_store_def dest: tc_ok_client)
  next
    case (schedule_pushed b)
    with ok show ?thesis
      by (intro tc_kept_goto [OF sh(1), of t "if b then TcNotify else TcLeave"])
         (auto simp: tc_goto_def tc_store_def dest: tc_ok_client)
  next
    case schedule_pushing
    then show ?thesis by (intro tc_kept_same) (auto simp: tc_store_def)
  next
    case (schedule_restore n)
    with ok show ?thesis
      by (intro tc_kept_goto [OF sh(1), of t TcDone]) (auto simp: tc_goto_def tc_store_def dest: tc_ok_client)
  next
    case schedule_notify
    with ok show ?thesis
      by (intro tc_kept_goto [OF sh(1), of t TcLeave]) (auto simp: tc_goto_def tc_store_def dest: tc_ok_client)
  next
    case schedule_leave
    with ok show ?thesis
      by (intro tc_kept_goto [OF sh(1), of t TcDone]) (auto simp: tc_goto_def tc_store_def dest: tc_ok_client)
  qed
qed

lemma tc_kept_run:
  assumes st: "tc_run_step s s'" and inv: "tc_inv s"
  shows "tc_kept s s'"
proof -
  have sh: "tc_shapes s" and ow: "tc_owned s" and q: "mq_inv (tc_queue s)" "mq_held (tc_queue s) \<subseteq> range tc_task \<union> range tc_stop_op"
    and h: "ih_holds (tc_when s) (tc_heap s) (tc_in s)" "tc_in s \<subseteq> range tc_task"
    and ok: "tc_ok Runner (tc_pc s Runner)"
    using inv by (auto simp: tc_inv_def tc_queued_def tc_heaped_def tc_shapes_def)
  have front: "c \<in> tc_in s \<and> c \<in> range tc_task" if "ih_front (tc_heap s) = Some c" for c
    using ih.front_least [OF h(1) that] h(2) by blast
  note goto = tc_kept_goto [OF sh, of Runner _ s']
  from st show ?thesis
  proof (cases rule: tc_run_step.cases)
    case run_pop
    then show ?thesis by (intro goto [of TcPopping]) (auto simp: tc_goto_def tc_store_def)
  next
    case run_popping
    then show ?thesis by (intro tc_kept_same) (auto simp: tc_store_def)
  next
    case (run_popped c)
    have c: "c \<in> mq_held (tc_queue s)" by (rule mq_returned_held [OF q(1) run_popped(3)])
    with q(2) consider i where "c = tc_task i" | i where "c = tc_stop_op i" by blast
    then show ?thesis
    proof cases
      case (1 i)
      then show ?thesis using run_popped c
        by (intro goto [of "TcInsert c"]) (auto simp: tc_goto_def tc_store_def)
    next
      case (2 i)
      then show ?thesis using run_popped c
        by (intro goto [of "TcErase (tc_task i)"]) (auto simp: tc_goto_def tc_store_def)
    qed
  next
    case run_none
    then show ?thesis by (intro goto [of TcNow]) (auto simp: tc_goto_def tc_store_def)
  next
    case (run_insert c when' h')
    moreover have "c \<notin> tc_in s" "c \<in> range tc_task" using run_insert ow ok by (auto simp: tc_owned_def)
    ultimately show ?thesis by (intro goto [of TcPop]) (auto simp: tc_goto_def tc_store_def)
  next
    case (run_erase c b h')
    moreover have "b = (c \<in> tc_in s)" using ih.holds_del [OF h(1), of c] run_erase by auto
    moreover have "c \<in> range tc_task" using run_erase ok by auto
    ultimately show ?thesis
      by (intro goto [of "let stop = TcDec (tc_op c) TcStopped TcPop in if b then TcDec (tc_op c) TcStopped stop else stop"])
         (auto simp: tc_goto_def tc_store_def Let_def)
  next
    case run_now
    then show ?thesis by (intro goto [of "TcFire (tc_now s)"]) (auto simp: tc_goto_def tc_store_def)
  next
    case (run_fire n c h')
    then show ?thesis using front [OF run_fire(3)]
      by (intro goto [of "TcDec (tc_op c) TcValue (TcFire n)"]) (auto simp: tc_goto_def tc_store_def)
  next
    case (run_fired n d)
    then show ?thesis by (intro goto [of "TcWait d"]) (auto simp: tc_goto_def tc_store_def)
  next
    case (run_woken d)
    then show ?thesis
      by (intro goto [of "if tc_stop s then TcClose else TcPop"]) (auto simp: tc_goto_def tc_store_def)
  next
    case run_close
    then show ?thesis by (intro goto [of TcDrain]) (auto simp: tc_goto_def tc_store_def)
  next
    case (run_drain c h')
    then show ?thesis using front [OF run_drain(3)]
      by (intro goto [of "TcDec (tc_op c) TcStopped TcDrain"]) (auto simp: tc_goto_def tc_store_def)
  next
    case run_exit
    then show ?thesis by (intro goto [of TcExit]) (auto simp: tc_goto_def tc_store_def)
  qed
qed

text \<open>The steps that count.\<close>

lemma tc_countedD:
  assumes "tc_counted s"
  shows "tc_ref s i = tc_tokens s i + tc_late s i"
    and "tc_late s i \<noteq> 0 \<Longrightarrow> tc_late s i = 1 \<and> tc_tokens s i = 0 \<and> tc_pc s (Callback i) = TcDone"
    and "tc_pc s (Callback i) \<in> {TcIdle, TcArmed, TcCall, TcRemoved} \<Longrightarrow> tc_tokens s i \<le> 1"
    and "tc_pc s (Starter i) \<in> {TcIdle, TcCas} \<Longrightarrow> tc_tokens s i = 0"
  using assms unfolding tc_counted_def by (metis, metis, metis, metis)

lemma tc_countedI:
  assumes "\<And>i. tc_ref s i = tc_tokens s i + tc_late s i"
    and "\<And>i. tc_late s i \<noteq> 0 \<Longrightarrow> tc_late s i = 1 \<and> tc_tokens s i = 0 \<and> tc_pc s (Callback i) = TcDone"
    and "\<And>i. tc_pc s (Callback i) \<in> {TcIdle, TcArmed, TcCall, TcRemoved} \<Longrightarrow> tc_tokens s i \<le> 1"
    and "\<And>i. tc_pc s (Starter i) \<in> {TcIdle, TcCas} \<Longrightarrow> tc_tokens s i = 0"
  shows "tc_counted s"
  using assms unfolding tc_counted_def by meson

lemma tc_tokens_nonneg: "0 \<le> tc_tokens s i"
  by (simp add: tc_tokens_def tc_store_def)

lemma tc_counted_start:
  assumes st: "tc_start_step i s s'" and inv: "tc_inv s"
  shows "tc_counted s'" "tc_finished s'"
proof -
  have sh: "tc_shapes s" and c: "tc_counted s" and f: "tc_finished s" and u: "tc_unarmed s" using inv by (auto simp: tc_inv_def)
  have fD: "tc_completions s j = of_bool (tc_pc s (Starter j) \<notin> {TcIdle, TcCas} \<and> tc_tokens s j = 0)" for j
    using f by (simp add: tc_finished_def)
  from st have "tc_counted s' \<and> tc_finished s'"
  proof (cases rule: tc_start_step.cases)
    case start_emplace
    have "tc_pc s (Callback i) = TcIdle" using tc_unarmedD(1) [OF u] start_emplace by simp
    with start_emplace have "tc_kept s s'"
      unfolding tc_kept_def tc_tokens_def tc_completions_def tc_store_def fun_eq_iff
      by (auto simp: tc_goto_def)
    then show ?thesis using tc_kept_counted c f by blast
  next
    case start_claim
    note D = tc_countedD [OF c]
    have pc: "tc_pc s' = (tc_pc s)(Starter i := TcSubmit (tc_task i))" using start_claim by (simp add: tc_goto_def)
    have rest: "tc_store s' = tc_store s" "tc_log s' = tc_log s" "tc_late s' = tc_late s" "tc_ref s' = (tc_ref s)(i := 1)"
      using start_claim by (auto simp: tc_goto_def tc_store_def)
    have t: "tc_tokens s' j = tc_tokens s j + of_bool (i = j)" for j
      using tc_tokens_goto [OF sh _ pc, of j] start_claim(2) rest(1) by simp
    have k: "tc_completions s' j = tc_completions s j" for j
      using tc_completions_goto [OF sh _ pc rest(2), of j] start_claim(2) by simp
    have z: "tc_tokens s i = 0" "tc_late s i = 0"
      using D(4) [of i] D(1) [of i] start_claim(2,3) by auto
    have "tc_counted s'"
    proof (rule tc_countedI)
      show "tc_ref s' j = tc_tokens s' j + tc_late s' j" for j
        using D(1) [of j] z by (auto simp: t rest)
      show "tc_late s' j = 1 \<and> tc_tokens s' j = 0 \<and> tc_pc s' (Callback j) = TcDone" if "tc_late s' j \<noteq> 0" for j
        using that D(2) [of j] z by (auto simp: t rest pc)
      show "tc_tokens s' j \<le> 1" if "tc_pc s' (Callback j) \<in> {TcIdle, TcArmed, TcCall, TcRemoved}" for j
        using that D(3) [of j] z by (auto simp: t pc)
      show "tc_tokens s' j = 0" if "tc_pc s' (Starter j) \<in> {TcIdle, TcCas}" for j
        using that D(4) [of j] by (auto simp: t pc split: if_splits)
    qed
    moreover have "tc_finished s'"
      unfolding tc_finished_def
    proof
      show "tc_completions s' j = of_bool (tc_pc s' (Starter j) \<notin> {TcIdle, TcCas} \<and> tc_tokens s' j = 0)" for j
        using fD [of j] z start_claim(2) by (auto simp: k t pc)
    qed
    ultimately show ?thesis by blast
  next
    case start_stopped
    note D = tc_countedD [OF c]
    have pc: "tc_pc s' = (tc_pc s)(Starter i := TcReset i TcStopped TcDone)" using start_stopped by (simp add: tc_goto_def)
    have rest: "tc_store s' = tc_store s" "tc_log s' = tc_log s" "tc_late s' = tc_late s" "tc_ref s' = tc_ref s"
      using start_stopped by (auto simp: tc_goto_def tc_store_def)
    have t: "tc_tokens s' j = tc_tokens s j" for j
      using tc_tokens_goto [OF sh _ pc, of j] start_stopped(2) rest(1) by simp
    have k: "tc_completions s' j = tc_completions s j + of_bool (i = j)" for j
      using tc_completions_goto [OF sh _ pc rest(2), of j] start_stopped(2) by simp
    have "tc_counted s'"
    proof (rule tc_countedI)
      show "tc_ref s' j = tc_tokens s' j + tc_late s' j" for j using D(1) [of j] by (simp add: t rest)
      show "tc_late s' j = 1 \<and> tc_tokens s' j = 0 \<and> tc_pc s' (Callback j) = TcDone" if "tc_late s' j \<noteq> 0" for j
        using that D(2) [of j] by (simp add: t rest pc)
      show "tc_tokens s' j \<le> 1" if "tc_pc s' (Callback j) \<in> {TcIdle, TcArmed, TcCall, TcRemoved}" for j
        using that D(3) [of j] by (auto simp: t pc)
      show "tc_tokens s' j = 0" if "tc_pc s' (Starter j) \<in> {TcIdle, TcCas}" for j
        using that D(4) [of j] by (auto simp: t pc split: if_splits)
    qed
    moreover have "tc_finished s'"
      unfolding tc_finished_def
    proof
      show "tc_completions s' j = of_bool (tc_pc s' (Starter j) \<notin> {TcIdle, TcCas} \<and> tc_tokens s' j = 0)" for j
        using fD [of j] D(4) [of i] start_stopped(2) by (auto simp: k t pc)
    qed
    ultimately show ?thesis by blast
  qed
  then show "tc_counted s'" "tc_finished s'" by blast+
qed

lemma tc_counted_call:
  assumes st: "tc_callback_step i s s'" and inv: "tc_inv s"
  shows "tc_counted s'" "tc_finished s'"
proof -
  have sh: "tc_shapes s" and c: "tc_counted s" and f: "tc_finished s" using inv by (auto simp: tc_inv_def)
  note D = tc_countedD [OF c]
  have fD: "tc_completions s j = of_bool (tc_pc s (Starter j) \<notin> {TcIdle, TcCas} \<and> tc_tokens s j = 0)" for j
    using f by (simp add: tc_finished_def)
  from st have "tc_counted s' \<and> tc_finished s'"
  proof (cases rule: tc_callback_step.cases)
    case callback_invoke
    then have "tc_kept s s'"
      unfolding tc_kept_def tc_tokens_def tc_completions_def tc_store_def fun_eq_iff by (auto simp: tc_goto_def)
    then show ?thesis using tc_kept_counted c f by blast
  next
    case callback_pending
    have pc: "tc_pc s' = (tc_pc s)(Callback i := TcSubmit (tc_stop_op i))" using callback_pending by (simp add: tc_goto_def)
    have rest: "tc_store s' = tc_store s" "tc_log s' = tc_log s" "tc_late s' = tc_late s" "tc_ref s' = (tc_ref s)(i := 2)"
      using callback_pending by (auto simp: tc_goto_def tc_store_def)
    have t: "tc_tokens s' j = tc_tokens s j + of_bool (i = j)" for j
      using tc_tokens_goto [OF sh _ pc, of j] callback_pending(2) rest(1) by simp
    have k: "tc_completions s' j = tc_completions s j" for j
      using tc_completions_goto [OF sh _ pc rest(2), of j] callback_pending(2) by simp
    have l: "tc_late s i = 0" using D(2) [of i] callback_pending(2) by auto
    then have z: "tc_late s i = 0" "tc_tokens s i = 1" using D(1) [of i] callback_pending(3) by auto
    have "tc_counted s'"
    proof (rule tc_countedI)
      show "tc_ref s' j = tc_tokens s' j + tc_late s' j" for j using D(1) [of j] z by (auto simp: t rest)
      show "tc_late s' j = 1 \<and> tc_tokens s' j = 0 \<and> tc_pc s' (Callback j) = TcDone" if "tc_late s' j \<noteq> 0" for j
        using that D(2) [of j] z by (auto simp: t rest pc)
      show "tc_tokens s' j \<le> 1" if "tc_pc s' (Callback j) \<in> {TcIdle, TcArmed, TcCall, TcRemoved}" for j
        using that D(3) [of j] z by (auto simp: t pc split: if_splits)
      show "tc_tokens s' j = 0" if "tc_pc s' (Starter j) \<in> {TcIdle, TcCas}" for j
        using that D(4) [of j] z by (auto simp: t pc split: if_splits)
    qed
    moreover have "tc_finished s'"
      unfolding tc_finished_def
    proof
      show "tc_completions s' j = of_bool (tc_pc s' (Starter j) \<notin> {TcIdle, TcCas} \<and> tc_tokens s' j = 0)" for j
        using fD [of j] z D(4) [of j] by (auto simp: k t pc)
    qed
    ultimately show ?thesis by blast
  next
    case callback_other
    have pc: "tc_pc s' = (tc_pc s)(Callback i := TcDone)" using callback_other by (simp add: tc_goto_def)
    have rest: "tc_store s' = tc_store s" "tc_log s' = tc_log s" "tc_late s' = (tc_late s)(i := 1)"
      "tc_ref s' = (tc_ref s)(i := tc_ref s i + 1)"
      using callback_other by (auto simp: tc_goto_def tc_store_def)
    have t: "tc_tokens s' j = tc_tokens s j" for j
      using tc_tokens_goto [OF sh _ pc, of j] callback_other(2) rest(1) by simp
    have k: "tc_completions s' j = tc_completions s j" for j
      using tc_completions_goto [OF sh _ pc rest(2), of j] callback_other(2) by simp
    have z: "tc_late s i = 0" using D(2) [of i] callback_other(2) by auto
    have z': "tc_tokens s i = 0"
      using D(3) [of i] D(1) [of i] z callback_other(2,3) tc_tokens_nonneg [of s i] by auto
    have "tc_counted s'"
    proof (rule tc_countedI)
      show "tc_ref s' j = tc_tokens s' j + tc_late s' j" for j using D(1) [of j] z by (auto simp: t rest)
      show "tc_late s' j = 1 \<and> tc_tokens s' j = 0 \<and> tc_pc s' (Callback j) = TcDone" if "tc_late s' j \<noteq> 0" for j
        using that D(2) [of j] z' by (auto simp: t rest pc)
      show "tc_tokens s' j \<le> 1" if "tc_pc s' (Callback j) \<in> {TcIdle, TcArmed, TcCall, TcRemoved}" for j
        using that D(3) [of j] by (auto simp: t pc split: if_splits)
      show "tc_tokens s' j = 0" if "tc_pc s' (Starter j) \<in> {TcIdle, TcCas}" for j
        using that D(4) [of j] by (auto simp: t pc split: if_splits)
    qed
    moreover have "tc_finished s'"
      unfolding tc_finished_def
    proof
      show "tc_completions s' j = of_bool (tc_pc s' (Starter j) \<notin> {TcIdle, TcCas} \<and> tc_tokens s' j = 0)" for j
        using fD [of j] by (auto simp: k t pc)
    qed
    ultimately show ?thesis by blast
  qed
  then show "tc_counted s'" "tc_finished s'" by blast+
qed

text \<open>Dropping a reference: the thread goes on with \<open>p\<close>, which completes if it was the last one.\<close>

lemma tc_counted_drop:
  assumes inv: "tc_inv s" and old: "tc_pc s t = TcDec i k pc"
    and pc': "tc_pc s' = (tc_pc s)(t := p)" and ok': "tc_ok t p"
    and same: "tc_queue s' = tc_queue s" "tc_in s' = tc_in s" "tc_log s' = tc_log s" "tc_late s' = tc_late s"
    and ref: "tc_ref s' = (tc_ref s)(i := tc_ref s i - 1)"
    and p: "\<And>j. tc_holds p j = tc_holds pc j" "\<And>j. tc_finishing p j = of_bool (tc_ref s i = 1 \<and> i = j)"
      "p \<notin> {TcIdle, TcArmed, TcCall, TcRemoved, TcCas}"
  shows "tc_counted s' \<and> tc_finished s'"
proof -
  have sh: "tc_shapes s" and c: "tc_counted s" and f: "tc_finished s" using inv by (auto simp: tc_inv_def)
  note D = tc_countedD [OF c]
  have fD: "tc_completions s j = of_bool (tc_pc s (Starter j) \<notin> {TcIdle, TcCas} \<and> tc_tokens s j = 0)" for j
    using f by (simp add: tc_finished_def)
  have st: "tc_store s' j = tc_store s j" for j using same by (simp add: tc_store_def)
  have t: "tc_tokens s' j = tc_tokens s j - of_bool (i = j)" for j
    using tc_tokens_goto [OF sh ok' pc', of j] old p(1) [of j] st [of j] by simp
  have k: "tc_completions s' j = tc_completions s j + of_bool (tc_ref s i = 1 \<and> i = j)" for j
    using tc_completions_goto [OF sh ok' pc' same(3), of j] old p(2) [of j] by simp
  have "1 + tc_holds pc i \<le> tc_tokens s i" using tc_tokens_ge [OF sh, of t i] old by simp
  then have g: "1 \<le> tc_tokens s i" using tc_holds_nonneg [of pc i] by linarith
  have l: "tc_late s i = 0" using D(2) [of i] g by auto
  have decided: "tc_pc s (Starter i) \<notin> {TcIdle, TcCas}" using D(4) [of i] g by auto
  have so: "tc_pc s' (Starter j) \<in> {TcIdle, TcCas} \<longleftrightarrow> tc_pc s (Starter j) \<in> {TcIdle, TcCas}" for j
    using old p(3) by (auto simp: pc')
  have "tc_counted s'"
  proof (rule tc_countedI)
    show "tc_ref s' j = tc_tokens s' j + tc_late s' j" for j using D(1) [of j] by (auto simp: t same ref)
    show "tc_late s' j = 1 \<and> tc_tokens s' j = 0 \<and> tc_pc s' (Callback j) = TcDone" if "tc_late s' j \<noteq> 0" for j
      using that D(2) [of j] l old by (auto simp: t same pc')
    show "tc_tokens s' j \<le> 1" if "tc_pc s' (Callback j) \<in> {TcIdle, TcArmed, TcCall, TcRemoved}" for j
    proof -
      have "tc_pc s (Callback j) \<in> {TcIdle, TcArmed, TcCall, TcRemoved}"
        using that p(3) by (auto simp: pc' split: if_splits)
      from D(3) [OF this] show ?thesis by (auto simp: t)
    qed
    show "tc_tokens s' j = 0" if "tc_pc s' (Starter j) \<in> {TcIdle, TcCas}" for j
      using D(4) [of j] that decided so [of j] by (auto simp: t)
  qed
  moreover have "tc_finished s'"
    unfolding tc_finished_def so
  proof
    show "tc_completions s' j = of_bool (tc_pc s (Starter j) \<notin> {TcIdle, TcCas} \<and> tc_tokens s' j = 0)" for j
      using fD [of j] D(1) [of i] g l decided by (auto simp: k t)
  qed
  ultimately show ?thesis by blast
qed

lemma tc_counted_release:
  assumes st: "tc_release_step t s s'" and inv: "tc_inv s"
  shows "tc_counted s' \<and> tc_finished s'"
proof -
  have sh: "tc_shapes s" and c: "tc_counted s" and f: "tc_finished s" and ok: "tc_ok t (tc_pc s t)"
    using inv by (auto simp: tc_inv_def tc_shapes_def)
  from st show ?thesis
  proof (cases rule: tc_release_step.cases)
    case (release_last i k pc)
    then have o: "tc_ok t (TcReset i k pc)" using ok tc_ok_cont(1) by metis
    show ?thesis
      by (rule tc_counted_drop [OF inv release_last(2) _ o]) (use release_last in \<open>auto simp: tc_goto_def\<close>)
  next
    case (release_one i k pc)
    have o: "tc_ok t (TcDec i k pc)" using ok by (simp only: release_one(2))
    then have o': "tc_ok t pc" using tc_ok_cont(1) by metis
    show ?thesis
      by (rule tc_counted_drop [OF inv release_one(2) _ o'])
         (use release_one tc_finishing_cont(1) [OF o] tc_plain_cont(1) [OF o] in \<open>auto simp: tc_goto_def\<close>)
  next
    case (release_reset i k pc)
    have o: "tc_ok t (TcComplete i k pc)" using ok release_reset(2) tc_ok_cont(2) by metis
    define s1 where "s1 = tc_remove_callback i s"
    have k1: "tc_kept s s1"
      unfolding tc_kept_def tc_tokens_def tc_completions_def tc_store_def fun_eq_iff s1_def
      by (auto simp: tc_goto_def tc_remove_callback_def)
    have sh1: "tc_shapes s1" using sh by (auto simp: s1_def tc_simps tc_shapes_def)
    have p1: "tc_pc s1 t = TcReset i k pc" using release_reset(2) by (auto simp: s1_def tc_simps)
    have "tc_kept s1 s'"
      by (rule tc_kept_goto [OF sh1 o]) (use release_reset(1) p1 in \<open>auto simp: s1_def tc_goto_def tc_store_def\<close>)
    then show ?thesis using tc_kept_counted [OF k1 c f] tc_kept_counted by blast
  next
    case (release_complete i k pc)
    have o: "tc_ok t (TcComplete i k pc)" using ok by (simp only: release_complete(2))
    have o': "tc_ok t pc" by (rule tc_ok_cont(3) [OF o])
    have p: "tc_plain pc" by (rule tc_plain_cont(3) [OF o])
    define s1 where "s1 = tc_goto t pc s"
    have pc1: "tc_pc s1 = (tc_pc s)(t := pc)" and l1: "tc_log s1 = tc_log s" by (auto simp: s1_def tc_goto_def)
    have "tc_completions s1 j = tc_completions s j - of_bool (i = j)" for j
      using tc_completions_goto [OF sh o' pc1 l1, of j] release_complete(2) tc_finishing_cont(3) [OF o, of j] by simp
    moreover have "tc_completions s' j = tc_completions s1 j + of_bool (i = j)" for j
      using release_complete(1) by (auto simp: tc_completions_def s1_def tc_goto_def count_list_append)
    ultimately have cc: "tc_completions s' j = tc_completions s j" for j by simp
    have pc': "tc_pc s' = (tc_pc s)(t := pc)" using release_complete(1) by (simp add: tc_goto_def)
    have tt: "tc_tokens s' j = tc_tokens s j" for j
      using tc_tokens_goto [OF sh o' pc', of j] release_complete by (simp add: tc_store_def tc_goto_def)
    have "tc_kept s s'"
      using cc tt release_complete p unfolding tc_kept_def fun_eq_iff by (auto simp: tc_goto_def split: if_splits)
    then show ?thesis using tc_kept_counted c f by blast
  qed
qed

lemma tc_counted_step:
  assumes st: "tc_step s s'" and inv: "tc_inv s"
  shows "tc_counted s' \<and> tc_finished s'"
proof -
  have c: "tc_counted s" "tc_finished s" using inv by (auto simp: tc_inv_def)
  from st show ?thesis
  proof cases
    case (tc_starts i)
    with tc_counted_start inv show ?thesis by blast
  next
    case (tc_calls i)
    with tc_counted_call inv show ?thesis by blast
  next
    case (tc_releases t)
    with tc_counted_release inv show ?thesis by blast
  next
    case (tc_schedules t)
    with tc_kept_schedule inv tc_kept_counted c show ?thesis by blast
  next
    case tc_runs
    with tc_kept_run inv tc_kept_counted c show ?thesis by blast
  next
    case tc_request_stop
    have "tc_kept s s'" by (rule tc_kept_same) (auto simp: tc_request_stop tc_store_def)
    with tc_kept_counted c show ?thesis by blast
  next
    case (tc_tick n)
    have "tc_kept s s'" by (rule tc_kept_same) (auto simp: tc_tick tc_store_def)
    with tc_kept_counted c show ?thesis by blast
  qed
qed

lemma tc_inv_step: "tc_step s s' \<Longrightarrow> tc_inv s \<Longrightarrow> tc_inv s'"
proof -
  assume st: "tc_step s s'" and i: "tc_inv s"
  have "tc_shapes s'"
    using tc_shapes_step [OF st] i by (simp add: tc_inv_def tc_queued_def tc_heaped_def)
  then show "tc_inv s'"
    using tc_queued_step [OF st i] tc_heaped_step [OF st i] tc_owned_step [OF st i] tc_counted_step [OF st i]
      tc_unarmed_step [OF st i] tc_due_step [OF st i] by (simp add: tc_inv_def)
qed

interpretation tc: safe_system tc_init tc_step tc_inv
  by unfold_locales (auto intro: tc_inv_init tc_inv_step)

end
