(* ===== verification/TimedRuns.thy ===== *)
theory TimedRuns
  imports TimedThread
begin

text \<open>
  Executions of the timed thread scheduler: its steps as functions, for evaluating concrete
  interleavings, and what happens to commands that meet the context's thread at a bad moment.
\<close>

section \<open>The steps as functions\<close>

datatype tc_move = MvStart nat | MvCall nat | MvRelease tc_thread | MvSchedule tc_thread | MvRun | MvStop | MvTick int

definition tc_do_start :: "nat \<Rightarrow> tc_state \<Rightarrow> tc_state option" where
  "tc_do_start i s = (case tc_pc s (Starter i) of
     TcIdle \<Rightarrow> Some (tc_goto (Starter i) TcCas (tc_goto (Callback i) TcArmed s))
   | TcCas \<Rightarrow> Some (if tc_ref s i = 0
       then tc_goto (Starter i) (TcSubmit (tc_task i)) (s\<lparr>tc_ref := (tc_ref s)(i := 1)\<rparr>)
       else tc_goto (Starter i) (TcReset i TcStopped TcDone) s)
   | _ \<Rightarrow> None)"

definition tc_do_call :: "nat \<Rightarrow> tc_state \<Rightarrow> tc_state option" where
  "tc_do_call i s = (case tc_pc s (Callback i) of
     TcArmed \<Rightarrow> Some (tc_goto (Callback i) TcCall s)
   | TcCall \<Rightarrow> Some (if tc_ref s i = 1
       then tc_goto (Callback i) (TcSubmit (tc_stop_op i)) (s\<lparr>tc_ref := (tc_ref s)(i := 2)\<rparr>)
       else tc_goto (Callback i) TcDone
         (s\<lparr>tc_ref := (tc_ref s)(i := tc_ref s i + 1), tc_late := (tc_late s)(i := 1)\<rparr>))
   | _ \<Rightarrow> None)"

definition tc_do_release :: "tc_thread \<Rightarrow> tc_state \<Rightarrow> tc_state option" where
  "tc_do_release t s = (case tc_pc s t of
     TcDec i k pc \<Rightarrow> Some (if tc_ref s i = 1
       then tc_goto t (TcReset i k pc) (s\<lparr>tc_ref := (tc_ref s)(i := 0)\<rparr>)
       else tc_goto t pc (s\<lparr>tc_ref := (tc_ref s)(i := tc_ref s i - 1)\<rparr>))
   | TcReset i k pc \<Rightarrow>
       (if tc_can_reset t i s then Some (tc_goto t (TcComplete i k pc) (tc_remove_callback i s)) else None)
   | TcComplete i k pc \<Rightarrow> Some (tc_goto t pc (s\<lparr>tc_log := tc_log s @ [(i, k)]\<rparr>))
   | _ \<Rightarrow> None)"

definition tc_do_schedule :: "tc_thread \<Rightarrow> tc_state \<Rightarrow> tc_state option" where
  "tc_do_schedule t s = (case tc_pc s t of
     TcSubmit c \<Rightarrow> Some (if 0 \<le> tc_inflight s
       then tc_goto t TcPushing
         (s\<lparr>tc_inflight := tc_inflight s + 1, tc_queue := mq_push_call (tc_tid t) c (tc_queue s)\<rparr>)
       else tc_goto t (TcDec (tc_op c) TcStopped (TcRestore (tc_inflight s)))
         (s\<lparr>tc_inflight := tc_inflight s + 1\<rparr>))
   | TcRestore n \<Rightarrow> Some (tc_goto t TcDone
       (s\<lparr>tc_inflight := (if tc_inflight s = n then context_closed else tc_inflight s)\<rparr>))
   | TcPushing \<Rightarrow> (case mq_pc (tc_queue s) (tc_tid t) of
       MqReturn b \<Rightarrow> Some (tc_goto t (if b then TcNotify else TcLeave)
         (s\<lparr>tc_queue := mq_push_return (tc_tid t) (tc_queue s)\<rparr>))
     | _ \<Rightarrow> Some (s\<lparr>tc_queue := mq_push_step (tc_tid t) (tc_queue s)\<rparr>))
   | TcNotify \<Rightarrow> Some (tc_goto t TcLeave (s\<lparr>tc_ready := True\<rparr>))
   | TcLeave \<Rightarrow> Some (tc_goto t TcDone (s\<lparr>tc_inflight := tc_inflight s - 1\<rparr>))
   | _ \<Rightarrow> None)"

definition tc_do_run :: "tc_state \<Rightarrow> tc_state option" where
  "tc_do_run s = (case tc_pc s Runner of
     TcPop \<Rightarrow> Some (tc_goto Runner TcPopping (s\<lparr>tc_queue := mq_pop_call (tc_queue s)\<rparr>))
   | TcPopping \<Rightarrow> (case mq_con (tc_queue s) of
       CoReturn None \<Rightarrow> Some (tc_goto Runner TcNow (s\<lparr>tc_queue := mq_pop_return (tc_queue s)\<rparr>))
     | CoReturn (Some c) \<Rightarrow> Some (tc_goto Runner (if even c then TcInsert c else TcErase (tc_task (tc_op c)))
         (s\<lparr>tc_queue := mq_pop_return (tc_queue s)\<rparr>))
     | _ \<Rightarrow> Some (s\<lparr>tc_queue := mq_pop_step (tc_queue s)\<rparr>))
   | TcInsert c \<Rightarrow>
       (let when' = (tc_when s)(c := WhenType (tc_time s (tc_op c)) (tc_counter s)) in
        case ih_insert when' c (tc_heap s) of None \<Rightarrow> None
        | Some h \<Rightarrow> Some (tc_goto Runner TcPop
            (s\<lparr>tc_when := when', tc_counter := tc_counter s + 1, tc_heap := h, tc_in := insert c (tc_in s)\<rparr>)))
   | TcErase c \<Rightarrow>
       (case ih_erase (tc_when s) c (tc_heap s) of None \<Rightarrow> None
        | Some (b, h) \<Rightarrow> Some (tc_goto Runner
            (let stop = TcDec (tc_op c) TcStopped TcPop in if b then TcDec (tc_op c) TcStopped stop else stop)
            (s\<lparr>tc_heap := h, tc_in := tc_in s - {c}\<rparr>)))
   | TcNow \<Rightarrow> Some (tc_goto Runner (TcFire (tc_now s)) s)
   | TcFire n \<Rightarrow>
       (case ih_front (tc_heap s) of
          None \<Rightarrow> Some (tc_goto Runner (TcWait (n + tc_timeout)) s)
        | Some c \<Rightarrow>
            if tc_time s (tc_op c) \<le> n then
              (case ih_pop_front (tc_when s) (tc_heap s) of None \<Rightarrow> None
               | Some h \<Rightarrow> Some (tc_goto Runner (TcDec (tc_op c) TcValue (TcFire n))
                   (s\<lparr>tc_heap := h, tc_in := tc_in s - {c}\<rparr>)))
            else Some (tc_goto Runner (TcWait (tc_time s (tc_op c))) s))
   | TcWait d \<Rightarrow>
       (if tc_ready s \<or> tc_stop s \<or> d \<le> tc_now s
        then Some (tc_goto Runner (if tc_stop s then TcClose else TcPop) (s\<lparr>tc_ready := False\<rparr>)) else None)
   | TcClose \<Rightarrow> (if tc_inflight s = 0 then Some (tc_goto Runner TcDrain (s\<lparr>tc_inflight := context_closed\<rparr>)) else None)
   | TcDrain \<Rightarrow>
       (case ih_front (tc_heap s) of
          None \<Rightarrow> Some (tc_goto Runner TcExit s)
        | Some c \<Rightarrow>
            (case ih_pop_front (tc_when s) (tc_heap s) of None \<Rightarrow> None
             | Some h \<Rightarrow> Some (tc_goto Runner (TcDec (tc_op c) TcStopped TcDrain)
                 (s\<lparr>tc_heap := h, tc_in := tc_in s - {c}\<rparr>))))
   | _ \<Rightarrow> None)"

fun tc_do :: "tc_move \<Rightarrow> tc_state \<Rightarrow> tc_state option" where
  "tc_do (MvStart i) s = tc_do_start i s"
| "tc_do (MvCall i) s = tc_do_call i s"
| "tc_do (MvRelease t) s = tc_do_release t s"
| "tc_do (MvSchedule t) s = tc_do_schedule t s"
| "tc_do MvRun s = tc_do_run s"
| "tc_do MvStop s = Some (s\<lparr>tc_stop := True\<rparr>)"
| "tc_do (MvTick n) s = (if tc_now s \<le> n then Some (s\<lparr>tc_now := n\<rparr>) else None)"

fun tc_play :: "tc_move list \<Rightarrow> tc_state \<Rightarrow> tc_state option" where
  "tc_play [] s = Some s"
| "tc_play (m # ms) s = (case tc_do m s of None \<Rightarrow> None | Some s' \<Rightarrow> tc_play ms s')"

definition tc_start_state :: "(nat \<Rightarrow> int) \<Rightarrow> tc_state" where
  "tc_start_state tp = \<lparr>tc_queue = mq_empty, tc_heap = ih_empty, tc_when = (\<lambda>_. WhenType 0 0), tc_counter = 1,
     tc_inflight = 0, tc_ready = False, tc_stop = False, tc_time = tp, tc_now = 0, tc_ref = (\<lambda>_. 0),
     tc_pc = (\<lambda>_. TcIdle)(Runner := TcPop), tc_log = [], tc_in = {}, tc_late = (\<lambda>_. 0)\<rparr>"

lemma tc_do_start_step: "tc_do_start i s = Some s' \<Longrightarrow> tc_start_step i s s'"
  by (auto simp: tc_do_start_def intro: tc_start_step.intros split: tc_pc.splits if_splits)

lemma tc_do_call_step: "tc_do_call i s = Some s' \<Longrightarrow> tc_callback_step i s s'"
  by (auto simp: tc_do_call_def intro: tc_callback_step.intros split: tc_pc.splits if_splits)

lemma tc_do_release_step: "tc_do_release t s = Some s' \<Longrightarrow> tc_release_step t s s'"
  by (auto simp: tc_do_release_def intro: tc_release_step.intros split: tc_pc.splits if_splits)

lemma tc_do_schedule_step: "tc_do_schedule t s = Some s' \<Longrightarrow> tc_schedule_step t s s'"
proof (cases "tc_pc s t")
  case TcPushing
  then show "tc_do_schedule t s = Some s' \<Longrightarrow> ?thesis"
    using schedule_pushed [OF TcPushing] schedule_pushing [OF TcPushing]
    by (cases "mq_pc (tc_queue s) (tc_tid t)") (auto simp: tc_do_schedule_def)
next
  case (TcRestore n)
  from schedule_restore [OF this] this show "tc_do_schedule t s = Some s' \<Longrightarrow> ?thesis"
    by (simp add: tc_do_schedule_def)
qed (auto simp: tc_do_schedule_def intro: tc_schedule_step.intros split: if_splits)

lemma tc_do_run_step:
  assumes "tc_do_run s = Some s'"
  shows "tc_run_step s s'"
proof (cases "tc_pc s Runner")
  case TcPopping
  then show ?thesis using assms
    by (auto simp: tc_do_run_def intro: tc_run_step.intros split: mq_con.splits option.splits)
next
  case (TcInsert c)
  then show ?thesis using assms by (auto simp: tc_do_run_def Let_def intro: run_insert [OF _ refl, simplified] split: option.splits)
next
  case (TcErase c)
  then show ?thesis using assms by (auto simp: tc_do_run_def intro: run_erase split: option.splits prod.splits)
next
  case (TcFire n)
  then show ?thesis using assms
    by (auto simp: tc_do_run_def intro: run_fire run_fired split: option.splits if_splits)
next
  case (TcWait d)
  then show ?thesis using assms run_woken [OF TcWait] by (auto simp: tc_do_run_def split: if_splits)
next
  case TcDrain
  then show ?thesis using assms by (auto simp: tc_do_run_def intro: run_drain run_exit split: option.splits)
qed (use assms in \<open>auto simp: tc_do_run_def intro: tc_run_step.intros split: if_splits\<close>)

lemma tc_do_step:
  assumes "tc_do m s = Some s'"
  shows "tc_step s s'"
proof (cases m)
  case (MvStart i)
  with assms show ?thesis by (simp add: tc_starts [OF tc_do_start_step])
next
  case (MvCall i)
  with assms show ?thesis by (simp add: tc_calls [OF tc_do_call_step])
next
  case (MvRelease t)
  with assms show ?thesis by (simp add: tc_releases [OF tc_do_release_step])
next
  case (MvSchedule t)
  with assms show ?thesis by (simp add: tc_schedules [OF tc_do_schedule_step])
next
  case MvRun
  with assms show ?thesis by (simp add: tc_runs [OF tc_do_run_step])
next
  case MvStop
  with assms tc_request_stop [of s] show ?thesis by simp
next
  case (MvTick n)
  with assms tc_tick [of s n] show ?thesis by (simp split: if_splits)
qed

lemma tc_play_steps: "tc_play ms s = Some s' \<Longrightarrow> tc_step\<^sup>*\<^sup>* s s'"
proof (induction ms arbitrary: s)
  case (Cons m ms)
  from Cons.prems obtain s1 where "tc_do m s = Some s1" "tc_play ms s1 = Some s'" by (auto split: option.splits)
  then show ?case by (rule converse_rtranclp_into_rtranclp [OF tc_do_step Cons.IH])
qed simp

lemma tc_play_reach:
  assumes "tc_play ms (tc_start_state tp) = Some s"
  shows "reach tc_init tc_step s"
proof -
  have "tc_init (tc_start_state tp)" by (simp add: tc_init_def tc_start_state_def)
  then have "reach tc_init tc_step (tc_start_state tp)" by (rule reach_init)
  then show ?thesis by (rule reach_steps [OF tc_play_steps [OF assms]])
qed

definition tc_lost_moves :: "tc_move list" where
  "tc_lost_moves = replicate 5 MvRun @ [MvStop, MvRun] @ replicate 2 (MvStart 0) @
     replicate 7 (MvSchedule (Starter 0)) @ [MvRun, MvRun]"


lemmas tc_eval = tc_do_start_def tc_do_call_def tc_do_release_def tc_do_schedule_def tc_do_run_def tc_goto_def
  tc_start_state_def mq_empty_def mq_push_call_def mq_push_step_def mq_push_return_def mq_pop_call_def mq_pop_step_def
  mq_pop_return_def mq_advance_def mq_goto_def mq_link_def Let_def ih_front_def ih_empty_def tc_can_reset_def tc_remove_callback_def
   mq_content_def

lemma tc_rep:
  "replicate 2 x = [x, x]"
  "replicate 3 x = [x, x, x]"
  "replicate 4 x = [x, x, x, x]"
  "replicate 5 x = [x, x, x, x, x]"
  "replicate 6 x = [x, x, x, x, x, x]"
  "replicate 7 x = [x, x, x, x, x, x, x]"
  "replicate 8 x = [x, x, x, x, x, x, x, x]"
  "replicate 9 x = [x, x, x, x, x, x, x, x, x]"
  "replicate 10 x = [x, x, x, x, x, x, x, x, x, x]"
  "replicate 11 x = [x, x, x, x, x, x, x, x, x, x, x]"
  "replicate 12 x = [x, x, x, x, x, x, x, x, x, x, x, x]"
  "replicate 13 x = [x, x, x, x, x, x, x, x, x, x, x, x, x]"
  "replicate 14 x = [x, x, x, x, x, x, x, x, x, x, x, x, x, x]"
  "replicate 15 x = [x, x, x, x, x, x, x, x, x, x, x, x, x, x, x]"
  "replicate 16 x = [x, x, x, x, x, x, x, x, x, x, x, x, x, x, x, x]"
  by (simp_all add: eval_nat_numeral)

lemma ih_insert_first:
  "ih_size h = 0 \<Longrightarrow> ih_insert key c h =
     Some (ih_set_left c None (ih_set_right c None (ih_set_prev c None (h\<lparr>ih_root := Some c, ih_size := 1\<rparr>))))"
  using path_bit_mask_power [of 0 1] by (simp add: ih_insert_def ih_insert_loop.simps)

lemma ih_erase_absent_eval:
  "ih_prev h c = None \<Longrightarrow> ih_root h \<noteq> Some c \<Longrightarrow> ih_erase key c h = Some (False, h)"
  by (simp add: ih_erase_def)

lemma ih_erase_only:
  "ih_root h = Some c \<Longrightarrow> ih_size h = 1 \<Longrightarrow>
     ih_erase key c h = Some (True, ih_set_prev c None (h\<lparr>ih_root := None, ih_size := 0\<rparr>))"
  using path_bit_mask_power [of 0 1] by (simp add: ih_erase_def ih_remove_last_leaf.simps)

lemma mq_stub_not_op [simp]: "mq_stub \<noteq> tc_task i" "mq_stub \<noteq> tc_stop_op i"
  using tc_addr(7,8) by metis+

lemmas ih_ev = ih_insert_first ih_erase_absent_eval ih_erase_only ih_pop_front_def ih_set_prev_def ih_set_left_def ih_set_right_def

text \<open>
  A command that is pushed between the last \<open>pop_front\<close> of the loop and the check for a stop
  request.
\<close>

definition tc_lost :: "tc_state option" where
  "tc_lost = tc_play tc_lost_moves (tc_start_state (\<lambda>_. 5))"

lemma tc_lost_value:
  "\<exists>s. tc_lost = Some s \<and> tc_pc s Runner = TcExit \<and> tc_pc s (Starter 0) = TcDone \<and> tc_pc s (Callback 0) = TcArmed \<and>
     tc_inflight s = context_closed \<and> mq_content (tc_queue s) = [tc_task 0] \<and> tc_log s = []"
  unfolding tc_lost_def tc_lost_moves_def
  by (simp only: tc_rep append.simps) (simp add: tc_eval tc_timeout_def)

text \<open>
  A wake-up that is lost: the context pops while a second producer is between its exchange and
  its link, and takes the queue for empty; the second producer does not notify.
\<close>

definition tc_asleep_moves :: "tc_move list" where
  "tc_asleep_moves = replicate 5 MvRun @ replicate 2 (MvStart 0) @ replicate 7 (MvSchedule (Starter 0)) @
     replicate 2 (MvStart 1) @ replicate 3 (MvSchedule (Starter 1)) @ replicate 8 MvRun @
     replicate 3 (MvSchedule (Starter 1))"

definition tc_asleep :: "tc_state option" where
  "tc_asleep = tc_play tc_asleep_moves (tc_start_state (\<lambda>_. 0))"

lemma tc_asleep_value:
  "\<exists>s. tc_asleep = Some s \<and> tc_pc s Runner = TcWait tc_timeout \<and> \<not> tc_ready s \<and> \<not> tc_stop s \<and> tc_now s = 0 \<and>
     tc_inflight s = 0 \<and> tc_pc s (Starter 0) = TcDone \<and> tc_pc s (Starter 1) = TcDone \<and>
     mq_content (tc_queue s) = [tc_task 0, tc_task 1] \<and> tc_in s = {}"
  unfolding tc_asleep_def tc_asleep_moves_def
  by (simp only: tc_rep append.simps) (simp add: tc_eval tc_timeout_def)

text \<open>
  A stop request that is lost: the stop command overtakes the schedule command, and the timer
  stays in the heap.
\<close>

definition tc_late_moves :: "tc_move list" where
  "tc_late_moves = replicate 5 MvRun @ replicate 2 (MvStart 0) @ replicate 2 (MvCall 0) @
     replicate 7 (MvSchedule (Callback 0)) @ replicate 11 MvRun @ [MvRelease Runner] @
     replicate 7 (MvSchedule (Starter 0)) @ replicate 10 MvRun @ replicate 11 MvRun"

definition tc_overtaken :: "tc_state option" where
  "tc_overtaken = tc_play tc_late_moves (tc_start_state (\<lambda>_. 5))"

lemma tc_overtaken_value:
  "\<exists>s. tc_overtaken = Some s \<and> tc_pc s Runner = TcWait 5 \<and> \<not> tc_ready s \<and> \<not> tc_stop s \<and> tc_now s = 0 \<and>
     tc_time s 0 = 5 \<and> tc_pc s (Starter 0) = TcDone \<and> tc_pc s (Callback 0) = TcDone \<and> tc_ref s 0 = 1 \<and>
     mq_content (tc_queue s) = [] \<and> tc_in s = {tc_task 0}"
  unfolding tc_overtaken_def tc_late_moves_def
  by (simp only: tc_rep append.simps) (simp add: tc_eval tc_timeout_def ih_ev)

text \<open>
  Two operations: the first is stopped while it is in the heap, the second completes when it is due.
\<close>

definition tc_served_moves :: "tc_move list" where
  "tc_served_moves = replicate 5 MvRun @ replicate 2 (MvStart 0) @ replicate 7 (MvSchedule (Starter 0)) @
     replicate 11 MvRun @ replicate 2 (MvCall 0) @ replicate 7 (MvSchedule (Callback 0)) @ replicate 10 MvRun @
     replicate 4 (MvRelease Runner) @ replicate 2 (MvStart 1) @ replicate 7 (MvSchedule (Starter 1)) @
     [MvTick 7] @ replicate 15 MvRun @ replicate 3 (MvRelease Runner)"

definition tc_served :: "tc_state option" where
  "tc_served = tc_play tc_served_moves (tc_start_state (\<lambda>i. 5 + int i))"

lemma tc_served_value:
  "\<exists>s. tc_served = Some s \<and> tc_log s = [(0, TcStopped), (1, TcValue)] \<and> tc_now s = 7 \<and> tc_in s = {}"
  unfolding tc_served_def tc_served_moves_def
  by (simp only: tc_rep append.simps) (simp add: tc_eval tc_timeout_def ih_ev)

section \<open>The loops over the heap\<close>

text \<open>
  The loop of \<open>run\<close> that fires the timers due at \<open>now\<close> and the one that drains the heap of a
  stopped context, as functions: nothing but the context's thread touches the heap meanwhile.
\<close>

definition tc_fire :: "tc_state \<Rightarrow> int \<Rightarrow> (addr list \<times> iheap) option" where
  "tc_fire s now = tq_fire ih_front (ih_pop_front (tc_when s)) (\<lambda>c. tc_time s (tc_op c) \<le> now) (tc_heap s)"

definition tc_drain :: "tc_state \<Rightarrow> (addr list \<times> iheap) option" where
  "tc_drain s = tq_fire ih_front (ih_pop_front (tc_when s)) (\<lambda>c. True) (tc_heap s)"

text \<open>The keys in the heap are the operations' time points, with distinct counters.\<close>

definition tc_timed :: "tc_state \<Rightarrow> bool" where
  "tc_timed s \<longleftrightarrow> (\<forall>c \<in> tc_in s. when_time (tc_when s c) = tc_time s (tc_op c) \<and> when_counter (tc_when s c) < tc_counter s) \<and>
     inj_on (\<lambda>c. when_counter (tc_when s c)) (tc_in s)"

lemma tc_timed_insert:
  assumes "tc_timed s" and "c \<notin> tc_in s"
  shows "tc_timed (s\<lparr>tc_when := (tc_when s)(c := WhenType (tc_time s (tc_op c)) (tc_counter s)),
     tc_counter := tc_counter s + 1, tc_heap := h, tc_in := insert c (tc_in s)\<rparr>)"
  using assms unfolding tc_timed_def inj_on_def by (auto simp: less_Suc_eq)

lemma tc_timed_less: "tc_timed s \<Longrightarrow> tc_timed (s\<lparr>tc_heap := h, tc_in := tc_in s - {c}\<rparr>)"
  unfolding tc_timed_def by (auto intro: inj_on_subset)

lemma tc_timed_frame:
  "tc_timed s \<Longrightarrow> tc_in s' = tc_in s \<Longrightarrow> tc_when s' = tc_when s \<Longrightarrow> tc_time s' = tc_time s \<Longrightarrow>
     tc_counter s' = tc_counter s \<Longrightarrow> tc_timed s'"
  by (simp add: tc_timed_def)

lemma tc_timed_step:
  assumes st: "tc_step s s'" and t: "tc_timed s" and i: "tc_inv s"
  shows "tc_timed s'"
  using st
proof cases
  case tc_runs
  then show ?thesis
  proof (cases rule: tc_run_step.cases)
    case (run_insert c when' h)
    have "c \<notin> tc_in s" using i run_insert(2) by (auto simp: tc_inv_def tc_owned_def)
    from tc_timed_insert [OF t this, where h = h] show ?thesis
      by (rule tc_timed_frame) (simp_all add: run_insert tc_goto_def)
  next
    case (run_erase c b h)
    show ?thesis by (rule tc_timed_frame [OF tc_timed_less [OF t, where h = h and c = c]]) (simp_all add: run_erase tc_goto_def)
  next
    case (run_fire n c h)
    show ?thesis by (rule tc_timed_frame [OF tc_timed_less [OF t, where h = h and c = c]]) (simp_all add: run_fire tc_goto_def)
  next
    case (run_drain c h)
    show ?thesis by (rule tc_timed_frame [OF tc_timed_less [OF t, where h = h and c = c]]) (simp_all add: run_drain tc_goto_def)
  qed (use t in \<open>auto simp: tc_goto_def intro: tc_timed_frame\<close>)
next
  case (tc_starts i)
  then show ?thesis using t by (elim tc_start_stepE) (auto simp: tc_simps intro: tc_timed_frame)
next
  case (tc_calls i)
  then show ?thesis using t by (elim tc_callback_stepE) (auto simp: tc_simps intro: tc_timed_frame)
next
  case (tc_releases u)
  then show ?thesis using t by (elim tc_release_stepE) (auto simp: tc_simps intro: tc_timed_frame)
next
  case (tc_schedules u)
  then show ?thesis using t by (elim tc_schedule_stepE) (auto simp: tc_simps intro: tc_timed_frame)
qed (use t in \<open>auto intro: tc_timed_frame\<close>)

interpretation tct: safe_system tc_init tc_step "\<lambda>s. tc_inv s \<and> tc_timed s"
proof unfold_locales
  fix s assume "tc_init s"
  moreover from this have "tc_timed s" by (simp add: tc_init_def tc_timed_def)
  ultimately show "tc_inv s \<and> tc_timed s" using tc_inv_init by blast
next
  fix s t assume "tc_inv s \<and> tc_timed s" "tc_step s t"
  then show "tc_inv t \<and> tc_timed t" using tc_inv_step tc_timed_step by blast
qed

text \<open>A context whose thread has exited leaves its queue as it is.\<close>

lemma tc_exit_stuck:
  assumes "tc_step s s'" and "tc_inv s" and "tc_pc s Runner = TcExit" and "c \<in> mq_held (tc_queue s)"
  shows "tc_pc s' Runner = TcExit \<and> c \<in> mq_held (tc_queue s')"
  using assms(1)
proof cases
  case (tc_starts i)
  then show ?thesis using assms by (elim tc_start_stepE) (auto simp: tc_simps)
next
  case (tc_calls i)
  then show ?thesis using assms by (elim tc_callback_stepE) (auto simp: tc_simps)
next
  case (tc_releases t)
  then show ?thesis using assms by (elim tc_release_stepE) (auto simp: tc_simps)
next
  case (tc_schedules t)
  then show ?thesis using assms by (elim tc_schedule_stepE) (auto simp: tc_simps)
next
  case tc_runs
  then show ?thesis using assms by (elim tc_run_stepE) auto
qed (use assms in auto)

lemma tc_exit_steps:
  "tc_step\<^sup>*\<^sup>* s s' \<Longrightarrow> tc_inv s \<Longrightarrow> tc_pc s Runner = TcExit \<Longrightarrow> c \<in> mq_held (tc_queue s) \<Longrightarrow>
   tc_inv s' \<and> tc_pc s' Runner = TcExit \<and> c \<in> mq_held (tc_queue s')"
proof (induction rule: rtranclp_induct)
  case (step t u)
  then show ?case using tc_exit_stuck [of t u c] tc_inv_step [of t u] by blast
qed simp

lemma tc_completions_le: "tc_inv s \<Longrightarrow> tc_completions s i = of_bool (tc_pc s (Starter i) \<notin> {TcIdle, TcCas} \<and> tc_tokens s i = 0)"
  by (simp add: tc_inv_def tc_finished_def)

lemma tc_finishing_nonneg: "0 \<le> tc_finishing pc i"
  by (cases pc) auto

lemma tc_logged_done:
  assumes "tc_inv s" and "i \<in> fst ` set (tc_log s)"
  shows "tc_tokens s i = 0" and "tc_finishing (tc_pc s t) i = 0"
proof -
  have "i \<in> set (map fst (tc_log s))" using assms(2) by simp
  then have "0 < count_list (map fst (tc_log s)) i" by (metis count_list_0_iff neq0_conv)
  moreover have le: "tc_completions s i \<le> 1" using tc_completions_le [OF assms(1), of i] by simp
  ultimately have f: "tc_finishing (tc_pc s Runner) i = 0" "tc_finishing (tc_pc s (Starter i)) i = 0"
    "tc_finishing (tc_pc s (Callback i)) i = 0" "tc_completions s i = 1"
    using tc_finishing_nonneg [of "tc_pc s Runner" i] tc_finishing_nonneg [of "tc_pc s (Starter i)" i]
      tc_finishing_nonneg [of "tc_pc s (Callback i)" i] unfolding tc_completions_def by linarith+
  show "tc_tokens s i = 0" using f(4) tc_completions_le [OF assms(1), of i] by (simp split: if_splits)
  have ok: "tc_ok t (tc_pc s t)" using assms(1) by (simp add: tc_inv_def tc_shapes_def)
  show "tc_finishing (tc_pc s t) i = 0"
  proof (cases t)
    case (Starter j)
    then show ?thesis using ok f(2) tc_finishing_other(1) [of j "tc_pc s (Starter j)" i] by (cases "j = i") auto
  next
    case (Callback j)
    then show ?thesis using ok f(3) tc_finishing_other(2) [of j "tc_pc s (Callback j)" i] by (cases "j = i") auto
  qed (simp add: f(1))
qed

lemma distinct_count: "(\<And>x. count_list xs x \<le> 1) \<Longrightarrow> distinct xs"
proof (induction xs)
  case (Cons a xs)
  have "count_list xs x \<le> 1" for x using Cons.prems [of x] by (simp split: if_splits)
  then have "distinct xs" by (rule Cons.IH)
  moreover have "a \<notin> set xs" using Cons.prems [of a] by (simp add: count_list_0_iff)
  ultimately show ?case by simp
qed simp

lemma tokens_zero:
  assumes "of_bool a + of_bool b + of_bool c + (x::int) + y + z = 0" and "0 \<le> x" "0 \<le> y" "0 \<le> z"
  shows "\<not> a \<and> \<not> b \<and> \<not> c \<and> x = 0 \<and> y = 0 \<and> z = 0"
  using assms by (cases a; cases b; cases c) auto

lemma tc_token_parts:
  assumes "tc_tokens s i = 0"
  shows "tc_task i \<notin> mq_held (tc_queue s)" "tc_stop_op i \<notin> mq_held (tc_queue s)" "tc_task i \<notin> tc_in s"
    "tc_holds (tc_pc s Runner) i = 0" "tc_holds (tc_pc s (Starter i)) i = 0" "tc_holds (tc_pc s (Callback i)) i = 0"
  using tokens_zero [OF assms [unfolded tc_tokens_def tc_store_def] tc_holds_nonneg tc_holds_nonneg tc_holds_nonneg]
  by blast+

section \<open>Properties\<close>

text \<open>
  Claim C29.  Whatever the interleaving of the threads that start operations, run stop callbacks,
  advance the clock and stop the context with the context's own thread: every operation completes
  at most once, with its value only when its time point has come; once it has completed, neither
  its commands nor its stop callback are anywhere in the queue, in the heap or at a thread, so
  nothing touches it any more; an operation that was started and has not completed is still held
  by the queue, the heap or a thread; and no heap operation of the context's thread fails.
\<close>

theorem tc_completes_once:
  assumes "reach tc_init tc_step s"
  shows "distinct (map fst (tc_log s)) \<and>
    (\<forall>i. (i, TcValue) \<in> set (tc_log s) \<longrightarrow> tc_time s i \<le> tc_now s) \<and>
    (\<forall>i \<in> fst ` set (tc_log s). tc_task i \<notin> mq_held (tc_queue s) \<and> tc_stop_op i \<notin> mq_held (tc_queue s) \<and>
       tc_task i \<notin> tc_in s \<and> (\<forall>t. tc_holds (tc_pc s t) i = 0 \<and> tc_finishing (tc_pc s t) i = 0) \<and>
       tc_pc s (Callback i) \<notin> {TcArmed, TcCall}) \<and>
    (\<forall>i. tc_pc s (Starter i) \<notin> {TcIdle, TcCas} \<and> i \<notin> fst ` set (tc_log s) \<longrightarrow>
       0 < tc_tokens s i \<or> (\<exists>t. tc_finishing (tc_pc s t) i = 1)) \<and>
    (\<forall>c. tc_pc s Runner = TcErase c \<longrightarrow> ih_erase (tc_when s) c (tc_heap s) \<noteq> None) \<and>
    (\<forall>c. tc_pc s Runner = TcInsert c \<longrightarrow>
       ih_insert ((tc_when s)(c := WhenType (tc_time s (tc_op c)) (tc_counter s))) c (tc_heap s) \<noteq> None) \<and>
    ih_pop_front (tc_when s) (tc_heap s) \<noteq> None"
proof (intro conjI)
  have i: "tc_inv s" using assms by (rule tc.reach_inv)
  have le: "count_list (map fst (tc_log s)) j \<le> 1" for j
    using tc_completions_le [OF i, of j] tc_finishing_nonneg [of "tc_pc s Runner" j]
      tc_finishing_nonneg [of "tc_pc s (Starter j)" j] tc_finishing_nonneg [of "tc_pc s (Callback j)" j]
    unfolding tc_completions_def by (simp split: if_splits add: of_bool_def)
  then show "distinct (map fst (tc_log s))" by (rule distinct_count)
  show "\<forall>i. (i, TcValue) \<in> set (tc_log s) \<longrightarrow> tc_time s i \<le> tc_now s" using i by (simp add: tc_inv_def tc_due_def)
  show "\<forall>i \<in> fst ` set (tc_log s). tc_task i \<notin> mq_held (tc_queue s) \<and> tc_stop_op i \<notin> mq_held (tc_queue s) \<and>
       tc_task i \<notin> tc_in s \<and> (\<forall>t. tc_holds (tc_pc s t) i = 0 \<and> tc_finishing (tc_pc s t) i = 0) \<and>
       tc_pc s (Callback i) \<notin> {TcArmed, TcCall}"
  proof
    fix j assume j: "j \<in> fst ` set (tc_log s)"
    note d = tc_logged_done [OF i j]
    have sh: "tc_shapes s" using i by (simp add: tc_inv_def)
    have "tc_holds (tc_pc s t) j = 0" for t
      using tc_tokens_ge [OF sh, of t j] tc_holds_nonneg [of "tc_pc s t" j] d(1) by linarith
    moreover have "tc_pc s (Callback j) \<notin> {TcArmed, TcCall}"
      using j i tc_unarmedD(3) [of s j] by (auto simp: tc_inv_def)
    ultimately show "tc_task j \<notin> mq_held (tc_queue s) \<and> tc_stop_op j \<notin> mq_held (tc_queue s) \<and>
       tc_task j \<notin> tc_in s \<and> (\<forall>t. tc_holds (tc_pc s t) j = 0 \<and> tc_finishing (tc_pc s t) j = 0) \<and>
       tc_pc s (Callback j) \<notin> {TcArmed, TcCall}" using tc_token_parts [OF d(1)] d(2) by blast
  qed
  show "\<forall>i. tc_pc s (Starter i) \<notin> {TcIdle, TcCas} \<and> i \<notin> fst ` set (tc_log s) \<longrightarrow>
       0 < tc_tokens s i \<or> (\<exists>t. tc_finishing (tc_pc s t) i = 1)"
  proof (intro allI impI, elim conjE)
    fix j assume j: "tc_pc s (Starter j) \<notin> {TcIdle, TcCas}" "j \<notin> fst ` set (tc_log s)"
    then have "count_list (map fst (tc_log s)) j = 0" by (simp add: count_list_0_iff)
    then have c: "tc_completions s j = tc_finishing (tc_pc s Runner) j + tc_finishing (tc_pc s (Starter j)) j +
        tc_finishing (tc_pc s (Callback j)) j" by (simp add: tc_completions_def)
    have b: "tc_finishing pc j = 0 \<or> tc_finishing pc j = 1" for pc by (cases pc) auto
    show "0 < tc_tokens s j \<or> (\<exists>t. tc_finishing (tc_pc s t) j = 1)"
    proof (cases "tc_tokens s j = 0")
      case True
      then have "tc_completions s j = 1" using tc_completions_le [OF i, of j] j by simp
      then show ?thesis using b [of "tc_pc s Runner"] b [of "tc_pc s (Starter j)"] b [of "tc_pc s (Callback j)"] c
        by (metis add.right_neutral zero_neq_one)
    next
      case False
      then show ?thesis using tc_tokens_nonneg [of s j] by linarith
    qed
  qed
  have h: "ih_holds (tc_when s) (tc_heap s) (tc_in s)" using i by (simp add: tc_inv_def tc_heaped_def)
  show "\<forall>c. tc_pc s Runner = TcErase c \<longrightarrow> ih_erase (tc_when s) c (tc_heap s) \<noteq> None"
    using ih.holds_del [OF h] by (metis option.distinct(1))
  show "ih_pop_front (tc_when s) (tc_heap s) \<noteq> None" using ih.holds_pop [OF h] by (metis option.distinct(1))
  show "\<forall>c. tc_pc s Runner = TcInsert c \<longrightarrow>
       ih_insert ((tc_when s)(c := WhenType (tc_time s (tc_op c)) (tc_counter s))) c (tc_heap s) \<noteq> None"
  proof (intro allI impI)
    fix c assume "tc_pc s Runner = TcInsert c"
    then have c: "c \<notin> tc_in s" using i by (auto simp: tc_inv_def tc_owned_def)
    have "ih_holds ((tc_when s)(c := WhenType (tc_time s (tc_op c)) (tc_counter s))) (tc_heap s) (tc_in s)"
      by (rule ih_holds_cong [OF h]) (use c in auto)
    from ih.holds_ins [OF this c]
    show "ih_insert ((tc_when s)(c := WhenType (tc_time s (tc_op c)) (tc_counter s))) c (tc_heap s) \<noteq> None"
      by (metis option.distinct(1))
  qed
qed

lemma tc_served_reach: "tc_served = Some s \<Longrightarrow> reach tc_init tc_step s"
  unfolding tc_served_def by (rule tc_play_reach)

theorem tc_completes_once_witness:
  "\<exists>s. tc_served = Some s \<and> tc_log s = [(0, TcStopped), (1, TcValue)] \<and> distinct (map fst (tc_log s)) \<and>
     tc_time s 1 \<le> tc_now s \<and> tc_task 1 \<notin> tc_in s \<and> tc_stop_op 0 \<notin> mq_held (tc_queue s)"
proof -
  obtain s where s: "tc_served = Some s" "tc_log s = [(0, TcStopped), (1, TcValue)]" using tc_served_value by blast
  from tc_completes_once [OF tc_served_reach [OF s(1)]] s show ?thesis by (intro exI [of _ s]) simp
qed

text \<open>
  Claim C30.  In every reachable state the loop that fires timers returns: it takes exactly the
  operations that are due, each once, in the order of their time points and, where these are
  equal, of their submission, and leaves a heap of the others; the loop that drains a stopped
  context takes them all.
\<close>

theorem tc_fires_in_order:
  assumes "reach tc_init tc_step s"
  shows "(\<exists>xs h. tc_fire s now = Some (xs, h) \<and> distinct xs \<and> set xs = {c \<in> tc_in s. tc_time s (tc_op c) \<le> now} \<and>
      sorted (map (\<lambda>c. tc_time s (tc_op c)) xs) \<and>
      (\<forall>i j. i < j \<longrightarrow> j < length xs \<longrightarrow> tc_time s (tc_op (xs ! i)) = tc_time s (tc_op (xs ! j)) \<longrightarrow>
         when_counter (tc_when s (xs ! i)) < when_counter (tc_when s (xs ! j))) \<and>
      ih_holds (tc_when s) h (tc_in s - set xs)) \<and>
    (\<exists>xs h. tc_drain s = Some (xs, h) \<and> distinct xs \<and> set xs = tc_in s \<and> ih_holds (tc_when s) h {})"
proof
  have i: "tc_inv s" "tc_timed s" using tct.reach_inv [OF assms] by auto
  have h: "ih_holds (tc_when s) (tc_heap s) (tc_in s)" using i(1) by (simp add: tc_inv_def tc_heaped_def)
  have t: "when_time (tc_when s c) = tc_time s (tc_op c)" if "c \<in> tc_in s" for c using i(2) that by (simp add: tc_timed_def)
  have le: "x \<le> y \<Longrightarrow> when_time x \<le> when_time y" for x y by (auto simp: less_eq_when_type_def less_when_type_def when_less_def)
  have "\<forall>x \<in> tc_in s. \<forall>y \<in> tc_in s. tc_when s x \<le> tc_when s y \<longrightarrow> tc_time s (tc_op y) \<le> now \<longrightarrow> tc_time s (tc_op x) \<le> now"
    using le t by (metis order_trans)
  from ih.fire_due [OF h this] obtain xs h' where
    r: "tc_fire s now = Some (xs, h')" "distinct xs" "set xs = {c \<in> tc_in s. tc_time s (tc_op c) \<le> now}"
      "sorted (map (tc_when s) xs)" "ih_holds (tc_when s) h' (tc_in s - set xs)"
    unfolding tc_fire_def by blast
  have w: "tc_when s (xs ! a) \<le> tc_when s (xs ! b)" if "a < b" "b < length xs" for a b
    using r(4) that by (simp add: sorted_iff_nth_mono_less)
  have m: "xs ! a \<in> tc_in s" if "a < length xs" for a using r(3) that nth_mem by blast
  have "sorted (map (\<lambda>c. tc_time s (tc_op c)) xs)"
    unfolding sorted_iff_nth_mono_less
  proof (intro allI impI)
    fix a b assume ab: "a < b" "b < length (map (\<lambda>c. tc_time s (tc_op c)) xs)"
    then have "when_time (tc_when s (xs ! a)) \<le> when_time (tc_when s (xs ! b))" using le [OF w] by simp
    with ab t [OF m, of a] t [OF m, of b]
    show "map (\<lambda>c. tc_time s (tc_op c)) xs ! a \<le> map (\<lambda>c. tc_time s (tc_op c)) xs ! b" by simp
  qed
  moreover have "when_counter (tc_when s (xs ! a)) < when_counter (tc_when s (xs ! b))"
    if "a < b" "b < length xs" "tc_time s (tc_op (xs ! a)) = tc_time s (tc_op (xs ! b))" for a b
  proof -
    have "xs ! a \<noteq> xs ! b" using r(2) that by (simp add: nth_eq_iff_index_eq)
    moreover have "inj_on (\<lambda>c. when_counter (tc_when s c)) (tc_in s)" using i(2) by (simp add: tc_timed_def)
    ultimately have "when_counter (tc_when s (xs ! a)) \<noteq> when_counter (tc_when s (xs ! b))"
      using m that by (auto dest!: inj_onD)
    moreover have "when_time (tc_when s (xs ! a)) = when_time (tc_when s (xs ! b))" using t m that by simp
    ultimately show ?thesis using w [OF that(1,2)] by (auto simp: less_eq_when_type_def less_when_type_def when_less_def)
  qed
  ultimately show "\<exists>xs h. tc_fire s now = Some (xs, h) \<and> distinct xs \<and> set xs = {c \<in> tc_in s. tc_time s (tc_op c) \<le> now} \<and>
      sorted (map (\<lambda>c. tc_time s (tc_op c)) xs) \<and>
      (\<forall>i j. i < j \<longrightarrow> j < length xs \<longrightarrow> tc_time s (tc_op (xs ! i)) = tc_time s (tc_op (xs ! j)) \<longrightarrow>
         when_counter (tc_when s (xs ! i)) < when_counter (tc_when s (xs ! j))) \<and>
      ih_holds (tc_when s) h (tc_in s - set xs)" using r by blast
  from ih.fire_due [OF h, of "\<lambda>_. True"]
  show "\<exists>xs h. tc_drain s = Some (xs, h) \<and> distinct xs \<and> set xs = tc_in s \<and> ih_holds (tc_when s) h {}"
    unfolding tc_drain_def by auto
qed

theorem tc_fires_in_order_witness:
  "\<exists>s. tc_overtaken = Some s \<and> (\<exists>h. tc_fire s 5 = Some ([tc_task 0], h)) \<and> (\<exists>h. tc_fire s 4 = Some ([], h))"
proof -
  obtain s where s: "tc_overtaken = Some s" "tc_in s = {tc_task 0}" "tc_time s 0 = 5" using tc_overtaken_value by blast
  have "reach tc_init tc_step s" using s(1) unfolding tc_overtaken_def by (rule tc_play_reach)
  note f = tc_fires_in_order [OF this]
  from f [of 5] obtain xs h where x: "tc_fire s 5 = Some (xs, h)" "distinct xs"
    "set xs = {c \<in> tc_in s. tc_time s (tc_op c) \<le> 5}" by blast
  then have "set xs = {tc_task 0}" using s by auto
  moreover from this have "length xs = 1" using distinct_card [OF x(2)] by simp
  ultimately have "xs = [tc_task 0]" by (cases xs) auto
  moreover from f [of 4] obtain ys h' where y: "tc_fire s 4 = Some (ys, h')"
    "set ys = {c \<in> tc_in s. tc_time s (tc_op c) \<le> 4}" by blast
  moreover have "set ys = {}" using y(2) s by auto
  ultimately show ?thesis using x(1) s(1) by auto
qed

lemma tc_held_op:
  assumes "tc_inv s" and "c \<in> mq_held (tc_queue s)"
  shows "0 < tc_tokens s (tc_op c)"
proof -
  have "c \<in> range tc_task \<union> range tc_stop_op" using assms by (auto simp: tc_inv_def tc_queued_def)
  then have "tc_tokens s (tc_op c) \<noteq> 0" using assms(2) tc_token_parts(1,2) by auto
  then show ?thesis using tc_tokens_nonneg [of s "tc_op c"] by simp
qed

text \<open>
  Claim C31.  What the context's thread loses.  Whenever it has exited with a command in the
  queue, the operation of the command has not completed and never does, in any continuation; and
  that does happen to an operation whose \<open>start\<close> has returned: there is a run in which the command
  is pushed after the loop's last \<open>pop_front\<close> and before the closing of the context.  Whenever it
  is about to process a stop command whose timer is not in the heap, erasing does nothing; and
  there is a run in which the stop command overtook the schedule command this way, and the
  operation then stays in the heap, with the stop callback done, until its time point.  There is a run in which the
  thread sleeps until its timeout, not notified, although two starts have returned and their commands are in
  the queue: a push whose predecessor was not yet popped does not notify.
\<close>

theorem tc_lost_commands:
  "(\<forall>s s' c. reach tc_init tc_step s \<and> tc_pc s Runner = TcExit \<and> c \<in> set (mq_content (tc_queue s)) \<and> tc_step\<^sup>*\<^sup>* s s' \<longrightarrow>
      tc_op c \<notin> fst ` set (tc_log s')) \<and>
   (\<exists>s. reach tc_init tc_step s \<and> tc_pc s Runner = TcExit \<and> tc_pc s (Starter 0) = TcDone \<and>
      tc_task 0 \<in> set (mq_content (tc_queue s))) \<and>
   (\<forall>s c. reach tc_init tc_step s \<and> tc_pc s Runner = TcErase c \<and> c \<notin> tc_in s \<longrightarrow>
      ih_erase (tc_when s) c (tc_heap s) = Some (False, tc_heap s)) \<and>
   (\<exists>s. reach tc_init tc_step s \<and> tc_now s < tc_time s 0 \<and> tc_pc s Runner = TcWait (tc_time s 0) \<and> \<not> tc_ready s \<and> \<not> tc_stop s \<and>
      tc_pc s (Callback 0) = TcDone \<and> tc_in s = {tc_task 0} \<and> mq_content (tc_queue s) = []) \<and>
   (\<exists>s. reach tc_init tc_step s \<and> tc_pc s Runner = TcWait (tc_now s + tc_timeout) \<and> \<not> tc_ready s \<and> \<not> tc_stop s \<and>
      tc_pc s (Starter 0) = TcDone \<and> tc_pc s (Starter 1) = TcDone \<and> mq_content (tc_queue s) = [tc_task 0, tc_task 1])"
proof (intro conjI allI impI)
  fix s s' c
  assume h: "reach tc_init tc_step s \<and> tc_pc s Runner = TcExit \<and> c \<in> set (mq_content (tc_queue s)) \<and> tc_step\<^sup>*\<^sup>* s s'"
  then have i: "tc_inv s" by (auto dest: tc.reach_inv)
  have held: "c \<in> mq_held (tc_queue s)"
    using mq_order_held [of "tc_queue s"] i h by (auto simp: mq_content_def tc_inv_def tc_queued_def)
  have "tc_inv s' \<and> tc_pc s' Runner = TcExit \<and> c \<in> mq_held (tc_queue s')"
    using h by (intro tc_exit_steps [OF _ i _ held]) simp_all
  then show "tc_op c \<notin> fst ` set (tc_log s')" using tc_held_op [of s' c] tc_logged_done(1) [of s' "tc_op c"] by force
next
  obtain s where s: "tc_lost = Some s" "tc_pc s Runner = TcExit" "tc_pc s (Starter 0) = TcDone"
    "mq_content (tc_queue s) = [tc_task 0]" using tc_lost_value by blast
  moreover have "reach tc_init tc_step s" using s(1) unfolding tc_lost_def by (rule tc_play_reach)
  ultimately show "\<exists>s. reach tc_init tc_step s \<and> tc_pc s Runner = TcExit \<and> tc_pc s (Starter 0) = TcDone \<and>
      tc_task 0 \<in> set (mq_content (tc_queue s))" by (intro exI [of _ s]) simp
next
  fix s c assume h: "reach tc_init tc_step s \<and> tc_pc s Runner = TcErase c \<and> c \<notin> tc_in s"
  then have "ih_holds (tc_when s) (tc_heap s) (tc_in s)" by (auto dest: tc.reach_inv simp: tc_inv_def tc_heaped_def)
  then obtain A n where "ih_rep (tc_heap s) A n" "ih_nodes A n = tc_in s" by (auto simp: ih_holds_def)
  with h show "ih_erase (tc_when s) c (tc_heap s) = Some (False, tc_heap s)" by (intro ih_erase_absent) auto
next
  obtain s where s: "tc_overtaken = Some s" "tc_pc s Runner = TcWait 5" "\<not> tc_ready s" "\<not> tc_stop s" "tc_now s = 0"
    "tc_time s 0 = 5" "tc_pc s (Callback 0) = TcDone" "tc_in s = {tc_task 0}" "mq_content (tc_queue s) = []"
    using tc_overtaken_value by blast
  moreover have "reach tc_init tc_step s" using s(1) unfolding tc_overtaken_def by (rule tc_play_reach)
  ultimately show "\<exists>s. reach tc_init tc_step s \<and> tc_now s < tc_time s 0 \<and> tc_pc s Runner = TcWait (tc_time s 0) \<and> \<not> tc_ready s \<and> \<not> tc_stop s \<and>
      tc_pc s (Callback 0) = TcDone \<and> tc_in s = {tc_task 0} \<and> mq_content (tc_queue s) = []"
    by (intro exI [of _ s]) simp
next
  obtain s where s: "tc_asleep = Some s" "tc_pc s Runner = TcWait tc_timeout" "\<not> tc_ready s" "\<not> tc_stop s" "tc_now s = 0"
    "tc_pc s (Starter 0) = TcDone" "tc_pc s (Starter 1) = TcDone" "mq_content (tc_queue s) = [tc_task 0, tc_task 1]"
    using tc_asleep_value by blast
  moreover have "reach tc_init tc_step s" using s(1) unfolding tc_asleep_def by (rule tc_play_reach)
  ultimately show "\<exists>s. reach tc_init tc_step s \<and> tc_pc s Runner = TcWait (tc_now s + tc_timeout) \<and> \<not> tc_ready s \<and> \<not> tc_stop s \<and>
      tc_pc s (Starter 0) = TcDone \<and> tc_pc s (Starter 1) = TcDone \<and> mq_content (tc_queue s) = [tc_task 0, tc_task 1]"
    by (intro exI [of _ s]) simp
qed

theorem tc_lost_commands_witness:
  "\<exists>s. reach tc_init tc_step s \<and> tc_pc s Runner = TcExit \<and> tc_pc s (Starter 0) = TcDone \<and>
     (\<nexists>s'. tc_step\<^sup>*\<^sup>* s s' \<and> 0 \<in> fst ` set (tc_log s'))"
proof -
  obtain s where s: "reach tc_init tc_step s" "tc_pc s Runner = TcExit" "tc_pc s (Starter 0) = TcDone"
    "tc_task 0 \<in> set (mq_content (tc_queue s))" using tc_lost_commands by blast
  with tc_lost_commands [THEN conjunct1, rule_format, of s "tc_task 0"] show ?thesis by (intro exI [of _ s]) auto
qed

end
