(* ===== verification/RunLoop.thy ===== *)
theory RunLoop
  imports AtomicQueue Completions
begin

text \<open>
  The run loop of \<^verbatim>\<open>include/stdexec/__detail/__run_loop.hpp\<close>: a thread that executes the tasks
  that other threads start, until it is told to finish.  The loop is built on the lock-free
  queue of \<^verbatim>\<open>AtomicQueue\<close>, whose state is part of the loop's state and whose steps are its steps.

  Thread 0 is the one inside \<open>run\<close>; the other numbers are calls of \<open>start\<close> and \<open>finish\<close>, one
  atomic access per step.  What a task's receiver does when the task is executed (start more
  operations, finish the loop) is a call under another number: it may then overlap with the rest of the
  loop, which only adds interleavings.  A thread that blocks in \<open>wait\<close> is woken by a
  \<open>notify_one\<close> or for no reason.  The client starts no operation and calls no \<open>finish\<close> after
  \<open>run\<close> has returned, and it starts an operation state again only after it has been executed.

  Ghost state: the operations started, in the order of their increments of the counter, the
  tasks executed and what their receivers got.
\<close>

section \<open>State\<close>

definition rl_noop :: addr where
  "rl_noop = 0"

datatype rl_pc =
    RlIdle
  | RlStarting addr
  | RlStarted
  | RlFin
  | RlPushing
  | RlPushed
  | RlSubOne
  | RlSubTwo

datatype rl_run =
    RlTop
  | RlWait
  | RlBlocked
  | RlPop bool
  | RlReverse bool
  | RlLoop bool iqueue iq_iter nat
  | RlExecute bool iqueue iq_iter nat addr
  | RlLoadCount
  | RlReturned

record rl_state =
  rl_q :: aq_state
  rl_count :: int
  rl_finishing :: bool
  rl_unstoppable :: "addr \<Rightarrow> bool"
  rl_requested :: "addr \<Rightarrow> bool"
  rl_pc :: "nat \<Rightarrow> rl_pc"
  rl_run :: rl_run
  rl_started :: "addr list"
  rl_done :: "addr list"
  rl_sent :: "(addr \<times> compl) list"

definition rl_init :: "rl_state \<Rightarrow> bool" where
  "rl_init s \<longleftrightarrow> aq_init (rl_q s) \<and> rl_count s = 0 \<and> \<not> rl_finishing s \<and>
     (\<forall>t. rl_pc s t = RlIdle) \<and> rl_run s = RlTop \<and> rl_started s = [] \<and> rl_done s = [] \<and> rl_sent s = []"

definition rl_goto :: "nat \<Rightarrow> rl_pc \<Rightarrow> rl_state \<Rightarrow> rl_state" where
  "rl_goto t pc s = s\<lparr>rl_pc := (rl_pc s)(t := pc)\<rparr>"

text \<open>The node that a thread is about to publish, and the batch that the loop still has to execute.\<close>

fun rl_node :: "rl_pc \<Rightarrow> addr option" where
  "rl_node (RlStarting n) = Some n"
| "rl_node RlPushing = Some rl_noop"
| "rl_node _ = None"

definition rl_batch :: "rl_state \<Rightarrow> addr list" where
  "rl_batch s = (let ns = aq_owns (aq_pc (rl_q s) 0) in
     case rl_run s of RlReverse d \<Rightarrow> rev ns | RlExecute d q it k n \<Rightarrow> n # ns | _ \<Rightarrow> ns)"

definition rl_fresh :: "addr \<Rightarrow> rl_state \<Rightarrow> bool" where
  "rl_fresh n s \<longleftrightarrow> n \<noteq> rl_noop \<and> n \<notin> set (aq_stack (rl_q s)) \<and> n \<notin> set (rl_batch s) \<and>
     (\<forall>t. rl_node (rl_pc s t) \<noteq> Some n)"

section \<open>Tasks\<close>

text \<open>\<open>__execute\<close> calls the task's function: \<open>__noop_\<close> or the operation's \<open>__execute_impl\<close>.\<close>

definition rl_execute_impl :: "bool \<Rightarrow> bool \<Rightarrow> compl" where
  "rl_execute_impl unstoppable requested =
     (if unstoppable then SetValue [] else if requested then SetStopped else SetValue [])"

definition rl_execute :: "addr \<Rightarrow> rl_state \<Rightarrow> rl_state" where
  "rl_execute n s = s\<lparr>rl_done := rl_done s @ [n],
     rl_sent := rl_sent s @
       (if n = rl_noop then [] else [(n, rl_execute_impl (rl_unstoppable s n) (rl_requested s n))])\<rparr>"

definition rl_notify :: "bool \<Rightarrow> rl_state \<Rightarrow> rl_state" where
  "rl_notify b s = (if b \<and> rl_run s = RlBlocked then s\<lparr>rl_run := RlWait\<rparr> else s)"

section \<open>Starting and finishing\<close>

definition rl_push :: "nat \<Rightarrow> addr \<Rightarrow> aq_state \<Rightarrow> aq_state \<Rightarrow> bool" where
  "rl_push t n q q' \<longleftrightarrow> aq_push_step t q q' \<and> aq_owns (aq_pc q' t) = [n]"

definition rl_publish :: "nat \<Rightarrow> aq_state \<Rightarrow> aq_state \<Rightarrow> bool" where
  "rl_publish t q q' \<longleftrightarrow> aq_push_step t q q' \<and> (\<exists>b. aq_pc q' t = AqReturned True b)"

inductive rl_start_step :: "nat \<Rightarrow> rl_state \<Rightarrow> rl_state \<Rightarrow> bool" for t where
  start_add: "rl_pc s t = RlIdle \<Longrightarrow> 0 < t \<Longrightarrow> rl_run s \<noteq> RlReturned \<Longrightarrow> rl_fresh n s \<Longrightarrow>
     rl_start_step t s (rl_goto t (RlStarting n)
       (s\<lparr>rl_count := rl_count s + 1, rl_unstoppable := (rl_unstoppable s)(n := u),
          rl_requested := (rl_requested s)(n := r), rl_started := rl_started s @ [n]\<rparr>))"
| start_push: "rl_pc s t = RlStarting n \<Longrightarrow> rl_push t n (rl_q s) q' \<Longrightarrow>
     rl_start_step t s (s\<lparr>rl_q := q'\<rparr>)"
| start_publish: "rl_pc s t = RlStarting n \<Longrightarrow> rl_publish t (rl_q s) q' \<Longrightarrow>
     rl_start_step t s (rl_goto t RlStarted (s\<lparr>rl_q := q'\<rparr>))"
| start_notify: "rl_pc s t = RlStarted \<Longrightarrow> aq_pc (rl_q s) t = AqReturned True b \<Longrightarrow>
     aq_push_step t (rl_q s) q' \<Longrightarrow>
     rl_start_step t s (rl_goto t RlIdle (rl_notify b (s\<lparr>rl_q := q'\<rparr>)))"

inductive rl_finish_step :: "nat \<Rightarrow> rl_state \<Rightarrow> rl_state \<Rightarrow> bool" for t where
  finish_add: "rl_pc s t = RlIdle \<Longrightarrow> 0 < t \<Longrightarrow> rl_run s \<noteq> RlReturned \<Longrightarrow>
     rl_finish_step t s (rl_goto t RlFin (s\<lparr>rl_count := rl_count s + 2\<rparr>))"
| finish_first: "rl_pc s t = RlFin \<Longrightarrow> \<not> rl_finishing s \<Longrightarrow>
     rl_finish_step t s (rl_goto t RlPushing (s\<lparr>rl_finishing := True\<rparr>))"
| finish_push: "rl_pc s t = RlPushing \<Longrightarrow> rl_push t rl_noop (rl_q s) q' \<Longrightarrow>
     rl_finish_step t s (s\<lparr>rl_q := q'\<rparr>)"
| finish_publish: "rl_pc s t = RlPushing \<Longrightarrow> rl_publish t (rl_q s) q' \<Longrightarrow>
     rl_finish_step t s (rl_goto t RlPushed (s\<lparr>rl_q := q'\<rparr>))"
| finish_notify: "rl_pc s t = RlPushed \<Longrightarrow> aq_pc (rl_q s) t = AqReturned True b \<Longrightarrow>
     aq_push_step t (rl_q s) q' \<Longrightarrow>
     rl_finish_step t s (rl_goto t RlSubOne (rl_notify b (s\<lparr>rl_q := q'\<rparr>)))"
| finish_sub: "rl_pc s t = RlSubOne \<Longrightarrow>
     rl_finish_step t s (rl_goto t RlIdle (s\<lparr>rl_count := rl_count s - 1\<rparr>))"
| finish_again: "rl_pc s t = RlFin \<Longrightarrow> rl_finishing s \<Longrightarrow>
     rl_finish_step t s (rl_goto t RlSubTwo s)"
| finish_again_sub: "rl_pc s t = RlSubTwo \<Longrightarrow>
     rl_finish_step t s (rl_goto t RlIdle (s\<lparr>rl_count := rl_count s - 2\<rparr>))"

section \<open>The loop\<close>

text \<open>
  \<open>wait_for_item\<close> is \<open>wait(nullptr)\<close> on the head.  \<open>__execute_all\<close> is the steps from \<open>RlPop\<close> to
  the subtraction; its flag says whether \<open>run\<close> is in the draining loop, and its result decides where
  \<open>run\<close> goes on.  The iterator moves on before the task is executed, because the execution may
  invalidate the node.
\<close>

definition rl_after :: "bool \<Rightarrow> bool \<Rightarrow> rl_run" where
  "rl_after draining executed =
     (if \<not> draining then RlTop else if executed then RlPop True else RlLoadCount)"

inductive rl_wait_step :: "rl_state \<Rightarrow> rl_state \<Rightarrow> bool" where
  wait_ready: "rl_run s = RlWait \<Longrightarrow> aq_head (rl_q s) \<noteq> None \<Longrightarrow>
     rl_wait_step s (s\<lparr>rl_run := RlPop False\<rparr>)"
| wait_block: "rl_run s = RlWait \<Longrightarrow> aq_head (rl_q s) = None \<Longrightarrow>
     rl_wait_step s (s\<lparr>rl_run := RlBlocked\<rparr>)"
| wait_spurious: "rl_run s = RlBlocked \<Longrightarrow> rl_wait_step s (s\<lparr>rl_run := RlWait\<rparr>)"

inductive rl_execute_all_step :: "rl_state \<Rightarrow> rl_state \<Rightarrow> bool" where
  all_exchange: "rl_run s = RlPop d \<Longrightarrow> aq_pc (rl_q s) 0 = AqIdle \<Longrightarrow>
     aq_pop_all_step 0 (rl_q s) q' \<Longrightarrow>
     rl_execute_all_step s (s\<lparr>rl_q := q', rl_run := RlReverse d\<rparr>)"
| all_empty: "rl_run s = RlReverse d \<Longrightarrow> aq_pc (rl_q s) 0 = AqTaken p zs \<Longrightarrow>
     iq_make_reversed (aq_next (rl_q s)) p = Some (q, nx') \<Longrightarrow> iq_begin q = iq_end q \<Longrightarrow>
     rl_execute_all_step s
       (s\<lparr>rl_q := aq_goto 0 AqIdle ((rl_q s)\<lparr>aq_next := nx'\<rparr>), rl_run := rl_after d False\<rparr>)"
| all_begin: "rl_run s = RlReverse d \<Longrightarrow> aq_pc (rl_q s) 0 = AqTaken p zs \<Longrightarrow>
     iq_make_reversed (aq_next (rl_q s)) p = Some (q, nx') \<Longrightarrow> iq_begin q \<noteq> iq_end q \<Longrightarrow>
     rl_execute_all_step s
       (s\<lparr>rl_q := aq_goto 0 (AqTaken (iq_head q) (rev zs)) ((rl_q s)\<lparr>aq_next := nx'\<rparr>),
          rl_run := RlLoop d q (iq_begin q) 0\<rparr>)"
| all_next: "rl_run s = RlLoop d q it k \<Longrightarrow> it \<noteq> iq_end q \<Longrightarrow> it_item it = Some n \<Longrightarrow>
     aq_pc (rl_q s) 0 = AqTaken p ns \<Longrightarrow> it' = iq_next (aq_next (rl_q s)) it \<Longrightarrow>
     rl_execute_all_step s
       (s\<lparr>rl_q := aq_goto 0 (AqTaken (it_item it') (tl ns)) (rl_q s), rl_run := RlExecute d q it' k n\<rparr>)"
| all_execute: "rl_run s = RlExecute d q it k n \<Longrightarrow>
     rl_execute_all_step s (rl_execute n (s\<lparr>rl_run := RlLoop d q it (k + 1)\<rparr>))"
| all_sub: "rl_run s = RlLoop d q it k \<Longrightarrow> it = iq_end q \<Longrightarrow>
     rl_execute_all_step s
       (s\<lparr>rl_q := aq_goto 0 AqIdle (rl_q s), rl_count := rl_count s - int k, rl_run := rl_after d True\<rparr>)"

inductive rl_run_step :: "rl_state \<Rightarrow> rl_state \<Rightarrow> bool" where
  run_check: "rl_run s = RlTop \<Longrightarrow> \<not> rl_finishing s \<Longrightarrow> rl_run_step s (s\<lparr>rl_run := RlWait\<rparr>)"
| run_drain: "rl_run s = RlTop \<Longrightarrow> rl_finishing s \<Longrightarrow> rl_run_step s (s\<lparr>rl_run := RlPop True\<rparr>)"
| run_wait: "rl_wait_step s s' \<Longrightarrow> rl_run_step s s'"
| run_all: "rl_execute_all_step s s' \<Longrightarrow> rl_run_step s s'"
| run_again: "rl_run s = RlLoadCount \<Longrightarrow> 0 < rl_count s \<Longrightarrow> rl_run_step s (s\<lparr>rl_run := RlPop True\<rparr>)"
| run_return: "rl_run s = RlLoadCount \<Longrightarrow> \<not> 0 < rl_count s \<Longrightarrow>
     rl_run_step s (s\<lparr>rl_run := RlReturned\<rparr>)"

inductive rl_step :: "rl_state \<Rightarrow> rl_state \<Rightarrow> bool" where
  by_start: "rl_start_step t s s' \<Longrightarrow> rl_step s s'"
| by_finish: "rl_finish_step t s s' \<Longrightarrow> rl_step s s'"
| by_run: "rl_run_step s s' \<Longrightarrow> rl_step s s'"
| by_request: "rl_step s (s\<lparr>rl_requested := (rl_requested s)(n := True)\<rparr>)"

section \<open>Sums over the threads inside start and finish\<close>

definition rl_total :: "(rl_pc \<Rightarrow> 'a) \<Rightarrow> (nat \<Rightarrow> rl_pc) \<Rightarrow> 'a::comm_monoid_add" where
  "rl_total f pcs = (\<Sum>t | pcs t \<noteq> RlIdle. f (pcs t))"

lemma rl_total_superset:
  assumes "f RlIdle = 0" and "finite A" and "{t. pcs t \<noteq> RlIdle} \<subseteq> A"
  shows "rl_total f pcs = (\<Sum>t\<in>A. f (pcs t))"
  unfolding rl_total_def using assms by (intro sum.mono_neutral_left) auto

lemma rl_total_upd:
  fixes f :: "rl_pc \<Rightarrow> 'a::comm_monoid_add"
  assumes "finite {t. pcs t \<noteq> RlIdle}" and "f RlIdle = 0"
  shows "rl_total f (pcs(t := pc)) + f (pcs t) = rl_total f pcs + f pc"
proof -
  let ?A = "insert t {t. pcs t \<noteq> RlIdle}"
  have fin: "finite ?A" using assms(1) by simp
  have new: "rl_total f (pcs(t := pc)) = (\<Sum>u\<in>?A. f ((pcs(t := pc)) u))"
    using fin assms(2) by (intro rl_total_superset) auto
  have old: "rl_total f pcs = (\<Sum>u\<in>?A. f (pcs u))"
    using fin assms(2) by (intro rl_total_superset) auto
  have "(\<Sum>u\<in>?A - {t}. f ((pcs(t := pc)) u)) = (\<Sum>u\<in>?A - {t}. f (pcs u))"
    by (rule sum.cong) auto
  then have "(\<Sum>u\<in>?A. f ((pcs(t := pc)) u)) = f pc + (\<Sum>u\<in>?A - {t}. f (pcs u))"
    using sum.remove [OF fin, of t "\<lambda>u. f ((pcs(t := pc)) u)"] by simp
  moreover have "(\<Sum>u\<in>?A. f (pcs u)) = f (pcs t) + (\<Sum>u\<in>?A - {t}. f (pcs u))"
    using sum.remove [OF fin, of t "\<lambda>u. f (pcs u)"] by simp
  ultimately show ?thesis unfolding new old by (simp add: ac_simps)
qed

lemma rl_total_ge:
  fixes f :: "rl_pc \<Rightarrow> int"
  assumes "finite {t. pcs t \<noteq> RlIdle}" and "\<And>pc. 0 \<le> f pc" and "pcs t \<noteq> RlIdle"
  shows "f (pcs t) \<le> rl_total f pcs"
  unfolding rl_total_def using assms by (intro member_le_sum) auto

section \<open>The invariant\<close>

text \<open>What each pending call has added to the counter and not given back.\<close>

fun rl_weight :: "rl_pc \<Rightarrow> int" where
  "rl_weight (RlStarting n) = 1"
| "rl_weight RlFin = 2"
| "rl_weight RlPushing = 2"
| "rl_weight RlPushed = 1"
| "rl_weight RlSubOne = 1"
| "rl_weight RlSubTwo = 2"
| "rl_weight _ = 0"

fun rl_pending :: "rl_pc \<Rightarrow> addr multiset" where
  "rl_pending (RlStarting n) = {#n#}"
| "rl_pending _ = {#}"

fun rl_finisher :: "rl_pc \<Rightarrow> nat" where
  "rl_finisher RlPushing = 1"
| "rl_finisher _ = 0"

fun rl_executed :: "rl_run \<Rightarrow> nat" where
  "rl_executed (RlLoop d q it k) = k"
| "rl_executed (RlExecute d q it k n) = k"
| "rl_executed _ = 0"

fun rl_draining :: "rl_run \<Rightarrow> bool" where
  "rl_draining (RlPop d) = d"
| "rl_draining (RlReverse d) = d"
| "rl_draining (RlLoop d q it k) = d"
| "rl_draining (RlExecute d q it k n) = d"
| "rl_draining RlLoadCount = True"
| "rl_draining RlReturned = True"
| "rl_draining _ = False"

definition rl_thread_ok :: "rl_pc \<Rightarrow> aq_pc \<Rightarrow> bool" where
  "rl_thread_ok pc apc = (case rl_node pc of
     Some n \<Rightarrow> apc = AqIdle \<or> (\<exists>h l old. apc = AqLoaded h l [n] old \<or> apc = AqStored h l [n] old)
   | None \<Rightarrow> if pc = RlStarted \<or> pc = RlPushed then \<exists>b. apc = AqReturned True b else apc = AqIdle)"

definition rl_iterating :: "iqueue \<Rightarrow> iq_iter \<Rightarrow> aq_pc \<Rightarrow> bool" where
  "rl_iterating q it apc \<longleftrightarrow> (\<exists>ns ys. apc = AqTaken (it_item it) ns \<and>
     it_pred it = last_ptr ys \<and> iq_tail q = last_ptr (ys @ ns))"

fun rl_run_ok :: "rl_run \<Rightarrow> aq_pc \<Rightarrow> bool" where
  "rl_run_ok (RlReverse d) apc \<longleftrightarrow> (\<exists>p zs. apc = AqTaken p zs)"
| "rl_run_ok (RlLoop d q it k) apc \<longleftrightarrow> rl_iterating q it apc"
| "rl_run_ok (RlExecute d q it k n) apc \<longleftrightarrow> rl_iterating q it apc"
| "rl_run_ok _ apc \<longleftrightarrow> apc = AqIdle"

definition rl_shape :: "rl_state \<Rightarrow> bool" where
  "rl_shape s \<longleftrightarrow> finite {t. rl_pc s t \<noteq> RlIdle} \<and> rl_pc s 0 = RlIdle \<and>
     (\<forall>t>0. rl_thread_ok (rl_pc s t) (aq_pc (rl_q s) t)) \<and> rl_run_ok (rl_run s) (aq_pc (rl_q s) 0)"

definition rl_private :: "rl_state \<Rightarrow> bool" where
  "rl_private s \<longleftrightarrow> (\<forall>t n. rl_pc s t = RlStarting n \<longrightarrow> n \<noteq> rl_noop) \<and>
     (\<forall>t n. rl_node (rl_pc s t) = Some n \<longrightarrow>
        n \<notin> set (aq_stack (rl_q s)) \<and> n \<notin> set (rl_batch s) \<and>
        (\<forall>u. rl_node (rl_pc s u) = Some n \<longrightarrow> u = t))"

definition rl_account :: "rl_state \<Rightarrow> bool" where
  "rl_account s \<longleftrightarrow>
     aq_out (rl_q s) = rl_done s @ rl_batch s \<and>
     rl_count s = rl_total rl_weight (rl_pc s) + int (length (aq_stack (rl_q s))) +
       int (length (rl_batch s)) + int (rl_executed (rl_run s)) \<and>
     count_list (aq_in (rl_q s)) rl_noop + rl_total rl_finisher (rl_pc s) = of_bool (rl_finishing s) \<and>
     mset (rl_started s) = {#n \<in># mset (aq_in (rl_q s)). n \<noteq> rl_noop#} + rl_total rl_pending (rl_pc s) \<and>
     map fst (rl_sent s) = filter (\<lambda>n. n \<noteq> rl_noop) (rl_done s)"

definition rl_awake :: "rl_state \<Rightarrow> bool" where
  "rl_awake s \<longleftrightarrow>
     (rl_run s \<in> {RlWait, RlBlocked} \<and> rl_finishing s \<longrightarrow> rl_noop \<notin> set (aq_out (rl_q s))) \<and>
     (rl_run s = RlBlocked \<longrightarrow>
        aq_head (rl_q s) = None \<or> (\<exists>t>0. aq_pc (rl_q s) t = AqReturned True True)) \<and>
     (rl_draining (rl_run s) \<longrightarrow> rl_finishing s) \<and>
     (rl_run s = RlReturned \<longrightarrow> rl_count s = 0)"

definition rl_inv :: "rl_state \<Rightarrow> bool" where
  "rl_inv s \<longleftrightarrow> aq_inv (rl_q s) \<and> rl_shape s \<and> rl_private s \<and> rl_account s \<and> rl_awake s"

lemma rl_inv_init: "rl_init s \<Longrightarrow> rl_inv s"
  using aq.init_inv [of "rl_q s"]
  by (auto simp: rl_inv_def rl_init_def rl_shape_def rl_private_def rl_account_def rl_awake_def
      aq_init_def rl_thread_ok_def rl_batch_def rl_total_def)

section \<open>What a step of a push does to the queue\<close>

lemma rl_pushE:
  assumes "rl_push t n q q'" and "rl_thread_ok pc (aq_pc q t)" and "rl_node pc = Some n"
  shows "aq_stack q' = aq_stack q" and "aq_in q' = aq_in q" and "aq_out q' = aq_out q"
    and "aq_head q' = aq_head q" and "u \<noteq> t \<Longrightarrow> aq_pc q' u = aq_pc q u"
    and "rl_thread_ok pc (aq_pc q' t)" and "aq_pc q t \<noteq> AqReturned True True"
  using assms by (auto simp: rl_push_def rl_thread_ok_def aq_goto_def aq_publish_def elim!: aq_push_step.cases)

lemma rl_publishE:
  assumes "rl_publish t q q'" and "rl_thread_ok pc (aq_pc q t)" and "rl_node pc = Some n"
    and "aq_inv q"
  shows "aq_stack q' = n # aq_stack q" and "aq_in q' = aq_in q @ [n]" and "aq_out q' = aq_out q"
    and "aq_head q' \<noteq> None" and "u \<noteq> t \<Longrightarrow> aq_pc q' u = aq_pc q u"
    and "aq_pc q' t = AqReturned True (aq_head q = None)"
  using assms by (auto simp: rl_publish_def rl_thread_ok_def aq_goto_def aq_publish_def elim!: aq_push_step.cases)

lemma rl_doneE:
  assumes "aq_push_step t q q'" and "aq_pc q t = AqReturned True b"
  shows "q' = aq_goto t AqIdle q"
  using assms by (auto elim!: aq_push_step.cases)

lemma rl_goto_simps [simp]:
  "rl_pc (rl_goto t pc s) = (rl_pc s)(t := pc)" "rl_q (rl_goto t pc s) = rl_q s"
  "rl_count (rl_goto t pc s) = rl_count s" "rl_finishing (rl_goto t pc s) = rl_finishing s"
  "rl_run (rl_goto t pc s) = rl_run s" "rl_started (rl_goto t pc s) = rl_started s"
  "rl_done (rl_goto t pc s) = rl_done s" "rl_sent (rl_goto t pc s) = rl_sent s"
  by (simp_all add: rl_goto_def)

lemma rl_notify_simps [simp]:
  "rl_pc (rl_notify b s) = rl_pc s" "rl_q (rl_notify b s) = rl_q s"
  "rl_count (rl_notify b s) = rl_count s" "rl_finishing (rl_notify b s) = rl_finishing s"
  "rl_started (rl_notify b s) = rl_started s" "rl_done (rl_notify b s) = rl_done s"
  "rl_sent (rl_notify b s) = rl_sent s"
  "rl_run (rl_notify b s) = (if b \<and> rl_run s = RlBlocked then RlWait else rl_run s)"
  by (simp_all add: rl_notify_def)

lemma rl_execute_simps [simp]:
  "rl_pc (rl_execute n s) = rl_pc s" "rl_q (rl_execute n s) = rl_q s"
  "rl_count (rl_execute n s) = rl_count s" "rl_finishing (rl_execute n s) = rl_finishing s"
  "rl_started (rl_execute n s) = rl_started s" "rl_done (rl_execute n s) = rl_done s @ [n]"
  "rl_run (rl_execute n s) = rl_run s"
  "map fst (rl_sent (rl_execute n s)) = map fst (rl_sent s) @ (if n = rl_noop then [] else [n])"
  by (simp_all add: rl_execute_def)

lemma aq_goto_simps [simp]:
  "aq_pc (aq_goto t pc q) = (aq_pc q)(t := pc)" "aq_stack (aq_goto t pc q) = aq_stack q"
  "aq_in (aq_goto t pc q) = aq_in q" "aq_out (aq_goto t pc q) = aq_out q"
  "aq_head (aq_goto t pc q) = aq_head q" "aq_next (aq_goto t pc q) = aq_next q"
  by (simp_all add: aq_goto_def)

section \<open>The iteration over a batch\<close>

lemma rl_reversed:
  assumes "aq_inv a" and "aq_pc a t = AqTaken p zs" and "iq_make_reversed (aq_next a) p = Some (q, nx')"
  shows "iq_rep nx' q (rev zs)" and "x \<notin> set zs \<Longrightarrow> nx' x = aq_next a x"
    and "iq_begin q = iq_end q \<longleftrightarrow> zs = []"
proof -
  have c: "chain (aq_next a) p zs None" using aq_inv_pc [OF assms(1,2)] by simp
  show r: "iq_rep nx' q (rev zs)" using iq_rep_make_reversed [OF c] assms(3) by auto
  show "x \<notin> set zs \<Longrightarrow> nx' x = aq_next a x" using iq_make_reversed_frame [OF c assms(3)] .
  show "iq_begin q = iq_end q \<longleftrightarrow> zs = []"
    using r by (cases zs rule: rev_cases) (auto simp: iq_rep_def iq_begin_def iq_end_def)
qed

lemma rl_iter_end:
  assumes "aq_inv a" and "rl_iterating q it (aq_pc a t)"
  shows "it = iq_end q \<longleftrightarrow> aq_owns (aq_pc a t) = []"
proof -
  from assms(2) obtain ns ys where i: "aq_pc a t = AqTaken (it_item it) ns"
    "it_pred it = last_ptr ys" "iq_tail q = last_ptr (ys @ ns)" by (auto simp: rl_iterating_def)
  then have "chain (aq_next a) (it_item it) ns None" using aq_inv_pc [OF assms(1) i(1)] by simp
  with i show ?thesis by (cases ns; cases it) (auto simp: iq_end_def)
qed

lemma rl_iter_next:
  assumes "aq_inv a" and "aq_pc a t = AqTaken p ns" and "it_item it = Some n"
    and "rl_iterating q it (aq_pc a t)"
  shows "ns = n # tl ns" and "chain (aq_next a) (it_item (iq_next (aq_next a) it)) (tl ns) None"
    and "rl_iterating q (iq_next (aq_next a) it) (AqTaken (it_item (iq_next (aq_next a) it)) (tl ns))"
proof -
  from assms(2,4) obtain ys where i: "p = it_item it"
    "it_pred it = last_ptr ys" "iq_tail q = last_ptr (ys @ ns)" by (auto simp: rl_iterating_def)
  have c: "chain (aq_next a) (Some n) ns None"
    using aq_inv_pc [OF assms(1,2)] i(1) assms(3) by simp
  then show n: "ns = n # tl ns" by (cases ns) auto
  with c show "chain (aq_next a) (it_item (iq_next (aq_next a) it)) (tl ns) None"
    using assms(3) by (cases ns) (auto simp: iq_next_def)
  have "iq_tail q = last_ptr ((ys @ [n]) @ tl ns)" using i(3) n by (metis append.assoc append_Cons append_Nil)
  then show "rl_iterating q (iq_next (aq_next a) it) (AqTaken (it_item (iq_next (aq_next a) it)) (tl ns))"
    using assms(3) unfolding rl_iterating_def
    by (intro exI [of _ "tl ns"] exI [of _ "ys @ [n]"]) (simp add: iq_next_def)
qed

section \<open>Every step keeps the queue's invariant and the shape\<close>

lemma rl_queue_start: "rl_start_step t s s' \<Longrightarrow> aq_inv (rl_q s) \<Longrightarrow> aq_inv (rl_q s')"
  by (erule rl_start_step.cases) (auto simp: rl_push_def rl_publish_def intro: aq_push_step_inv)

lemma rl_queue_finish: "rl_finish_step t s s' \<Longrightarrow> aq_inv (rl_q s) \<Longrightarrow> aq_inv (rl_q s')"
  by (erule rl_finish_step.cases) (auto simp: rl_push_def rl_publish_def intro: aq_push_step_inv)

lemma rl_queue_all: "rl_execute_all_step s s' \<Longrightarrow> aq_inv (rl_q s) \<Longrightarrow> rl_shape s \<Longrightarrow> aq_inv (rl_q s')"
proof (induction rule: rl_execute_all_step.induct)
  case (all_exchange s d q')
  then show ?case by (auto intro: aq_pop_all_step_inv)
next
  case (all_empty s d p zs q nx')
  note r = rl_reversed [OF all_empty.prems(1) all_empty.hyps(2,3)]
  show ?case using r(2) all_empty.hyps by (auto intro!: aq_inv_local [OF all_empty.prems(1)])
next
  case (all_begin s d p zs q nx')
  note r = rl_reversed [OF all_begin.prems(1) all_begin.hyps(2,3)]
  show ?case using r(1,2) all_begin.hyps
    by (auto intro!: aq_inv_local [OF all_begin.prems(1)] simp: iq_rep_def)
next
  case (all_next s d q it k n p ns it')
  from all_next have "rl_iterating q it (aq_pc (rl_q s) 0)" by (simp add: rl_shape_def)
  note r = rl_iter_next [OF all_next.prems(1) all_next.hyps(4,3) this]
  have "set (tl ns) \<subseteq> set ns" by (cases ns) auto
  with r(2) all_next show ?case by (auto intro!: aq_inv_goto)
qed (auto intro: aq_inv_goto)

lemma rl_shape_thread:
  assumes "rl_shape s" and "0 < t" and "rl_pc s' = (rl_pc s)(t := pc)"
    and "\<And>u. u \<noteq> t \<Longrightarrow> aq_pc (rl_q s') u = aq_pc (rl_q s) u"
    and "rl_thread_ok pc (aq_pc (rl_q s') t)"
    and "rl_run s' = rl_run s \<or> rl_run s = RlBlocked \<and> rl_run s' = RlWait"
  shows "rl_shape s'"
proof -
  have "{u. rl_pc s' u \<noteq> RlIdle} \<subseteq> insert t {u. rl_pc s u \<noteq> RlIdle}" using assms(3) by auto
  moreover have "finite (insert t {u. rl_pc s u \<noteq> RlIdle})" using assms(1) by (simp add: rl_shape_def)
  ultimately have "finite {u. rl_pc s' u \<noteq> RlIdle}" by (rule finite_subset)
  moreover have "rl_thread_ok (rl_pc s' u) (aq_pc (rl_q s') u)" if "0 < u" for u
    using assms that by (cases "u = t") (auto simp: rl_shape_def)
  moreover have "rl_run_ok (rl_run s') (aq_pc (rl_q s') 0)"
    using assms(1,2,4,6) by (auto simp: rl_shape_def)
  ultimately show ?thesis using assms(1-3) by (simp add: rl_shape_def)
qed

lemma rl_thread_pos: "rl_shape s \<Longrightarrow> rl_pc s t \<noteq> RlIdle \<Longrightarrow> 0 < t"
  by (cases t) (auto simp: rl_shape_def)

lemma rl_shape_ok: "rl_shape s \<Longrightarrow> rl_pc s t = pc \<Longrightarrow> pc \<noteq> RlIdle \<Longrightarrow> rl_thread_ok pc (aq_pc (rl_q s) t)"
  using rl_thread_pos [of s t] by (auto simp: rl_shape_def)

lemma rl_shape_idle:
  assumes "rl_shape s" and "rl_pc s t = pc" and "0 < t" and "rl_node pc = None"
    and "pc \<noteq> RlStarted" and "pc \<noteq> RlPushed"
  shows "aq_pc (rl_q s) t = AqIdle"
proof -
  have "rl_thread_ok pc (aq_pc (rl_q s) t)" using assms(1-3) by (auto simp: rl_shape_def)
  then show ?thesis using assms(4-6) by (simp add: rl_thread_ok_def)
qed

lemma rl_shape_start: "rl_start_step t s s' \<Longrightarrow> rl_shape s \<Longrightarrow> aq_inv (rl_q s) \<Longrightarrow> rl_shape s'"
proof (induction rule: rl_start_step.induct)
  case (start_add s n r u)
  then show ?case using rl_shape_idle [of s t]
    by (intro rl_shape_thread [OF start_add.prems(1) start_add.hyps(2)]) (auto simp: rl_thread_ok_def)
next
  case (start_push s n q')
  have t: "0 < t" using start_push rl_thread_pos [of s t] by simp
  note ok = rl_shape_ok [OF start_push.prems(1) start_push.hyps(1)]
  note p = rl_pushE [OF start_push.hyps(2) ok]
  show ?case using start_push.hyps(1) p
    by (intro rl_shape_thread [OF start_push.prems(1) t, of _ "RlStarting n"]) auto
next
  case (start_publish s n q')
  have t: "0 < t" using start_publish rl_thread_pos [of s t] by simp
  note ok = rl_shape_ok [OF start_publish.prems(1) start_publish.hyps(1)]
  note p = rl_publishE [OF start_publish.hyps(2) ok _ start_publish.prems(2)]
  show ?case using p by (intro rl_shape_thread [OF start_publish.prems(1) t]) (auto simp: rl_thread_ok_def)
next
  case (start_notify s b q')
  have t: "0 < t" using start_notify rl_thread_pos [of s t] by simp
  show ?case using rl_doneE [OF start_notify.hyps(3,2)]
    by (intro rl_shape_thread [OF start_notify.prems(1) t]) (auto simp: rl_thread_ok_def)
qed

lemma rl_shape_finish: "rl_finish_step t s s' \<Longrightarrow> rl_shape s \<Longrightarrow> aq_inv (rl_q s) \<Longrightarrow> rl_shape s'"
proof (induction rule: rl_finish_step.induct)
  case (finish_add s)
  then show ?case using rl_shape_idle [of s t]
    by (intro rl_shape_thread [OF finish_add.prems(1) finish_add.hyps(2)]) (auto simp: rl_thread_ok_def)
next
  case (finish_push s q')
  have t: "0 < t" using finish_push rl_thread_pos [of s t] by simp
  note ok = rl_shape_ok [OF finish_push.prems(1) finish_push.hyps(1)]
  note p = rl_pushE [OF finish_push.hyps(2) ok]
  show ?case using finish_push.hyps(1) p
    by (intro rl_shape_thread [OF finish_push.prems(1) t, of _ RlPushing]) auto
next
  case (finish_publish s q')
  have t: "0 < t" using finish_publish rl_thread_pos [of s t] by simp
  note ok = rl_shape_ok [OF finish_publish.prems(1) finish_publish.hyps(1)]
  note p = rl_publishE [OF finish_publish.hyps(2) ok _ finish_publish.prems(2)]
  show ?case using p by (intro rl_shape_thread [OF finish_publish.prems(1) t]) (auto simp: rl_thread_ok_def)
next
  case (finish_notify s b q')
  have t: "0 < t" using finish_notify rl_thread_pos [of s t] by simp
  show ?case using rl_doneE [OF finish_notify.hyps(3,2)]
    by (intro rl_shape_thread [OF finish_notify.prems(1) t]) (auto simp: rl_thread_ok_def)
next
  case (finish_first s)
  have t: "0 < t" using finish_first rl_thread_pos [of s t] by simp
  show ?case using finish_first rl_shape_idle [of s t] t
    by (intro rl_shape_thread [OF finish_first.prems(1) t]) (auto simp: rl_thread_ok_def)
next
  case (finish_sub s)
  have t: "0 < t" using finish_sub rl_thread_pos [of s t] by simp
  show ?case using finish_sub rl_shape_idle [of s t] t
    by (intro rl_shape_thread [OF finish_sub.prems(1) t]) (auto simp: rl_thread_ok_def)
next
  case (finish_again s)
  have t: "0 < t" using finish_again rl_thread_pos [of s t] by simp
  show ?case using finish_again rl_shape_idle [of s t] t
    by (intro rl_shape_thread [OF finish_again.prems(1) t]) (auto simp: rl_thread_ok_def)
next
  case (finish_again_sub s)
  have t: "0 < t" using finish_again_sub rl_thread_pos [of s t] by simp
  show ?case using finish_again_sub rl_shape_idle [of s t] t
    by (intro rl_shape_thread [OF finish_again_sub.prems(1) t]) (auto simp: rl_thread_ok_def)
qed

lemma rl_shape_loop:
  assumes "rl_shape s" and "rl_pc s' = rl_pc s" and "\<And>u. 0 < u \<Longrightarrow> aq_pc (rl_q s') u = aq_pc (rl_q s) u"
    and "rl_run_ok (rl_run s') (aq_pc (rl_q s') 0)"
  shows "rl_shape s'"
  using assms by (simp add: rl_shape_def)

lemma rl_exchangeE:
  assumes "aq_pop_all_step t q q'" and "aq_pc q t = AqIdle"
  shows "q' = aq_goto t (AqTaken (aq_head q) (aq_stack q)) (aq_take q)"
  using assms by (auto elim!: aq_pop_all_step.cases)

lemma rl_shape_all: "rl_execute_all_step s s' \<Longrightarrow> rl_shape s \<Longrightarrow> aq_inv (rl_q s) \<Longrightarrow> rl_shape s'"
proof (induction rule: rl_execute_all_step.induct)
  case (all_exchange s d q')
  show ?case using rl_exchangeE [OF all_exchange.hyps(3,2)]
    by (intro rl_shape_loop [OF all_exchange.prems(1)]) (auto simp: aq_take_def)
next
  case (all_empty s d p zs q nx')
  show ?case by (intro rl_shape_loop [OF all_empty.prems(1)]) (auto simp: rl_after_def)
next
  case (all_begin s d p zs q nx')
  note r = rl_reversed(1) [OF all_begin.prems(2) all_begin.hyps(2,3)]
  have "rl_iterating q (iq_begin q) (AqTaken (iq_head q) (rev zs))"
    using r by (auto simp: rl_iterating_def iq_begin_def iq_rep_def intro!: exI [of _ "[]"])
  then show ?case by (intro rl_shape_loop [OF all_begin.prems(1)]) auto
next
  case (all_next s d q it k n p ns it')
  from all_next have "rl_iterating q it (aq_pc (rl_q s) 0)" by (simp add: rl_shape_def)
  note r = rl_iter_next(3) [OF all_next.prems(2) all_next.hyps(4,3) this]
  show ?case using r all_next.hyps by (intro rl_shape_loop [OF all_next.prems(1)]) auto
next
  case (all_execute s d q it k n)
  then show ?case by (intro rl_shape_loop [OF all_execute.prems(1)]) (auto simp: rl_shape_def)
next
  case (all_sub s d q it k)
  show ?case by (intro rl_shape_loop [OF all_sub.prems(1)]) (auto simp: rl_after_def)
qed

lemma rl_shape_run: "rl_run_step s s' \<Longrightarrow> rl_shape s \<Longrightarrow> aq_inv (rl_q s) \<Longrightarrow> rl_shape s'"
proof (induction rule: rl_run_step.induct)
  case (run_wait s s')
  then show ?case by (auto simp: rl_shape_def elim!: rl_wait_step.cases)
next
  case (run_all s s')
  then show ?case by (rule rl_shape_all)
qed (auto simp: rl_shape_def)

section \<open>Every step keeps the accounts\<close>

lemma rl_totals:
  assumes "rl_shape s" and "rl_pc s t = old"
  shows "rl_total rl_weight ((rl_pc s)(t := pc)) = rl_total rl_weight (rl_pc s) + rl_weight pc - rl_weight old"
    and "rl_total rl_finisher ((rl_pc s)(t := pc)) + rl_finisher old =
           rl_total rl_finisher (rl_pc s) + rl_finisher pc"
    and "rl_total rl_pending ((rl_pc s)(t := pc)) + rl_pending old =
           rl_total rl_pending (rl_pc s) + rl_pending pc"
  using rl_total_upd [of "rl_pc s" rl_weight t pc] rl_total_upd [of "rl_pc s" rl_finisher t pc]
    rl_total_upd [of "rl_pc s" rl_pending t pc] assms by (auto simp: rl_shape_def)

lemma rl_batch_thread:
  assumes "aq_pc (rl_q s') 0 = aq_pc (rl_q s) 0"
    and "rl_run s' = rl_run s \<or> rl_run s = RlBlocked \<and> rl_run s' = RlWait"
  shows "rl_batch s' = rl_batch s"
  using assms by (auto simp: rl_batch_def)

lemma rl_executed_thread:
  "rl_run s' = rl_run s \<or> rl_run s = RlBlocked \<and> rl_run s' = RlWait \<Longrightarrow>
   rl_executed (rl_run s') = rl_executed (rl_run s)"
  by auto

lemma balance:
  fixes S :: "'a::cancel_comm_monoid_add"
  assumes "T' + old = T + new" and "S' + old = S + f + new" and "S = I + T"
  shows "S' = (I + f) + T'"
proof -
  have "S' + old = I + f + (T + new)" using assms(2,3) by (simp add: ac_simps)
  also have "\<dots> = (I + f + T') + old" by (simp only: assms(1) [symmetric] add.assoc)
  finally show ?thesis by simp
qed

text \<open>A thread moves to \<open>pc\<close> and publishes the nodes \<open>ns\<close> (none or one).\<close>

lemma rl_account_thread:
  assumes "rl_account s" and "rl_shape s" and "rl_pc s' = (rl_pc s)(t := pc)" and "rl_pc s t = old"
    and "aq_pc (rl_q s') 0 = aq_pc (rl_q s) 0"
    and "rl_run s' = rl_run s \<or> rl_run s = RlBlocked \<and> rl_run s' = RlWait"
    and "aq_stack (rl_q s') = ns @ aq_stack (rl_q s)" and "aq_in (rl_q s') = aq_in (rl_q s) @ ns"
    and "aq_out (rl_q s') = aq_out (rl_q s)"
    and "rl_count s' = rl_count s + rl_weight pc - rl_weight old + int (length ns)"
    and "count_list ns rl_noop + rl_finisher pc + of_bool (rl_finishing s) =
      rl_finisher old + of_bool (rl_finishing s')"
    and "mset (rl_started s') + rl_pending old =
      mset (rl_started s) + {#n \<in># mset ns. n \<noteq> rl_noop#} + rl_pending pc"
    and "rl_done s' = rl_done s" and "rl_sent s' = rl_sent s"
  shows "rl_account s'"
proof -
  note [simp] = rl_batch_thread [OF assms(5,6)] rl_executed_thread [OF assms(6)]
  note tot = rl_totals [OF assms(2,4), of pc]
  have fin: "count_list (aq_in (rl_q s')) rl_noop + rl_total rl_finisher (rl_pc s') = of_bool (rl_finishing s')"
  proof -
    have "count_list (aq_in (rl_q s)) rl_noop + rl_total rl_finisher (rl_pc s) = of_bool (rl_finishing s)"
      using assms(1) by (simp add: rl_account_def)
    moreover have "count_list (aq_in (rl_q s')) rl_noop = count_list (aq_in (rl_q s)) rl_noop + count_list ns rl_noop"
      by (simp add: assms(8))
    ultimately show ?thesis using tot(2) assms(11) unfolding assms(3) by linarith
  qed
  have "mset (rl_started s) = {#n \<in># mset (aq_in (rl_q s)). n \<noteq> rl_noop#} + rl_total rl_pending (rl_pc s)"
    using assms(1) by (simp add: rl_account_def)
  from balance [OF tot(3) assms(12) this] assms(3,8)
  have "mset (rl_started s') = {#n \<in># mset (aq_in (rl_q s')). n \<noteq> rl_noop#} + rl_total rl_pending (rl_pc s')"
    by simp
  with fin show ?thesis using assms(1) tot(1) assms(3,7,9,10,13,14) by (simp add: rl_account_def)
qed

lemma rl_account_start: "rl_start_step t s s' \<Longrightarrow> rl_account s \<Longrightarrow> rl_shape s \<Longrightarrow> rl_private s \<Longrightarrow>
    aq_inv (rl_q s) \<Longrightarrow> rl_account s'"
proof (induction rule: rl_start_step.induct)
  case (start_add s n r u)
  then show ?case
    by (intro rl_account_thread [OF start_add.prems(1,2) _ start_add.hyps(1), of _ "RlStarting n" "[]"]) auto
next
  case (start_push s n q')
  have t: "0 < t" using start_push rl_thread_pos [of s t] by simp
  note p = rl_pushE [OF start_push.hyps(2) rl_shape_ok [OF start_push.prems(2) start_push.hyps(1)]]
  show ?case using start_push.hyps(1) p t
    by (intro rl_account_thread [OF start_push.prems(1,2) _ start_push.hyps(1), of _ "RlStarting n" "[]"]) auto
next
  case (start_publish s n q')
  have t: "0 < t" using start_publish rl_thread_pos [of s t] by simp
  have n: "n \<noteq> rl_noop" using start_publish.prems(3) start_publish.hyps(1) by (simp add: rl_private_def)
  note p = rl_publishE [OF start_publish.hyps(2) rl_shape_ok [OF start_publish.prems(2) start_publish.hyps(1)]
      _ start_publish.prems(4)]
  show ?case using p t n
    by (intro rl_account_thread [OF start_publish.prems(1,2) _ start_publish.hyps(1), of _ RlStarted "[n]"]) auto
next
  case (start_notify s b q')
  have t: "0 < t" using start_notify rl_thread_pos [of s t] by simp
  show ?case using rl_doneE [OF start_notify.hyps(3,2)] t
    by (intro rl_account_thread [OF start_notify.prems(1,2) _ start_notify.hyps(1), of _ RlIdle "[]"]) auto
qed

lemma rl_account_finish: "rl_finish_step t s s' \<Longrightarrow> rl_account s \<Longrightarrow> rl_shape s \<Longrightarrow> aq_inv (rl_q s) \<Longrightarrow>
    rl_account s'"
proof (induction rule: rl_finish_step.induct)
  case (finish_push s q')
  have t: "0 < t" using finish_push rl_thread_pos [of s t] by simp
  note p = rl_pushE [OF finish_push.hyps(2) rl_shape_ok [OF finish_push.prems(2) finish_push.hyps(1)]]
  show ?case using finish_push.hyps(1) p t
    by (intro rl_account_thread [OF finish_push.prems(1,2) _ finish_push.hyps(1), of _ RlPushing "[]"]) auto
next
  case (finish_publish s q')
  have t: "0 < t" using finish_publish rl_thread_pos [of s t] by simp
  note p = rl_publishE [OF finish_publish.hyps(2) rl_shape_ok [OF finish_publish.prems(2) finish_publish.hyps(1)]
      _ finish_publish.prems(3)]
  show ?case using p t
    by (intro rl_account_thread [OF finish_publish.prems(1,2) _ finish_publish.hyps(1), of _ RlPushed "[rl_noop]"]) auto
next
  case (finish_notify s b q')
  have t: "0 < t" using finish_notify rl_thread_pos [of s t] by simp
  show ?case using rl_doneE [OF finish_notify.hyps(3,2)] t
    by (intro rl_account_thread [OF finish_notify.prems(1,2) _ finish_notify.hyps(1), of _ RlSubOne "[]"]) auto
next
  case (finish_add s)
  show ?case
    by (intro rl_account_thread [OF finish_add.prems(1,2) _ finish_add.hyps(1), of _ RlFin "[]"]) auto
next
  case (finish_first s)
  then show ?case
    by (intro rl_account_thread [OF finish_first.prems(1,2) _ finish_first.hyps(1), of _ RlPushing "[]"]) auto
next
  case (finish_sub s)
  show ?case
    by (intro rl_account_thread [OF finish_sub.prems(1,2) _ finish_sub.hyps(1), of _ RlIdle "[]"]) auto
next
  case (finish_again s)
  show ?case
    by (intro rl_account_thread [OF finish_again.prems(1,2) _ finish_again.hyps(1), of _ RlSubTwo "[]"]) auto
next
  case (finish_again_sub s)
  show ?case
    by (intro rl_account_thread [OF finish_again_sub.prems(1,2) _ finish_again_sub.hyps(1), of _ RlIdle "[]"]) auto
qed

lemma rl_shape_runner: "rl_shape s \<Longrightarrow> rl_run s = r \<Longrightarrow> rl_run_ok r (aq_pc (rl_q s) 0)"
  by (auto simp: rl_shape_def)

lemma rl_after_simps [simp]:
  "rl_executed (rl_after d e) = 0" "rl_run_ok (rl_after d e) apc \<longleftrightarrow> apc = AqIdle"
  "rl_draining (rl_after d e) = d" "rl_after d e \<noteq> RlBlocked" "rl_after d e \<noteq> RlWait" "rl_after d e \<noteq> RlReturned"
  by (simp_all add: rl_after_def)

lemma rl_batch_idle: "aq_pc (rl_q s) 0 = AqIdle \<Longrightarrow> rl_run_ok (rl_run s) AqIdle \<Longrightarrow> rl_batch s = []"
  by (cases "rl_run s") (auto simp: rl_batch_def rl_iterating_def)

lemma rl_account_all: "rl_execute_all_step s s' \<Longrightarrow> rl_account s \<Longrightarrow> rl_shape s \<Longrightarrow> aq_inv (rl_q s) \<Longrightarrow>
    rl_account s'"
proof (induction rule: rl_execute_all_step.induct)
  case (all_exchange s d q')
  then show ?case using rl_exchangeE [OF all_exchange.hyps(3,2)]
    by (simp add: rl_account_def rl_batch_def aq_take_def)
next
  case (all_empty s d p zs q nx')
  then have "zs = []" using rl_reversed(3) [OF all_empty.prems(3) all_empty.hyps(2,3)] by simp
  then have "rl_batch s = []" using all_empty.hyps by (simp add: rl_batch_def)
  moreover have "rl_batch (s\<lparr>rl_q := aq_goto 0 AqIdle ((rl_q s)\<lparr>aq_next := nx'\<rparr>), rl_run := rl_after d False\<rparr>) = []"
    by (rule rl_batch_idle) auto
  ultimately show ?case using all_empty by (simp add: rl_account_def)
next
  case (all_begin s d p zs q nx')
  then show ?case by (simp add: rl_account_def rl_batch_def)
next
  case (all_next s d q it k n p ns it')
  have "rl_iterating q it (aq_pc (rl_q s) 0)" using rl_shape_runner [OF all_next.prems(2) all_next.hyps(1)] by simp
  note r = rl_iter_next(1) [OF all_next.prems(3) all_next.hyps(4,3) this]
  have "rl_batch s = n # tl ns" using all_next.hyps(1,4) r by (simp add: rl_batch_def)
  then show ?case using all_next.prems(1) all_next.hyps(1) by (simp add: rl_account_def rl_batch_def)
next
  case (all_execute s d q it k n)
  then show ?case by (simp add: rl_account_def rl_batch_def)
next
  case (all_sub s d q it k)
  have "rl_iterating q it (aq_pc (rl_q s) 0)" using rl_shape_runner [OF all_sub.prems(2) all_sub.hyps(1)] by simp
  from rl_iter_end [OF all_sub.prems(3) this] have "aq_owns (aq_pc (rl_q s) 0) = []" using all_sub.hyps(2) by simp
  then have "rl_batch s = []" using all_sub.hyps(1) by (simp add: rl_batch_def)
  moreover have "rl_batch (s\<lparr>rl_q := aq_goto 0 AqIdle (rl_q s), rl_count := rl_count s - int k,
      rl_run := rl_after d True\<rparr>) = []"
    by (rule rl_batch_idle) auto
  ultimately show ?case using all_sub by (simp add: rl_account_def)
qed

lemma rl_account_quiet:
  assumes "rl_account s" and "rl_shape s" and "rl_run_ok (rl_run s) AqIdle" and "aq_pc (rl_q s) 0 = AqIdle"
    and "rl_run_ok r AqIdle"
  shows "rl_account (s\<lparr>rl_run := r\<rparr>)"
proof -
  have "rl_batch s = []" "rl_batch (s\<lparr>rl_run := r\<rparr>) = []" using assms(3-5) by (auto intro: rl_batch_idle)
  note b = this
  have "rl_executed x = 0" if "rl_run_ok x AqIdle" for x
    using that by (cases x) (auto simp: rl_iterating_def)
  from this [OF assms(3)] this [OF assms(5)] show ?thesis using assms(1) b by (simp add: rl_account_def)
qed

lemma rl_account_run: "rl_run_step s s' \<Longrightarrow> rl_account s \<Longrightarrow> rl_shape s \<Longrightarrow> aq_inv (rl_q s) \<Longrightarrow> rl_account s'"
proof (induction rule: rl_run_step.induct)
  case (run_wait s s')
  from run_wait.hyps run_wait.prems(1,2) show ?case
    by cases (auto intro!: rl_account_quiet dest: rl_shape_runner)
next
  case (run_all s s')
  then show ?case by (rule rl_account_all)
qed (auto intro!: rl_account_quiet dest: rl_shape_runner)

section \<open>Every step keeps the nodes apart\<close>

lemma rl_private_thread:
  assumes "rl_private s" and "rl_pc s' = (rl_pc s)(t := pc)" and "rl_batch s' = rl_batch s"
    and "set (aq_stack (rl_q s')) \<subseteq> set (aq_stack (rl_q s)) \<union> set_option (rl_node (rl_pc s t))"
    and "\<And>n. rl_node pc = Some n \<Longrightarrow> n \<notin> set (aq_stack (rl_q s')) \<and>
      (rl_node (rl_pc s t) = Some n \<or> n \<notin> set (rl_batch s) \<and> (\<forall>u. rl_node (rl_pc s u) \<noteq> Some n))"
    and "\<And>n. pc = RlStarting n \<Longrightarrow> n \<noteq> rl_noop"
  shows "rl_private s'"
proof -
  have old: "n \<notin> set (aq_stack (rl_q s)) \<and> n \<notin> set (rl_batch s) \<and> (\<forall>v. rl_node (rl_pc s v) = Some n \<longrightarrow> v = u)"
    if "rl_node (rl_pc s u) = Some n" for u n using assms(1) that unfolding rl_private_def by blast
  have "n \<notin> set (aq_stack (rl_q s')) \<and> n \<notin> set (rl_batch s') \<and> (\<forall>v. rl_node (rl_pc s' v) = Some n \<longrightarrow> v = u)"
    if n: "rl_node (rl_pc s' u) = Some n" for u n
  proof (cases "u = t")
    case True
    with n assms(2) have "rl_node pc = Some n" by simp
    note a = assms(5) [OF this]
    have "n \<notin> set (rl_batch s)" using a old [of t n] by blast
    moreover have "v = u" if "rl_node (rl_pc s' v) = Some n" for v
    proof (rule ccontr)
      assume "v \<noteq> u"
      then have "rl_node (rl_pc s v) = Some n" using that True by (simp add: assms(2))
      with a old [of t n] True \<open>v \<noteq> u\<close> show False by blast
    qed
    ultimately show ?thesis using a assms(3) by simp
  next
    case False
    with n assms(2) have u: "rl_node (rl_pc s u) = Some n" by simp
    note o = old [OF u]
    have t: "rl_node (rl_pc s t) \<noteq> Some n" using o False by blast
    then have "n \<notin> set (aq_stack (rl_q s'))" using o assms(4) by (cases "rl_node (rl_pc s t)") auto
    moreover have "rl_node pc \<noteq> Some n" using assms(5) [of n] u t by blast
    then have "v = u" if "rl_node (rl_pc s' v) = Some n" for v
      using that o unfolding assms(2) by (cases "v = t") simp_all
    ultimately show ?thesis using o unfolding assms(3) by blast
  qed
  moreover have "n \<noteq> rl_noop" if "rl_pc s' u = RlStarting n" for u n
    using that assms(1,6) unfolding assms(2) rl_private_def by (cases "u = t") simp_all
  ultimately show ?thesis unfolding rl_private_def by blast
qed

lemma rl_not_finishing:
  assumes "rl_account s" and "rl_shape s" and "aq_inv (rl_q s)" and "\<not> rl_finishing s"
  shows "rl_noop \<notin> set (aq_in (rl_q s))" and "rl_pc s t \<noteq> RlPushing"
    and "rl_noop \<notin> set (aq_stack (rl_q s))" and "rl_noop \<notin> set (rl_batch s)"
proof -
  have zero: "count_list (aq_in (rl_q s)) rl_noop = 0" "rl_total rl_finisher (rl_pc s) = 0"
    using assms(1,4) by (auto simp: rl_account_def)
  from zero(1) show i: "rl_noop \<notin> set (aq_in (rl_q s))" by (simp add: count_list_0_iff)
  have "aq_in (rl_q s) = aq_out (rl_q s) @ rev (aq_stack (rl_q s))" using assms(3) by (simp add: aq_inv_def)
  moreover have "aq_out (rl_q s) = rl_done s @ rl_batch s" using assms(1) by (simp add: rl_account_def)
  ultimately show "rl_noop \<notin> set (aq_stack (rl_q s))" and "rl_noop \<notin> set (rl_batch s)" using i by auto
  have "finite {t. rl_pc s t \<noteq> RlIdle}" using assms(2) by (simp add: rl_shape_def)
  with zero(2) have all: "\<forall>u\<in>{t. rl_pc s t \<noteq> RlIdle}. rl_finisher (rl_pc s u) = 0" by (simp add: rl_total_def)
  show "rl_pc s t \<noteq> RlPushing"
  proof
    assume "rl_pc s t = RlPushing"
    with all [THEN bspec, of t] show False by simp
  qed
qed

lemma rl_private_start: "rl_start_step t s s' \<Longrightarrow> rl_private s \<Longrightarrow> rl_shape s \<Longrightarrow> aq_inv (rl_q s) \<Longrightarrow> rl_private s'"
proof (induction rule: rl_start_step.induct)
  case (start_add s n r u)
  have "rl_batch (rl_goto t (RlStarting n) (s\<lparr>rl_count := rl_count s + 1, rl_unstoppable := (rl_unstoppable s)(n := u),
          rl_requested := (rl_requested s)(n := r), rl_started := rl_started s @ [n]\<rparr>)) = rl_batch s"
    by (rule rl_batch_thread) auto
  with start_add.hyps(1,4) show ?case
    by (intro rl_private_thread [OF start_add.prems(1), of _ t "RlStarting n"]) (auto simp: rl_fresh_def)
next
  case (start_push s n q')
  have t: "0 < t" using start_push rl_thread_pos [of s t] by simp
  note p = rl_pushE [OF start_push.hyps(2) rl_shape_ok [OF start_push.prems(2) start_push.hyps(1)]]
  have "rl_batch (s\<lparr>rl_q := q'\<rparr>) = rl_batch s" using p t by (intro rl_batch_thread) auto
  moreover have n: "rl_node (rl_pc s t) = Some n" using start_push.hyps(1) by simp
  moreover have "n \<notin> set (aq_stack (rl_q s))" using start_push.prems(1) n unfolding rl_private_def by blast
  moreover have "n \<noteq> rl_noop" using start_push.hyps(1) start_push.prems(1) by (simp add: rl_private_def)
  ultimately show ?case
  proof (intro rl_private_thread [OF start_push.prems(1), of "s\<lparr>rl_q := q'\<rparr>" t "RlStarting n"])
    show "rl_pc (s\<lparr>rl_q := q'\<rparr>) = (rl_pc s)(t := RlStarting n)"
      using fun_upd_triv [of "rl_pc s" t] start_push.hyps(1) by simp
  qed (use p(1) in \<open>simp_all add: subset_insertI\<close>)
next
  case (start_publish s n q')
  have t: "0 < t" using start_publish rl_thread_pos [of s t] by simp
  note p = rl_publishE [OF start_publish.hyps(2) rl_shape_ok [OF start_publish.prems(2) start_publish.hyps(1)]
      _ start_publish.prems(3)]
  have "rl_batch (rl_goto t RlStarted (s\<lparr>rl_q := q'\<rparr>)) = rl_batch s" using p t by (intro rl_batch_thread) auto
  with start_publish.hyps(1) p show ?case
    by (intro rl_private_thread [OF start_publish.prems(1), of _ t RlStarted]) auto
next
  case (start_notify s b q')
  have t: "0 < t" using start_notify rl_thread_pos [of s t] by simp
  note q = rl_doneE [OF start_notify.hyps(3,2)]
  have "rl_batch (rl_goto t RlIdle (rl_notify b (s\<lparr>rl_q := q'\<rparr>))) = rl_batch s"
    using q t by (intro rl_batch_thread) auto
  with q show ?case by (intro rl_private_thread [OF start_notify.prems(1), of _ t RlIdle]) auto
qed

lemma rl_private_quiet:
  assumes "rl_private s" and "rl_pc s' = (rl_pc s)(t := pc)" and "rl_q s' = rl_q s" and "rl_run s' = rl_run s"
    and "rl_node pc = None"
  shows "rl_private s'"
proof -
  have "rl_batch s' = rl_batch s" using assms(3,4) by (intro rl_batch_thread) auto
  with assms show ?thesis by (intro rl_private_thread [OF assms(1,2)]) auto
qed

lemma rl_private_finish: "rl_finish_step t s s' \<Longrightarrow> rl_private s \<Longrightarrow> rl_shape s \<Longrightarrow> aq_inv (rl_q s) \<Longrightarrow>
    rl_account s \<Longrightarrow> rl_private s'"
proof (induction rule: rl_finish_step.induct)
  case (finish_first s)
  note noop = rl_not_finishing [OF finish_first.prems(4,2,3) finish_first.hyps(2)]
  have "rl_batch (rl_goto t RlPushing (s\<lparr>rl_finishing := True\<rparr>)) = rl_batch s" by (rule rl_batch_thread) auto
  moreover have "rl_node (rl_pc s u) \<noteq> Some rl_noop" for u
    using noop(2) [of u] finish_first.prems(1) by (cases "rl_pc s u") (auto simp: rl_private_def)
  ultimately show ?case using noop(3,4) finish_first.hyps(1)
    by (intro rl_private_thread [OF finish_first.prems(1), of _ t RlPushing]) auto
next
  case (finish_push s q')
  have t: "0 < t" using finish_push rl_thread_pos [of s t] by simp
  note p = rl_pushE [OF finish_push.hyps(2) rl_shape_ok [OF finish_push.prems(2) finish_push.hyps(1)]]
  have "rl_batch (s\<lparr>rl_q := q'\<rparr>) = rl_batch s" using p t by (intro rl_batch_thread) auto
  moreover have "rl_node (rl_pc s t) = Some rl_noop" using finish_push.hyps(1) by simp
  then have "rl_noop \<notin> set (aq_stack (rl_q s))" using finish_push.prems(1) unfolding rl_private_def by blast
  ultimately show ?case using finish_push.hyps(1) p
    by (intro rl_private_thread [OF finish_push.prems(1), of _ t RlPushing]) auto
next
  case (finish_publish s q')
  have t: "0 < t" using finish_publish rl_thread_pos [of s t] by simp
  note p = rl_publishE [OF finish_publish.hyps(2) rl_shape_ok [OF finish_publish.prems(2) finish_publish.hyps(1)]
      _ finish_publish.prems(3)]
  have "rl_batch (rl_goto t RlPushed (s\<lparr>rl_q := q'\<rparr>)) = rl_batch s" using p t by (intro rl_batch_thread) auto
  with finish_publish.hyps(1) p show ?case
    by (intro rl_private_thread [OF finish_publish.prems(1), of _ t RlPushed]) auto
next
  case (finish_notify s b q')
  have t: "0 < t" using finish_notify rl_thread_pos [of s t] by simp
  note q = rl_doneE [OF finish_notify.hyps(3,2)]
  have "rl_batch (rl_goto t RlSubOne (rl_notify b (s\<lparr>rl_q := q'\<rparr>))) = rl_batch s"
    using q t by (intro rl_batch_thread) auto
  with q show ?case by (intro rl_private_thread [OF finish_notify.prems(1), of _ t RlSubOne]) auto
next
  case (finish_add s)
  show ?case by (rule rl_private_quiet [OF finish_add.prems(1), of _ t RlFin]) simp_all
next
  case (finish_sub s)
  show ?case by (rule rl_private_quiet [OF finish_sub.prems(1), of _ t RlIdle]) simp_all
next
  case (finish_again s)
  show ?case by (rule rl_private_quiet [OF finish_again.prems(1), of _ t RlSubTwo]) simp_all
next
  case (finish_again_sub s)
  show ?case by (rule rl_private_quiet [OF finish_again_sub.prems(1), of _ t RlIdle]) simp_all
qed

lemma rl_private_loop:
  assumes "rl_private s" and "rl_pc s' = rl_pc s"
    and "set (aq_stack (rl_q s')) \<union> set (rl_batch s') \<subseteq> set (aq_stack (rl_q s)) \<union> set (rl_batch s)"
  shows "rl_private s'"
  using assms(1,3) unfolding rl_private_def assms(2) by blast

lemma rl_private_all: "rl_execute_all_step s s' \<Longrightarrow> rl_private s \<Longrightarrow> rl_account s \<Longrightarrow> rl_account s' \<Longrightarrow>
    aq_inv (rl_q s) \<Longrightarrow> aq_inv (rl_q s') \<Longrightarrow> rl_private s'"
proof -
  assume st: "rl_execute_all_step s s'" and p: "rl_private s" and a: "rl_account s" "rl_account s'"
    and i: "aq_inv (rl_q s)" "aq_inv (rl_q s')"
  have in': "aq_in (rl_q s') = aq_in (rl_q s)" and pc: "rl_pc s' = rl_pc s"
    and stk: "aq_stack (rl_q s') = aq_stack (rl_q s) \<or> aq_stack (rl_q s') = []"
    and dn: "\<exists>ns. rl_done s' = rl_done s @ ns"
    using st by (auto elim!: rl_execute_all_step.cases aq_pop_all_step.cases simp: aq_take_def)
  have e: "rl_done x @ rl_batch x @ rev (aq_stack (rl_q x)) = aq_in (rl_q x)"
    if "rl_account x" "aq_inv (rl_q x)" for x using that by (simp add: rl_account_def aq_inv_def)
  obtain ns where "rl_done s @ ns @ rl_batch s' @ rev (aq_stack (rl_q s')) =
      rl_done s @ rl_batch s @ rev (aq_stack (rl_q s))"
    using e [OF a(1) i(1)] e [OF a(2) i(2)] in' dn by auto
  then have "ns @ rl_batch s' @ rev (aq_stack (rl_q s')) = rl_batch s @ rev (aq_stack (rl_q s))" by simp
  then have "set (ns @ rl_batch s' @ rev (aq_stack (rl_q s'))) = set (rl_batch s @ rev (aq_stack (rl_q s)))" by simp
  then show ?thesis by (intro rl_private_loop [OF p pc]) auto
qed

lemma rl_private_set_run: "rl_private s \<Longrightarrow> rl_batch (s\<lparr>rl_run := r\<rparr>) = rl_batch s \<Longrightarrow> rl_private (s\<lparr>rl_run := r\<rparr>)"
  by (rule rl_private_loop) auto

lemma rl_private_run: "rl_run_step s s' \<Longrightarrow> rl_private s \<Longrightarrow> rl_account s \<Longrightarrow> rl_account s' \<Longrightarrow>
    aq_inv (rl_q s) \<Longrightarrow> aq_inv (rl_q s') \<Longrightarrow> rl_private s'"
proof (induction rule: rl_run_step.induct)
  case (run_all s s')
  then show ?case by (rule rl_private_all)
next
  case (run_wait s s')
  from run_wait.hyps run_wait.prems(1) show ?case
    by cases (simp_all add: rl_private_set_run rl_batch_def)
qed (rule rl_private_set_run; simp add: rl_batch_def)+

section \<open>No wake-up is lost\<close>

lemma rl_weight_nonneg: "0 \<le> rl_weight pc"
  by (cases pc) auto

lemma rl_count_ge:
  assumes "rl_account s" and "rl_shape s"
  shows "rl_weight (rl_pc s t) \<le> rl_count s"
proof (cases "rl_pc s t = RlIdle")
  case True
  have "0 \<le> rl_total rl_weight (rl_pc s)" unfolding rl_total_def by (intro sum_nonneg rl_weight_nonneg)
  then show ?thesis using True assms(1) by (simp add: rl_account_def)
next
  case False
  have "rl_weight (rl_pc s t) \<le> rl_total rl_weight (rl_pc s)"
    using assms(2) False by (intro rl_total_ge rl_weight_nonneg) (auto simp: rl_shape_def)
  then show ?thesis using assms(1) by (simp add: rl_account_def)
qed

definition rl_woken :: "aq_state \<Rightarrow> bool" where
  "rl_woken q \<longleftrightarrow> aq_head q = None \<or> (\<exists>t>0. aq_pc q t = AqReturned True True)"

lemma rl_woken_push:
  assumes "rl_push t n q q'" and "rl_thread_ok pc (aq_pc q t)" and "rl_node pc = Some n" and "rl_woken q"
  shows "rl_woken q'"
  using assms(4) rl_pushE(4,5,7) [OF assms(1-3)] unfolding rl_woken_def by metis

lemma rl_woken_publish:
  assumes "rl_publish t q q'" and "rl_thread_ok pc (aq_pc q t)" and "rl_node pc = Some n" and "rl_woken q"
    and "aq_inv q" and "0 < t"
  shows "rl_woken q'"
proof (cases "aq_head q = None")
  case True
  then show ?thesis using rl_publishE(6) [OF assms(1-3,5)] assms(6) unfolding rl_woken_def by auto
next
  case False
  with assms(4) obtain u where u: "0 < u" "aq_pc q u = AqReturned True True" by (auto simp: rl_woken_def)
  then have "u \<noteq> t" using assms(2,3) by (auto simp: rl_thread_ok_def)
  with u rl_publishE(5) [OF assms(1-3,5)] show ?thesis unfolding rl_woken_def by metis
qed

lemma rl_woken_return:
  assumes "rl_woken q" and "aq_pc q t = AqReturned True False"
  shows "rl_woken (aq_goto t AqIdle q)"
proof -
  have "aq_pc q u = AqReturned True True \<Longrightarrow> u \<noteq> t" for u using assms(2) by auto
  then show ?thesis using assms(1) unfolding rl_woken_def by auto
qed

lemma rl_awake_thread:
  assumes "rl_awake s" and "rl_run s' = rl_run s \<or> rl_run s = RlBlocked \<and> rl_run s' = RlWait"
    and "aq_out (rl_q s') = aq_out (rl_q s)"
    and "rl_finishing s' = rl_finishing s \<or> rl_finishing s' \<and> rl_noop \<notin> set (aq_out (rl_q s))"
    and "rl_run s' = RlBlocked \<Longrightarrow> rl_woken (rl_q s) \<Longrightarrow> rl_woken (rl_q s')"
    and "rl_run s = RlReturned \<Longrightarrow> rl_count s = 0 \<Longrightarrow> rl_count s' = 0"
  shows "rl_awake s'"
  using assms unfolding rl_awake_def rl_woken_def [symmetric] by auto

lemma rl_awake_start: "rl_start_step t s s' \<Longrightarrow> rl_awake s \<Longrightarrow> rl_shape s \<Longrightarrow> aq_inv (rl_q s) \<Longrightarrow> rl_awake s'"
proof (induction rule: rl_start_step.induct)
  case (start_add s n r u)
  then show ?case by (intro rl_awake_thread [OF start_add.prems(1)]) simp_all
next
  case (start_push s n q')
  note ok = rl_shape_ok [OF start_push.prems(2) start_push.hyps(1)]
  show ?case using rl_pushE(3) [OF start_push.hyps(2) ok] rl_woken_push [OF start_push.hyps(2) ok]
    by (intro rl_awake_thread [OF start_push.prems(1)]) simp_all
next
  case (start_publish s n q')
  have t: "0 < t" using start_publish rl_thread_pos [of s t] by simp
  note ok = rl_shape_ok [OF start_publish.prems(2) start_publish.hyps(1)]
  show ?case using rl_publishE(3) [OF start_publish.hyps(2) ok _ start_publish.prems(3)]
      rl_woken_publish [OF start_publish.hyps(2) ok _ _ start_publish.prems(3) t]
    by (intro rl_awake_thread [OF start_publish.prems(1)]) simp_all
next
  case (start_notify s b q')
  note q = rl_doneE [OF start_notify.hyps(3,2)]
  show ?case
  proof (cases b)
    case True
    then show ?thesis using q
      by (intro rl_awake_thread [OF start_notify.prems(1)]) (simp_all split: if_splits)
  next
    case False
    then have "aq_pc (rl_q s) t = AqReturned True False" using start_notify.hyps(2) by simp
    from rl_woken_return [OF _ this] show ?thesis using q False
      by (intro rl_awake_thread [OF start_notify.prems(1)]) simp_all
  qed
qed

lemma rl_awake_finish: "rl_finish_step t s s' \<Longrightarrow> rl_awake s \<Longrightarrow> rl_shape s \<Longrightarrow> aq_inv (rl_q s) \<Longrightarrow>
    rl_account s \<Longrightarrow> rl_awake s'"
proof (induction rule: rl_finish_step.induct)
  case (finish_push s q')
  note ok = rl_shape_ok [OF finish_push.prems(2) finish_push.hyps(1)]
  show ?case using rl_pushE(3) [OF finish_push.hyps(2) ok] rl_woken_push [OF finish_push.hyps(2) ok]
    by (intro rl_awake_thread [OF finish_push.prems(1)]) simp_all
next
  case (finish_publish s q')
  have t: "0 < t" using finish_publish rl_thread_pos [of s t] by simp
  note ok = rl_shape_ok [OF finish_publish.prems(2) finish_publish.hyps(1)]
  show ?case using rl_publishE(3) [OF finish_publish.hyps(2) ok _ finish_publish.prems(3)]
      rl_woken_publish [OF finish_publish.hyps(2) ok _ _ finish_publish.prems(3) t]
    by (intro rl_awake_thread [OF finish_publish.prems(1)]) simp_all
next
  case (finish_notify s b q')
  note q = rl_doneE [OF finish_notify.hyps(3,2)]
  show ?case
  proof (cases b)
    case True
    then show ?thesis using q
      by (intro rl_awake_thread [OF finish_notify.prems(1)]) (simp_all split: if_splits)
  next
    case False
    then have "aq_pc (rl_q s) t = AqReturned True False" using finish_notify.hyps(2) by simp
    from rl_woken_return [OF _ this] show ?thesis using q False
      by (intro rl_awake_thread [OF finish_notify.prems(1)]) simp_all
  qed
next
  case (finish_first s)
  have "aq_in (rl_q s) = aq_out (rl_q s) @ rev (aq_stack (rl_q s))" using finish_first.prems(3) by (simp add: aq_inv_def)
  then have "rl_noop \<notin> set (aq_out (rl_q s))"
    using rl_not_finishing(1) [OF finish_first.prems(4,2,3) finish_first.hyps(2)] by auto
  then show ?case by (intro rl_awake_thread [OF finish_first.prems(1)]) simp_all
next
  case (finish_sub s)
  then show ?case using rl_count_ge [of s t] by (intro rl_awake_thread [OF finish_sub.prems(1)]) simp_all
next
  case (finish_again_sub s)
  then show ?case using rl_count_ge [of s t] by (intro rl_awake_thread [OF finish_again_sub.prems(1)]) simp_all
next
  case (finish_add s)
  then show ?case by (intro rl_awake_thread [OF finish_add.prems(1)]) simp_all
next
  case (finish_again s)
  show ?case by (intro rl_awake_thread [OF finish_again.prems(1)]) simp_all
qed

lemma rl_awake_run: "rl_run_step s s' \<Longrightarrow> rl_awake s \<Longrightarrow> rl_account s \<Longrightarrow> rl_shape s \<Longrightarrow> aq_inv (rl_q s) \<Longrightarrow> rl_awake s'"
proof (induction rule: rl_run_step.induct)
  case (run_check s)
  have "aq_in (rl_q s) = aq_out (rl_q s) @ rev (aq_stack (rl_q s))" using run_check.prems(4) by (simp add: aq_inv_def)
  then show ?case using run_check rl_not_finishing(1) [of s] by (simp add: rl_awake_def)
next
  case (run_wait s s')
  from run_wait.hyps run_wait.prems(1) show ?case by cases (simp_all add: rl_awake_def)
next
  case (run_all s s')
  from run_all.hyps run_all.prems(1) show ?case by cases (simp_all add: rl_awake_def)
next
  case (run_return s)
  have "0 \<le> rl_weight (rl_pc s 0)" by (rule rl_weight_nonneg)
  then have "rl_count s = 0" using run_return.hyps(2) rl_count_ge [OF run_return.prems(2,3), of 0] by linarith
  then show ?case using run_return by (simp add: rl_awake_def)
qed (simp_all add: rl_awake_def)

section \<open>Reachable states\<close>

lemma rl_inv_step: "rl_inv s \<Longrightarrow> rl_step s s' \<Longrightarrow> rl_inv s'"
proof -
  assume i: "rl_inv s" and st: "rl_step s s'"
  from i have q: "aq_inv (rl_q s)" and sh: "rl_shape s" and p: "rl_private s" and a: "rl_account s" and w: "rl_awake s"
    by (simp_all add: rl_inv_def)
  from st show ?thesis
  proof cases
    case (by_start t)
    then show ?thesis using rl_queue_start rl_shape_start rl_private_start rl_account_start rl_awake_start q sh p a w
      by (simp add: rl_inv_def)
  next
    case (by_finish t)
    then show ?thesis using rl_queue_finish rl_shape_finish rl_private_finish rl_account_finish rl_awake_finish q sh p a w
      by (simp add: rl_inv_def)
  next
    case by_run
    have q': "aq_inv (rl_q s')"
      using by_run q sh by (cases; auto elim!: rl_wait_step.cases intro: rl_queue_all)
    have a': "rl_account s'" by (rule rl_account_run [OF by_run a sh q])
    show ?thesis using q' a' rl_shape_run [OF by_run sh q] rl_private_run [OF by_run p a a' q q']
      rl_awake_run [OF by_run w a sh q] by (simp add: rl_inv_def)
  next
    case (by_request n)
    let ?s' = "s\<lparr>rl_requested := (rl_requested s)(n := True)\<rparr>"
    have "rl_shape ?s' = rl_shape s" "rl_awake ?s' = rl_awake s" by (simp_all add: rl_shape_def rl_awake_def)
    moreover have b: "rl_batch ?s' = rl_batch s" by (simp add: rl_batch_def)
    moreover have "rl_private ?s' = rl_private s" "rl_account ?s' = rl_account s"
      by (simp_all add: rl_private_def rl_account_def b)
    ultimately show ?thesis using i by_request by (simp add: rl_inv_def)
  qed
qed

interpretation rl: safe_system rl_init rl_step rl_inv
  by unfold_locales (auto intro: rl_inv_init rl_inv_step)

section \<open>The steps as functions\<close>

text \<open>
  The next step of a call that has not returned, with a compare-exchange that fails only if the
  head has changed, and the next step of the loop.  They show that no call and no phase of the
  loop is ever stuck, and they evaluate concrete interleavings.
\<close>

definition aq_push_next :: "nat \<Rightarrow> addr \<Rightarrow> aq_state \<Rightarrow> aq_state" where
  "aq_push_next t n q = (case aq_pc q t of
     AqIdle \<Rightarrow> aq_goto t (AqLoaded n n [n] (aq_head q)) q
   | AqLoaded h l ns old \<Rightarrow> aq_goto t (AqStored h l ns old) (q\<lparr>aq_next := (aq_next q)(l := old)\<rparr>)
   | AqStored h l ns old \<Rightarrow>
       (if aq_head q = old then aq_goto t (AqReturned True (old = None)) (aq_publish h ns q)
        else aq_goto t (AqLoaded h l ns (aq_head q)) q)
   | _ \<Rightarrow> aq_goto t AqIdle q)"

fun aq_returned :: "aq_pc \<Rightarrow> bool" where
  "aq_returned (AqReturned b c) \<longleftrightarrow> True"
| "aq_returned _ \<longleftrightarrow> False"

fun aq_was_empty :: "aq_pc \<Rightarrow> bool" where
  "aq_was_empty (AqReturned b c) \<longleftrightarrow> c"
| "aq_was_empty _ \<longleftrightarrow> False"

definition rl_thread_next :: "nat \<Rightarrow> rl_state \<Rightarrow> rl_state" where
  "rl_thread_next t s = (case rl_pc s t of
     RlStarting n \<Rightarrow> let q' = aq_push_next t n (rl_q s)
       in if aq_returned (aq_pc q' t) then rl_goto t RlStarted (s\<lparr>rl_q := q'\<rparr>) else s\<lparr>rl_q := q'\<rparr>
   | RlStarted \<Rightarrow> rl_goto t RlIdle
       (rl_notify (aq_was_empty (aq_pc (rl_q s) t)) (s\<lparr>rl_q := aq_goto t AqIdle (rl_q s)\<rparr>))
   | RlFin \<Rightarrow> if rl_finishing s then rl_goto t RlSubTwo s else rl_goto t RlPushing (s\<lparr>rl_finishing := True\<rparr>)
   | RlPushing \<Rightarrow> let q' = aq_push_next t rl_noop (rl_q s)
       in if aq_returned (aq_pc q' t) then rl_goto t RlPushed (s\<lparr>rl_q := q'\<rparr>) else s\<lparr>rl_q := q'\<rparr>
   | RlPushed \<Rightarrow> rl_goto t RlSubOne
       (rl_notify (aq_was_empty (aq_pc (rl_q s) t)) (s\<lparr>rl_q := aq_goto t AqIdle (rl_q s)\<rparr>))
   | RlSubOne \<Rightarrow> rl_goto t RlIdle (s\<lparr>rl_count := rl_count s - 1\<rparr>)
   | RlSubTwo \<Rightarrow> rl_goto t RlIdle (s\<lparr>rl_count := rl_count s - 2\<rparr>)
   | RlIdle \<Rightarrow> s)"

definition rl_run_next :: "rl_state \<Rightarrow> rl_state" where
  "rl_run_next s = (case rl_run s of
     RlTop \<Rightarrow> s\<lparr>rl_run := if rl_finishing s then RlPop True else RlWait\<rparr>
   | RlWait \<Rightarrow> s\<lparr>rl_run := if aq_head (rl_q s) = None then RlBlocked else RlPop False\<rparr>
   | RlBlocked \<Rightarrow> s\<lparr>rl_run := RlWait\<rparr>
   | RlPop d \<Rightarrow> s\<lparr>rl_q := aq_goto 0 (AqTaken (aq_head (rl_q s)) (aq_stack (rl_q s))) (aq_take (rl_q s)),
       rl_run := RlReverse d\<rparr>
   | RlReverse d \<Rightarrow> (case aq_pc (rl_q s) 0 of
       AqTaken p zs \<Rightarrow> (case iq_make_reversed (aq_next (rl_q s)) p of
         Some (q, nx') \<Rightarrow>
           if iq_begin q = iq_end q
           then s\<lparr>rl_q := aq_goto 0 AqIdle ((rl_q s)\<lparr>aq_next := nx'\<rparr>), rl_run := rl_after d False\<rparr>
           else s\<lparr>rl_q := aq_goto 0 (AqTaken (iq_head q) (rev zs)) ((rl_q s)\<lparr>aq_next := nx'\<rparr>),
                  rl_run := RlLoop d q (iq_begin q) 0\<rparr>
       | None \<Rightarrow> s)
     | _ \<Rightarrow> s)
   | RlLoop d q it k \<Rightarrow>
       if it = iq_end q
       then s\<lparr>rl_q := aq_goto 0 AqIdle (rl_q s), rl_count := rl_count s - int k, rl_run := rl_after d True\<rparr>
       else (let it' = iq_next (aq_next (rl_q s)) it in
         s\<lparr>rl_q := aq_goto 0 (AqTaken (it_item it') (tl (aq_owns (aq_pc (rl_q s) 0)))) (rl_q s),
           rl_run := RlExecute d q it' k (the (it_item it))\<rparr>)
   | RlExecute d q it k n \<Rightarrow> rl_execute n (s\<lparr>rl_run := RlLoop d q it (k + 1)\<rparr>)
   | RlLoadCount \<Rightarrow> s\<lparr>rl_run := if 0 < rl_count s then RlPop True else RlReturned\<rparr>
   | RlReturned \<Rightarrow> s)"

lemma rl_owned_batch: "rl_shape s \<Longrightarrow> set (aq_owns (aq_pc (rl_q s) 0)) \<subseteq> set (rl_batch s)"
  by (cases "rl_run s") (auto simp: rl_batch_def)

lemma rl_node_fresh:
  assumes "rl_private s" and "rl_shape s" and "rl_node (rl_pc s t) = Some n" and "aq_pc (rl_q s) t = AqIdle"
  shows "aq_fresh n (rl_q s)"
proof -
  have n: "n \<notin> set (aq_stack (rl_q s))" "n \<notin> set (rl_batch s)"
      "\<And>u. rl_node (rl_pc s u) = Some n \<Longrightarrow> u = t"
    using assms(1,3) unfolding rl_private_def by blast+
  have "n \<notin> set (aq_owns (aq_pc (rl_q s) u))" for u
  proof (cases "u = 0")
    case True
    then show ?thesis using rl_owned_batch [OF assms(2)] n(2) by auto
  next
    case False
    then have ok: "rl_thread_ok (rl_pc s u) (aq_pc (rl_q s) u)" using assms(2) by (auto simp: rl_shape_def)
    show ?thesis
    proof
      assume o: "n \<in> set (aq_owns (aq_pc (rl_q s) u))"
      with ok have "rl_node (rl_pc s u) = Some n"
        by (auto simp: rl_thread_ok_def split: option.splits if_splits)
      with n(3) assms(4) o show False by auto
    qed
  qed
  with n(1) show ?thesis by (simp add: aq_fresh_def)
qed

lemma aq_push_next_step:
  assumes "rl_thread_ok pc (aq_pc q t)" and "rl_node pc = Some n" and "aq_pc q t = AqIdle \<Longrightarrow> aq_fresh n q"
  shows "if aq_returned (aq_pc (aq_push_next t n q) t) then rl_publish t q (aq_push_next t n q)
    else rl_push t n q (aq_push_next t n q)"
proof -
  from assms(1,2) consider "aq_pc q t = AqIdle" | h l old where "aq_pc q t = AqLoaded h l [n] old"
    | h l old where "aq_pc q t = AqStored h l [n] old" by (auto simp: rl_thread_ok_def)
  then show ?thesis
    by cases (use assms(3) in \<open>simp_all add: aq_push_next_def rl_push_def rl_publish_def
      push_load push_link push_cas push_retry\<close>)
qed

lemma rl_thread_next_step:
  assumes "rl_inv s" and "rl_pc s t \<noteq> RlIdle"
  shows "rl_start_step t s (rl_thread_next t s) \<or> rl_finish_step t s (rl_thread_next t s)"
proof -
  have sh: "rl_shape s" and p: "rl_private s" using assms(1) by (simp_all add: rl_inv_def)
  note ok = rl_shape_ok [OF sh refl assms(2)]
  have push: "if aq_returned (aq_pc (aq_push_next t n (rl_q s)) t) then rl_publish t (rl_q s) (aq_push_next t n (rl_q s))
      else rl_push t n (rl_q s) (aq_push_next t n (rl_q s))" if "rl_node (rl_pc s t) = Some n" for n
    using that by (intro aq_push_next_step [OF ok]) (auto intro: rl_node_fresh [OF p sh])
  have ret: "\<exists>b. aq_pc (rl_q s) t = AqReturned True b" if "rl_pc s t = RlStarted \<or> rl_pc s t = RlPushed"
    using ok that by (auto simp: rl_thread_ok_def)
  show ?thesis
  proof (cases "rl_pc s t")
    case (RlStarting n)
    then show ?thesis using push [of n]
      by (auto simp: rl_thread_next_def Let_def intro: start_push start_publish split: if_splits)
  next
    case RlStarted
    with ret obtain b where "aq_pc (rl_q s) t = AqReturned True b" by blast
    then show ?thesis using RlStarted start_notify [of s t b "aq_goto t AqIdle (rl_q s)"] push_done [of "rl_q s" t]
      by (simp add: rl_thread_next_def)
  next
    case RlPushing
    then show ?thesis using push [of rl_noop]
      by (auto simp: rl_thread_next_def Let_def intro: finish_push finish_publish split: if_splits)
  next
    case RlPushed
    with ret obtain b where "aq_pc (rl_q s) t = AqReturned True b" by blast
    then show ?thesis using RlPushed finish_notify [of s t b "aq_goto t AqIdle (rl_q s)"] push_done [of "rl_q s" t]
      by (simp add: rl_thread_next_def)
  qed (use assms(2) in \<open>simp_all add: rl_thread_next_def finish_first finish_again finish_sub finish_again_sub\<close>)
qed

lemma rl_run_next_step:
  assumes "rl_inv s" and "rl_run s \<noteq> RlReturned"
  shows "rl_run_step s (rl_run_next s)"
proof -
  have sh: "rl_shape s" and q: "aq_inv (rl_q s)" using assms(1) by (simp_all add: rl_inv_def)
  note ok = rl_shape_runner [OF sh refl]
  show ?thesis
  proof (cases "rl_run s")
    case (RlPop d)
    then show ?thesis using ok pop_exchange [of "rl_q s" 0]
      by (simp add: rl_run_next_def run_all all_exchange)
  next
    case (RlReverse d)
    then obtain p zs where z: "aq_pc (rl_q s) 0 = AqTaken p zs" using ok by auto
    then have "chain (aq_next (rl_q s)) p zs None" using aq_inv_pc [OF q z] by simp
    then obtain iq nx' where "iq_make_reversed (aq_next (rl_q s)) p = Some (iq, nx')"
      using iq_rep_make_reversed by blast
    then show ?thesis using RlReverse z by (auto simp: rl_run_next_def intro: run_all all_empty all_begin)
  next
    case (RlLoop d iq it k)
    then have i: "rl_iterating iq it (aq_pc (rl_q s) 0)" using ok by simp
    then obtain ns where ns: "aq_pc (rl_q s) 0 = AqTaken (it_item it) ns" by (auto simp: rl_iterating_def)
    show ?thesis
    proof (cases "it = iq_end iq")
      case True
      then show ?thesis using RlLoop by (simp add: rl_run_next_def run_all all_sub)
    next
      case False
      with rl_iter_end [OF q i] ns have "ns \<noteq> []" by simp
      with aq_inv_pc [OF q ns] obtain n where "it_item it = Some n" by (cases ns) auto
      then show ?thesis using RlLoop False ns all_next [OF RlLoop False _ ns refl]
        by (simp add: rl_run_next_def Let_def run_all)
    qed
  next
    case (RlExecute d iq it k n)
    then show ?thesis using run_all [OF all_execute [OF RlExecute]] by (simp add: rl_run_next_def)
  qed (use assms(2) in \<open>auto simp: rl_run_next_def
    intro: run_check run_drain run_again run_return run_wait wait_ready wait_block wait_spurious\<close>)
qed

section \<open>The loop ends\<close>

text \<open>How many steps the loop has left at most once it is to finish and no call is pending.\<close>

fun rl_phase :: "rl_run \<Rightarrow> nat \<Rightarrow> nat \<Rightarrow> nat" where
  "rl_phase RlReturned m n = 0"
| "rl_phase RlLoadCount m n = 2 + 30 * m"
| "rl_phase (RlPop d) m n = (if d then 4 + 20 * m else 9 + 30 * m)"
| "rl_phase (RlReverse d) m n = (if d then 3 else 8) + 6 * n + 30 * m"
| "rl_phase (RlLoop d q it k) m n = (if d then 5 else 7) + 3 * n + 30 * m"
| "rl_phase (RlExecute d q it k i) m n = (if d then 4 else 6) + 3 * n + 30 * m"
| "rl_phase RlTop m n = 5 + 30 * m"
| "rl_phase RlWait m n = 10 + 30 * m"
| "rl_phase RlBlocked m n = 12 + 30 * m"

definition rl_cost :: "rl_state \<Rightarrow> nat" where
  "rl_cost s = rl_phase (rl_run s) (length (aq_stack (rl_q s))) (length (rl_batch s))"

definition rl_closing :: "rl_state \<Rightarrow> bool" where
  "rl_closing s \<longleftrightarrow> rl_inv s \<and> rl_finishing s \<and> (\<forall>t. rl_pc s t = RlIdle)"

lemma rl_idle_total: "(\<forall>t. pcs t = RlIdle) \<Longrightarrow> rl_total f pcs = 0"
  by (simp add: rl_total_def)

lemma rl_head_stack: "aq_inv q \<Longrightarrow> aq_head q = None \<longleftrightarrow> aq_stack q = []"
  by (cases "aq_stack q") (auto simp: aq_inv_def)

lemma rl_closing_waits:
  assumes "rl_closing s" and "rl_run s \<in> {RlWait, RlBlocked}"
  shows "aq_head (rl_q s) \<noteq> None" and "rl_run s = RlWait"
proof -
  have i: "rl_inv s" and f: "rl_finishing s" and idle: "\<forall>t. rl_pc s t = RlIdle"
    using assms(1) by (simp_all add: rl_closing_def)
  have q: "aq_inv (rl_q s)" and sh: "rl_shape s" and a: "rl_account s" and w: "rl_awake s"
    using i by (simp_all add: rl_inv_def)
  have "count_list (aq_in (rl_q s)) rl_noop = 1"
    using a f rl_idle_total [OF idle, of rl_finisher] by (simp add: rl_account_def)
  then have "rl_noop \<in> set (aq_in (rl_q s))" by (metis count_notin zero_neq_one)
  moreover have "rl_noop \<notin> set (aq_out (rl_q s))" using w assms(2) f by (auto simp: rl_awake_def)
  ultimately have "aq_stack (rl_q s) \<noteq> []" using q by (auto simp: aq_inv_def)
  then show h: "aq_head (rl_q s) \<noteq> None" using rl_head_stack [OF q] by simp
  have "aq_pc (rl_q s) t \<noteq> AqReturned True True" if "0 < t" for t
    using rl_shape_idle [OF sh _ that, of RlIdle] idle by simp
  then show "rl_run s = RlWait" using w h assms(2) by (auto simp: rl_awake_def)
qed

lemma rl_all_cost:
  assumes "rl_execute_all_step s s'" and "rl_inv s"
  shows "rl_cost s' < rl_cost s"
  using assms
proof (induction rule: rl_execute_all_step.induct)
  case (all_exchange s d q')
  have "rl_batch s = []" using all_exchange.hyps(1,2) by (simp add: rl_batch_def)
  then show ?case using all_exchange.hyps(1) rl_exchangeE [OF all_exchange.hyps(3,2)]
    by (simp add: rl_cost_def rl_batch_def aq_take_def)
next
  case (all_empty s d p zs q nx')
  then show ?case by (simp add: rl_cost_def rl_batch_def rl_after_def)
next
  case (all_begin s d p zs q nx')
  have "aq_inv (rl_q s)" using all_begin.prems by (simp add: rl_inv_def)
  from rl_reversed(3) [OF this all_begin.hyps(2,3)] have "zs \<noteq> []" using all_begin.hyps(4) by simp
  then show ?case using all_begin.hyps(1,2) by (cases zs) (simp_all add: rl_cost_def rl_batch_def)
next
  case (all_next s d q it k n p ns it')
  have i: "aq_inv (rl_q s)" "rl_iterating q it (aq_pc (rl_q s) 0)"
    using all_next.prems all_next.hyps(1) rl_shape_runner [of s] by (auto simp: rl_inv_def)
  from rl_iter_next(1) [OF i(1) all_next.hyps(4,3) i(2)] have "length ns = Suc (length (tl ns))" by (cases ns) auto
  then show ?case using all_next.hyps(1,4) by (simp add: rl_cost_def rl_batch_def)
next
  case (all_execute s d q it k n)
  then show ?case by (simp add: rl_cost_def rl_batch_def)
next
  case (all_sub s d q it k)
  then show ?case by (simp add: rl_cost_def rl_after_def)
qed

lemma rl_run_cost:
  assumes "rl_run_step s s'" and "rl_closing s"
  shows "rl_cost s' < rl_cost s"
  using assms
proof (induction rule: rl_run_step.induct)
  case (run_check s)
  then show ?case by (simp add: rl_closing_def)
next
  case (run_wait s s')
  then have "rl_run s \<in> {RlWait, RlBlocked}" by (auto elim: rl_wait_step.cases)
  from rl_closing_waits [OF run_wait.prems this] run_wait.hyps show ?case
    by (auto elim!: rl_wait_step.cases simp: rl_cost_def)
next
  case (run_all s s')
  then show ?case by (intro rl_all_cost) (simp_all add: rl_closing_def)
next
  case (run_again s)
  have "rl_shape s" "rl_account s" using run_again.prems by (simp_all add: rl_closing_def rl_inv_def)
  moreover have "rl_total rl_weight (rl_pc s) = 0" using run_again.prems by (intro rl_idle_total) (simp add: rl_closing_def)
  moreover from calculation have "aq_pc (rl_q s) 0 = AqIdle" using rl_shape_runner [of s] run_again.hyps(1) by auto
  then have "rl_batch s = []" using run_again.hyps(1) by (simp add: rl_batch_def)
  ultimately have "aq_stack (rl_q s) \<noteq> []" using run_again.hyps by (auto simp: rl_account_def)
  then show ?case using run_again.hyps(1) by (cases "aq_stack (rl_q s)") (simp_all add: rl_cost_def)
qed (simp_all add: rl_cost_def)

lemma rl_closing_step: "rl_run_step s s' \<Longrightarrow> rl_closing s \<Longrightarrow> rl_closing s'"
proof -
  assume st: "rl_run_step s s'" and c: "rl_closing s"
  have "rl_finishing s' = rl_finishing s" "rl_pc s' = rl_pc s"
    using st by (auto elim!: rl_run_step.cases rl_wait_step.cases rl_execute_all_step.cases)
  with c rl_inv_step [OF _ by_run [OF st]] show ?thesis by (simp add: rl_closing_def)
qed

lemma rl_run_bounded: "(rl_run_step ^^ n) s s' \<Longrightarrow> rl_closing s \<Longrightarrow> n + rl_cost s' \<le> rl_cost s \<and> rl_closing s'"
proof (induction n arbitrary: s')
  case (Suc n)
  then obtain u where u: "(rl_run_step ^^ n) s u" "rl_run_step u s'" by auto
  with Suc.IH [OF u(1) Suc.prems(2)] rl_run_cost [OF u(2)] rl_closing_step [OF u(2)] show ?case by auto
qed simp

lemma rl_run_finishes: "rl_closing s \<Longrightarrow> \<exists>s'. rl_run_step\<^sup>*\<^sup>* s s' \<and> rl_run s' = RlReturned"
proof (induction "rl_cost s" arbitrary: s rule: less_induct)
  case less
  show ?case
  proof (cases "rl_run s = RlReturned")
    case False
    have st: "rl_run_step s (rl_run_next s)" using less.prems False by (intro rl_run_next_step) (simp_all add: rl_closing_def)
    from less.hyps [OF rl_run_cost [OF st less.prems] rl_closing_step [OF st less.prems]] st show ?thesis
      by (meson converse_rtranclp_into_rtranclp)
  qed blast
qed

section \<open>Concrete interleavings\<close>

datatype rl_move = DoStart nat addr bool bool | DoFinish nat | DoThread nat | DoRun

fun rl_may :: "rl_move \<Rightarrow> rl_state \<Rightarrow> bool" where
  "rl_may (DoStart t n u r) s \<longleftrightarrow> rl_pc s t = RlIdle \<and> 0 < t \<and> rl_run s \<noteq> RlReturned \<and> rl_fresh n s"
| "rl_may (DoFinish t) s \<longleftrightarrow> rl_pc s t = RlIdle \<and> 0 < t \<and> rl_run s \<noteq> RlReturned"
| "rl_may (DoThread t) s \<longleftrightarrow> rl_pc s t \<noteq> RlIdle"
| "rl_may DoRun s \<longleftrightarrow> rl_run s \<noteq> RlReturned"

fun rl_do :: "rl_move \<Rightarrow> rl_state \<Rightarrow> rl_state" where
  "rl_do (DoStart t n u r) s = rl_goto t (RlStarting n)
     (s\<lparr>rl_count := rl_count s + 1, rl_unstoppable := (rl_unstoppable s)(n := u),
        rl_requested := (rl_requested s)(n := r), rl_started := rl_started s @ [n]\<rparr>)"
| "rl_do (DoFinish t) s = rl_goto t RlFin (s\<lparr>rl_count := rl_count s + 2\<rparr>)"
| "rl_do (DoThread t) s = rl_thread_next t s"
| "rl_do DoRun s = rl_run_next s"

fun rl_play :: "rl_move list \<Rightarrow> rl_state \<Rightarrow> rl_state option" where
  "rl_play [] s = Some s"
| "rl_play (m # ms) s = (if rl_may m s then rl_play ms (rl_do m s) else None)"

lemma rl_do_step: "rl_inv s \<Longrightarrow> rl_may m s \<Longrightarrow> rl_step s (rl_do m s)"
proof (cases m)
  case (DoThread t)
  moreover assume "rl_inv s" "rl_may m s"
  ultimately show ?thesis using rl_thread_next_step [of s t] by (auto intro: by_start by_finish)
qed (auto intro: by_start start_add by_finish finish_add by_run rl_run_next_step)

lemma rl_play_reach: "rl_play ms s = Some s' \<Longrightarrow> reach rl_init rl_step s \<Longrightarrow> reach rl_init rl_step s'"
proof (induction ms arbitrary: s)
  case (Cons m ms)
  then have "rl_may m s" "rl_play ms (rl_do m s) = Some s'" by (auto split: if_splits)
  then show ?case using Cons.IH Cons.prems(2) rl_do_step [OF rl.reach_inv [OF Cons.prems(2)]]
    by (blast intro: reach_step)
qed simp

definition rl_new :: rl_state where
  "rl_new = \<lparr>rl_q = \<lparr>aq_head = None, aq_next = (\<lambda>_. None), aq_pc = (\<lambda>_. AqIdle), aq_stack = [],
       aq_in = [], aq_out = []\<rparr>,
     rl_count = 0, rl_finishing = False, rl_unstoppable = (\<lambda>_. False), rl_requested = (\<lambda>_. False),
     rl_pc = (\<lambda>_. RlIdle), rl_run = RlTop, rl_started = [], rl_done = [], rl_sent = []\<rparr>"

lemma rl_new_reach: "reach rl_init rl_step rl_new"
  by (rule reach_init) (simp add: rl_new_def rl_init_def aq_init_def)

text \<open>
  An operation is started by thread 1, which is stopped just before the \<open>notify_one\<close> at the end of
  \<open>push\<close>; the loop executes the operation, thread 2 calls \<open>finish\<close> and the loop returns.
\<close>

definition rl_early_return :: "rl_move list" where
  "rl_early_return = [DoStart 1 5 False True, DoThread 1, DoThread 1, DoThread 1] @
     [DoRun, DoRun, DoRun, DoRun, DoRun, DoRun, DoRun] @
     [DoFinish 2, DoThread 2, DoThread 2, DoThread 2, DoThread 2, DoThread 2, DoThread 2] @
     [DoRun, DoRun, DoRun, DoRun, DoRun, DoRun, DoRun, DoRun, DoRun]"

lemmas rl_eval = rl_new_def rl_fresh_def rl_batch_def rl_noop_def rl_goto_def rl_thread_next_def aq_push_next_def
  rl_run_next_def rl_after_def rl_execute_def rl_execute_impl_def rl_notify_def aq_goto_def aq_publish_def aq_take_def
  iq_make_reversed_def iq_reverse_loop.simps iq_begin_def iq_end_def iq_next_def

lemma rl_early_return_value:
  "\<exists>s. rl_play rl_early_return rl_new = Some s \<and> rl_run s = RlReturned \<and> rl_pc s 1 = RlStarted \<and>
     aq_pc (rl_q s) 1 = AqReturned True True \<and> rl_started s = [5] \<and> rl_sent s = [(5, SetStopped)]"
  unfolding rl_early_return_def append.simps
  by (simp add: rl_eval)

definition rl_asleep :: "rl_move list" where
  "rl_asleep = [DoStart 1 5 True True, DoThread 1, DoThread 1, DoThread 1, DoThread 1] @
     [DoRun, DoRun, DoRun, DoRun, DoRun, DoRun, DoRun, DoRun, DoRun]"

lemma rl_asleep_value:
  "\<exists>s. rl_play rl_asleep rl_new = Some s \<and> rl_run s = RlBlocked \<and> (\<forall>t. rl_pc s t = RlIdle) \<and>
     rl_started s = [5] \<and> rl_sent s = [(5, SetValue [])]"
  unfolding rl_asleep_def append.simps
  by (simp add: rl_eval)

definition rl_all_called :: "rl_move list" where
  "rl_all_called = [DoStart 1 5 False False, DoThread 1, DoThread 1, DoThread 1, DoThread 1] @
     [DoFinish 2, DoThread 2, DoThread 2, DoThread 2, DoThread 2, DoThread 2, DoThread 2]"

lemma rl_all_called_value:
  "\<exists>s. rl_play rl_all_called rl_new = Some s \<and> rl_finishing s \<and> (\<forall>t. rl_pc s t = RlIdle) \<and>
     rl_started s = [5] \<and> rl_cost s = 65"
  unfolding rl_all_called_def append.simps
  by (simp add: rl_eval rl_cost_def)

section \<open>Properties\<close>

lemma rl_history:
  assumes "rl_inv s"
  shows "aq_in (rl_q s) = rl_done s @ rl_batch s @ rev (aq_stack (rl_q s))"
    and "map fst (rl_sent s) = filter (\<lambda>n. n \<noteq> rl_noop) (rl_done s)"
    and "mset (rl_started s) = mset (map fst (rl_sent s)) +
      {#n \<in># mset (rl_batch s @ aq_stack (rl_q s)). n \<noteq> rl_noop#} + rl_total rl_pending (rl_pc s)"
proof -
  have a: "rl_account s" "aq_inv (rl_q s)" using assms by (simp_all add: rl_inv_def)
  then show i: "aq_in (rl_q s) = rl_done s @ rl_batch s @ rev (aq_stack (rl_q s))"
    by (simp add: rl_account_def aq_inv_def)
  from a show m: "map fst (rl_sent s) = filter (\<lambda>n. n \<noteq> rl_noop) (rl_done s)" by (simp add: rl_account_def)
  show "mset (rl_started s) = mset (map fst (rl_sent s)) +
      {#n \<in># mset (rl_batch s @ aq_stack (rl_q s)). n \<noteq> rl_noop#} + rl_total rl_pending (rl_pc s)"
  proof -
    have "mset (map fst (rl_sent s)) = {#n \<in># mset (rl_done s). n \<noteq> rl_noop#}" by (simp only: m mset_filter)
    then show ?thesis using a(1) i by (simp add: rl_account_def)
  qed
qed

lemma rl_no_pending:
  assumes "\<And>t. rl_pc s t = RlIdle \<or> rl_pc s t = RlStarted"
  shows "rl_total rl_pending (rl_pc s) = {#}" and "rl_total rl_finisher (rl_pc s) = 0"
proof -
  have "rl_pending (rl_pc s t) = {#}" "rl_finisher (rl_pc s t) = 0" for t using assms [of t] by auto
  then show "rl_total rl_pending (rl_pc s) = {#}" and "rl_total rl_finisher (rl_pc s) = 0"
    by (simp_all add: rl_total_def)
qed

lemma rl_returned:
  assumes "rl_inv s" and "rl_run s = RlReturned"
  shows "rl_count s = 0" and "rl_pc s t = RlIdle \<or> rl_pc s t = RlStarted"
    and "rl_batch s = []" and "aq_stack (rl_q s) = []" and "count_list (rl_done s) rl_noop = 1"
    and "mset (rl_started s) = mset (map fst (rl_sent s))"
proof -
  have sh: "rl_shape s" and a: "rl_account s" and w: "rl_awake s" using assms(1) by (simp_all add: rl_inv_def)
  from w assms(2) show c: "rl_count s = 0" by (simp add: rl_awake_def)
  have pcs: "rl_pc s u = RlIdle \<or> rl_pc s u = RlStarted" for u
    using rl_count_ge [OF a sh, of u] c by (cases "rl_pc s u") auto
  then show "rl_pc s t = RlIdle \<or> rl_pc s t = RlStarted" .
  have "0 \<le> rl_total rl_weight (rl_pc s)" unfolding rl_total_def by (intro sum_nonneg rl_weight_nonneg)
  moreover have "rl_count s = rl_total rl_weight (rl_pc s) + int (length (aq_stack (rl_q s))) +
      int (length (rl_batch s)) + int (rl_executed (rl_run s))" using a by (simp add: rl_account_def)
  ultimately have "length (rl_batch s) = 0" "length (aq_stack (rl_q s)) = 0" using c by linarith+
  then show b: "rl_batch s = []" and st: "aq_stack (rl_q s) = []" by simp_all
  have "rl_finishing s" using w assms(2) by (simp add: rl_awake_def)
  then show "count_list (rl_done s) rl_noop = 1"
    using a rl_history(1) [OF assms(1)] b st rl_no_pending(2) [OF pcs] by (simp add: rl_account_def)
  show "mset (rl_started s) = mset (map fst (rl_sent s))"
    using rl_history(3) [OF assms(1)] b st rl_no_pending(1) [OF pcs] by simp
qed

text \<open>
  Claim C32.  However threads start operations and call \<open>finish\<close> while the loop runs: tasks are
  executed in the order in which they were published; the receivers completed are those of the
  executed operations, each once; every started operation is completed, in the loop's batch, in
  the queue, or still in its \<open>start\<close> before publication; and the task counter never goes
  below zero.  When \<open>run\<close> returns, every started operation has been completed exactly once, the
  task of \<open>finish\<close> has been executed exactly once, no thread is inside \<open>finish\<close>, and a thread inside
  \<open>start\<close> has nothing left to do but the \<open>notify_one\<close> at the end of \<open>push\<close>.
\<close>

theorem rl_runs_started_tasks:
  assumes "reach rl_init rl_step s"
  shows "aq_in (rl_q s) = rl_done s @ rl_batch s @ rev (aq_stack (rl_q s)) \<and>
    map fst (rl_sent s) = filter (\<lambda>n. n \<noteq> rl_noop) (rl_done s) \<and>
    mset (rl_started s) = mset (map fst (rl_sent s)) +
      {#n \<in># mset (rl_batch s @ aq_stack (rl_q s)). n \<noteq> rl_noop#} + rl_total rl_pending (rl_pc s) \<and>
    0 \<le> rl_count s \<and>
    (rl_run s = RlReturned \<longrightarrow> rl_count s = 0 \<and> mset (rl_started s) = mset (map fst (rl_sent s)) \<and>
       count_list (rl_done s) rl_noop = 1 \<and> (\<forall>t. rl_pc s t = RlIdle \<or> rl_pc s t = RlStarted))"
proof -
  have i: "rl_inv s" using assms by (rule rl.reach_inv)
  then have "0 \<le> rl_count s"
    using rl_count_ge [of s 0] rl_weight_nonneg [of "rl_pc s 0"] by (simp add: rl_inv_def)
  with rl_history [OF i] rl_returned [OF i] show ?thesis by blast
qed

theorem rl_runs_started_tasks_witness:
  "\<exists>s. reach rl_init rl_step s \<and> rl_run s = RlReturned \<and> rl_pc s 1 = RlStarted \<and>
     aq_pc (rl_q s) 1 = AqReturned True True \<and> rl_count s = 0 \<and> mset (map fst (rl_sent s)) = {#5#} \<and>
     count_list (rl_done s) rl_noop = 1"
proof -
  obtain s where s: "rl_play rl_early_return rl_new = Some s" "rl_run s = RlReturned" "rl_pc s 1 = RlStarted"
    "aq_pc (rl_q s) 1 = AqReturned True True" "rl_started s = [5]" using rl_early_return_value by blast
  have r: "reach rl_init rl_step s" using s(1) rl_new_reach by (rule rl_play_reach)
  from rl_runs_started_tasks [OF r] s(2) have a: "rl_count s = 0" "count_list (rl_done s) rl_noop = 1"
    "mset (rl_started s) = mset (map fst (rl_sent s))" by blast+
  have m: "mset (map fst (rl_sent s)) = {#5#}" unfolding a(3) [symmetric] using s(5) by simp
  show ?thesis by (rule exI [of _ s]) (intro conjI r s(2-4) a(1,2) m)
qed

text \<open>
  Claim C33.  No wake-up is lost.  If the loop's thread is blocked although the queue is not
  empty, the thread that published into the empty queue has its \<open>notify_one\<close> still ahead.  If it is blocked
  and no call is pending, then nobody has called \<open>finish\<close> and every started operation has been
  completed.  A pending call can always take a step, and so can the loop unless it is blocked or has
  returned.
\<close>

theorem rl_no_lost_wakeup:
  assumes "reach rl_init rl_step s"
  shows "(rl_run s = RlBlocked \<longrightarrow> aq_head (rl_q s) = None \<or>
      (\<exists>t. (rl_pc s t = RlStarted \<or> rl_pc s t = RlPushed) \<and> aq_pc (rl_q s) t = AqReturned True True)) \<and>
    (rl_run s = RlBlocked \<and> (\<forall>t. rl_pc s t = RlIdle) \<longrightarrow>
      \<not> rl_finishing s \<and> mset (rl_started s) = mset (map fst (rl_sent s))) \<and>
    (\<forall>t. rl_pc s t \<noteq> RlIdle \<longrightarrow> (\<exists>s'. rl_start_step t s s' \<or> rl_finish_step t s s')) \<and>
    (rl_run s \<noteq> RlBlocked \<and> rl_run s \<noteq> RlReturned \<longrightarrow> (\<exists>s'. rl_run_step s s'))"
proof -
  have i: "rl_inv s" using assms by (rule rl.reach_inv)
  have q: "aq_inv (rl_q s)" and sh: "rl_shape s" and w: "rl_awake s" using i by (simp_all add: rl_inv_def)
  have notify: "aq_head (rl_q s) = None \<or>
      (\<exists>t. (rl_pc s t = RlStarted \<or> rl_pc s t = RlPushed) \<and> aq_pc (rl_q s) t = AqReturned True True)"
    if "rl_run s = RlBlocked"
  proof (cases "aq_head (rl_q s) = None")
    case False
    with w that obtain t where t: "0 < t" "aq_pc (rl_q s) t = AqReturned True True" by (auto simp: rl_awake_def)
    have "rl_thread_ok (rl_pc s t) (aq_pc (rl_q s) t)" using sh t(1) unfolding rl_shape_def by blast
    with t(2) have "rl_thread_ok (rl_pc s t) (AqReturned True True)" by simp
    then have "rl_pc s t = RlStarted \<or> rl_pc s t = RlPushed"
      by (auto simp: rl_thread_ok_def split: option.splits if_splits)
    with t(2) show ?thesis by blast
  qed simp
  have quiet: "\<not> rl_finishing s \<and> mset (rl_started s) = mset (map fst (rl_sent s))"
    if b: "rl_run s = RlBlocked" and idle: "\<forall>t. rl_pc s t = RlIdle"
  proof
    show "\<not> rl_finishing s" using rl_closing_waits(2) [of s] i b idle by (auto simp: rl_closing_def)
    have "aq_stack (rl_q s) = []" using notify [OF b] idle rl_head_stack [OF q] by simp
    moreover have "rl_batch s = []" using b rl_shape_runner [OF sh b] by (simp add: rl_batch_def)
    ultimately show "mset (rl_started s) = mset (map fst (rl_sent s))"
      using rl_history(3) [OF i] rl_no_pending(1) [of s] idle by simp
  qed
  show ?thesis using notify quiet rl_thread_next_step [OF i] rl_run_next_step [OF i] by blast
qed

theorem rl_no_lost_wakeup_witness:
  "\<exists>s. reach rl_init rl_step s \<and> rl_run s = RlBlocked \<and> rl_started s = [5] \<and> \<not> rl_finishing s \<and>
     mset (map fst (rl_sent s)) = {#5#}"
proof -
  obtain s where s: "rl_play rl_asleep rl_new = Some s" "rl_run s = RlBlocked" "\<forall>t. rl_pc s t = RlIdle"
    "rl_started s = [5]" using rl_asleep_value by blast
  have r: "reach rl_init rl_step s" using s(1) rl_new_reach by (rule rl_play_reach)
  from rl_no_lost_wakeup [OF r] s(2,3) have a: "\<not> rl_finishing s" "mset (rl_started s) = mset (map fst (rl_sent s))"
    by blast+
  have m: "mset (map fst (rl_sent s)) = {#5#}" unfolding a(2) [symmetric] using s(4) by simp
  show ?thesis by (rule exI [of _ s]) (intro conjI r s(2,4) a(1) m)
qed

text \<open>
  Claim C34.  Once \<open>finish\<close> has been called and the calls of \<open>start\<close> and \<open>finish\<close> have returned,
  \<open>run\<close> returns: it cannot take more steps than the tasks left pay for (\<open>rl_cost\<close>), it is never
  stuck or asleep on the way, and when it has returned every started operation has been
  completed.
\<close>

theorem rl_run_returns:
  assumes "reach rl_init rl_step s" and "rl_finishing s" and "\<forall>t. rl_pc s t = RlIdle"
  shows "(\<forall>n s'. (rl_run_step ^^ n) s s' \<longrightarrow> n \<le> rl_cost s \<and> rl_run s' \<noteq> RlBlocked \<and>
       (rl_run s' = RlReturned \<or> (\<exists>s''. rl_run_step s' s''))) \<and>
    (\<exists>s'. rl_run_step\<^sup>*\<^sup>* s s' \<and> rl_run s' = RlReturned \<and>
       mset (map fst (rl_sent s')) = mset (rl_started s))"
proof (intro conjI allI impI)
  have c: "rl_closing s" using assms rl.reach_inv by (auto simp: rl_closing_def)
  show "n \<le> rl_cost s" "rl_run s' \<noteq> RlBlocked" "rl_run s' = RlReturned \<or> (\<exists>s''. rl_run_step s' s'')"
    if "(rl_run_step ^^ n) s s'" for n s'
    using rl_run_bounded [OF that c] rl_closing_waits(2) [of s'] rl_run_next_step [of s']
    by (auto simp: rl_closing_def)
  obtain s' where s': "rl_run_step\<^sup>*\<^sup>* s s'" "rl_run s' = RlReturned" using rl_run_finishes [OF c] by blast
  have "rl_closing s' \<and> rl_started s' = rl_started s" using s'(1)
  proof (induction rule: rtranclp_induct)
    case (step y z)
    have "rl_started z = rl_started y"
      using step.hyps(2) by (auto elim!: rl_run_step.cases rl_wait_step.cases rl_execute_all_step.cases)
    with step.IH rl_closing_step [OF step.hyps(2)] show ?case by simp
  qed (use c in simp)
  then have "mset (rl_started s) = mset (map fst (rl_sent s'))" using rl_returned(6) [OF _ s'(2)] by (simp add: rl_closing_def)
  with s' show "\<exists>s'. rl_run_step\<^sup>*\<^sup>* s s' \<and> rl_run s' = RlReturned \<and>
       mset (map fst (rl_sent s')) = mset (rl_started s)" by auto
qed

theorem rl_run_returns_witness:
  "\<exists>s s'. reach rl_init rl_step s \<and> rl_run_step\<^sup>*\<^sup>* s s' \<and> rl_run s' = RlReturned \<and>
     mset (map fst (rl_sent s')) = {#5#}"
proof -
  obtain s where s: "rl_play rl_all_called rl_new = Some s" "rl_finishing s" "\<forall>t. rl_pc s t = RlIdle"
    "rl_started s = [5]" using rl_all_called_value by blast
  have r: "reach rl_init rl_step s" using s(1) rl_new_reach by (rule rl_play_reach)
  from rl_run_returns [OF r s(2,3)] obtain s' where "rl_run_step\<^sup>*\<^sup>* s s'" "rl_run s' = RlReturned"
    "mset (map fst (rl_sent s')) = mset (rl_started s)" by blast
  with r s(4) show ?thesis by auto
qed

end
