(* ===== verification/SyncWait.thy ===== *)
theory SyncWait
  imports RunLoop
begin

text \<open>
  \<^verbatim>\<open>sync_wait\<close> (\<^verbatim>\<open>include/stdexec/__detail/__sync_wait.hpp\<close>): the consumer that starts an
  operation, runs a loop on the calling thread until the operation completes, and returns or throws
  what it completed with.  The state is the receiver's (an exception pointer, an optional
  tuple) and the loop's of \<^verbatim>\<open>RunLoop\<close>, whose steps are its steps.

  The operation completes at most once, on any thread; that thread then calls \<open>finish\<close>.  Whatever
  the operation does before may start tasks on the loop from any thread.  Moving the error or the
  values into place may throw, as \<open>copy_throws\<close> of the universe says; the type of
  \<open>std::error_code\<close> is a parameter.
\<close>

section \<open>The receiver\<close>

text \<open>An exception pointer: one that was given or caught, or one made here.\<close>

datatype sw_eptr =
    SwCaught int
  | SwSystemError obj
  | SwMade obj

record sw_result =
  sw_eptr :: "sw_eptr option"
  sw_values :: "obj list option"

definition sw_set_value :: "universe \<Rightarrow> obj list \<Rightarrow> sw_result \<Rightarrow> sw_result" where
  "sw_set_value U xs r = (case copy_args U xs of
     Some e \<Rightarrow> r\<lparr>sw_eptr := Some (SwCaught e), sw_values := None\<rparr>
   | None \<Rightarrow> r\<lparr>sw_values := Some xs\<rparr>)"

definition sw_make_exception_ptr :: "universe \<Rightarrow> obj \<Rightarrow> sw_eptr" where
  "sw_make_exception_ptr U x = (case copy_throws U x of Some e \<Rightarrow> SwCaught e | None \<Rightarrow> SwMade x)"

definition sw_set_error :: "universe \<Rightarrow> ty \<Rightarrow> obj \<Rightarrow> sw_result \<Rightarrow> sw_result" where
  "sw_set_error U error_code x r = r\<lparr>sw_eptr := Some (case x of
     Exn e \<Rightarrow> SwCaught e
   | _ \<Rightarrow> if ty_of x = error_code then SwSystemError x else sw_make_exception_ptr U x)\<rparr>"

fun sw_store :: "universe \<Rightarrow> ty \<Rightarrow> compl \<Rightarrow> sw_result \<Rightarrow> sw_result" where
  "sw_store U error_code (SetValue xs) r = sw_set_value U xs r"
| "sw_store U error_code (SetError x) r = sw_set_error U error_code x r"
| "sw_store U error_code SetStopped r = r"

section \<open>The consumer\<close>

datatype sw_outcome = SwThrows sw_eptr | SwReturns "obj list option"

definition sw_deliver :: "sw_result \<Rightarrow> sw_outcome" where
  "sw_deliver r = (case sw_eptr r of Some e \<Rightarrow> SwThrows e | None \<Rightarrow> SwReturns (sw_values r))"

record sw_state =
  sw_loop :: rl_state
  sw_res :: sw_result
  sw_completions :: "compl list"
  sw_finisher :: "nat option"
  sw_called :: bool
  sw_returned :: "sw_outcome option"

definition sw_init :: "sw_state \<Rightarrow> bool" where
  "sw_init s \<longleftrightarrow> rl_init (sw_loop s) \<and> sw_res s = \<lparr>sw_eptr = None, sw_values = None\<rparr> \<and>
     sw_completions s = [] \<and> sw_finisher s = None \<and> \<not> sw_called s \<and> sw_returned s = None"

text \<open>
  The receiver's completion stores its datums and then calls \<open>finish\<close> on the same thread;
  \<open>sw_finisher\<close> is that thread and \<open>sw_called\<close> says whether it has begun the call.
\<close>

inductive sw_receiver_step :: "universe \<Rightarrow> ty \<Rightarrow> sw_state \<Rightarrow> sw_state \<Rightarrow> bool" for U error_code where
  receiver_store: "sw_completions s = [] \<Longrightarrow> 0 < t \<Longrightarrow> rl_pc (sw_loop s) t = RlIdle \<Longrightarrow>
     sw_receiver_step U error_code s
       (s\<lparr>sw_res := sw_store U error_code c (sw_res s), sw_completions := [c], sw_finisher := Some t\<rparr>)"
| receiver_finish: "sw_finisher s = Some t \<Longrightarrow> \<not> sw_called s \<Longrightarrow> rl_pc (sw_loop s) t = RlIdle \<Longrightarrow>
     rl_finish_step t (sw_loop s) l \<Longrightarrow>
     sw_receiver_step U error_code s (s\<lparr>sw_loop := l, sw_called := True\<rparr>)"
| receiver_finishing: "rl_pc (sw_loop s) t \<noteq> RlIdle \<Longrightarrow> rl_finish_step t (sw_loop s) l \<Longrightarrow>
     sw_receiver_step U error_code s (s\<lparr>sw_loop := l\<rparr>)"

inductive sw_step :: "universe \<Rightarrow> ty \<Rightarrow> sw_state \<Rightarrow> sw_state \<Rightarrow> bool" for U error_code where
  sw_receive: "sw_receiver_step U error_code s s' \<Longrightarrow> sw_step U error_code s s'"
| sw_start: "rl_start_step t (sw_loop s) l \<Longrightarrow> sw_step U error_code s (s\<lparr>sw_loop := l\<rparr>)"
| sw_request: "sw_step U error_code s
     (s\<lparr>sw_loop := (sw_loop s)\<lparr>rl_requested := (rl_requested (sw_loop s))(n := True)\<rparr>\<rparr>)"
| sw_run: "rl_run_step (sw_loop s) l \<Longrightarrow> sw_step U error_code s (s\<lparr>sw_loop := l\<rparr>)"
| sw_return: "rl_run (sw_loop s) = RlReturned \<Longrightarrow> sw_returned s = None \<Longrightarrow>
     sw_step U error_code s (s\<lparr>sw_returned := Some (sw_deliver (sw_res s))\<rparr>)"

section \<open>What the documentation promises\<close>

fun sync_wait_result :: "universe \<Rightarrow> ty \<Rightarrow> compl \<Rightarrow> sw_outcome" where
  "sync_wait_result U error_code (SetValue xs) =
     (case copy_args U xs of Some e \<Rightarrow> SwThrows (SwCaught e) | None \<Rightarrow> SwReturns (Some xs))"
| "sync_wait_result U error_code (SetError (Exn e)) = SwThrows (SwCaught e)"
| "sync_wait_result U error_code (SetError x) =
     (if ty_of x = error_code then SwThrows (SwSystemError x)
      else case copy_throws U x of Some e \<Rightarrow> SwThrows (SwCaught e) | None \<Rightarrow> SwThrows (SwMade x))"
| "sync_wait_result U error_code SetStopped = SwReturns None"

lemma sw_deliver_store:
  "sw_deliver (sw_store U error_code c \<lparr>sw_eptr = None, sw_values = None\<rparr>) = sync_wait_result U error_code c"
proof (cases c)
  case (SetError x)
  then show ?thesis by (cases x) (auto simp: sw_deliver_def sw_set_error_def sw_make_exception_ptr_def split: option.split)
qed (auto simp: sw_deliver_def sw_set_value_def split: option.split)

section \<open>The invariant\<close>

fun rl_in_finish :: "rl_pc \<Rightarrow> bool" where
  "rl_in_finish RlIdle = False"
| "rl_in_finish (RlStarting n) = False"
| "rl_in_finish RlStarted = False"
| "rl_in_finish _ = True"

definition sw_stored :: "universe \<Rightarrow> ty \<Rightarrow> sw_state \<Rightarrow> bool" where
  "sw_stored U error_code s \<longleftrightarrow> (case sw_completions s of
     [] \<Rightarrow> sw_res s = \<lparr>sw_eptr = None, sw_values = None\<rparr> \<and> sw_finisher s = None
   | c # cs \<Rightarrow> cs = [] \<and> sw_res s = sw_store U error_code c \<lparr>sw_eptr = None, sw_values = None\<rparr>)"

definition sw_calls :: "sw_state \<Rightarrow> bool" where
  "sw_calls s \<longleftrightarrow> reach rl_init rl_step (sw_loop s) \<and>
     (sw_called s \<longrightarrow> sw_finisher s \<noteq> None) \<and>
     (\<forall>t. rl_in_finish (rl_pc (sw_loop s) t) \<longrightarrow> sw_called s) \<and>
     (rl_finishing (sw_loop s) \<longrightarrow> sw_called s) \<and>
     (sw_called s \<longrightarrow> rl_finishing (sw_loop s) \<or> (\<exists>t. rl_pc (sw_loop s) t = RlFin))"

definition sw_inv :: "universe \<Rightarrow> ty \<Rightarrow> sw_state \<Rightarrow> bool" where
  "sw_inv U error_code s \<longleftrightarrow> sw_stored U error_code s \<and> sw_calls s \<and>
     (\<forall>out. sw_returned s = Some out \<longrightarrow>
        rl_run (sw_loop s) = RlReturned \<and> out = sw_deliver (sw_res s) \<and> sw_completions s \<noteq> [])"

lemma rl_start_calls:
  assumes "rl_start_step t l l'"
  shows "rl_in_finish (rl_pc l' u) = rl_in_finish (rl_pc l u)" and "rl_finishing l' = rl_finishing l"
    and "(rl_pc l' u = RlFin) = (rl_pc l u = RlFin)" and "rl_run l = RlReturned \<Longrightarrow> rl_run l' = RlReturned"
  using assms by (auto elim!: rl_start_step.cases split: if_splits)

lemma rl_run_calls:
  assumes "rl_run_step l l'"
  shows "rl_pc l' = rl_pc l" and "rl_finishing l' = rl_finishing l" and "rl_run l \<noteq> RlReturned"
  using assms by (auto elim!: rl_run_step.cases rl_wait_step.cases rl_execute_all_step.cases)

lemma rl_finish_calls:
  assumes "rl_finish_step t l l'"
  shows "rl_in_finish (rl_pc l' u) \<Longrightarrow> u \<noteq> t \<Longrightarrow> rl_in_finish (rl_pc l u)"
    and "rl_finishing l' \<Longrightarrow> rl_finishing l \<or> rl_in_finish (rl_pc l t)"
    and "rl_finishing l \<Longrightarrow> rl_finishing l'"
    and "rl_pc l u = RlFin \<Longrightarrow> rl_finishing l' \<or> rl_pc l' u = RlFin"
    and "rl_pc l t = RlIdle \<Longrightarrow> rl_pc l' t = RlFin"
    and "rl_pc l t \<noteq> RlIdle \<Longrightarrow> rl_in_finish (rl_pc l t)"
    and "rl_run l = RlReturned \<Longrightarrow> rl_run l' = RlReturned"
  using assms by (auto elim!: rl_finish_step.cases split: if_splits)

lemma sw_receiver_calls: "sw_receiver_step U error_code s s' \<Longrightarrow> sw_calls s \<Longrightarrow> sw_calls s'"
proof (induction rule: sw_receiver_step.induct)
  case (receiver_store s t c)
  then show ?case by (simp add: sw_calls_def)
next
  case (receiver_finish s t l)
  then have "reach rl_init rl_step l" by (auto simp: sw_calls_def intro: reach_step by_finish)
  moreover have "rl_pc l t = RlFin" using rl_finish_calls(5) receiver_finish.hyps(3,4) by blast
  ultimately show ?case using receiver_finish.hyps(1) by (auto simp: sw_calls_def)
next
  case (receiver_finishing s t l)
  have "reach rl_init rl_step l" using receiver_finishing by (auto simp: sw_calls_def intro: reach_step by_finish)
  moreover have "sw_called s"
    using rl_finish_calls(6) [OF receiver_finishing.hyps(2,1)] receiver_finishing.prems by (auto simp: sw_calls_def)
  ultimately show ?case using receiver_finishing.prems rl_finish_calls(3,4) [OF receiver_finishing.hyps(2)]
    by (auto simp: sw_calls_def)
qed

lemma sw_calls_loop:
  assumes "sw_calls s" and "rl_step (sw_loop s) l" and "\<And>t. rl_in_finish (rl_pc l t) = rl_in_finish (rl_pc (sw_loop s) t)"
    and "rl_finishing l = rl_finishing (sw_loop s)" and "\<And>t. (rl_pc l t = RlFin) = (rl_pc (sw_loop s) t = RlFin)"
  shows "sw_calls (s\<lparr>sw_loop := l\<rparr>)"
  using assms by (auto simp: sw_calls_def intro: reach_step)

lemma sw_calls_step: "sw_step U error_code s s' \<Longrightarrow> sw_calls s \<Longrightarrow> sw_calls s'"
proof (induction rule: sw_step.induct)
  case (sw_receive s s')
  then show ?case by (rule sw_receiver_calls)
next
  case (sw_start t s l)
  then show ?case using rl_start_calls [OF sw_start.hyps] by (intro sw_calls_loop by_start) auto
next
  case (sw_request s n)
  then show ?case by (intro sw_calls_loop by_request) auto
next
  case (sw_run s l)
  then show ?case using rl_run_calls [OF sw_run.hyps] by (intro sw_calls_loop by_run) auto
next
  case (sw_return s)
  then show ?case by (simp add: sw_calls_def)
qed

lemma sw_returned_complete:
  assumes "sw_stored U error_code s" and "sw_calls s" and "rl_run (sw_loop s) = RlReturned"
  shows "sw_completions s \<noteq> []"
proof -
  have "rl_inv (sw_loop s)" using assms(2) rl.reach_inv by (auto simp: sw_calls_def)
  then have "rl_finishing (sw_loop s)" using assms(3) by (simp add: rl_inv_def rl_awake_def)
  then show ?thesis using assms(1,2) by (auto simp: sw_calls_def sw_stored_def)
qed

lemma sw_step_returned: "sw_step U error_code s s' \<Longrightarrow> rl_run (sw_loop s) = RlReturned \<Longrightarrow>
    rl_run (sw_loop s') = RlReturned"
  by (auto elim!: sw_step.cases sw_receiver_step.cases dest: rl_start_calls(4) rl_finish_calls(7) rl_run_calls(3))

lemma sw_inv_step: "sw_inv U error_code s \<Longrightarrow> sw_step U error_code s s' \<Longrightarrow> sw_inv U error_code s'"
proof -
  assume i: "sw_inv U error_code s" and st: "sw_step U error_code s s'"
  have stored: "sw_stored U error_code s'"
    using st i by (auto elim!: sw_step.cases sw_receiver_step.cases simp: sw_inv_def sw_stored_def split: list.splits)
  have calls: "sw_calls s'" using sw_calls_step [OF st] i by (simp add: sw_inv_def)
  have "rl_run (sw_loop s') = RlReturned \<and> out = sw_deliver (sw_res s') \<and> sw_completions s' \<noteq> []"
    if "sw_returned s' = Some out" for out
  proof (cases "sw_returned s")
    case (Some out')
    then have old: "rl_run (sw_loop s) = RlReturned" "out' = sw_deliver (sw_res s)" "sw_completions s \<noteq> []"
      using i by (auto simp: sw_inv_def)
    then have "sw_returned s' = sw_returned s \<and> sw_res s' = sw_res s"
      using st Some by (auto elim!: sw_step.cases sw_receiver_step.cases)
    moreover have r: "rl_run (sw_loop s') = RlReturned" using sw_step_returned [OF st old(1)] .
    ultimately show ?thesis using old(2) that Some sw_returned_complete [OF stored calls r] by simp
  next
    case None
    with st that have "rl_run (sw_loop s') = RlReturned \<and> out = sw_deliver (sw_res s')"
      by (auto elim!: sw_step.cases sw_receiver_step.cases)
    then show ?thesis using sw_returned_complete [OF stored calls] by simp
  qed
  with stored calls show ?thesis by (simp add: sw_inv_def)
qed

lemma sw_inv_init: "sw_init s \<Longrightarrow> sw_inv U error_code s"
  by (auto simp: sw_init_def sw_inv_def sw_stored_def sw_calls_def rl_init_def intro: reach_init)

interpretation sw: safe_system sw_init "sw_step U error_code" "sw_inv U error_code" for U error_code
  by unfold_locales (auto intro: sw_inv_init sw_inv_step)

section \<open>Properties\<close>

lemma sw_outcome:
  assumes "sw_stored U error_code s" and "sw_completions s \<noteq> []"
  obtains c where "sw_completions s = [c]" and "sw_deliver (sw_res s) = sync_wait_result U error_code c"
  using assms sw_deliver_store by (auto simp: sw_stored_def split: list.splits)

lemma sw_run_steps:
  assumes "rl_run_step\<^sup>*\<^sup>* l l'" and "sw_loop s = l"
  shows "(sw_step U error_code)\<^sup>*\<^sup>* s (s\<lparr>sw_loop := l'\<rparr>)"
  using assms(1)
proof (induction rule: rtranclp_induct)
  case base
  then show ?case using assms(2) by auto
next
  case (step y z)
  have "sw_step U error_code (s\<lparr>sw_loop := y\<rparr>) (s\<lparr>sw_loop := z\<rparr>)"
    using sw_run [of "s\<lparr>sw_loop := y\<rparr>" z U error_code] step.hyps(2) by simp
  with step.IH show ?case by (rule rtranclp.rtrancl_into_rtrancl)
qed

text \<open>
  Claim C35.  Whatever threads the operation completes on and whatever it starts on the loop:
  what \<open>sync_wait\<close> returns or throws is the documented result of the operation's one completion
  (a tuple, an empty optional, the exception, a \<^verbatim>\<open>system_error\<close>, the error itself, or the exception of a move that
  failed); by then every task started on the loop has been executed and no thread is inside
  \<open>finish\<close>, so the loop on the caller's stack can be destroyed.  Once the operation has completed and the calls
  have returned, \<open>sync_wait\<close> does return.
\<close>

theorem sync_wait_delivers:
  assumes "reach sw_init (sw_step U error_code) s"
  shows "(\<forall>out. sw_returned s = Some out \<longrightarrow>
      (\<exists>c. sw_completions s = [c] \<and> out = sync_wait_result U error_code c) \<and>
      mset (map fst (rl_sent (sw_loop s))) = mset (rl_started (sw_loop s)) \<and>
      (\<forall>t. \<not> rl_in_finish (rl_pc (sw_loop s) t))) \<and>
    (sw_called s \<and> (\<forall>t. rl_pc (sw_loop s) t = RlIdle) \<longrightarrow>
      (\<exists>s' c. (sw_step U error_code)\<^sup>*\<^sup>* s s' \<and> sw_completions s = [c] \<and>
        sw_returned s' = Some (sync_wait_result U error_code c)))"
proof (intro conjI allI impI)
  have i: "sw_inv U error_code s" using assms by (rule sw.reach_inv)
  then have st: "sw_stored U error_code s" and c: "sw_calls s" by (simp_all add: sw_inv_def)
  have l: "rl_inv (sw_loop s)" using c rl.reach_inv by (auto simp: sw_calls_def)
  {
    fix out
    assume "sw_returned s = Some out"
    then have r: "rl_run (sw_loop s) = RlReturned" "out = sw_deliver (sw_res s)" "sw_completions s \<noteq> []"
      using i by (auto simp: sw_inv_def)
    then show "\<exists>c. sw_completions s = [c] \<and> out = sync_wait_result U error_code c"
      using sw_outcome [OF st] by metis
    show "mset (map fst (rl_sent (sw_loop s))) = mset (rl_started (sw_loop s))" using rl_returned(6) [OF l r(1)] by simp
    show "\<not> rl_in_finish (rl_pc (sw_loop s) t)" for t using rl_returned(2) [OF l r(1), of t] by auto
  }
  assume called: "sw_called s \<and> (\<forall>t. rl_pc (sw_loop s) t = RlIdle)"
  then have "rl_finishing (sw_loop s)" and some: "sw_completions s \<noteq> []"
    using c st by (auto simp: sw_calls_def sw_stored_def split: list.splits)
  with called l have "rl_closing (sw_loop s)" by (simp add: rl_closing_def)
  from rl_run_finishes [OF this] obtain l' where l': "rl_run_step\<^sup>*\<^sup>* (sw_loop s) l'" "rl_run l' = RlReturned" by blast
  let ?s = "s\<lparr>sw_loop := l'\<rparr>"
  have steps: "(sw_step U error_code)\<^sup>*\<^sup>* s ?s" using l'(1) by (rule sw_run_steps) simp
  obtain k where k: "sw_completions s = [k]" "sw_deliver (sw_res s) = sync_wait_result U error_code k"
    using sw_outcome [OF st some] .
  show "\<exists>s' c. (sw_step U error_code)\<^sup>*\<^sup>* s s' \<and> sw_completions s = [c] \<and>
        sw_returned s' = Some (sync_wait_result U error_code c)"
  proof (cases "sw_returned s")
    case None
    then have "sw_step U error_code ?s (?s\<lparr>sw_returned := Some (sw_deliver (sw_res s))\<rparr>)"
      using sw_return [of ?s U error_code] l'(2) by simp
    with steps k show ?thesis
      by (intro exI [of _ "?s\<lparr>sw_returned := Some (sw_deliver (sw_res s))\<rparr>"] exI [of _ k]) auto
  next
    case (Some out)
    then show ?thesis using i k by (intro exI [of _ s] exI [of _ k]) (auto simp: sw_inv_def)
  qed
qed

text \<open>The loop's moves, other than calls of \<open>finish\<close>, are moves of \<open>sync_wait\<close>.\<close>

lemma sw_play_reach:
  assumes "rl_play ms (sw_loop s) = Some l" and "list_all (\<lambda>m. \<forall>t. m \<noteq> DoFinish t) ms"
    and "reach sw_init (sw_step U error_code) s"
  shows "reach sw_init (sw_step U error_code) (s\<lparr>sw_loop := l\<rparr>)"
  using assms
proof (induction ms arbitrary: s)
  case (Cons m ms)
  have m: "rl_may m (sw_loop s)" "rl_play ms (rl_do m (sw_loop s)) = Some l"
    using Cons.prems(1) by (auto split: if_splits)
  have "rl_inv (sw_loop s)" using sw.reach_inv [OF Cons.prems(3)] rl.reach_inv by (auto simp: sw_inv_def sw_calls_def)
  then have "sw_step U error_code s (s\<lparr>sw_loop := rl_do m (sw_loop s)\<rparr>)"
    using m(1) Cons.prems(2) rl_thread_next_step [of "sw_loop s"] rl_run_next_step [of "sw_loop s"]
    by (cases m) (auto intro: sw_start start_add sw_run sw_receive receiver_finishing)
  with Cons.prems(3) have "reach sw_init (sw_step U error_code) (s\<lparr>sw_loop := rl_do m (sw_loop s)\<rparr>)" by (rule reach_step)
  from Cons.IH [OF _ _ this] m(2) Cons.prems(2) show ?case by simp
qed auto

definition sw_universe :: universe where
  "sw_universe = \<lparr>nothrow_copy = (\<lambda>_. True), copy_throws = (\<lambda>_. None), bool_type_of = (\<lambda>_. NotBool),
     to_bool = (\<lambda>_. Inr True)\<rparr>"

definition sw_new :: sw_state where
  "sw_new = \<lparr>sw_loop = rl_new, sw_res = \<lparr>sw_eptr = None, sw_values = None\<rparr>, sw_completions = [],
     sw_finisher = None, sw_called = False, sw_returned = None\<rparr>"

definition sw_calling :: "universe \<Rightarrow> ty \<Rightarrow> sw_state" where
  "sw_calling U error_code = sw_new\<lparr>sw_res := sw_store U error_code (SetValue [Obj 1 2]) (sw_res sw_new),
     sw_completions := [SetValue [Obj 1 2]], sw_finisher := Some 1, sw_loop := rl_do (DoFinish 1) rl_new,
     sw_called := True\<rparr>"

lemma sw_calling_reach: "reach sw_init (sw_step U error_code) (sw_calling U error_code)"
proof -
  let ?s = "sw_new\<lparr>sw_res := sw_store U error_code (SetValue [Obj 1 2]) (sw_res sw_new),
     sw_completions := [SetValue [Obj 1 2]], sw_finisher := Some 1\<rparr>"
  have "reach sw_init (sw_step U error_code) sw_new"
    by (rule reach_init) (simp add: sw_new_def sw_init_def rl_new_def rl_init_def aq_init_def)
  moreover have "sw_step U error_code sw_new ?s"
    by (rule sw_receive, rule receiver_store [where t = 1]) (simp_all add: sw_new_def rl_new_def)
  moreover have "rl_finish_step 1 rl_new (rl_do (DoFinish 1) rl_new)"
    using finish_add [of rl_new 1] by (simp add: rl_new_def)
  then have "sw_step U error_code ?s (sw_calling U error_code)"
    using receiver_finish [of ?s 1 "rl_do (DoFinish 1) rl_new" U error_code]
    by (auto simp: sw_calling_def sw_new_def rl_new_def intro: sw_receive)
  ultimately show ?thesis by (blast intro: reach_step)
qed

lemma sw_calls_return:
  "\<exists>l. rl_play [DoThread 1, DoThread 1, DoThread 1, DoThread 1, DoThread 1, DoThread 1]
     (sw_loop (sw_calling U error_code)) = Some l \<and> (\<forall>t. rl_pc l t = RlIdle)"
  by (simp add: sw_calling_def rl_eval)

theorem sync_wait_delivers_witness:
  "\<exists>s s'. reach sw_init (sw_step sw_universe (TObj 9)) s \<and> (sw_step sw_universe (TObj 9))\<^sup>*\<^sup>* s s' \<and>
     sw_returned s' = Some (SwReturns (Some [Obj 1 2]))"
proof -
  let ?s = "sw_calling sw_universe (TObj 9)"
  obtain l where l: "rl_play [DoThread 1, DoThread 1, DoThread 1, DoThread 1, DoThread 1, DoThread 1] (sw_loop ?s) = Some l"
    "\<forall>t. rl_pc l t = RlIdle" using sw_calls_return by blast
  have r: "reach sw_init (sw_step sw_universe (TObj 9)) (?s\<lparr>sw_loop := l\<rparr>)"
    by (rule sw_play_reach [OF l(1) _ sw_calling_reach]) simp
  have "sw_called (?s\<lparr>sw_loop := l\<rparr>) \<and> (\<forall>t. rl_pc (sw_loop (?s\<lparr>sw_loop := l\<rparr>)) t = RlIdle)"
    using l(2) by (simp add: sw_calling_def)
  with sync_wait_delivers [OF r] obtain s' c where s': "(sw_step sw_universe (TObj 9))\<^sup>*\<^sup>* (?s\<lparr>sw_loop := l\<rparr>) s'"
    "sw_completions (?s\<lparr>sw_loop := l\<rparr>) = [c]" "sw_returned s' = Some (sync_wait_result sw_universe (TObj 9) c)" by blast
  have "c = SetValue [Obj 1 2]" using s'(2) by (simp add: sw_calling_def)
  with s'(3) have "sw_returned s' = Some (SwReturns (Some [Obj 1 2]))" by (simp add: sw_universe_def)
  with r s'(1) show ?thesis by (intro exI [of _ "?s\<lparr>sw_loop := l\<rparr>"] exI [of _ s']) simp
qed

end
