(* ===== verification/Trampoline.thy ===== *)
theory Trampoline
  imports Completions "HOL-Library.Monad_Syntax"
begin

text \<open>
  The trampoline scheduler of \<^verbatim>\<open>include/exec/trampoline_scheduler.hpp\<close>: operations started while
  another one is being executed on the same thread are executed in place as long as the limits on
  the recursion allow it, and otherwise put on a list that the outermost \<open>start\<close> drains.

  An operation is described by its address, by what its receiver's stop token says when it is
  executed, by the limits of its scheduler, by the address of the local variable of its
  \<open>start\<close> (from which the code estimates the use of the stack) and by the operations that its
  receiver starts when it completes, in order.  \<open>tr_run\<close> interprets the four functions \<open>start\<close>,
  \<open>__execute\<close>, the receiver's starts and \<open>__drain\<close>, which call each other; it is a partial function, so that
  returning is something to prove.  Reading an operation state that does not exist gives no
  result.  An operation state is constructed just before it is started and is gone once its
  receiver has been completed, which may destroy it.  What the operations start is a finite tree:
  a chain of schedules that never ends is not modelled.

  Ghost state: the completions sent, and the number of executions that are nested in each other at
  the moment and at most.
\<close>

section \<open>State\<close>

datatype tr_op = TrOp
  (tr_node: addr)
  (tr_unstoppable: bool)
  (tr_requested: bool)
  (tr_max_size: nat)
  (tr_max_depth: nat)
  (tr_local: int)
  (tr_starts: "tr_op list")

text \<open>\<open>__state\<close>, the object of the outermost \<open>start\<close> on the thread\<close>

record tr_state =
  max_recursion_size :: nat
  max_recursion_depth :: nat
  recursion_origin :: int
  recursion_depth :: nat
  tr_head :: "addr option"
  tr_tail :: "addr option"

record tr_world =
  tr_current :: "tr_state option"
  tr_next :: links
  tr_prev :: links
  tr_heap :: "addr \<Rightarrow> tr_op option"
  tr_drain_local :: int
  tr_log :: "(addr \<times> compl) list"
  tr_nest :: nat
  tr_peak :: nat

definition tr_new_state :: "nat \<Rightarrow> nat \<Rightarrow> tr_state" where
  "tr_new_state depth bytes = \<lparr>max_recursion_size = bytes, max_recursion_depth = depth,
     recursion_origin = 0, recursion_depth = 1, tr_head = None, tr_tail = None\<rparr>"

section \<open>Operations\<close>

definition tr_construct :: "tr_op \<Rightarrow> tr_world \<Rightarrow> tr_world" where
  "tr_construct x w = w\<lparr>tr_heap := (tr_heap w)(tr_node x \<mapsto> x),
     tr_next := (tr_next w)(tr_node x := None), tr_prev := (tr_prev w)(tr_node x := None)\<rparr>"

definition tr_execute_impl :: "tr_op \<Rightarrow> compl" where
  "tr_execute_impl x =
     (if tr_unstoppable x then SetValue [] else if tr_requested x then SetStopped else SetValue [])"

text \<open>Completing the receiver, which may destroy the operation state: it is gone from then on.\<close>

definition tr_complete :: "tr_op \<Rightarrow> tr_world \<Rightarrow> tr_world" where
  "tr_complete x w = w\<lparr>tr_heap := (tr_heap w)(tr_node x := None), tr_log := tr_log w @ [(tr_node x, tr_execute_impl x)]\<rparr>"

text \<open>The test in \<open>start\<close>: an estimate of the stack used, and the number of schedules in place.\<close>

definition tr_inline :: "tr_op \<Rightarrow> tr_state \<Rightarrow> bool" where
  "tr_inline x f \<longleftrightarrow> nat \<bar>tr_local x - recursion_origin f\<bar> < max_recursion_size f \<and>
     recursion_depth f < max_recursion_depth f"

definition tr_defer :: "addr \<Rightarrow> tr_state \<Rightarrow> tr_world \<Rightarrow> tr_world" where
  "tr_defer a f w =
     (let prev = tr_tail f; f1 = f\<lparr>tr_tail := Some a\<rparr>; w1 = w\<lparr>tr_prev := (tr_prev w)(a := prev)\<rparr>
      in case prev of
           Some p \<Rightarrow> w1\<lparr>tr_next := (tr_next w1)(p := Some a), tr_current := Some f1\<rparr>
         | None \<Rightarrow> w1\<lparr>tr_current := Some (f1\<lparr>tr_head := Some a\<rparr>)\<rparr>)"

text \<open>One turn of \<open>__drain\<close> up to the execution: the head is unlinked and the limits restart.\<close>

definition tr_pop :: "addr \<Rightarrow> tr_state \<Rightarrow> tr_world \<Rightarrow> tr_world" where
  "tr_pop a f w =
     (let h = tr_next w a;
          w1 = w\<lparr>tr_next := (tr_next w)(a := None), tr_prev := (tr_prev w)(a := None)\<rparr>;
          f1 = f\<lparr>tr_head := h\<rparr>;
          w2 = (case h of Some b \<Rightarrow> w1\<lparr>tr_prev := (tr_prev w1)(b := None)\<rparr> | None \<Rightarrow> w1);
          f2 = (case h of Some b \<Rightarrow> f1 | None \<Rightarrow> f1\<lparr>tr_tail := None\<rparr>)
      in w2\<lparr>tr_current := Some (f2\<lparr>recursion_origin := tr_drain_local w, recursion_depth := 1\<rparr>)\<rparr>)"

datatype tr_call = CallStart tr_op | CallExecute tr_op | CallStarts "tr_op list" | CallDrain

definition tr_enter :: "nat \<Rightarrow> tr_world \<Rightarrow> tr_world" where
  "tr_enter n w = w\<lparr>tr_nest := n, tr_peak := max (tr_peak w) n\<rparr>"

partial_function (option) tr_run :: "tr_call \<Rightarrow> tr_world \<Rightarrow> tr_world option" where
  "tr_run c w = (case c of
     CallStart x \<Rightarrow> (let w = tr_construct x w in case tr_current w of
         None \<Rightarrow> do {
           w1 \<leftarrow> tr_run (CallExecute x) (tr_enter 1
                   (w\<lparr>tr_current := Some (tr_new_state (tr_max_depth x) (tr_max_size x))\<rparr>));
           w2 \<leftarrow> tr_run CallDrain w1;
           Some (w2\<lparr>tr_current := None, tr_nest := 0\<rparr>)
         }
       | Some f \<Rightarrow>
           if tr_inline x f then do {
             w1 \<leftarrow> tr_run (CallExecute x) (tr_enter (tr_nest w + 1)
                     (w\<lparr>tr_current := Some (f\<lparr>recursion_depth := recursion_depth f + 1\<rparr>)\<rparr>));
             Some (w1\<lparr>tr_nest := tr_nest w\<rparr>)
           }
           else Some (tr_defer (tr_node x) f w))
   | CallExecute x \<Rightarrow> tr_run (CallStarts (tr_starts x)) (tr_complete x w)
   | CallStarts xs \<Rightarrow> (case xs of
         [] \<Rightarrow> Some w
       | x # ys \<Rightarrow> do { w1 \<leftarrow> tr_run (CallStart x) w; tr_run (CallStarts ys) w1 })
   | CallDrain \<Rightarrow> do {
       f \<leftarrow> tr_current w;
       case tr_head f of
         None \<Rightarrow> Some w
       | Some a \<Rightarrow> do {
           x \<leftarrow> tr_heap w a;
           w1 \<leftarrow> tr_run (CallExecute x) (tr_enter 1 (tr_pop a f w));
           tr_run CallDrain w1
         }
     })"

section \<open>What has to be executed\<close>

primrec tr_all :: "tr_op \<Rightarrow> (addr \<times> compl) multiset" where
  "tr_all (TrOp n u r s d l xs) =
     add_mset (n, tr_execute_impl (TrOp n u r s d l [])) (sum_list (map tr_all xs))"

primrec tr_nodes :: "tr_op \<Rightarrow> addr set" where
  "tr_nodes (TrOp n u r s d l xs) = insert n (\<Union> (set (map tr_nodes xs)))"

definition tr_union :: "tr_op list \<Rightarrow> addr set" where
  "tr_union xs = (\<Union>x\<in>set xs. tr_nodes x)"

fun tr_disjoint :: "tr_op list \<Rightarrow> bool" where
  "tr_disjoint [] \<longleftrightarrow> True"
| "tr_disjoint (x # xs) \<longleftrightarrow> tr_nodes x \<inter> tr_union xs = {} \<and> tr_disjoint xs"

text \<open>
  An operation state may be destroyed by its execution and its address used again by what it
  starts, but operations that may wait on the list together have addresses of their own.
\<close>

primrec tr_apart :: "tr_op \<Rightarrow> bool" where
  "tr_apart (TrOp n u r s d l xs) \<longleftrightarrow> tr_disjoint xs \<and> list_all id (map tr_apart xs)"

definition tr_forest :: "tr_op list \<Rightarrow> bool" where
  "tr_forest xs \<longleftrightarrow> tr_disjoint xs \<and> list_all tr_apart xs"

definition tr_work :: "tr_op list \<Rightarrow> (addr \<times> compl) multiset" where
  "tr_work xs = sum_list (map tr_all xs)"

lemma tr_union_simps [simp]:
  "tr_union [] = {}" "tr_union (x # xs) = tr_nodes x \<union> tr_union xs"
  "tr_union (xs @ ys) = tr_union xs \<union> tr_union ys"
  by (auto simp: tr_union_def)

lemma tr_work_simps [simp]:
  "tr_work [] = {#}" "tr_work (x # xs) = tr_all x + tr_work xs" "tr_work (xs @ ys) = tr_work xs + tr_work ys"
  by (simp_all add: tr_work_def)

lemma tr_op_simps:
  "tr_all x = add_mset (tr_node x, tr_execute_impl x) (tr_work (tr_starts x))"
  "tr_nodes x = insert (tr_node x) (tr_union (tr_starts x))"
  "tr_apart x \<longleftrightarrow> tr_forest (tr_starts x)"
  by (cases x; auto simp: tr_work_def tr_union_def tr_forest_def list_all_iff tr_execute_impl_def)+

lemma tr_node_in [simp]: "tr_node x \<in> tr_nodes x"
  by (simp add: tr_op_simps)

lemma tr_disjoint_append [simp]:
  "tr_disjoint (xs @ ys) \<longleftrightarrow> tr_disjoint xs \<and> tr_disjoint ys \<and> tr_union xs \<inter> tr_union ys = {}"
  by (induction xs) auto

lemma tr_forest_simps [simp]:
  "tr_forest [] \<longleftrightarrow> True"
  "tr_forest (x # xs) \<longleftrightarrow> tr_apart x \<and> tr_forest xs \<and> tr_nodes x \<inter> tr_union xs = {}"
  "tr_forest (xs @ ys) \<longleftrightarrow> tr_forest xs \<and> tr_forest ys \<and> tr_union xs \<inter> tr_union ys = {}"
  by (auto simp: tr_forest_def)

lemma tr_queued_nodes: "set (map tr_node xs) \<subseteq> tr_union xs"
  by (auto simp: tr_union_def)

text \<open>The list of deferred operations, through \<open>__next_\<close>.\<close>

definition tr_queue :: "tr_world \<Rightarrow> tr_state \<Rightarrow> tr_op list \<Rightarrow> bool" where
  "tr_queue w f xs \<longleftrightarrow> chain (tr_next w) (tr_head f) (map tr_node xs) None \<and>
     tr_tail f = last_ptr (map tr_node xs) \<and> (\<forall>x\<in>set xs. tr_heap w (tr_node x) = Some x)"

definition tr_good :: "tr_world \<Rightarrow> tr_state \<Rightarrow> tr_op list \<Rightarrow> bool" where
  "tr_good w f xs \<longleftrightarrow> tr_current w = Some f \<and> tr_queue w f xs \<and> tr_forest xs \<and>
     tr_nest w \<le> recursion_depth f \<and> recursion_depth f \<le> max 1 (max_recursion_depth f)"

text \<open>What happens between two points of an outermost \<open>start\<close>: the operations \<open>xs\<close> are started.\<close>

definition tr_did :: "tr_op list \<Rightarrow> tr_op list \<Rightarrow> tr_op list \<Rightarrow> tr_state \<Rightarrow> tr_world \<Rightarrow> tr_world \<Rightarrow> bool" where
  "tr_did xs q new f w w' \<longleftrightarrow> (\<exists>f'. tr_good w' f' (q @ new) \<and>
       max_recursion_size f' = max_recursion_size f \<and> max_recursion_depth f' = max_recursion_depth f) \<and>
     tr_union new \<subseteq> tr_union xs \<and> (\<exists>l. tr_log w' = tr_log w @ l) \<and>
     mset (tr_log w') + tr_work new = mset (tr_log w) + tr_work xs \<and>
     tr_nest w' = tr_nest w \<and> tr_peak w' \<le> max (tr_peak w) (max 1 (max_recursion_depth f))"

section \<open>The list\<close>

lemma tr_queue_other:
  assumes "tr_queue w f xs" and "\<And>a. a \<in> tr_union xs \<Longrightarrow> tr_next w' a = tr_next w a"
    and "\<And>a. a \<in> tr_union xs \<Longrightarrow> tr_heap w' a = tr_heap w a"
    and "tr_head f' = tr_head f" and "tr_tail f' = tr_tail f"
  shows "tr_queue w' f' xs"
proof -
  have n: "tr_node x \<in> tr_union xs" if "x \<in> set xs" for x using that tr_node_in unfolding tr_union_def by blast
  have "chain (tr_next w') (tr_head f) (map tr_node xs) None"
  proof -
    have "chain (tr_next w) (tr_head f) (map tr_node xs) None = chain (tr_next w') (tr_head f) (map tr_node xs) None"
      by (rule chain_cong) (use assms(2) n in auto)
    then show ?thesis using assms(1) by (simp add: tr_queue_def)
  qed
  with assms n show ?thesis by (simp add: tr_queue_def)
qed

lemma tr_queue_defer:
  assumes "tr_queue w f xs" and "tr_node x \<notin> tr_union xs" and "tr_next w (tr_node x) = None"
    and "tr_heap w (tr_node x) = Some x"
  shows "\<exists>f'. tr_current (tr_defer (tr_node x) f w) = Some f' \<and> tr_queue (tr_defer (tr_node x) f w) f' (xs @ [x]) \<and>
     recursion_depth f' = recursion_depth f \<and> max_recursion_size f' = max_recursion_size f \<and>
     max_recursion_depth f' = max_recursion_depth f"
proof (cases "xs = []")
  case True
  then show ?thesis using assms by (simp add: tr_queue_def tr_defer_def)
next
  case False
  let ?as = "map tr_node xs"
  have c: "chain (tr_next w) (tr_head f) ?as None"
    using assms(1) by (simp add: tr_queue_def)
  have x: "tr_node x \<notin> set ?as" using assms(2) tr_queued_nodes by blast
  moreover have "last ?as \<in> set ?as" using False by (intro last_in_set) simp
  ultimately have l: "last ?as \<noteq> tr_node x" by metis
  have "chain ((tr_next w)(last ?as := Some (tr_node x))) (tr_head f) (?as @ [tr_node x]) None"
    using c chain_null_distinct [OF c] False x l assms(3) by (intro chain_link_last) auto
  moreover have "last_ptr ?as = Some (last ?as)" using False by (simp add: last_ptr_def)
  ultimately show ?thesis using assms(1,4) by (auto simp: tr_queue_def tr_defer_def Let_def)
qed

lemma tr_defer_simps [simp]:
  "tr_log (tr_defer a f w) = tr_log w" "tr_nest (tr_defer a f w) = tr_nest w"
  "tr_peak (tr_defer a f w) = tr_peak w"
  by (simp_all add: tr_defer_def Let_def split: option.split)

lemma tr_queue_pop:
  assumes "tr_queue w f (x # xs)"
  shows "tr_head f = Some (tr_node x)" and "tr_heap w (tr_node x) = Some x"
    and "\<exists>f'. tr_current (tr_pop (tr_node x) f w) = Some f' \<and> tr_queue (tr_pop (tr_node x) f w) f' xs \<and>
      recursion_depth f' = 1 \<and> max_recursion_size f' = max_recursion_size f \<and>
      max_recursion_depth f' = max_recursion_depth f"
proof -
  show h: "tr_head f = Some (tr_node x)" and "tr_heap w (tr_node x) = Some x" using assms by (auto simp: tr_queue_def)
  have c: "chain (tr_next w) (tr_next w (tr_node x)) (map tr_node xs) None" using assms by (simp add: tr_queue_def)
  have "tr_node x \<notin> set (map tr_node xs)"
    using chain_null_distinct [of "tr_next w" "tr_head f" "map tr_node (x # xs)"] assms by (simp add: tr_queue_def)
  then have c': "chain ((tr_next w)(tr_node x := None)) (tr_next w (tr_node x)) (map tr_node xs) None" using c by simp
  then show "\<exists>f'. tr_current (tr_pop (tr_node x) f w) = Some f' \<and> tr_queue (tr_pop (tr_node x) f w) f' xs \<and>
      recursion_depth f' = 1 \<and> max_recursion_size f' = max_recursion_size f \<and>
      max_recursion_depth f' = max_recursion_depth f"
    using assms c by (cases xs) (auto simp: tr_queue_def tr_pop_def Let_def)
qed

lemma tr_pop_simps [simp]: "tr_log (tr_pop a f w) = tr_log w" "tr_peak (tr_pop a f w) = tr_peak w"
  by (simp_all add: tr_pop_def Let_def split: option.split)

section \<open>Starting operations while another one is executed\<close>

lemma tr_construct_simps [simp]:
  "tr_current (tr_construct x w) = tr_current w" "tr_log (tr_construct x w) = tr_log w"
  "tr_nest (tr_construct x w) = tr_nest w" "tr_peak (tr_construct x w) = tr_peak w"
  "tr_next (tr_construct x w) (tr_node x) = None" "tr_heap (tr_construct x w) (tr_node x) = Some x"
  "a \<noteq> tr_node x \<Longrightarrow> tr_next (tr_construct x w) a = tr_next w a"
  "a \<noteq> tr_node x \<Longrightarrow> tr_heap (tr_construct x w) a = tr_heap w a"
  by (simp_all add: tr_construct_def)

lemma tr_enter_simps [simp]:
  "tr_current (tr_enter n w) = tr_current w" "tr_log (tr_enter n w) = tr_log w"
  "tr_nest (tr_enter n w) = n" "tr_peak (tr_enter n w) = max (tr_peak w) n"
  "tr_next (tr_enter n w) = tr_next w" "tr_heap (tr_enter n w) = tr_heap w"
  by (simp_all add: tr_enter_def)

lemma tr_complete_simps [simp]:
  "tr_current (tr_complete x w) = tr_current w" "tr_nest (tr_complete x w) = tr_nest w"
  "tr_peak (tr_complete x w) = tr_peak w" "tr_next (tr_complete x w) = tr_next w"
  "a \<noteq> tr_node x \<Longrightarrow> tr_heap (tr_complete x w) a = tr_heap w a"
  "tr_log (tr_complete x w) = tr_log w @ [(tr_node x, tr_execute_impl x)]"
  by (simp_all add: tr_complete_def)

lemma tr_queue_frame:
  "tr_queue w f xs \<Longrightarrow> tr_next w' = tr_next w \<Longrightarrow> tr_heap w' = tr_heap w \<Longrightarrow>
   tr_head f' = tr_head f \<Longrightarrow> tr_tail f' = tr_tail f \<Longrightarrow> tr_queue w' f' xs"
  by (simp add: tr_queue_def)

lemma tr_goodI:
  "tr_current w = Some f \<Longrightarrow> tr_queue w f xs \<Longrightarrow> tr_forest xs \<Longrightarrow> tr_nest w \<le> recursion_depth f \<Longrightarrow>
   recursion_depth f \<le> max 1 (max_recursion_depth f) \<Longrightarrow> tr_good w f xs"
  by (simp add: tr_good_def)

definition tr_starts_ok :: "tr_op \<Rightarrow> bool" where
  "tr_starts_ok x \<longleftrightarrow> (\<forall>w f q. tr_good w f q \<and> tr_forest (x # q) \<longrightarrow>
     (\<exists>w' new. tr_run (CallStart x) w = Some w' \<and> tr_did [x] q new f w w'))"

lemma tr_starts_okD: "tr_starts_ok x \<Longrightarrow> tr_good w f q \<Longrightarrow> tr_forest (x # q) \<Longrightarrow>
    \<exists>w' new. tr_run (CallStart x) w = Some w' \<and> tr_did [x] q new f w w'"
  unfolding tr_starts_ok_def by blast

lemma tr_run_starts:
  assumes "\<And>x. x \<in> set xs \<Longrightarrow> tr_starts_ok x" and "tr_good w f q" and "tr_forest (xs @ q)"
  shows "\<exists>w' new. tr_run (CallStarts xs) w = Some w' \<and> tr_did xs q new f w w'"
  using assms
proof (induction xs arbitrary: w f q)
  case Nil
  then show ?case by (intro exI [of _ w] exI [of _ "[]"]) (auto simp: tr_run.simps tr_did_def)
next
  case (Cons x xs)
  have "tr_starts_ok x" "tr_forest (x # q)" using Cons.prems(1,3) by auto
  from tr_starts_okD [OF this(1) Cons.prems(2) this(2)] obtain w1 new1 where
    r1: "tr_run (CallStart x) w = Some w1" and d1: "tr_did [x] q new1 f w w1" by blast
  from d1 obtain f1 where g1: "tr_good w1 f1 (q @ new1)" "max_recursion_size f1 = max_recursion_size f"
    "max_recursion_depth f1 = max_recursion_depth f" by (auto simp: tr_did_def)
  have u1: "tr_union new1 \<subseteq> tr_nodes x" using d1 by (simp add: tr_did_def)
  have "tr_forest (q @ new1)" using g1(1) by (simp add: tr_good_def)
  then have "tr_forest (xs @ q @ new1)" using Cons.prems(3) u1 by auto
  from Cons.IH [OF _ g1(1) this] Cons.prems(1) obtain w2 new2 where
    r2: "tr_run (CallStarts xs) w1 = Some w2" and d2: "tr_did xs (q @ new1) new2 f1 w1 w2" by auto
  from d2 obtain f2 where g2: "tr_good w2 f2 (q @ new1 @ new2)" "max_recursion_size f2 = max_recursion_size f"
    "max_recursion_depth f2 = max_recursion_depth f" using g1(2,3) by (auto simp: tr_did_def)
  have m1: "mset (tr_log w1) + tr_work new1 = mset (tr_log w) + tr_all x" using d1 by (simp add: tr_did_def)
  have m2: "mset (tr_log w2) + tr_work new2 = mset (tr_log w1) + tr_work xs" using d2 by (simp add: tr_did_def)
  have "mset (tr_log w2) + tr_work (new1 @ new2) = mset (tr_log w2) + tr_work new2 + tr_work new1" by (simp add: ac_simps)
  also have "\<dots> = mset (tr_log w1) + tr_work new1 + tr_work xs" unfolding m2 by (simp add: ac_simps)
  also have "\<dots> = mset (tr_log w) + tr_work (x # xs)" unfolding m1 by (simp add: ac_simps)
  finally have m: "mset (tr_log w2) + tr_work (new1 @ new2) = mset (tr_log w) + tr_work (x # xs)" .
  have "tr_did (x # xs) q (new1 @ new2) f w w2"
    using g1(3) g2 m d1 d2 by (auto simp: tr_did_def)
  moreover have "tr_run (CallStarts (x # xs)) w = Some w2" using r1 r2 by (simp add: tr_run.simps [of "CallStarts (x # xs)"])
  ultimately show ?case by blast
qed

lemma tr_run_execute:
  assumes "\<And>y. y \<in> set (tr_starts x) \<Longrightarrow> tr_starts_ok y" and "tr_good w f q" and "tr_forest (x # q)"
  shows "\<exists>w' new. tr_run (CallExecute x) w = Some w' \<and> tr_did [x] q new f w w' \<and> tr_log w' \<noteq> tr_log w"
proof -
  let ?w = "tr_complete x w"
  have x: "tr_node x \<notin> tr_union q" using assms(3) tr_node_in [of x] unfolding tr_forest_simps by blast
  have "tr_heap ?w a = tr_heap w a" if "a \<in> tr_union q" for a
    using that x by (intro tr_complete_simps) auto
  then have "tr_queue ?w f q" using assms(2) by (auto simp: tr_good_def intro!: tr_queue_other [of w f q ?w f])
  then have g: "tr_good ?w f q" using assms(2) by (simp add: tr_good_def)
  have "tr_forest (tr_starts x @ q)" using assms(3) by (auto simp: tr_op_simps)
  from tr_run_starts [OF assms(1) g this] obtain w' new where
    r: "tr_run (CallStarts (tr_starts x)) ?w = Some w'" and d: "tr_did (tr_starts x) q new f ?w w'" by blast
  have "tr_did [x] q new f w w'" using d by (auto simp: tr_did_def tr_op_simps)
  moreover have "tr_run (CallExecute x) w = Some w'" using r by (simp add: tr_run.simps [of "CallExecute x"])
  moreover have "tr_log w' \<noteq> tr_log w" using d by (auto simp: tr_did_def)
  ultimately show ?thesis by blast
qed

lemma tr_starts_ok_step:
  assumes "\<And>y. y \<in> set (tr_starts x) \<Longrightarrow> tr_starts_ok y"
  shows "tr_starts_ok x"
proof -
  show ?thesis unfolding tr_starts_ok_def
  proof (intro allI impI)
    fix w f q
    assume a: "tr_good w f q \<and> tr_forest (x # q)"
    let ?w = "tr_construct x w"
    have "tr_nodes x \<inter> tr_union q = {}" using a by simp
    then have x: "tr_node x \<notin> tr_union q" using tr_node_in [of x] by blast
    have q: "tr_queue ?w f q"
    proof (rule tr_queue_other [of w f q])
      show "tr_queue w f q" using a by (simp add: tr_good_def)
      show "tr_next ?w b = tr_next w b" "tr_heap ?w b = tr_heap w b" if "b \<in> tr_union q" for b
        using that x by (cases "b = tr_node x"; simp)+
    qed simp_all
    have cur: "tr_current ?w = Some f" using a by (simp add: tr_good_def)
    show "\<exists>w' new. tr_run (CallStart x) w = Some w' \<and> tr_did [x] q new f w w'"
    proof (cases "tr_inline x f")
      case True
      let ?f = "f\<lparr>recursion_depth := recursion_depth f + 1\<rparr>"
      let ?v = "tr_enter (tr_nest w + 1) (?w\<lparr>tr_current := Some ?f\<rparr>)"
      have dep: "recursion_depth f + 1 \<le> max_recursion_depth f" using True by (simp add: tr_inline_def)
      have "tr_good ?v ?f q"
      proof (rule tr_goodI)
        show "tr_queue ?v ?f q" using q by (rule tr_queue_frame) simp_all
      qed (use a dep in \<open>auto simp: tr_good_def\<close>)
      from tr_run_execute [OF assms this] a obtain w1 new where
        r: "tr_run (CallExecute x) ?v = Some w1" and dd: "tr_did [x] q new ?f ?v w1" by blast
      let ?w' = "w1\<lparr>tr_nest := tr_nest w\<rparr>"
      from dd obtain f1 where f1: "tr_good w1 f1 (q @ new)" "max_recursion_size f1 = max_recursion_size f"
        "max_recursion_depth f1 = max_recursion_depth f" by (auto simp: tr_did_def)
      have nest: "tr_nest w1 = tr_nest w + 1" "tr_peak w1 \<le> max (max (tr_peak w) (tr_nest w + 1)) (max 1 (max_recursion_depth f))"
        using dd by (simp_all add: tr_did_def)
      have "tr_good ?w' f1 (q @ new)"
        using f1(1) nest(1) by (auto simp: tr_good_def intro: tr_queue_frame)
      moreover have "tr_nest w \<le> recursion_depth f" using a by (simp add: tr_good_def)
      then have "tr_peak w1 \<le> max (tr_peak w) (max 1 (max_recursion_depth f))" using nest(2) dep by simp
      ultimately have "tr_did [x] q new f w ?w'" using dd f1(2,3) by (auto simp: tr_did_def)
      moreover have "tr_run (CallStart x) w = Some ?w'"
        using True cur r by (simp add: tr_run.simps [of "CallStart x"] Let_def)
      ultimately show ?thesis by blast
    next
      case False
      from tr_queue_defer [OF q x] obtain f1 where f1: "tr_current (tr_defer (tr_node x) f ?w) = Some f1"
        "tr_queue (tr_defer (tr_node x) f ?w) f1 (q @ [x])" "recursion_depth f1 = recursion_depth f"
        "max_recursion_size f1 = max_recursion_size f" "max_recursion_depth f1 = max_recursion_depth f" by auto
      have "tr_forest (q @ [x])" using a by auto
      with f1 a have "tr_good (tr_defer (tr_node x) f ?w) f1 (q @ [x])" by (auto simp: tr_good_def)
      with f1 have "tr_did [x] q [x] f w (tr_defer (tr_node x) f ?w)" by (auto simp: tr_did_def)
      moreover have "tr_run (CallStart x) w = Some (tr_defer (tr_node x) f ?w)"
        using False cur by (simp add: tr_run.simps [of "CallStart x"] Let_def)
      ultimately show ?thesis by blast
    qed
  qed
qed

lemma tr_starts_ok: "tr_starts_ok x"
  by (induction x) (rule tr_starts_ok_step, simp)

section \<open>Draining the list\<close>

lemma tr_run_drain:
  assumes "tr_good w f q"
  shows "\<exists>w'. tr_run CallDrain w = Some w' \<and> mset (tr_log w') = mset (tr_log w) + tr_work q \<and>
    (\<exists>l. tr_log w' = tr_log w @ l) \<and> tr_peak w' \<le> max (tr_peak w) (max 1 (max_recursion_depth f))"
  using assms
proof (induction "size (tr_work q)" arbitrary: w f q rule: less_induct)
  case less
  have cur: "tr_current w = Some f" and qu: "tr_queue w f q" and fo: "tr_forest q"
    using less.prems by (simp_all add: tr_good_def)
  show ?case
  proof (cases q)
    case Nil
    then have "tr_head f = None" using qu by (simp add: tr_queue_def)
    then show ?thesis using Nil cur by (simp add: tr_run.simps [of CallDrain])
  next
    case (Cons x xs)
    note p = tr_queue_pop [OF qu [unfolded Cons]]
    let ?w = "tr_enter 1 (tr_pop (tr_node x) f w)"
    from p(3) obtain f1 where f1: "tr_current (tr_pop (tr_node x) f w) = Some f1"
      "tr_queue (tr_pop (tr_node x) f w) f1 xs" "recursion_depth f1 = 1"
      "max_recursion_size f1 = max_recursion_size f" "max_recursion_depth f1 = max_recursion_depth f" by blast
    have "tr_good ?w f1 xs"
    proof (rule tr_goodI)
      show "tr_queue ?w f1 xs" using f1(2) by (rule tr_queue_frame) simp_all
    qed (use f1 fo Cons in simp_all)
    moreover have "tr_forest (x # xs)" using fo Cons by simp
    ultimately obtain w1 new where r: "tr_run (CallExecute x) ?w = Some w1" and d: "tr_did [x] xs new f1 ?w w1"
      and lg: "tr_log w1 \<noteq> tr_log ?w" using tr_run_execute [OF tr_starts_ok] by blast
    from d obtain f2 where f2: "tr_good w1 f2 (xs @ new)" "max_recursion_depth f2 = max_recursion_depth f"
      using f1(5) by (auto simp: tr_did_def)
    from d obtain l where l: "tr_log w1 = tr_log w @ l" by (auto simp: tr_did_def)
    have m: "mset (tr_log w1) + tr_work new = mset (tr_log w) + tr_all x" using d by (simp add: tr_did_def)
    have "tr_peak w1 \<le> max (max (tr_peak w) 1) (max 1 (max_recursion_depth f))" using d f1(5) by (simp add: tr_did_def)
    then have pk: "tr_peak w1 \<le> max (tr_peak w) (max 1 (max_recursion_depth f))" by linarith
    have "l \<noteq> []" using l lg by simp
    then have "size (tr_work new) < size (tr_all x)"
      using arg_cong [OF m, of size] l by (cases l) simp_all
    then have "size (tr_work (xs @ new)) < size (tr_work q)" using Cons by simp
    from less.hyps [OF this f2(1)] obtain w2 where r2: "tr_run CallDrain w1 = Some w2"
      and m2: "mset (tr_log w2) = mset (tr_log w1) + tr_work (xs @ new)" and l2: "\<exists>l. tr_log w2 = tr_log w1 @ l"
      and pk2: "tr_peak w2 \<le> max (tr_peak w1) (max 1 (max_recursion_depth f))" using f2(2) by auto
    have "mset (tr_log w2) = mset (tr_log w1) + tr_work new + tr_work xs" using m2 by (simp add: ac_simps)
    then have "mset (tr_log w2) = mset (tr_log w) + tr_work q" unfolding m using Cons by (simp add: ac_simps)
    moreover have "tr_run CallDrain w = Some w2"
      using cur p(1,2) r r2 by (simp add: tr_run.simps [of CallDrain])
    moreover have "\<exists>l. tr_log w2 = tr_log w @ l" using l l2 by auto
    ultimately show ?thesis using pk pk2 by (intro exI [of _ w2]) auto
  qed
qed

section \<open>Properties\<close>

text \<open>
  Claim C36.  The outermost \<open>start\<close> on a thread always returns, whatever finite tree of operations is
  started by their completions and wherever the stack is, if operations that may wait together have
  addresses of their own: it completes every operation that is started on the
  way exactly once (with \<open>set_stopped\<close> only if its token can stop and stop was requested), reads
  no operation state that does not exist, leaves no trampoline behind, and at no time are more
  executions nested in each other than the scheduler's recursion depth (at least one) allows.
\<close>

theorem tr_start_returns:
  assumes "tr_current w = None" and "tr_apart x"
  shows "\<exists>w'. tr_run (CallStart x) w = Some w' \<and> tr_current w' = None \<and>
    mset (tr_log w') = mset (tr_log w) + tr_all x \<and> (\<exists>l. tr_log w' = tr_log w @ l) \<and>
    tr_peak w' \<le> max (tr_peak w) (max 1 (tr_max_depth x))"
proof -
  let ?f = "tr_new_state (tr_max_depth x) (tr_max_size x)"
  let ?w = "tr_enter 1 (tr_construct x w\<lparr>tr_current := Some ?f\<rparr>)"
  have "tr_good ?w ?f []" by (rule tr_goodI) (simp_all add: tr_new_state_def tr_queue_def)
  moreover have "tr_forest [x]" using assms(2) by simp
  ultimately obtain w1 new where r: "tr_run (CallExecute x) ?w = Some w1" and d: "tr_did [x] [] new ?f ?w w1"
    using tr_run_execute [OF tr_starts_ok] by blast
  from d obtain f1 where f1: "tr_good w1 f1 new" "max_recursion_depth f1 = tr_max_depth x"
    by (auto simp: tr_did_def tr_new_state_def)
  from tr_run_drain [OF f1(1)] obtain w2 where r2: "tr_run CallDrain w1 = Some w2"
    and m2: "mset (tr_log w2) = mset (tr_log w1) + tr_work new" and l2: "\<exists>l. tr_log w2 = tr_log w1 @ l"
    and pk2: "tr_peak w2 \<le> max (tr_peak w1) (max 1 (tr_max_depth x))" using f1(2) by auto
  let ?w' = "w2\<lparr>tr_current := None, tr_nest := 0\<rparr>"
  have "mset (tr_log w1) + tr_work new = mset (tr_log w) + tr_all x"
    and pk: "tr_peak w1 \<le> max (max (tr_peak w) 1) (max 1 (tr_max_depth x))"
    using d by (simp_all add: tr_did_def tr_new_state_def)
  then have "mset (tr_log ?w') = mset (tr_log w) + tr_all x" using m2 by simp
  moreover have "tr_run (CallStart x) w = Some ?w'"
    using assms(1) r r2 by (simp add: tr_run.simps [of "CallStart x"] Let_def)
  moreover have "\<exists>l. tr_log ?w' = tr_log w @ l" using d l2 by (auto simp: tr_did_def)
  ultimately show ?thesis using pk pk2 by (intro exI [of _ ?w']) auto
qed

text \<open>
  Two oddities.  The outermost \<open>start\<close> leaves the origin of the recursion at zero, so the estimate
  of the stack is the address itself and nothing is executed in place before the list is drained
  for the first time.  And the depth counts the schedules executed in place since the last turn of the
  drain, not those that are nested: it is not decremented when one returns.
\<close>

lemma tr_origin_never_inline:
  "tr_max_size x \<le> nat \<bar>tr_local y\<bar> \<Longrightarrow> \<not> tr_inline y (tr_new_state (tr_max_depth x) (tr_max_size x))"
  by (simp add: tr_inline_def tr_new_state_def)

definition tr_leaf :: "addr \<Rightarrow> tr_op" where
  "tr_leaf n = TrOp n False False 4096 2 70000 []"

definition tr_example :: tr_op where
  "tr_example = TrOp 1 False False 4096 2 70000
     [TrOp 2 True True 4096 2 70000 [tr_leaf 3, tr_leaf 4, tr_leaf 5], TrOp 6 False True 4096 2 70000 []]"

definition tr_thread :: tr_world where
  "tr_thread = \<lparr>tr_current = None, tr_next = (\<lambda>_. None), tr_prev = (\<lambda>_. None), tr_heap = (\<lambda>_. None),
     tr_drain_local = 69500, tr_log = [], tr_nest = 0, tr_peak = 0\<rparr>"

lemmas tr_eval = tr_example_def tr_leaf_def tr_thread_def tr_construct_def tr_enter_def tr_new_state_def tr_complete_def
  tr_execute_impl_def tr_inline_def tr_defer_def tr_pop_def

lemma tr_example_run:
  "\<exists>w. tr_run (CallStart tr_example) tr_thread = Some w \<and> tr_peak w = 2 \<and>
     map fst (tr_log w) = [1, 2, 3, 6, 4, 5]"
  by (simp add: tr_eval tr_run.simps Let_def)

theorem tr_start_returns_witness:
  "\<exists>w. tr_run (CallStart tr_example) tr_thread = Some w \<and> tr_current w = None \<and>
     mset (tr_log w) = {#(1, SetValue []), (2, SetValue []), (3, SetValue []), (4, SetValue []), (5, SetValue []),
       (6, SetStopped)#} \<and> tr_peak w \<le> 2"
proof -
  have "tr_current tr_thread = None" "tr_apart tr_example"
    by (simp_all add: tr_thread_def tr_example_def tr_leaf_def)
  from tr_start_returns [OF this] obtain w where "tr_run (CallStart tr_example) tr_thread = Some w" "tr_current w = None"
    "mset (tr_log w) = mset (tr_log tr_thread) + tr_all tr_example" "tr_peak w \<le> 2"
    by (auto simp: tr_example_def tr_thread_def)
  then show ?thesis by (intro exI [of _ w]) (simp add: tr_example_def tr_leaf_def tr_thread_def tr_execute_impl_def)
qed

end
