(* ===== verification/PoolBulk.thy ===== *)
theory PoolBulk
  imports Completions
begin

text \<open>
  \<^verbatim>\<open>bulk\<close> on the static thread pool (\<^verbatim>\<open>include/exec/static_thread_pool.hpp\<close>): the range is cut by
  \<open>even_share\<close> into as many pieces as there are agents, each agent's task calls the function on
  its piece, and the last task to finish completes the receiver.

  The pool's queues deliver every task once to some worker, with the index of the queue it was
  put on as \<open>tid\<close> (also when it was stolen); the order is arbitrary, so a queued task may run at any moment.  What
  the bulk function does to the arguments is not modelled: it is a parameter that says whether a call
  throws.  One atomic access per step, sequentially consistent.  Ghost state: the calls made, and
  what the receiver got.
\<close>

section \<open>Cutting a range\<close>

text \<open>
  All operands are converted to 64 bits, the width of \<open>std::size_t\<close>, which no shape exceeds;
  arithmetic wraps.
\<close>

definition even_share :: "64 word \<Rightarrow> 64 word \<Rightarrow> 64 word \<Rightarrow> 64 word \<times> 64 word" where
  "even_share n rank sz =
     (let avg_per_thread = n div sz;
          n_big_share = avg_per_thread + 1;
          big_shares = n mod sz;
          is_big_share = rank < big_shares;
          first = (if is_big_share then n_big_share * rank
                   else n_big_share * big_shares + (rank - big_shares) * avg_per_thread);
          last = first + (if is_big_share then n_big_share else avg_per_thread)
      in (first, last))"

definition share_bound :: "nat \<Rightarrow> nat \<Rightarrow> nat \<Rightarrow> nat" where
  "share_bound n sz k = k * (n div sz) + min k (n mod sz)"

lemma share_bound_0 [simp]: "share_bound n sz 0 = 0"
  by (simp add: share_bound_def)

lemma share_bound_all:
  assumes "0 < sz"
  shows "share_bound n sz sz = n"
proof -
  have "n mod sz < sz" using assms by simp
  then show ?thesis by (simp add: share_bound_def min_def)
qed

lemma share_bound_Suc: "share_bound n sz (Suc k) = share_bound n sz k + n div sz + (if k < n mod sz then 1 else 0)"
  by (auto simp: share_bound_def min_def)

lemma share_bound_mono: "k \<le> l \<Longrightarrow> share_bound n sz k \<le> share_bound n sz l"
  by (auto simp: share_bound_def intro: add_mono mult_le_mono)

lemma share_bound_le: "0 < sz \<Longrightarrow> k \<le> sz \<Longrightarrow> share_bound n sz k \<le> n"
  using share_bound_mono [of k sz n sz] share_bound_all [of sz n] by simp

lemma even_share_exact:
  assumes "0 < sz" and "rank < sz"
  shows "even_share n rank sz =
    (of_nat (share_bound (unat n) (unat sz) (unat rank)), of_nat (share_bound (unat n) (unat sz) (Suc (unat rank))))"
proof -
  let ?n = "unat n" and ?s = "unat sz" and ?r = "unat rank"
  have n: "n = of_nat ?n" and s: "sz = of_nat ?s" and r: "rank = of_nat ?r" by simp_all
  have q: "n div sz = of_nat (?n div ?s)" and m: "n mod sz = of_nat (?n mod ?s)"
    by (simp_all add: unat_div [symmetric] unat_mod [symmetric])
  have lt: "rank < n mod sz \<longleftrightarrow> ?r < ?n mod ?s"
    by (simp add: word_less_nat_alt unat_mod)
  show ?thesis
  proof (cases "?r < ?n mod ?s")
    case True
    then have "share_bound ?n ?s ?r = (?n div ?s + 1) * ?r" by (simp add: share_bound_def)
    with True show ?thesis
      by (simp add: even_share_def Let_def lt q share_bound_Suc algebra_simps)
  next
    case False
    then have "share_bound ?n ?s ?r = (?n div ?s + 1) * (?n mod ?s) + (?r - ?n mod ?s) * (?n div ?s)"
      by (simp add: share_bound_def min_def algebra_simps diff_mult_distrib2)
    moreover have "rank - n mod sz = of_nat (?r - ?n mod ?s)"
      using False by (simp add: of_nat_diff m)
    moreover have "\<not> rank < n mod sz" using False lt by simp
    ultimately show ?thesis using False unfolding even_share_def Let_def
      by (simp only: if_False) (simp add: q m share_bound_Suc algebra_simps)
  qed
qed

lemma even_share_unat:
  assumes "0 < sz" and "rank < sz"
  shows "unat (fst (even_share n rank sz)) = share_bound (unat n) (unat sz) (unat rank)"
    and "unat (snd (even_share n rank sz)) = share_bound (unat n) (unat sz) (Suc (unat rank))"
proof -
  have le: "share_bound (unat n) (unat sz) k \<le> unat n" if "k \<le> unat sz" for k
    using that assms(1) by (intro share_bound_le) (auto simp: unat_gt_0)
  have small: "unat (of_nat k :: 64 word) = k" if "k \<le> unat n" for k
  proof -
    have "unat n < 2 ^ LENGTH(64)" by (rule unsigned_less)
    then have "k < 2 ^ 64" using that by simp
    then show ?thesis by (simp add: unsigned_of_nat take_bit_nat_eq_self)
  qed
  have "unat rank < unat sz" using assms(2) by (simp add: word_less_nat_alt)
  then show "unat (fst (even_share n rank sz)) = share_bound (unat n) (unat sz) (unat rank)"
    and "unat (snd (even_share n rank sz)) = share_bound (unat n) (unat sz) (Suc (unat rank))"
    using even_share_exact [OF assms, of n] small le by simp_all
qed

section \<open>The shared state\<close>

record pb_cfg =
  pb_shape :: "64 word"
  pb_threads :: "32 word" \<comment> \<open>\<open>available_parallelism\<close>\<close>
  pb_parallelize :: bool
  pb_may_throw :: bool
  pb_args :: "obj list"
  pb_copy :: "int option" \<comment> \<open>whether storing the arguments throws\<close>
  pb_fun :: "64 word \<Rightarrow> 64 word \<Rightarrow> int option" \<comment> \<open>whether a call throws\<close>

definition pb_cfg_ok :: "pb_cfg \<Rightarrow> bool" where
  "pb_cfg_ok c \<longleftrightarrow> 0 < pb_threads c \<and>
     (\<not> pb_may_throw c \<longrightarrow> pb_copy c = None \<and> (\<forall>b e. pb_fun c b e = None))"

definition num_agents_required :: "pb_cfg \<Rightarrow> 32 word" where
  "num_agents_required c =
     (if pb_parallelize c then ucast (min (pb_shape c) (ucast (pb_threads c))) else 1)"

datatype pb_task =
    PbIdle
  | PbQueued
  | PbThrew int
  | PbStore int
  | PbArrive
  | PbLast
  | PbDone

datatype pb_receiver = PbSender | PbEnqueue nat | PbCompleteHere | PbLeft

record pb_state =
  pb_data :: "obj list option"
  pb_finished :: "32 word" \<comment> \<open>\<open>finished_threads_\<close>\<close>
  pb_winner :: "32 word" \<comment> \<open>\<open>thread_with_exception_\<close>\<close>
  pb_exception :: "int option"
  pb_receiver :: pb_receiver
  pb_task :: "nat \<Rightarrow> pb_task"
  pb_failed :: bool
  pb_calls :: "(64 word \<times> 64 word) list"
  pb_sent :: "compl list"

definition pb_init :: "pb_cfg \<Rightarrow> pb_state \<Rightarrow> bool" where
  "pb_init c s \<longleftrightarrow> pb_data s = None \<and> pb_finished s = 0 \<and> pb_winner s = num_agents_required c \<and>
     pb_exception s = None \<and> pb_receiver s = PbSender \<and> pb_task s = (\<lambda>_. PbIdle) \<and> \<not> pb_failed s \<and>
     pb_calls s = [] \<and> pb_sent s = []"

definition pb_goto :: "nat \<Rightarrow> pb_task \<Rightarrow> pb_state \<Rightarrow> pb_state" where
  "pb_goto i pc s = s\<lparr>pb_task := (pb_task s)(i := pc)\<rparr>"

text \<open>\<open>apply\<close> with the completion: it asserts that the arguments are there.\<close>

definition pb_apply_completion :: "pb_state \<Rightarrow> pb_state" where
  "pb_apply_completion s = (case pb_data s of
     None \<Rightarrow> s\<lparr>pb_failed := True\<rparr>
   | Some xs \<Rightarrow> s\<lparr>pb_sent := pb_sent s @ [SetValue xs]\<rparr>)"

section \<open>The receiver of the child: store the arguments, enqueue the tasks\<close>

definition pb_stored :: "pb_cfg \<Rightarrow> pb_receiver" where
  "pb_stored c = (if pb_shape c \<noteq> 0 then PbEnqueue 0 else PbCompleteHere)"

inductive pb_receiver_step :: "pb_cfg \<Rightarrow> pb_state \<Rightarrow> pb_state \<Rightarrow> bool" for c where
  recv_error: "pb_receiver s = PbSender \<Longrightarrow>
     pb_receiver_step c s (s\<lparr>pb_sent := pb_sent s @ [SetError x], pb_receiver := PbLeft\<rparr>)"
| recv_stopped: "pb_receiver s = PbSender \<Longrightarrow>
     pb_receiver_step c s (s\<lparr>pb_sent := pb_sent s @ [SetStopped], pb_receiver := PbLeft\<rparr>)"
| recv_store: "pb_receiver s = PbSender \<Longrightarrow> pb_copy c = None \<Longrightarrow>
     pb_receiver_step c s (s\<lparr>pb_data := Some (pb_args c), pb_receiver := pb_stored c\<rparr>)"
| recv_throw: "pb_receiver s = PbSender \<Longrightarrow> pb_copy c = Some e \<Longrightarrow> pb_may_throw c \<Longrightarrow>
     pb_receiver_step c s (s\<lparr>pb_sent := pb_sent s @ [SetError (Exn e)], pb_receiver := PbLeft\<rparr>)"
| recv_swallow: "pb_receiver s = PbSender \<Longrightarrow> pb_copy c = Some e \<Longrightarrow> \<not> pb_may_throw c \<Longrightarrow>
     pb_receiver_step c s (s\<lparr>pb_receiver := pb_stored c\<rparr>)"
| recv_empty: "pb_receiver s = PbCompleteHere \<Longrightarrow>
     pb_receiver_step c s ((pb_apply_completion s)\<lparr>pb_receiver := PbLeft\<rparr>)"
| recv_enqueue: "pb_receiver s = PbEnqueue i \<Longrightarrow> i < unat (num_agents_required c) \<Longrightarrow>
     pb_receiver_step c s ((pb_goto i PbQueued s)\<lparr>pb_receiver := PbEnqueue (i + 1)\<rparr>)"
| recv_return: "pb_receiver s = PbEnqueue i \<Longrightarrow> \<not> i < unat (num_agents_required c) \<Longrightarrow>
     pb_receiver_step c s (s\<lparr>pb_receiver := PbLeft\<rparr>)"

section \<open>A task\<close>

inductive pb_task_step :: "pb_cfg \<Rightarrow> nat \<Rightarrow> pb_state \<Rightarrow> pb_state \<Rightarrow> bool" for c i where
  task_compute: "pb_task s i = PbQueued \<Longrightarrow> pb_data s = Some xs \<Longrightarrow>
     (b, e) = even_share (pb_shape c) (of_nat i) (ucast (num_agents_required c)) \<Longrightarrow>
     pb_task_step c i s (pb_goto i (case pb_fun c b e of Some x \<Rightarrow> PbThrew x | None \<Rightarrow> PbArrive)
       (s\<lparr>pb_calls := pb_calls s @ [(b, e)]\<rparr>))"
| task_no_data: "pb_task s i = PbQueued \<Longrightarrow> pb_data s = None \<Longrightarrow>
     pb_task_step c i s (pb_goto i PbArrive (s\<lparr>pb_failed := True\<rparr>))"
| task_win: "pb_task s i = PbThrew x \<Longrightarrow> pb_winner s = num_agents_required c \<Longrightarrow>
     pb_task_step c i s (pb_goto i (PbStore x) (s\<lparr>pb_winner := of_nat i\<rparr>))"
| task_lose: "pb_task s i = PbThrew x \<Longrightarrow> pb_winner s \<noteq> num_agents_required c \<Longrightarrow>
     pb_task_step c i s (pb_goto i PbArrive s)"
| task_store: "pb_task s i = PbStore x \<Longrightarrow>
     pb_task_step c i s (pb_goto i PbArrive (s\<lparr>pb_exception := Some x\<rparr>))"
| task_arrive: "pb_task s i = PbArrive \<Longrightarrow>
     pb_task_step c i s
       (pb_goto i (if pb_finished s = num_agents_required c - 1 then PbLast else PbDone)
         (s\<lparr>pb_finished := pb_finished s + 1\<rparr>))"
| task_error: "pb_task s i = PbLast \<Longrightarrow> pb_exception s = Some x \<Longrightarrow>
     pb_task_step c i s (pb_goto i PbDone (s\<lparr>pb_sent := pb_sent s @ [SetError (Exn x)]\<rparr>))"
| task_value: "pb_task s i = PbLast \<Longrightarrow> pb_exception s = None \<Longrightarrow>
     pb_task_step c i s (pb_goto i PbDone (pb_apply_completion s))"

inductive pb_step :: "pb_cfg \<Rightarrow> pb_state \<Rightarrow> pb_state \<Rightarrow> bool" for c where
  pb_receive: "pb_receiver_step c s s' \<Longrightarrow> pb_step c s s'"
| pb_execute: "pb_task_step c i s s' \<Longrightarrow> pb_step c s s'"

section \<open>The invariant\<close>

abbreviation pb_n :: "pb_cfg \<Rightarrow> nat" where
  "pb_n c \<equiv> unat (num_agents_required c)"

definition pb_share :: "pb_cfg \<Rightarrow> nat \<Rightarrow> 64 word \<times> 64 word" where
  "pb_share c i = even_share (pb_shape c) (of_nat i) (ucast (num_agents_required c))"

definition pb_throws :: "pb_cfg \<Rightarrow> nat \<Rightarrow> int option" where
  "pb_throws c i = (case pb_share c i of (b, e) \<Rightarrow> pb_fun c b e)"

definition pb_begun :: "pb_state \<Rightarrow> nat set" where
  "pb_begun s = {i. pb_task s i \<noteq> PbIdle \<and> pb_task s i \<noteq> PbQueued}"

definition pb_ended :: "pb_state \<Rightarrow> nat set" where
  "pb_ended s = {i. pb_task s i = PbLast \<or> pb_task s i = PbDone}"

definition pb_quiet :: "pb_state \<Rightarrow> bool" where
  "pb_quiet s \<longleftrightarrow> pb_task s = (\<lambda>_. PbIdle)"

definition pb_inv_recv :: "pb_cfg \<Rightarrow> pb_state \<Rightarrow> bool" where
  "pb_inv_recv c s \<longleftrightarrow> (\<forall>i. pb_task s i \<noteq> PbIdle \<longrightarrow> i < pb_n c \<and> pb_data s = Some (pb_args c) \<and> pb_shape c \<noteq> 0) \<and>
     \<not> pb_failed s \<and>
     (case pb_receiver s of
        PbSender \<Rightarrow> pb_quiet s \<and> pb_sent s = []
      | PbCompleteHere \<Rightarrow> pb_quiet s \<and> pb_sent s = [] \<and> pb_data s = Some (pb_args c) \<and> pb_shape c = 0
      | PbEnqueue k \<Rightarrow> pb_data s = Some (pb_args c) \<and> pb_shape c \<noteq> 0 \<and> k \<le> pb_n c \<and>
          (\<forall>i<pb_n c. pb_task s i = PbIdle \<longleftrightarrow> k \<le> i)
      | PbLeft \<Rightarrow> pb_quiet s \<or> (\<forall>i<pb_n c. pb_task s i \<noteq> PbIdle))"

definition pb_inv_count :: "pb_cfg \<Rightarrow> pb_state \<Rightarrow> bool" where
  "pb_inv_count c s \<longleftrightarrow> unat (pb_finished s) = card (pb_ended s) \<and>
     (\<forall>i. pb_task s i = PbLast \<longrightarrow> pb_ended s = {..<pb_n c} \<and> (\<forall>j. pb_task s j = PbLast \<longrightarrow> j = i)) \<and>
     (if pb_quiet s then length (pb_sent s) = of_bool (pb_receiver s = PbLeft)
      else length (pb_sent s) = of_bool (\<forall>i<pb_n c. pb_task s i = PbDone))"

definition pb_inv_throw :: "pb_cfg \<Rightarrow> pb_state \<Rightarrow> bool" where
  "pb_inv_throw c s \<longleftrightarrow>
     (\<forall>i x. pb_task s i = PbThrew x \<or> pb_task s i = PbStore x \<longrightarrow> pb_throws c i = Some x) \<and>
     (\<forall>i x. pb_task s i = PbStore x \<longrightarrow> pb_winner s = of_nat i \<and> pb_exception s = None) \<and>
     (if pb_winner s = num_agents_required c
      then pb_exception s = None \<and> (\<forall>i\<in>pb_begun s. (\<exists>x. pb_task s i = PbThrew x) \<or> pb_throws c i = None)
      else (\<exists>j\<in>pb_begun s. pb_winner s = of_nat j \<and>
        (\<exists>x. pb_throws c j = Some x \<and> (pb_task s j = PbStore x \<or> pb_exception s = Some x))))"

definition pb_inv_calls :: "pb_cfg \<Rightarrow> pb_state \<Rightarrow> bool" where
  "pb_inv_calls c s \<longleftrightarrow> mset (pb_calls s) = image_mset (pb_share c) (mset_set (pb_begun s))"

text \<open>What a completion says.\<close>

definition pb_result :: "pb_cfg \<Rightarrow> compl \<Rightarrow> bool" where
  "pb_result c k \<longleftrightarrow> (if \<forall>i<pb_n c. pb_throws c i = None then k = SetValue (pb_args c)
     else \<exists>i<pb_n c. \<exists>x. pb_throws c i = Some x \<and> k = SetError (Exn x))"

text \<open>Without a task, the values are only sent for an empty shape.\<close>

definition pb_early :: "pb_cfg \<Rightarrow> compl \<Rightarrow> bool" where
  "pb_early c k \<longleftrightarrow> (\<forall>xs. k = SetValue xs \<longrightarrow> pb_shape c = 0 \<and> xs = pb_args c)"

definition pb_inv_sent :: "pb_cfg \<Rightarrow> pb_state \<Rightarrow> bool" where
  "pb_inv_sent c s \<longleftrightarrow> (if pb_quiet s then \<forall>k\<in>set (pb_sent s). pb_early c k else \<forall>k\<in>set (pb_sent s). pb_result c k)"

definition pb_inv :: "pb_cfg \<Rightarrow> pb_state \<Rightarrow> bool" where
  "pb_inv c s \<longleftrightarrow> pb_cfg_ok c \<and> pb_inv_recv c s \<and> pb_inv_count c s \<and> pb_inv_throw c s \<and> pb_inv_calls c s \<and> pb_inv_sent c s"

lemma pb_goto_simps [simp]:
  "pb_task (pb_goto i pc s) = (pb_task s)(i := pc)" "pb_data (pb_goto i pc s) = pb_data s"
  "pb_finished (pb_goto i pc s) = pb_finished s" "pb_winner (pb_goto i pc s) = pb_winner s"
  "pb_exception (pb_goto i pc s) = pb_exception s" "pb_receiver (pb_goto i pc s) = pb_receiver s"
  "pb_failed (pb_goto i pc s) = pb_failed s" "pb_calls (pb_goto i pc s) = pb_calls s"
  "pb_sent (pb_goto i pc s) = pb_sent s"
  by (simp_all add: pb_goto_def)

lemma pb_apply_simps [simp]:
  "pb_task (pb_apply_completion s) = pb_task s" "pb_data (pb_apply_completion s) = pb_data s"
  "pb_finished (pb_apply_completion s) = pb_finished s" "pb_winner (pb_apply_completion s) = pb_winner s"
  "pb_exception (pb_apply_completion s) = pb_exception s" "pb_receiver (pb_apply_completion s) = pb_receiver s"
  "pb_calls (pb_apply_completion s) = pb_calls s"
  "pb_data s = Some xs \<Longrightarrow> pb_failed (pb_apply_completion s) = pb_failed s"
  "pb_data s = Some xs \<Longrightarrow> pb_sent (pb_apply_completion s) = pb_sent s @ [SetValue xs]"
  by (simp_all add: pb_apply_completion_def split: option.split)

lemma unat_min_cast: "unat (ucast (min a (ucast (t :: 32 word))) :: 32 word) = min (unat (a :: 64 word)) (unat t)"
proof -
  have small: "unat t < 2 ^ 32" using unsigned_less [where 'a = nat, of t] by simp
  then have t: "unat (ucast t :: 64 word) = unat t"
    by (simp add: unsigned_ucast_eq unsigned_take_bit_eq take_bit_nat_eq_self)
  have "unat (min a (ucast t)) = min (unat a) (unat t)"
    by (auto simp: min_def word_le_nat_alt t)
  with small show ?thesis by (simp add: unsigned_ucast_eq unsigned_take_bit_eq take_bit_nat_eq_self)
qed

lemma pb_n_eq: "pb_n c = (if pb_parallelize c then min (unat (pb_shape c)) (unat (pb_threads c)) else 1)"
  by (simp add: num_agents_required_def unat_min_cast)

lemma pb_n_pos: "pb_cfg_ok c \<Longrightarrow> pb_shape c \<noteq> 0 \<Longrightarrow> 0 < pb_n c"
  by (auto simp: pb_n_eq pb_cfg_ok_def unat_gt_0 word_neq_0_conv [symmetric])

lemma pb_n_bound: "pb_n c < 2 ^ 32"
  using unsigned_less [where 'a = nat, of "num_agents_required c"] by simp

lemma pb_inv_init: "pb_cfg_ok c \<Longrightarrow> pb_init c s \<Longrightarrow> pb_inv c s"
  by (simp add: pb_inv_def pb_init_def pb_inv_recv_def pb_inv_count_def pb_inv_throw_def pb_inv_calls_def
      pb_inv_sent_def pb_quiet_def pb_begun_def pb_ended_def)

section \<open>A task keeps the invariant\<close>

lemma pb_old_task:
  assumes "pb_task_step c i s s'"
  shows "pb_task s i \<noteq> PbIdle" and "pb_task s' i \<noteq> PbIdle" and "j \<noteq> i \<Longrightarrow> pb_task s' j = pb_task s j"
    and "pb_receiver s' = pb_receiver s" and "pb_data s' = pb_data s"
  using assms by (auto elim!: pb_task_step.cases split: option.splits if_splits)

lemma pb_active:
  assumes "pb_inv_recv c s" and "pb_task s i \<noteq> PbIdle"
  shows "i < pb_n c" and "pb_data s = Some (pb_args c)" and "pb_shape c \<noteq> 0" and "\<not> pb_quiet s"
  using assms by (auto simp: pb_inv_recv_def pb_quiet_def)

lemma pb_recv_task:
  assumes "pb_task_step c i s s'" and "pb_inv_recv c s"
  shows "pb_inv_recv c s'"
proof -
  note o = pb_old_task [OF assms(1)]
  note a = pb_active [OF assms(2) o(1)]
  have f: "pb_failed s' = pb_failed s"
    using assms(1) a(2) by (auto elim!: pb_task_step.cases)
  have idle: "pb_task s' j = PbIdle \<longleftrightarrow> pb_task s j = PbIdle" for j
    using o(1,2) o(3) [of j] by (cases "j = i") auto
  then have "pb_quiet s' = pb_quiet s" by (simp add: pb_quiet_def fun_eq_iff)
  with assms(2) a(4) idle f o(4,5) show ?thesis by (cases "pb_receiver s") (simp_all add: pb_inv_recv_def)
qed

lemma pb_begun_upd: "pb_begun (pb_goto i pc s) =
    (if pc = PbIdle \<or> pc = PbQueued then pb_begun s - {i} else insert i (pb_begun s))"
  by (auto simp: pb_begun_def)

lemma pb_ended_upd: "pb_ended (pb_goto i pc s) =
    (if pc = PbLast \<or> pc = PbDone then insert i (pb_ended s) else pb_ended s - {i})"
  by (auto simp: pb_ended_def)

lemma pb_sets_upd [simp]:
  "pb_begun (s\<lparr>pb_calls := cs\<rparr>) = pb_begun s" "pb_begun (s\<lparr>pb_winner := w\<rparr>) = pb_begun s"
  "pb_begun (s\<lparr>pb_exception := x\<rparr>) = pb_begun s" "pb_begun (s\<lparr>pb_finished := f\<rparr>) = pb_begun s"
  "pb_begun (s\<lparr>pb_sent := ks\<rparr>) = pb_begun s" "pb_begun (pb_apply_completion s) = pb_begun s"
  "pb_ended (s\<lparr>pb_calls := cs\<rparr>) = pb_ended s" "pb_ended (s\<lparr>pb_winner := w\<rparr>) = pb_ended s"
  "pb_ended (s\<lparr>pb_exception := x\<rparr>) = pb_ended s" "pb_ended (s\<lparr>pb_finished := f\<rparr>) = pb_ended s"
  "pb_ended (s\<lparr>pb_sent := ks\<rparr>) = pb_ended s" "pb_ended (pb_apply_completion s) = pb_ended s"
  by (simp_all add: pb_begun_def pb_ended_def)

lemma pb_count_mid:
  assumes "pb_inv_count c s" and "pb_inv_recv c s" and "pb_task s i \<noteq> PbIdle" and "i \<notin> pb_ended s"
    and "pb_task s' = (pb_task s)(i := pc)" and "pc \<notin> {PbIdle, PbLast, PbDone}"
    and "pb_finished s' = pb_finished s" and "pb_sent s' = pb_sent s"
  shows "pb_inv_count c s'"
proof -
  have i: "i < pb_n c" "\<not> pb_quiet s" using pb_active [OF assms(2,3)] by simp_all
  have e: "pb_ended s' = pb_ended s" using assms(4-6) by (auto simp: pb_ended_def)
  have l: "pb_task s' j = PbLast \<longleftrightarrow> pb_task s j = PbLast" for j
    using assms(4-6) by (auto simp: pb_ended_def)
  have d: "\<not> (\<forall>j<pb_n c. pb_task s j = PbDone)" "\<not> (\<forall>j<pb_n c. pb_task s' j = PbDone)"
    using i(1) assms(4-6) by (auto simp: pb_ended_def)
  have "\<not> pb_quiet s'" using assms(5,6) by (auto simp: pb_quiet_def fun_eq_iff)
  with assms(1,7,8) i(2) e l d show ?thesis by (simp add: pb_inv_count_def)
qed

lemma pb_ended_bound: "pb_inv_recv c s \<Longrightarrow> pb_ended s \<subseteq> {..<pb_n c}"
  by (auto simp: pb_ended_def pb_inv_recv_def)

lemma pb_finished_arith:
  assumes "unat (pb_finished s) = k" and "k < pb_n c"
  shows "pb_finished s = num_agents_required c - 1 \<longleftrightarrow> Suc k = pb_n c" and "unat (pb_finished s + 1) = Suc k"
proof -
  have n: "num_agents_required c \<noteq> 0" using assms(2) by auto
  have "unat (num_agents_required c - 1) = pb_n c - 1" using n by (simp add: unat_minus_one)
  then show "pb_finished s = num_agents_required c - 1 \<longleftrightarrow> Suc k = pb_n c"
    using assms by (auto simp: word_unat_eq_iff)
  show "unat (pb_finished s + 1) = Suc k"
    using assms pb_n_bound [of c] by (simp add: unat_word_ariths)
qed

lemma pb_unsent:
  assumes "pb_inv_count c s" and "\<not> pb_quiet s" and "j < pb_n c" and "pb_task s j \<noteq> PbDone"
  shows "pb_sent s = []"
proof -
  have "length (pb_sent s) = of_bool (\<forall>i<pb_n c. pb_task s i = PbDone)"
    using assms(1,2) by (simp add: pb_inv_count_def)
  moreover have "(\<forall>i<pb_n c. pb_task s i = PbDone) = False" using assms(3,4) by blast
  ultimately have "length (pb_sent s) = 0" by (simp only: of_bool_eq)
  then show ?thesis by simp
qed

lemma pb_begun_same: "pb_task s i \<noteq> PbIdle \<Longrightarrow> pb_task s i \<noteq> PbQueued \<Longrightarrow> pc \<noteq> PbIdle \<Longrightarrow> pc \<noteq> PbQueued \<Longrightarrow>
    pb_begun (pb_goto i pc s) = pb_begun s"
  by (auto simp: pb_begun_def)

lemma pb_count_arrive:
  assumes "pb_inv_count c s" and "pb_inv_recv c s" and "pb_task s i = PbArrive"
    and "s' = pb_goto i (if pb_finished s = num_agents_required c - 1 then PbLast else PbDone)
      (s\<lparr>pb_finished := pb_finished s + 1\<rparr>)"
  shows "pb_inv_count c s'"
proof -
  let ?e = "pb_ended s"
  have i: "i < pb_n c" "\<not> pb_quiet s" using pb_active [OF assms(2), of i] assms(3) by simp_all
  have ie: "i \<notin> ?e" using assms(3) by (simp add: pb_ended_def)
  have sub: "?e \<subset> {..<pb_n c}" using pb_ended_bound [OF assms(2)] i(1) ie by auto
  then have fin: "finite ?e" using finite_subset by blast
  have lt: "card ?e < pb_n c" using psubset_card_mono [OF _ sub] by simp
  have k: "unat (pb_finished s) = card ?e" using assms(1) by (simp add: pb_inv_count_def)
  note ar = pb_finished_arith [OF k lt]
  have e: "pb_ended s' = insert i ?e" using assms(4) by (simp add: pb_ended_upd)
  have nolast: "pb_task s j \<noteq> PbLast" for j
    using assms(1) sub unfolding pb_inv_count_def by blast
  have full: "insert i ?e = {..<pb_n c} \<longleftrightarrow> Suc (card ?e) = pb_n c"
  proof
    assume "insert i ?e = {..<pb_n c}"
    then have "card (insert i ?e) = pb_n c" by simp
    then show "Suc (card ?e) = pb_n c" using fin ie by simp
  next
    assume "Suc (card ?e) = pb_n c"
    then have "card (insert i ?e) = card {..<pb_n c}" using fin ie by simp
    then show "insert i ?e = {..<pb_n c}" using sub i(1) by (intro card_subset_eq) auto
  qed
  have q: "\<not> pb_quiet s'" using assms(4) by (auto simp: pb_quiet_def fun_eq_iff)
  have sent: "pb_sent s = []" using pb_unsent [OF assms(1) i(2,1)] assms(3) by simp
  have notall: "\<not> (\<forall>j<pb_n c. pb_task s' j = PbDone)"
  proof (cases "Suc (card ?e) = pb_n c")
    case True
    then show ?thesis using i(1) assms(4) ar(1) by auto
  next
    case False
    then have "insert i ?e \<noteq> {..<pb_n c}" using full by simp
    then obtain j where "j < pb_n c" "j \<notin> insert i ?e" using sub i(1) by auto
    then show ?thesis using assms(4) by (auto simp: pb_ended_def)
  qed
  show ?thesis unfolding pb_inv_count_def
  proof (intro conjI allI impI)
    show "unat (pb_finished s') = card (pb_ended s')" using ar(2) e fin ie assms(4) by simp
    fix j
    assume "pb_task s' j = PbLast"
    then have "j = i" "Suc (card ?e) = pb_n c" using nolast assms(4) ar(1) by (auto split: if_splits)
    then show "pb_ended s' = {..<pb_n c}" using full e by simp
    show "k = j" if "pb_task s' k = PbLast" for k using that nolast assms(4) \<open>j = i\<close> by (auto split: if_splits)
  next
    show "if pb_quiet s' then length (pb_sent s') = of_bool (pb_receiver s' = PbLeft)
      else length (pb_sent s') = of_bool (\<forall>i<pb_n c. pb_task s' i = PbDone)"
      using q notall sent assms(4) by simp
  qed
qed

lemma pb_count_last:
  assumes "pb_inv_count c s" and "pb_inv_recv c s" and "pb_task s i = PbLast"
    and "pb_task s' = (pb_task s)(i := PbDone)" and "pb_finished s' = pb_finished s"
    and "pb_sent s' = pb_sent s @ [k]"
  shows "pb_inv_count c s'"
proof -
  have i: "i < pb_n c" "\<not> pb_quiet s" using pb_active [OF assms(2), of i] assms(3) by simp_all
  have full: "pb_ended s = {..<pb_n c}" and one: "\<And>j. pb_task s j = PbLast \<Longrightarrow> j = i"
    using assms(1,3) unfolding pb_inv_count_def by blast+
  have sent: "pb_sent s = []" using pb_unsent [OF assms(1) i(2,1)] assms(3) by simp
  have e: "pb_ended s' = pb_ended s" using assms(3,4) by (auto simp: pb_ended_def)
  have "\<forall>j<pb_n c. pb_task s' j = PbDone"
  proof (intro allI impI)
    fix j
    assume "j < pb_n c"
    then have "j \<in> pb_ended s" using full by simp
    then show "pb_task s' j = PbDone" using one [of j] assms(4) by (cases "j = i") (auto simp: pb_ended_def)
  qed
  moreover have "\<not> pb_quiet s'" using assms(4) by (auto simp: pb_quiet_def fun_eq_iff)
  moreover have "pb_task s' j \<noteq> PbLast" for j using one [of j] assms(4) by (cases "j = i") auto
  ultimately show ?thesis using assms(1,5,6) sent e by (simp add: pb_inv_count_def)
qed

lemma pb_count_task:
  assumes "pb_task_step c i s s'" and "pb_inv_count c s" and "pb_inv_recv c s"
  shows "pb_inv_count c s'"
proof -
  note a = pb_active [OF assms(3) pb_old_task(1) [OF assms(1)]]
  note mid = pb_count_mid [OF assms(2,3) pb_old_task(1) [OF assms(1)]]
  from assms(1) show ?thesis
  proof cases
    case (task_compute xs b e)
    then show ?thesis by (intro mid [of _ "case pb_fun c b e of Some x \<Rightarrow> PbThrew x | None \<Rightarrow> PbArrive"])
      (auto simp: pb_ended_def split: option.split)
  next
    case task_no_data
    then show ?thesis using a(2) by simp
  next
    case (task_win x)
    then show ?thesis by (intro mid [of _ "PbStore x"]) (auto simp: pb_ended_def)
  next
    case (task_lose x)
    then show ?thesis by (intro mid [of _ PbArrive]) (auto simp: pb_ended_def)
  next
    case (task_store x)
    then show ?thesis by (intro mid [of _ PbArrive]) (auto simp: pb_ended_def)
  next
    case task_arrive
    then show ?thesis using pb_count_arrive [OF assms(2,3)] by blast
  next
    case (task_error x)
    then show ?thesis by (intro pb_count_last [OF assms(2,3), of i]) auto
  next
    case task_value
    then show ?thesis using a(2) by (intro pb_count_last [OF assms(2,3), of i]) auto
  qed
qed

lemma pb_calls_task:
  assumes "pb_task_step c i s s'" and "pb_inv_calls c s" and "pb_inv_recv c s"
  shows "pb_inv_calls c s'"
proof -
  have "pb_begun s \<subseteq> {..<pb_n c}" using assms(3) by (auto simp: pb_begun_def pb_inv_recv_def)
  then have fin: "finite (pb_begun s)" using finite_subset by blast
  from assms(1) show ?thesis
  proof cases
    case (task_compute xs b e)
    have "i \<notin> pb_begun s" using task_compute(2) by (simp add: pb_begun_def)
    moreover have "pb_begun s' = insert i (pb_begun s)"
      using task_compute(1) by (simp add: pb_begun_upd split: option.split)
    ultimately show ?thesis using assms(2) fin task_compute(1,4)
      by (simp add: pb_inv_calls_def pb_share_def)
  next
    case task_no_data
    then show ?thesis using pb_active(2) [OF assms(3), of i] by simp
  qed (use assms(2) in \<open>simp_all add: pb_inv_calls_def pb_begun_same\<close>)
qed

lemma pb_index:
  assumes "i < pb_n c"
  shows "(of_nat i :: 32 word) \<noteq> num_agents_required c"
    and "j < pb_n c \<Longrightarrow> (of_nat j :: 32 word) = of_nat i \<Longrightarrow> j = i"
proof -
  have u: "unat (of_nat k :: 32 word) = k" if "k < pb_n c" for k
    using that pb_n_bound [of c] by (simp add: unsigned_of_nat take_bit_nat_eq_self)
  show "(of_nat i :: 32 word) \<noteq> num_agents_required c" using u [OF assms] assms by auto
  show "j = i" if "j < pb_n c" "(of_nat j :: 32 word) = of_nat i"
    using u [OF assms] u [OF that(1)] that(2) by simp
qed

text \<open>A step of task \<open>i\<close> that changes neither the winner nor the stored exception.\<close>

lemma pb_throw_quiet:
  assumes "pb_inv_throw c s" and "pb_task s' = (pb_task s)(i := pc)" and "pb_winner s' = pb_winner s"
    and "pb_exception s' = pb_exception s" and "pb_task s i \<noteq> PbIdle" and "\<And>x. pb_task s i \<noteq> PbStore x"
    and "pc \<noteq> PbIdle" and "pc \<noteq> PbQueued" and "\<And>x. pc \<noteq> PbStore x"
    and "\<And>x. pc = PbThrew x \<Longrightarrow> pb_throws c i = Some x"
    and "pb_winner s = num_agents_required c \<Longrightarrow> (\<exists>x. pc = PbThrew x) \<or> pb_throws c i = None"
  shows "pb_inv_throw c s'"
proof -
  have b: "pb_begun s' = insert i (pb_begun s)" using assms(2,7,8) by (auto simp: pb_begun_def)
  show ?thesis
  proof (cases "pb_winner s = num_agents_required c")
    case True
    then show ?thesis using assms by (auto simp: pb_inv_throw_def b)
  next
    case False
    with assms(1) obtain j x where j: "j \<in> pb_begun s" "pb_winner s = of_nat j" "pb_throws c j = Some x"
      "pb_task s j = PbStore x \<or> pb_exception s = Some x" by (auto simp: pb_inv_throw_def)
    have "pb_task s' j = PbStore x \<or> pb_exception s' = Some x" using j(4) assms(2,4,6) by auto
    with j(1-3) b have "\<exists>j\<in>pb_begun s'. pb_winner s = of_nat j \<and>
        (\<exists>x. pb_throws c j = Some x \<and> (pb_task s' j = PbStore x \<or> pb_exception s' = Some x))" by blast
    then show ?thesis using assms(1-4,6,9,10) False by (simp add: pb_inv_throw_def)
  qed
qed

lemma pb_throw_task:
  assumes "pb_task_step c i s s'" and "pb_inv_throw c s" and "pb_inv_recv c s"
  shows "pb_inv_throw c s'"
proof -
  note a = pb_active [OF assms(3) pb_old_task(1) [OF assms(1)]]
  have bound: "j < pb_n c" if "j \<in> pb_begun s" for j using that pb_active(1) [OF assms(3), of j] by (simp add: pb_begun_def)
  from assms(1) show ?thesis
  proof cases
    case (task_compute xs b e)
    then have "pb_share c i = (b, e)" by (simp add: pb_share_def)
    then have "pb_throws c i = pb_fun c b e" by (simp add: pb_throws_def)
    with task_compute show ?thesis
      by (intro pb_throw_quiet [OF assms(2), of _ i "case pb_fun c b e of Some x \<Rightarrow> PbThrew x | None \<Rightarrow> PbArrive"])
        (auto split: option.splits)
  next
    case task_no_data
    then show ?thesis using a(2) by simp
  next
    case (task_win x)
    have th: "pb_throws c i = Some x" using assms(2) task_win(2) by (simp add: pb_inv_throw_def)
    have none: "pb_exception s = None" using assms(2) task_win(3) by (simp add: pb_inv_throw_def)
    have nostore: "pb_task s j \<noteq> PbStore y" for j y
    proof
      assume st: "pb_task s j = PbStore y"
      then have "j \<in> pb_begun s" by (simp add: pb_begun_def)
      then have "pb_throws c j = None" using assms(2) task_win(3) st by (auto simp: pb_inv_throw_def)
      with assms(2) st show False by (auto simp: pb_inv_throw_def)
    qed
    have "i \<in> pb_begun s'" using task_win(1) by (simp add: pb_begun_def)
    then show ?thesis using task_win th none nostore assms(2) pb_index(1) [OF a(1)]
      by (auto simp: pb_inv_throw_def)
  next
    case (task_lose x)
    then show ?thesis by (intro pb_throw_quiet [OF assms(2), of _ i PbArrive]) auto
  next
    case (task_store x)
    have th: "pb_throws c i = Some x" "pb_winner s = of_nat i" using assms(2) task_store(2) by (auto simp: pb_inv_throw_def)
    have "pb_task s j \<noteq> PbStore y" if "j \<noteq> i" for j y
    proof
      assume st: "pb_task s j = PbStore y"
      then have "pb_winner s = of_nat j" "j \<in> pb_begun s" using assms(2) by (auto simp: pb_inv_throw_def pb_begun_def)
      then show False using pb_index(2) [OF a(1) bound] th(2) that by metis
    qed
    moreover have "i \<in> pb_begun s'" using task_store(1) by (simp add: pb_begun_def)
    ultimately show ?thesis using task_store th assms(2) pb_index(1) [OF a(1)]
      by (auto simp: pb_inv_throw_def)
  next
    case task_arrive
    have "i \<in> pb_begun s" using task_arrive(2) by (simp add: pb_begun_def)
    then have "pb_winner s = num_agents_required c \<Longrightarrow> pb_throws c i = None"
      using assms(2) task_arrive(2) by (auto simp: pb_inv_throw_def)
    then show ?thesis using task_arrive
      by (intro pb_throw_quiet [OF assms(2), of _ i "if pb_finished s = num_agents_required c - 1 then PbLast else PbDone"])
        (auto split: if_splits)
  next
    case (task_error x)
    have "pb_winner s \<noteq> num_agents_required c" using assms(2) task_error(3) by (auto simp: pb_inv_throw_def)
    then show ?thesis using task_error by (intro pb_throw_quiet [OF assms(2), of _ i PbDone]) auto
  next
    case task_value
    have "i \<in> pb_begun s" using task_value(2) by (simp add: pb_begun_def)
    then have "pb_winner s = num_agents_required c \<Longrightarrow> pb_throws c i = None"
      using assms(2) task_value(2) by (auto simp: pb_inv_throw_def)
    then show ?thesis using task_value by (intro pb_throw_quiet [OF assms(2), of _ i PbDone]) auto
  qed
qed

lemma pb_last_result:
  assumes "pb_inv_throw c s" and "pb_ended s = {..<pb_n c}" and "pb_inv_recv c s"
  shows "pb_exception s = Some x \<Longrightarrow> pb_result c (SetError (Exn x))"
    and "pb_exception s = None \<Longrightarrow> pb_result c (SetValue (pb_args c))"
proof -
  have b: "j \<in> pb_begun s" if "j < pb_n c" for j
  proof -
    have "j \<in> pb_ended s" using that assms(2) by simp
    then show ?thesis by (auto simp: pb_ended_def pb_begun_def)
  qed
  have ended: "pb_task s j = PbLast \<or> pb_task s j = PbDone" if "j < pb_n c" for j
  proof -
    have "j \<in> pb_ended s" using that assms(2) by simp
    then show ?thesis by (simp add: pb_ended_def)
  qed
  have lt: "j < pb_n c" if "j \<in> pb_begun s" for j
    using that pb_active(1) [OF assms(3), of j] by (simp add: pb_begun_def)
  {
    assume none: "pb_exception s = None"
    have "pb_winner s = num_agents_required c"
    proof (rule ccontr)
      assume "pb_winner s \<noteq> num_agents_required c"
      with assms(1) none obtain j x where j: "j \<in> pb_begun s" "pb_task s j = PbStore x" "pb_winner s = of_nat j"
        by (auto simp: pb_inv_throw_def)
      then show False using ended [OF lt [OF j(1)]] by simp
    qed
    then show "pb_result c (SetValue (pb_args c))"
      using assms(1) b ended by (fastforce simp: pb_inv_throw_def pb_result_def)
  }
  assume some: "pb_exception s = Some x"
  then have "pb_winner s \<noteq> num_agents_required c" using assms(1) by (auto simp: pb_inv_throw_def)
  with assms(1) some obtain j y where j: "j \<in> pb_begun s" "pb_throws c j = Some y"
    "pb_task s j = PbStore y \<or> pb_exception s = Some y" by (auto simp: pb_inv_throw_def)
  then have "pb_throws c j = Some x" using ended [OF lt [OF j(1)]] some by auto
  with lt [OF j(1)] show "pb_result c (SetError (Exn x))" by (auto simp: pb_result_def)
qed

lemma pb_sent_task:
  assumes "pb_task_step c i s s'" and "pb_inv_sent c s" and "pb_inv_recv c s" and "pb_inv_count c s" and "pb_inv_throw c s"
  shows "pb_inv_sent c s'"
proof -
  note a = pb_active [OF assms(3) pb_old_task(1) [OF assms(1)]]
  have nq: "\<not> pb_quiet s'" if "pb_task s' i \<noteq> PbIdle" using that by (auto simp: pb_quiet_def)
  have old: "\<forall>k\<in>set (pb_sent s). pb_result c k" using assms(2) a(4) by (simp add: pb_inv_sent_def)
  from assms(1) show ?thesis
  proof cases
    case (task_error x)
    have "pb_ended s = {..<pb_n c}" using assms(4) task_error(2) unfolding pb_inv_count_def by blast
    then show ?thesis using pb_last_result(1) [OF assms(5) _ assms(3)] task_error old nq by (simp add: pb_inv_sent_def)
  next
    case task_value
    have "pb_ended s = {..<pb_n c}" using assms(4) task_value(2) unfolding pb_inv_count_def by blast
    then show ?thesis using pb_last_result(2) [OF assms(5) _ assms(3)] task_value old a(2) nq by (simp add: pb_inv_sent_def)
  qed (use old nq in \<open>auto simp: pb_inv_sent_def split: if_splits option.splits\<close>)
qed

section \<open>The receiver's steps keep the invariant\<close>

lemma pb_quiet_inv:
  assumes "pb_inv c s" and "pb_quiet s" and "pb_quiet s'" and "pb_finished s' = pb_finished s"
    and "pb_winner s' = pb_winner s" and "pb_exception s' = pb_exception s" and "pb_calls s' = pb_calls s"
    and "pb_inv_recv c s'" and "length (pb_sent s') = of_bool (pb_receiver s' = PbLeft)"
    and "\<forall>k\<in>set (pb_sent s'). pb_early c k"
  shows "pb_inv c s'"
proof -
  have t: "pb_task s' = pb_task s" using assms(2,3) by (simp add: pb_quiet_def)
  then have "pb_begun s' = pb_begun s" "pb_ended s' = pb_ended s" by (simp_all add: pb_begun_def pb_ended_def)
  with t assms show ?thesis
    by (simp add: pb_inv_def pb_inv_count_def pb_inv_throw_def pb_inv_calls_def pb_inv_sent_def)
qed

lemma pb_inv_receiver: "pb_receiver_step c s s' \<Longrightarrow> pb_inv c s \<Longrightarrow> pb_inv c s'"
proof (induction rule: pb_receiver_step.induct)
  case (recv_error s x)
  then show ?case by (intro pb_quiet_inv [OF recv_error.prems]) (auto simp: pb_inv_def pb_inv_recv_def pb_quiet_def pb_early_def)
next
  case (recv_stopped s)
  then show ?case by (intro pb_quiet_inv [OF recv_stopped.prems]) (auto simp: pb_inv_def pb_inv_recv_def pb_quiet_def pb_early_def)
next
  case (recv_store s)
  then show ?case
    by (intro pb_quiet_inv [OF recv_store.prems]) (auto simp: pb_inv_def pb_inv_recv_def pb_quiet_def pb_stored_def pb_early_def)
next
  case (recv_throw s e)
  then show ?case by (intro pb_quiet_inv [OF recv_throw.prems]) (auto simp: pb_inv_def pb_inv_recv_def pb_quiet_def pb_early_def)
next
  case (recv_swallow s e)
  then show ?case by (simp add: pb_inv_def pb_cfg_ok_def)
next
  case (recv_empty s)
  then have "pb_data s = Some (pb_args c)" "pb_quiet s" "pb_sent s = []" "pb_shape c = 0" by (simp_all add: pb_inv_def pb_inv_recv_def)
  with recv_empty show ?case
    by (intro pb_quiet_inv [OF recv_empty.prems]) (auto simp: pb_inv_def pb_inv_recv_def pb_quiet_def pb_early_def)
next
  case (recv_enqueue s i)
  let ?s = "(pb_goto i PbQueued s)\<lparr>pb_receiver := PbEnqueue (i + 1)\<rparr>"
  have r: "pb_inv_recv c s" and k: "pb_inv_count c s" using recv_enqueue.prems by (simp_all add: pb_inv_def)
  have i: "pb_task s i = PbIdle" using r recv_enqueue.hyps by (simp add: pb_inv_recv_def)
  have sets: "pb_begun ?s = pb_begun s" "pb_ended ?s = pb_ended s" using i by (auto simp: pb_begun_def pb_ended_def)
  have nq: "\<not> pb_quiet ?s" by (auto simp: pb_quiet_def fun_eq_iff)
  have sent: "pb_sent s = []"
  proof (cases "pb_quiet s")
    case True
    then show ?thesis using k recv_enqueue.hyps(1) by (simp add: pb_inv_count_def)
  next
    case False
    then show ?thesis using pb_unsent [OF k _ recv_enqueue.hyps(2)] i by simp
  qed
  have recv: "pb_inv_recv c ?s" using r recv_enqueue.hyps by (auto simp: pb_inv_recv_def)
  have notall: "\<not> (\<forall>j<pb_n c. pb_task ?s j = PbDone)" using recv_enqueue.hyps(2) by auto
  have "pb_task ?s j = PbLast \<longleftrightarrow> pb_task s j = PbLast" for j using i by simp
  then have count: "pb_inv_count c ?s" using k sets nq notall sent by (simp add: pb_inv_count_def)
  have throw: "pb_inv_throw c ?s"
  proof -
    have t: "pb_inv_throw c s" using recv_enqueue.prems by (simp add: pb_inv_def)
    have same: "pb_task ?s j = pb_task s j" if "j \<in> pb_begun s" for j using that i by (auto simp: pb_begun_def)
    have st: "pb_task ?s j = PbThrew x \<longleftrightarrow> pb_task s j = PbThrew x" "pb_task ?s j = PbStore x \<longleftrightarrow> pb_task s j = PbStore x"
      for j x using i by simp_all
    show ?thesis using t unfolding pb_inv_throw_def sets(1) by (simp only: st) simp
  qed
  show ?case using recv_enqueue.prems recv count throw sets nq sent
    by (simp add: pb_inv_def pb_inv_calls_def pb_inv_sent_def)
next
  case (recv_return s i)
  let ?s = "s\<lparr>pb_receiver := PbLeft\<rparr>"
  have r: "pb_inv_recv c s" and k: "pb_inv_count c s" and ok: "pb_cfg_ok c" using recv_return.prems by (simp_all add: pb_inv_def)
  have e: "pb_shape c \<noteq> 0" "i = pb_n c" "\<forall>j<pb_n c. pb_task s j \<noteq> PbIdle"
    using r recv_return.hyps by (auto simp: pb_inv_recv_def)
  then have nq: "\<not> pb_quiet s" using pb_n_pos [OF ok] by (auto simp: pb_quiet_def)
  have sets: "pb_begun ?s = pb_begun s" "pb_ended ?s = pb_ended s" "pb_quiet ?s = pb_quiet s"
    by (simp_all add: pb_begun_def pb_ended_def pb_quiet_def)
  have "pb_inv_recv c ?s" using r e by (simp add: pb_inv_recv_def)
  moreover have "pb_inv_count c ?s" using k nq sets by (simp add: pb_inv_count_def)
  ultimately show ?case using recv_return.prems sets
    by (simp add: pb_inv_def pb_inv_throw_def pb_inv_calls_def pb_inv_sent_def)
qed

lemma pb_inv_task: "pb_task_step c i s s' \<Longrightarrow> pb_inv c s \<Longrightarrow> pb_inv c s'"
  using pb_recv_task pb_count_task pb_throw_task pb_calls_task pb_sent_task by (simp add: pb_inv_def)

lemma pb_inv_step: "pb_inv c s \<Longrightarrow> pb_step c s s' \<Longrightarrow> pb_inv c s'"
  by (erule pb_step.cases) (auto intro: pb_inv_receiver pb_inv_task)

interpretation pb: safe_system "\<lambda>s. pb_cfg_ok c \<and> pb_init c s" "pb_step c" "pb_inv c" for c
  by unfold_locales (auto intro: pb_inv_init pb_inv_step)

section \<open>Properties\<close>

text \<open>
  Claim C37.  The pieces cut by \<open>even_share\<close> cover the range without gaps or overlap: the first
  starts at zero, each starts where the previous one ends, the last ends at the end of the range, and
  their lengths differ by at most one, the longer ones first.  No intermediate result that matters wraps, up to
  the largest range.
\<close>

theorem pb_even_share_partition:
  assumes "0 < sz" and "rank < sz"
  shows "(rank = 0 \<longrightarrow> fst (even_share n rank sz) = 0) \<and>
    (if rank + 1 = sz then snd (even_share n rank sz) = n
     else snd (even_share n rank sz) = fst (even_share n (rank + 1) sz)) \<and>
    fst (even_share n rank sz) \<le> snd (even_share n rank sz) \<and>
    unat (snd (even_share n rank sz)) - unat (fst (even_share n rank sz)) =
      unat n div unat sz + (if unat rank < unat n mod unat sz then 1 else 0)"
proof -
  note u = even_share_unat [OF assms, of n]
  have lt: "unat rank < unat sz" using assms(2) by (simp add: word_less_nat_alt)
  then have suc: "unat (rank + 1) = Suc (unat rank)"
    using unsigned_less [where 'a = nat, of sz] by (simp add: unat_word_ariths)
  have zero: "fst (even_share n rank sz) = 0" if "rank = 0"
  proof -
    have "unat (fst (even_share n rank sz)) = unat (0 :: 64 word)" using u(1) that by simp
    then show ?thesis by (simp only: word_unat_eq_iff)
  qed
  have follow: "if rank + 1 = sz then snd (even_share n rank sz) = n
     else snd (even_share n rank sz) = fst (even_share n (rank + 1) sz)"
  proof (cases "rank + 1 = sz")
    case True
    then have "unat (snd (even_share n rank sz)) = unat n"
      using u(2) suc lt share_bound_all [of "unat sz" "unat n"] by simp
    then show ?thesis using True by (simp add: word_unat_eq_iff)
  next
    case False
    then have "Suc (unat rank) \<noteq> unat sz" using suc by (simp add: word_unat_eq_iff)
    then have "rank + 1 < sz" using lt suc by (simp add: word_less_nat_alt)
    from even_share_unat(1) [OF assms(1) this, of n] show ?thesis using False u(2) suc by (simp add: word_unat_eq_iff)
  qed
  have "fst (even_share n rank sz) \<le> snd (even_share n rank sz)"
    using u share_bound_mono [of "unat rank" "Suc (unat rank)"] by (simp add: word_le_nat_alt)
  with zero follow u show ?thesis by (simp add: share_bound_Suc)
qed

theorem pb_even_share_partition_witness:
  "even_share 11 1 3 = (4, 8) \<and> snd (even_share 11 1 3) = fst (even_share 11 2 3)"
proof -
  have e: "even_share 11 1 3 = (4, 8)" by (simp add: even_share_def)
  have "(0 :: 64 word) < 3" "(1 :: 64 word) < 3" "(1 :: 64 word) + 1 \<noteq> 3" by simp_all
  with pb_even_share_partition [of 3 1 11] e show ?thesis by simp
qed

lemma pb_share_unat:
  assumes "i < pb_n c"
  shows "unat (fst (pb_share c i)) = share_bound (unat (pb_shape c)) (pb_n c) i"
    and "unat (snd (pb_share c i)) = share_bound (unat (pb_shape c)) (pb_n c) (Suc i)"
proof -
  have n: "unat (ucast (num_agents_required c) :: 64 word) = pb_n c"
    using pb_n_bound [of c] by (simp add: unsigned_ucast_eq unsigned_take_bit_eq take_bit_nat_eq_self)
  have i: "unat (of_nat i :: 64 word) = i"
    using assms pb_n_bound [of c] by (simp add: unsigned_of_nat take_bit_nat_eq_self)
  have "(0 :: 64 word) < ucast (num_agents_required c)" "(of_nat i :: 64 word) < ucast (num_agents_required c)"
    using assms n i by (simp_all add: word_less_nat_alt)
  from even_share_unat [OF this, of "pb_shape c"] n i
  show "unat (fst (pb_share c i)) = share_bound (unat (pb_shape c)) (pb_n c) i"
    and "unat (snd (pb_share c i)) = share_bound (unat (pb_shape c)) (pb_n c) (Suc i)"
    by (simp_all add: pb_share_def)
qed

definition pb_piece :: "64 word \<times> 64 word \<Rightarrow> nat list" where
  "pb_piece p = [unat (fst p)..<unat (snd p)]"

lemma pb_pieces:
  assumes "k \<le> pb_n c"
  shows "(\<Sum>i<k. mset (pb_piece (pb_share c i))) = mset [0..<share_bound (unat (pb_shape c)) (pb_n c) k]"
  using assms
proof (induction k)
  case (Suc k)
  let ?b = "share_bound (unat (pb_shape c)) (pb_n c)"
  have "[0..<?b (Suc k)] = [0..<?b k] @ [?b k..<?b (Suc k)]"
    using share_bound_mono [of k "Suc k"] upt_add_eq_append [of 0 "?b k" "?b (Suc k) - ?b k"] by simp
  moreover have "pb_piece (pb_share c k) = [?b k..<?b (Suc k)]" using Suc.prems pb_share_unat [of k c] by (simp add: pb_piece_def)
  ultimately show ?case using Suc by simp
qed simp

lemma pb_calls_cover:
  assumes "pb_inv c s" and "\<forall>i<pb_n c. pb_task s i = PbDone" and "\<not> pb_quiet s"
  shows "mset (concat (map pb_piece (pb_calls s))) = mset [0..<unat (pb_shape c)]"
proof -
  have r: "pb_inv_recv c s" using assms(1) by (simp add: pb_inv_def)
  have b: "pb_begun s = {..<pb_n c}"
  proof (intro set_eqI iffI)
    fix i
    show "i \<in> {..<pb_n c}" if "i \<in> pb_begun s" using that pb_active(1) [OF r, of i] by (simp add: pb_begun_def)
    show "i \<in> pb_begun s" if "i \<in> {..<pb_n c}" using that assms(2) by (simp add: pb_begun_def)
  qed
  obtain j where j: "pb_task s j \<noteq> PbIdle" using assms(3) by (auto simp: pb_quiet_def)
  have n: "0 < pb_n c" using pb_active(1) [OF r j] by simp
  have "mset (concat (map pb_piece (pb_calls s))) = (\<Sum>p\<in>#mset (pb_calls s). mset (pb_piece p))"
    by (simp add: mset_concat sum_mset_sum_list [symmetric] comp_def)
  also have "\<dots> = (\<Sum>i<pb_n c. mset (pb_piece (pb_share c i)))"
    using assms(1) b by (simp add: pb_inv_def pb_inv_calls_def sum_unfold_sum_mset comp_def image_mset.compositionality)
  also have "\<dots> = mset [0..<unat (pb_shape c)]" using n share_bound_all [OF n] by (simp add: pb_pieces)
  finally show ?thesis .
qed

section \<open>The steps as functions\<close>

text \<open>The next step of the receiver, if the child sends values, and of a task.\<close>

definition pb_receiver_next :: "pb_cfg \<Rightarrow> pb_state \<Rightarrow> pb_state" where
  "pb_receiver_next c s = (case pb_receiver s of
     PbSender \<Rightarrow> (case pb_copy c of
         None \<Rightarrow> s\<lparr>pb_data := Some (pb_args c), pb_receiver := pb_stored c\<rparr>
       | Some e \<Rightarrow> if pb_may_throw c then s\<lparr>pb_sent := pb_sent s @ [SetError (Exn e)], pb_receiver := PbLeft\<rparr>
           else s\<lparr>pb_receiver := pb_stored c\<rparr>)
   | PbCompleteHere \<Rightarrow> (pb_apply_completion s)\<lparr>pb_receiver := PbLeft\<rparr>
   | PbEnqueue i \<Rightarrow> if i < unat (num_agents_required c)
       then (pb_goto i PbQueued s)\<lparr>pb_receiver := PbEnqueue (i + 1)\<rparr> else s\<lparr>pb_receiver := PbLeft\<rparr>
   | PbLeft \<Rightarrow> s)"

definition pb_task_next :: "pb_cfg \<Rightarrow> nat \<Rightarrow> pb_state \<Rightarrow> pb_state" where
  "pb_task_next c i s = (case pb_task s i of
     PbQueued \<Rightarrow> if pb_data s = None then pb_goto i PbArrive (s\<lparr>pb_failed := True\<rparr>)
       else (let p = even_share (pb_shape c) (of_nat i) (ucast (num_agents_required c))
         in pb_goto i (case pb_fun c (fst p) (snd p) of Some x \<Rightarrow> PbThrew x | None \<Rightarrow> PbArrive)
              (s\<lparr>pb_calls := pb_calls s @ [p]\<rparr>))
   | PbThrew x \<Rightarrow> if pb_winner s = num_agents_required c then pb_goto i (PbStore x) (s\<lparr>pb_winner := of_nat i\<rparr>)
       else pb_goto i PbArrive s
   | PbStore x \<Rightarrow> pb_goto i PbArrive (s\<lparr>pb_exception := Some x\<rparr>)
   | PbArrive \<Rightarrow> pb_goto i (if pb_finished s = num_agents_required c - 1 then PbLast else PbDone)
         (s\<lparr>pb_finished := pb_finished s + 1\<rparr>)
   | PbLast \<Rightarrow> (case pb_exception s of
         Some x \<Rightarrow> pb_goto i PbDone (s\<lparr>pb_sent := pb_sent s @ [SetError (Exn x)]\<rparr>)
       | None \<Rightarrow> pb_goto i PbDone (pb_apply_completion s))
   | _ \<Rightarrow> s)"

lemma pb_receiver_next_step: "pb_receiver s \<noteq> PbLeft \<Longrightarrow> pb_receiver_step c s (pb_receiver_next c s)"
proof (cases "pb_receiver s")
  case (PbEnqueue k)
  then show ?thesis using recv_enqueue [of s k c] recv_return [of s k c] by (simp add: pb_receiver_next_def)
qed (auto simp: pb_receiver_next_def intro: recv_store recv_throw recv_swallow recv_empty split: option.split)

lemma pb_task_next_step: "pb_task s i \<noteq> PbIdle \<Longrightarrow> pb_task s i \<noteq> PbDone \<Longrightarrow> pb_task_step c i s (pb_task_next c i s)"
proof (cases "pb_task s i")
  case PbQueued
  show ?thesis
  proof (cases "pb_data s")
    case None
    then show ?thesis using PbQueued by (simp add: pb_task_next_def task_no_data)
  next
    case (Some xs)
    let ?p = "even_share (pb_shape c) (of_nat i) (ucast (num_agents_required c))"
    show ?thesis using task_compute [OF PbQueued Some, of "fst ?p" "snd ?p"] PbQueued Some
      by (simp add: pb_task_next_def Let_def)
  qed
next
  case PbLast
  then show ?thesis by (cases "pb_exception s") (simp_all add: pb_task_next_def task_error task_value)
next
  case PbArrive
  then show ?thesis using task_arrive [of s i c] by (simp add: pb_task_next_def)
next
  case (PbThrew x)
  then show ?thesis by (simp add: pb_task_next_def task_win task_lose)
next
  case (PbStore x)
  then show ?thesis by (simp add: pb_task_next_def task_store)
qed simp_all

text \<open>
  Claim C38.  \<open>bulk\<close> on the pool, under any interleaving of the workers: the receiver is completed at
  most once, and the arguments are never read before they are stored.  When it has been completed,
  either the function was not called and no task exists, and the completion is not a value (the
  child's error or stop, or the exception of storing the values) unless the shape is empty; or all
  tasks are over, so that nothing touches the operation any more, every index of the shape has
  been passed to the function exactly once, and the completion is the values that the child sent if
  no call threw and otherwise an exception that a call threw.  So it completes with a value only
  after the whole shape.  Until the receiver is completed some step is possible.
\<close>

theorem pb_bulk_completes_once:
  assumes "reach (\<lambda>s. pb_cfg_ok c \<and> pb_init c s) (pb_step c) s"
  shows "\<not> pb_failed s \<and> length (pb_sent s) \<le> 1 \<and>
    (\<forall>k. pb_sent s = [k] \<longrightarrow>
       (if pb_calls s = []
        then (\<forall>i. pb_task s i = PbIdle) \<and> (\<forall>xs. k = SetValue xs \<longrightarrow> pb_shape c = 0 \<and> xs = pb_args c)
        else pb_result c k \<and> mset (concat (map pb_piece (pb_calls s))) = mset [0..<unat (pb_shape c)] \<and>
          (\<forall>i. pb_task s i = PbIdle \<or> pb_task s i = PbDone))) \<and>
    (pb_sent s = [] \<longrightarrow> (\<exists>s'. pb_step c s s'))"
proof -
  have i: "pb_inv c s" using assms by (rule pb.reach_inv)
  then have r: "pb_inv_recv c s" and n: "pb_inv_count c s" by (simp_all add: pb_inv_def)
  have fin: "\<forall>i<pb_n c. pb_task s i = PbDone" "\<not> pb_quiet s" if "pb_sent s \<noteq> []" "pb_calls s \<noteq> []"
  proof -
    have "pb_begun s \<noteq> {}" using i that(2) by (auto simp: pb_inv_def pb_inv_calls_def)
    then show q: "\<not> pb_quiet s" by (auto simp: pb_begun_def pb_quiet_def)
    show "\<forall>i<pb_n c. pb_task s i = PbDone" using pb_unsent [OF n q] that(1) by blast
  qed
  have over: "pb_task s j = PbIdle \<or> pb_task s j = PbDone" if "pb_sent s \<noteq> []" "pb_calls s \<noteq> []" for j
    using fin [OF that] pb_active(1) [OF r, of j] by blast
  have one: "length (pb_sent s) \<le> 1" using n by (simp add: pb_inv_count_def split: if_splits)
  have progress: "\<exists>s'. pb_step c s s'" if "pb_sent s = []"
  proof (cases "pb_receiver s = PbLeft")
    case False
    then show ?thesis using pb_receive [OF pb_receiver_next_step] by blast
  next
    case True
    then have q: "\<not> pb_quiet s" using n that by (auto simp: pb_inv_count_def)
    then have "\<not> (\<forall>j<pb_n c. pb_task s j = PbDone)" using n that unfolding pb_inv_count_def by fastforce
    then obtain j where "j < pb_n c" "pb_task s j \<noteq> PbDone" by blast
    moreover have "pb_task s j \<noteq> PbIdle" using r True q calculation(1) by (auto simp: pb_inv_recv_def)
    ultimately show ?thesis using pb_execute [OF pb_task_next_step] by blast
  qed
  have none: "pb_quiet s" if "pb_sent s \<noteq> []" "pb_calls s = []"
  proof (rule ccontr)
    assume q: "\<not> pb_quiet s"
    then have "\<forall>i<pb_n c. pb_task s i = PbDone" using pb_unsent [OF n q] that(1) by blast
    moreover obtain j where "pb_task s j \<noteq> PbIdle" using q by (auto simp: pb_quiet_def)
    ultimately have "j \<in> pb_begun s" "finite (pb_begun s)" using pb_active(1) [OF r] by (auto simp: pb_begun_def intro: finite_subset [of _ "{..<pb_n c}"])
    then show False using i that(2) by (auto simp: pb_inv_def pb_inv_calls_def mset_set_empty_iff)
  qed
  have "pb_result c k" if "pb_sent s = [k]" "pb_calls s \<noteq> []" for k
    using i fin(2) that by (simp add: pb_inv_def pb_inv_sent_def)
  moreover have "mset (concat (map pb_piece (pb_calls s))) = mset [0..<unat (pb_shape c)]"
    if "pb_sent s \<noteq> []" "pb_calls s \<noteq> []" using pb_calls_cover [OF i fin [OF that]] .
  moreover have "pb_early c k" "\<forall>j. pb_task s j = PbIdle" if "pb_sent s = [k]" "pb_calls s = []" for k
    using i none that by (simp_all add: pb_inv_def pb_inv_sent_def pb_quiet_def)
  ultimately show ?thesis using r one over progress by (auto simp: pb_inv_recv_def pb_early_def)
qed

definition pb_example :: pb_cfg where
  "pb_example = \<lparr>pb_shape = 5, pb_threads = 2, pb_parallelize = True, pb_may_throw = True, pb_args = [Obj 1 5],
     pb_copy = None, pb_fun = (\<lambda>b e. if b = 0 then None else Some 7)\<rparr>"

definition pb_new :: pb_state where
  "pb_new = \<lparr>pb_data = None, pb_finished = 0, pb_winner = num_agents_required pb_example, pb_exception = None,
     pb_receiver = PbSender, pb_task = (\<lambda>_. PbIdle), pb_failed = False, pb_calls = [], pb_sent = []\<rparr>"

fun pb_play :: "pb_cfg \<Rightarrow> nat option list \<Rightarrow> pb_state \<Rightarrow> pb_state option" where
  "pb_play c [] s = Some s"
| "pb_play c (None # ms) s = (if pb_receiver s = PbLeft then None else pb_play c ms (pb_receiver_next c s))"
| "pb_play c (Some i # ms) s =
     (if pb_task s i = PbIdle \<or> pb_task s i = PbDone then None else pb_play c ms (pb_task_next c i s))"

lemma pb_play_reach: "pb_play c ms s = Some s' \<Longrightarrow> reach init (pb_step c) s \<Longrightarrow> reach init (pb_step c) s'"
  by (induction c ms s rule: pb_play.induct)
    (auto split: if_splits intro: reach_step pb_receive pb_execute pb_receiver_next_step pb_task_next_step)

definition pb_moves :: "nat option list" where
  "pb_moves = [None, None, None, Some 1, Some 0, Some 1, Some 1, Some 0, Some 1, Some 1]"

lemma pb_example_run:
  "map_option (\<lambda>s. (pb_calls s, pb_sent s)) (pb_play pb_example pb_moves pb_new) =
     Some ([(3, 5), (0, 3)], [SetError (Exn 7)])"
  by code_simp

theorem pb_bulk_completes_once_witness:
  "\<exists>s. reach (\<lambda>s. pb_cfg_ok pb_example \<and> pb_init pb_example s) (pb_step pb_example) s \<and>
     pb_sent s = [SetError (Exn 7)] \<and> mset (concat (map pb_piece (pb_calls s))) = mset [0..<5]"
proof -
  have ok: "pb_cfg_ok pb_example" by (simp add: pb_cfg_ok_def pb_example_def)
  have new: "reach (\<lambda>s. pb_cfg_ok pb_example \<and> pb_init pb_example s) (pb_step pb_example) pb_new"
    by (rule reach_init) (simp add: ok pb_init_def pb_new_def)
  obtain s where s: "pb_play pb_example pb_moves pb_new = Some s"
    "pb_calls s = [(3, 5), (0, 3)]" "pb_sent s = [SetError (Exn 7)]" using pb_example_run by auto
  note r = pb_play_reach [OF s(1) new]
  have "mset (concat (map pb_piece (pb_calls s))) = mset [0..<unat (pb_shape pb_example)]"
    using pb_bulk_completes_once [OF r, THEN conjunct2, THEN conjunct2, THEN conjunct1, rule_format, of "SetError (Exn 7)"]
      s(2,3) by simp
  moreover have "unat (pb_shape pb_example) = 5" by (simp add: pb_example_def)
  ultimately have "mset (concat (map pb_piece (pb_calls s))) = mset [0..<5]" by (simp only:)
  with r s(3) show ?thesis by (intro exI [of _ s] conjI)
qed

end
