(* ===== verification/SpawnFuture.thy ===== *)
theory SpawnFuture
  imports Completions
begin

text \<open>
  \<^verbatim>\<open>spawn_future\<close> (\<^verbatim>\<open>stdexec/__detail/__spawn_future.hpp\<close>): work is started eagerly in a
  heap-allocated state; the future that is returned observes its result.  Three parties meet in one
  atomic word, \<open>__registered_receiver_\<close>: the producer (the spawned work, when it completes), the
  consumer (the future, started or abandoned) and the canceller (the stop callback of the future's
  receiver).  Between them they complete the receiver and destroy the state.

  One atomic access per step, sequentially consistent.  Requesting stop on the state's stop source
  may make the spawned work complete at once, on the same thread: this is a parameter.  The future's
  stop callback is modelled by its contract: it runs at most once and only while
  registered, at once if stop was requested before, and its destruction waits while it is running on another
  thread (\<^verbatim>\<open>StopToken\<close>).  Ghost state: what the future's receiver got, how often the state was destroyed, and
  whether anything was done that must not be: a use of the destroyed state, of an empty result or of
  an unset callback, or a violated assertion.
\<close>

section \<open>State\<close>

text \<open>The values of \<open>__registered_receiver_\<close>: null, \<open>this\<close>, \<open>this + 1\<close>, the receiver.\<close>

datatype sf_word = SfNull | SfSelf | SfCancelled | SfReceiver

datatype sf_producer = PrRunning | PrExchange | PrInvoke | PrDrop | PrSend | PrDestroy | PrDone

datatype sf_consumer =
    CoHolds \<comment> \<open>the future, or an operation that has not been started, owns the state\<close>
  | CoThrown
  | CoLeave
  | CoRegister
  | CoConsume
  | CoCas
  | CoSaw sf_word
  | CoJudge sf_word
  | CoDrop bool
  | CoSend bool
  | CoDestroy
  | CoDone

datatype sf_canceller = CaIdle | CaBegin | CaRequest | CaCas | CaCopy | CaExchange | CaInvoke | CaSend | CaReturn | CaDone

record sf_cfg =
  sf_associated :: bool \<comment> \<open>whether the scope accepts the work\<close>
  sf_sync :: bool \<comment> \<open>whether a stop request may complete the work at once\<close>
  sf_ctor :: "int option" \<comment> \<open>whether constructing the stop callback throws\<close>
  sf_copy :: "compl \<Rightarrow> int option" \<comment> \<open>whether storing a result throws\<close>

record sf_state =
  sf_word :: sf_word
  sf_result :: "compl option"
  sf_callback :: bool
  sf_stop :: bool
  sf_assoc :: bool
  sf_alive :: bool
  sf_stop_callback :: bool
  sf_producer :: sf_producer
  sf_consumer :: sf_consumer
  sf_canceller :: sf_canceller
  sf_nested :: bool
  sf_started :: bool
  sf_sent :: "compl list"
  sf_destroyed :: nat
  sf_bad :: bool

text \<open>The constructor: the word is null, the work is about to be started or was refused.\<close>

definition sf_new :: "sf_cfg \<Rightarrow> sf_state" where
  "sf_new c = \<lparr>sf_word = SfNull, sf_result = None, sf_callback = False, sf_stop = False, sf_assoc = sf_associated c,
     sf_alive = True, sf_stop_callback = False, sf_producer = PrRunning, sf_consumer = CoHolds, sf_canceller = CaIdle,
     sf_nested = False, sf_started = False, sf_sent = [], sf_destroyed = 0, sf_bad = False\<rparr>"

definition sf_init :: "sf_cfg \<Rightarrow> sf_state \<Rightarrow> bool" where
  "sf_init c s \<longleftrightarrow> s = sf_new c"

text \<open>A member of the state is accessed.\<close>

definition sf_touch :: "sf_state \<Rightarrow> sf_state" where
  "sf_touch s = s\<lparr>sf_bad := sf_bad s \<or> \<not> sf_alive s\<rparr>"

definition sf_require :: "bool \<Rightarrow> sf_state \<Rightarrow> sf_state" where
  "sf_require b s = s\<lparr>sf_bad := sf_bad s \<or> \<not> b\<rparr>"

definition sf_quiet :: "sf_state \<Rightarrow> bool" where
  "sf_quiet s \<longleftrightarrow> sf_canceller s = CaIdle \<or> sf_canceller s = CaDone"

definition sf_send :: "compl \<Rightarrow> sf_state \<Rightarrow> sf_state" where
  "sf_send k s = s\<lparr>sf_sent := sf_sent s @ [k]\<rparr>"

text \<open>\<open>__do_consume\<close>, after the future's operation has destroyed its stop callback\<close>

definition sf_do_consume :: "sf_state \<Rightarrow> sf_state" where
  "sf_do_consume s = (case sf_result s of
     None \<Rightarrow> s\<lparr>sf_bad := True\<rparr>
   | Some k \<Rightarrow> sf_send k (sf_touch s))"

definition sf_destroy :: "sf_state \<Rightarrow> sf_state" where
  "sf_destroy s = (sf_touch s)\<lparr>sf_alive := False, sf_assoc := False, sf_destroyed := sf_destroyed s + 1\<rparr>"

section \<open>The producer\<close>

text \<open>\<open>__spawn_future_receiver::__set_complete\<close>\<close>

definition sf_stored :: "sf_cfg \<Rightarrow> compl \<Rightarrow> compl" where
  "sf_stored c k = (case sf_copy c k of Some e \<Rightarrow> SetError (Exn e) | None \<Rightarrow> k)"

definition sf_complete_next :: "sf_word \<Rightarrow> sf_producer" where
  "sf_complete_next old = (case old of
     SfNull \<Rightarrow> PrDone
   | SfSelf \<Rightarrow> PrDestroy
   | SfCancelled \<Rightarrow> PrDone
   | SfReceiver \<Rightarrow> PrInvoke)"

inductive sf_producer_step :: "sf_cfg \<Rightarrow> sf_state \<Rightarrow> sf_state \<Rightarrow> bool" for c where
  pr_complete: "sf_producer s = PrRunning \<Longrightarrow> sf_associated c \<or> k = SetStopped \<Longrightarrow>
     n \<longrightarrow> sf_sync c \<and> sf_canceller s = CaRequest \<Longrightarrow>
     sf_producer_step c s ((sf_touch s)\<lparr>sf_result := Some (sf_stored c k), sf_nested := n, sf_producer := PrExchange\<rparr>)"
| pr_exchange: "sf_producer s = PrExchange \<Longrightarrow>
     sf_producer_step c s ((sf_touch s)\<lparr>sf_word := SfSelf, sf_producer := sf_complete_next (sf_word s)\<rparr>)"
| pr_invoke: "sf_producer s = PrInvoke \<Longrightarrow>
     sf_producer_step c s ((sf_require (sf_callback s) (sf_touch s))\<lparr>sf_producer := PrDrop\<rparr>)"
| pr_drop: "sf_producer s = PrDrop \<Longrightarrow> sf_nested s \<or> sf_quiet s \<Longrightarrow>
     sf_producer_step c s (s\<lparr>sf_stop_callback := False, sf_producer := PrSend\<rparr>)"
| pr_send: "sf_producer s = PrSend \<Longrightarrow>
     sf_producer_step c s ((sf_do_consume s)\<lparr>sf_producer := PrDestroy\<rparr>)"
| pr_destroy: "sf_producer s = PrDestroy \<Longrightarrow>
     sf_producer_step c s ((sf_destroy s)\<lparr>sf_producer := PrDone\<rparr>)"

section \<open>The consumer\<close>

text \<open>
  \<open>__abandon\<close>; the operation of the future: \<open>__start\<close>, \<open>__run\<close>; \<open>__consume\<close>.  When the callback
  is constructed after stop was requested, it runs within its constructor.
\<close>

inductive sf_consumer_step :: "sf_cfg \<Rightarrow> sf_state \<Rightarrow> sf_state \<Rightarrow> bool" for c where
  co_abandon: "sf_consumer s = CoHolds \<Longrightarrow>
     sf_consumer_step c s ((sf_touch s)\<lparr>sf_stop := True, sf_consumer := CoLeave\<rparr>)"
| co_abandon_thrown: "sf_consumer s = CoThrown \<Longrightarrow>
     sf_consumer_step c s ((sf_touch s)\<lparr>sf_stop := True, sf_consumer := CoLeave\<rparr>)"
| co_leave: "sf_consumer s = CoLeave \<Longrightarrow>
     sf_consumer_step c s ((sf_require (sf_word s = SfNull \<or> sf_word s = SfSelf) (sf_touch s))
       \<lparr>sf_word := SfSelf, sf_consumer := if sf_word s = SfNull then CoDone else CoDestroy\<rparr>)"
| co_throw: "sf_consumer s = CoHolds \<Longrightarrow> sf_ctor c = Some e \<Longrightarrow>
     sf_consumer_step c s ((sf_send (SetError (Exn e)) s)\<lparr>sf_started := True, sf_consumer := CoThrown\<rparr>)"
| co_register: "sf_consumer s = CoHolds \<Longrightarrow> sf_ctor c = None \<Longrightarrow>
     sf_consumer_step c s (s\<lparr>sf_started := True, sf_stop_callback := True, sf_consumer := CoConsume\<rparr>)"
| co_register_stopped: "sf_consumer s = CoHolds \<Longrightarrow> sf_ctor c = None \<Longrightarrow>
     sf_consumer_step c s (s\<lparr>sf_started := True, sf_stop_callback := True, sf_canceller := CaBegin,
       sf_consumer := CoRegister\<rparr>)"
| co_registered: "sf_consumer s = CoRegister \<Longrightarrow> sf_canceller s = CaDone \<Longrightarrow>
     sf_consumer_step c s (s\<lparr>sf_consumer := CoConsume\<rparr>)"
| co_publish: "sf_consumer s = CoConsume \<Longrightarrow>
     sf_consumer_step c s ((sf_touch s)\<lparr>sf_callback := True, sf_consumer := CoCas\<rparr>)"
| co_cas: "sf_consumer s = CoCas \<Longrightarrow> sf_word s = SfNull \<Longrightarrow>
     sf_consumer_step c s ((sf_touch s)\<lparr>sf_word := SfReceiver, sf_consumer := CoDone\<rparr>)"
| co_cas_fails: "sf_consumer s = CoCas \<Longrightarrow> sf_word s \<noteq> SfNull \<Longrightarrow>
     sf_consumer_step c s ((sf_touch s)\<lparr>sf_consumer := CoSaw (sf_word s)\<rparr>)"
| co_withdraw: "sf_consumer s = CoSaw SfCancelled \<Longrightarrow>
     sf_consumer_step c s ((sf_touch s)\<lparr>sf_word := SfSelf, sf_consumer := CoJudge (sf_word s)\<rparr>)"
| co_other: "sf_consumer s = CoSaw w \<Longrightarrow> w \<noteq> SfCancelled \<Longrightarrow>
     sf_consumer_step c s (s\<lparr>sf_consumer := CoJudge w\<rparr>)"
| co_ready: "sf_consumer s = CoJudge SfSelf \<Longrightarrow>
     sf_consumer_step c s (s\<lparr>sf_consumer := CoDrop True\<rparr>)"
| co_too_late: "sf_consumer s = CoJudge w \<Longrightarrow> w \<noteq> SfSelf \<Longrightarrow>
     sf_consumer_step c s ((sf_require (w = SfCancelled) s)\<lparr>sf_consumer := CoDrop False\<rparr>)"
| co_drop: "sf_consumer s = CoDrop b \<Longrightarrow> sf_quiet s \<Longrightarrow>
     sf_consumer_step c s (s\<lparr>sf_stop_callback := False, sf_consumer := CoSend b\<rparr>)"
| co_send_result: "sf_consumer s = CoSend True \<Longrightarrow>
     sf_consumer_step c s ((sf_do_consume s)\<lparr>sf_consumer := CoDestroy\<rparr>)"
| co_send_stopped: "sf_consumer s = CoSend False \<Longrightarrow>
     sf_consumer_step c s ((sf_send SetStopped s)\<lparr>sf_consumer := CoDone\<rparr>)"
| co_destroy: "sf_consumer s = CoDestroy \<Longrightarrow>
     sf_consumer_step c s ((sf_destroy s)\<lparr>sf_consumer := CoDone\<rparr>)"

section \<open>The canceller\<close>

text \<open>
  \<open>__do_try_cancel\<close>.  \<open>CaRequest\<close>: inside \<open>request_stop\<close>, which uses the stop source again
  after the callbacks it has invoked have returned.
\<close>

inductive sf_cancel_step :: "sf_cfg \<Rightarrow> sf_state \<Rightarrow> sf_state \<Rightarrow> bool" for c where
  ca_start: "sf_canceller s = CaIdle \<Longrightarrow> sf_stop_callback s \<Longrightarrow>
     sf_cancel_step c s (s\<lparr>sf_canceller := CaBegin\<rparr>)"
| ca_request: "sf_canceller s = CaBegin \<Longrightarrow>
     sf_cancel_step c s ((sf_touch s)\<lparr>sf_stop := True, sf_canceller := CaRequest\<rparr>)"
| ca_requested: "sf_canceller s = CaRequest \<Longrightarrow> \<not> sf_nested s \<or> sf_producer s = PrDone \<Longrightarrow>
     sf_cancel_step c s ((sf_touch s)\<lparr>sf_canceller := CaCas\<rparr>)"
| ca_cas: "sf_canceller s = CaCas \<Longrightarrow> sf_word s = SfNull \<Longrightarrow>
     sf_cancel_step c s ((sf_touch s)\<lparr>sf_word := SfCancelled, sf_canceller := CaReturn\<rparr>)"
| ca_cas_complete: "sf_canceller s = CaCas \<Longrightarrow> sf_word s = SfSelf \<Longrightarrow>
     sf_cancel_step c s ((sf_touch s)\<lparr>sf_canceller := CaReturn\<rparr>)"
| ca_cas_receiver: "sf_canceller s = CaCas \<Longrightarrow> sf_word s \<noteq> SfNull \<Longrightarrow> sf_word s \<noteq> SfSelf \<Longrightarrow>
     sf_cancel_step c s ((sf_require (sf_word s = SfReceiver) (sf_touch s))\<lparr>sf_canceller := CaCopy\<rparr>)"
| ca_copy: "sf_canceller s = CaCopy \<Longrightarrow>
     sf_cancel_step c s ((sf_require (sf_callback s) (sf_touch s))\<lparr>sf_canceller := CaExchange\<rparr>)"
| ca_exchange: "sf_canceller s = CaExchange \<Longrightarrow>
     sf_cancel_step c s ((sf_require (sf_word s = SfReceiver \<or> sf_word s = SfSelf) (sf_touch s))
       \<lparr>sf_word := SfSelf, sf_canceller := if sf_word s = SfReceiver then CaInvoke else CaReturn\<rparr>)"
| ca_invoke: "sf_canceller s = CaInvoke \<Longrightarrow>
     sf_cancel_step c s (s\<lparr>sf_stop_callback := False, sf_canceller := CaSend\<rparr>)"
| ca_send: "sf_canceller s = CaSend \<Longrightarrow>
     sf_cancel_step c s ((sf_send SetStopped s)\<lparr>sf_canceller := CaReturn\<rparr>)"
| ca_return: "sf_canceller s = CaReturn \<Longrightarrow>
     sf_cancel_step c s (s\<lparr>sf_canceller := CaDone\<rparr>)"

inductive sf_step :: "sf_cfg \<Rightarrow> sf_state \<Rightarrow> sf_state \<Rightarrow> bool" for c where
  sf_produce: "sf_producer_step c s s' \<Longrightarrow> sf_step c s s'"
| sf_consume: "sf_consumer_step c s s' \<Longrightarrow> sf_step c s s'"
| sf_cancel: "sf_cancel_step c s s' \<Longrightarrow> sf_step c s s'"

section \<open>The invariant\<close>

abbreviation sf_unfinished :: "sf_state \<Rightarrow> bool" where
  "sf_unfinished s \<equiv> sf_producer s = PrRunning \<or> sf_producer s = PrExchange"

definition sf_inv_all :: "sf_cfg \<Rightarrow> sf_state \<Rightarrow> bool" where
  "sf_inv_all c s \<longleftrightarrow> \<not> sf_sync c \<and> \<not> sf_nested s \<and> \<not> sf_bad s \<and> (sf_result s = None \<longleftrightarrow> sf_producer s = PrRunning) \<and>
     sf_destroyed s = of_bool (\<not> sf_alive s) \<and> (sf_assoc s \<longleftrightarrow> sf_associated c \<and> sf_alive s) \<and>
     (sf_stop_callback s \<longrightarrow> sf_ctor c = None) \<and>
     (sf_canceller s \<noteq> CaIdle \<and> sf_canceller s \<noteq> CaBegin \<longrightarrow> sf_stop s)"

definition sf_early :: "sf_cfg \<Rightarrow> sf_state \<Rightarrow> bool" where
  "sf_early c s \<longleftrightarrow> (case sf_consumer s of
     CoHolds \<Rightarrow> \<not> sf_started s \<and> sf_sent s = [] \<and> sf_canceller s = CaIdle \<and> \<not> sf_stop_callback s
   | CoThrown \<Rightarrow> sf_started s \<and> sf_canceller s = CaIdle \<and> \<not> sf_stop_callback s \<and>
       (\<exists>e. sf_ctor c = Some e \<and> sf_sent s = [SetError (Exn e)])
   | CoLeave \<Rightarrow> sf_stop s \<and> sf_canceller s = CaIdle \<and> \<not> sf_stop_callback s \<and>
       (if sf_started s then \<exists>e. sf_ctor c = Some e \<and> sf_sent s = [SetError (Exn e)] else sf_sent s = [])
   | CoRegister \<Rightarrow> sf_started s \<and> sf_sent s = [] \<and> sf_stop_callback s \<and> sf_canceller s \<noteq> CaIdle
   | CoConsume \<Rightarrow> sf_started s \<and> sf_sent s = [] \<and> sf_stop_callback s
   | CoCas \<Rightarrow> sf_started s \<and> sf_sent s = [] \<and> sf_stop_callback s \<and> sf_callback s
   | _ \<Rightarrow> False)"

definition sf_null :: "sf_cfg \<Rightarrow> sf_state \<Rightarrow> bool" where
  "sf_null c s \<longleftrightarrow> sf_word s = SfNull \<and> sf_unfinished s \<and> sf_alive s \<and> sf_early c s \<and>
     sf_canceller s \<in> {CaIdle, CaBegin, CaRequest, CaCas}"

definition sf_cancelled :: "sf_cfg \<Rightarrow> sf_state \<Rightarrow> bool" where
  "sf_cancelled c s \<longleftrightarrow> sf_word s = SfCancelled \<and> sf_unfinished s \<and> sf_alive s \<and>
     (sf_early c s \<or> sf_consumer s = CoSaw SfCancelled \<and> sf_started s \<and> sf_sent s = [] \<and> sf_stop_callback s) \<and>
     sf_canceller s \<in> {CaReturn, CaDone}"

definition sf_waiting :: "sf_state \<Rightarrow> bool" where
  "sf_waiting s \<longleftrightarrow> sf_word s = SfReceiver \<and> sf_unfinished s \<and> sf_alive s \<and> sf_consumer s = CoDone \<and> sf_started s \<and>
     sf_sent s = [] \<and> sf_stop_callback s \<and> sf_callback s \<and>
     sf_canceller s \<in> {CaIdle, CaBegin, CaRequest, CaCas, CaCopy, CaExchange}"

text \<open>What the receiver may be told when it is not told the result.\<close>

definition sf_other :: "sf_cfg \<Rightarrow> sf_state \<Rightarrow> bool" where
  "sf_other c s \<longleftrightarrow> sf_stop s \<and> (if sf_started s
     then sf_sent s = [SetStopped] \<or> (\<exists>e. sf_ctor c = Some e \<and> sf_sent s = [SetError (Exn e)]) else sf_sent s = [])"

text \<open>The word is \<open>this\<close>: who wrote it first decides who cleans up.\<close>

definition sf_ready :: "sf_cfg \<Rightarrow> sf_state \<Rightarrow> bool" where
  "sf_ready c s \<longleftrightarrow> sf_word s = SfSelf \<and> sf_producer s = PrDone \<and> (sf_alive s \<longleftrightarrow> sf_consumer s \<noteq> CoDone) \<and>
     sf_canceller s \<in> {CaIdle, CaBegin, CaRequest, CaCas, CaReturn, CaDone} \<and>
     (sf_early c s \<or>
      sf_consumer s \<in> {CoSaw SfCancelled, CoSaw SfSelf, CoJudge SfSelf, CoDrop True} \<and> sf_started s \<and> sf_sent s = [] \<and>
        sf_stop_callback s \<or>
      sf_consumer s = CoSend True \<and> sf_started s \<and> sf_sent s = [] \<and> sf_quiet s \<and> \<not> sf_stop_callback s \<or>
      sf_consumer s \<in> {CoDestroy, CoDone} \<and> sf_quiet s \<and> \<not> sf_stop_callback s \<and>
        (sf_other c s \<or> sf_started s \<and> sf_sent s = [the (sf_result s)]))"

definition sf_serving :: "sf_state \<Rightarrow> bool" where
  "sf_serving s \<longleftrightarrow> sf_word s = SfSelf \<and> sf_consumer s = CoDone \<and> sf_started s \<and> sf_callback s \<and>
     (sf_alive s \<longleftrightarrow> sf_producer s \<noteq> PrDone) \<and>
     (sf_producer s \<in> {PrInvoke, PrDrop} \<and> sf_stop_callback s \<and> sf_sent s = [] \<and>
        sf_canceller s \<notin> {CaInvoke, CaSend} \<or>
      sf_producer s = PrSend \<and> \<not> sf_stop_callback s \<and> sf_quiet s \<and> sf_sent s = [] \<or>
      sf_producer s \<in> {PrDestroy, PrDone} \<and> \<not> sf_stop_callback s \<and> sf_quiet s \<and> sf_sent s = [the (sf_result s)])"

definition sf_withdrawn :: "sf_cfg \<Rightarrow> sf_state \<Rightarrow> bool" where
  "sf_withdrawn c s \<longleftrightarrow>
     sf_consumer s = CoDone \<and> sf_canceller s = CaIdle \<and> \<not> sf_stop_callback s \<and> sf_other c s \<or>
     sf_consumer s \<in> {CoJudge SfCancelled, CoDrop False} \<and> sf_started s \<and> sf_stop_callback s \<and> sf_sent s = [] \<and>
       sf_canceller s \<in> {CaReturn, CaDone} \<or>
     sf_consumer s = CoSend False \<and> sf_started s \<and> \<not> sf_stop_callback s \<and> sf_sent s = [] \<and> sf_canceller s = CaDone \<or>
     sf_consumer s = CoDone \<and> sf_canceller s = CaInvoke \<and> sf_started s \<and> sf_stop_callback s \<and> sf_sent s = [] \<or>
     sf_consumer s = CoDone \<and> sf_canceller s = CaSend \<and> sf_started s \<and> \<not> sf_stop_callback s \<and> sf_sent s = [] \<or>
     sf_consumer s = CoDone \<and> sf_canceller s \<in> {CaReturn, CaDone} \<and> \<not> sf_stop_callback s \<and> sf_other c s"

definition sf_left :: "sf_cfg \<Rightarrow> sf_state \<Rightarrow> bool" where
  "sf_left c s \<longleftrightarrow> sf_word s = SfSelf \<and> (sf_unfinished s \<or> sf_producer s = PrDestroy \<or> sf_producer s = PrDone) \<and>
     (sf_alive s \<longleftrightarrow> sf_producer s \<noteq> PrDone) \<and> sf_withdrawn c s"

definition sf_inv :: "sf_cfg \<Rightarrow> sf_state \<Rightarrow> bool" where
  "sf_inv c s \<longleftrightarrow> sf_inv_all c s \<and>
     (sf_null c s \<or> sf_cancelled c s \<or> sf_waiting s \<or> sf_ready c s \<or> sf_serving s \<or> sf_left c s)"

lemmas sf_defs = sf_touch_def sf_require_def sf_quiet_def sf_send_def sf_do_consume_def sf_destroy_def sf_complete_next_def
lemmas sf_inv_defs = sf_inv_def sf_inv_all_def sf_null_def sf_cancelled_def sf_waiting_def sf_ready_def sf_serving_def
  sf_left_def sf_early_def sf_other_def sf_withdrawn_def

lemma sf_inv_init: "\<not> sf_sync c \<Longrightarrow> sf_init c s \<Longrightarrow> sf_inv c s"
  by (simp add: sf_init_def sf_new_def sf_inv_defs)

lemma sf_early_other:
  assumes "sf_consumer s' = sf_consumer s" and "sf_started s' = sf_started s" and "sf_sent s' = sf_sent s"
    and "sf_canceller s' = CaIdle \<longleftrightarrow> sf_canceller s = CaIdle" and "sf_stop_callback s' = sf_stop_callback s"
    and "sf_callback s' = sf_callback s" and "sf_stop s \<longrightarrow> sf_stop s'"
  shows "sf_early c s \<Longrightarrow> sf_early c s'"
  using assms by (auto simp: sf_early_def split: sf_consumer.splits)

lemma sf_withdrawn_other:
  assumes "sf_consumer s' = sf_consumer s" and "sf_started s' = sf_started s" and "sf_sent s' = sf_sent s"
    and "sf_canceller s' = sf_canceller s" and "sf_stop_callback s' = sf_stop_callback s" and "sf_stop s' = sf_stop s"
  shows "sf_withdrawn c s' = sf_withdrawn c s"
  unfolding sf_withdrawn_def sf_other_def assms ..

section \<open>The producer keeps the invariant\<close>

lemma sf_null_produce:
  assumes "sf_producer_step c s s'" and "sf_inv_all c s" and "sf_null c s"
  shows "sf_inv_all c s' \<and> (sf_null c s' \<or> sf_ready c s')"
  using assms(1)
proof cases
  case (pr_complete k n)
  have "sf_early c s'" by (rule sf_early_other [of _ s]) (use pr_complete assms(3) in \<open>auto simp: sf_null_def sf_touch_def\<close>)
  then have "sf_null c s'" using pr_complete assms(3) by (auto simp: sf_null_def sf_touch_def)
  moreover have "sf_inv_all c s'" using pr_complete assms(2,3) by (auto simp: sf_inv_all_def sf_null_def sf_touch_def)
  ultimately show ?thesis by blast
next
  case pr_exchange
  have "sf_early c s'" by (rule sf_early_other [of _ s]) (use pr_exchange assms(3) in \<open>auto simp: sf_null_def sf_touch_def\<close>)
  moreover have "sf_consumer s \<noteq> CoDone" using assms(3) by (auto simp: sf_null_def sf_early_def)
  ultimately have "sf_ready c s'" using pr_exchange assms(3) by (auto simp: sf_null_def sf_ready_def sf_touch_def sf_complete_next_def)
  moreover have "sf_inv_all c s'"
    using pr_exchange assms(2,3) by (auto simp: sf_inv_all_def sf_null_def sf_touch_def sf_complete_next_def)
  ultimately show ?thesis by blast
qed (use assms(3) in \<open>auto simp: sf_null_def\<close>)

lemma sf_cancelled_produce:
  assumes "sf_producer_step c s s'" and "sf_inv_all c s" and "sf_cancelled c s"
  shows "sf_inv_all c s' \<and> (sf_cancelled c s' \<or> sf_ready c s')"
  using assms(1)
proof cases
  case (pr_complete k n)
  have "sf_early c s \<Longrightarrow> sf_early c s'"
    by (rule sf_early_other [of _ s]) (use pr_complete assms(3) in \<open>auto simp: sf_cancelled_def sf_touch_def\<close>)
  then have "sf_cancelled c s'" using pr_complete assms(3) by (auto simp: sf_cancelled_def sf_touch_def)
  moreover have "sf_inv_all c s'" using pr_complete assms(2,3) by (auto simp: sf_inv_all_def sf_cancelled_def sf_touch_def)
  ultimately show ?thesis by blast
next
  case pr_exchange
  have "sf_early c s \<Longrightarrow> sf_early c s'"
    by (rule sf_early_other [of _ s]) (use pr_exchange assms(3) in \<open>auto simp: sf_cancelled_def sf_touch_def\<close>)
  moreover have "sf_consumer s \<noteq> CoDone" using assms(3) by (auto simp: sf_cancelled_def sf_early_def)
  ultimately have "sf_ready c s'"
    using pr_exchange assms(3) by (auto simp: sf_cancelled_def sf_ready_def sf_touch_def sf_complete_next_def)
  moreover have "sf_inv_all c s'"
    using pr_exchange assms(2,3) by (auto simp: sf_inv_all_def sf_cancelled_def sf_touch_def sf_complete_next_def)
  ultimately show ?thesis by blast
qed (use assms(3) in \<open>auto simp: sf_cancelled_def\<close>)

lemma sf_waiting_produce:
  assumes "sf_producer_step c s s'" and "sf_inv_all c s" and "sf_waiting s"
  shows "sf_inv_all c s' \<and> (sf_waiting s' \<or> sf_serving s')"
  using assms(1)
  by cases (use assms(2,3) in \<open>auto simp: sf_inv_all_def sf_waiting_def sf_serving_def sf_touch_def sf_complete_next_def\<close>)

lemma sf_serving_produce:
  assumes "sf_producer_step c s s'" and "sf_inv_all c s" and "sf_serving s"
  shows "sf_inv_all c s' \<and> sf_serving s'"
  using assms(1)
  by cases (use assms(2,3) in \<open>auto simp: sf_inv_all_def sf_serving_def sf_quiet_def sf_do_consume_def sf_destroy_def sf_touch_def sf_require_def sf_send_def\<close>)

lemma sf_left_produce:
  assumes "sf_producer_step c s s'" and "sf_inv_all c s" and "sf_left c s"
  shows "sf_inv_all c s' \<and> sf_left c s'"
proof -
  have "sf_producer s \<noteq> PrDrop" "sf_producer s \<noteq> PrSend" "sf_producer s \<noteq> PrInvoke"
    using assms(3) by (auto simp: sf_left_def)
  with assms(1) have "sf_consumer s' = sf_consumer s \<and> sf_started s' = sf_started s \<and> sf_sent s' = sf_sent s \<and>
      sf_canceller s' = sf_canceller s \<and> sf_stop_callback s' = sf_stop_callback s \<and> sf_stop s' = sf_stop s"
    by cases (simp_all add: sf_destroy_def sf_touch_def)
  then have "sf_withdrawn c s' = sf_withdrawn c s" by (intro sf_withdrawn_other) simp_all
  moreover have "sf_withdrawn c s" using assms(3) by (simp add: sf_left_def)
  ultimately have w: "sf_withdrawn c s'" by simp
  from assms(1) show ?thesis
    by cases (use assms(2,3) w in \<open>auto simp: sf_inv_all_def sf_left_def sf_destroy_def sf_complete_next_def sf_touch_def\<close>)
qed

lemma sf_ready_produce: "sf_producer_step c s s' \<Longrightarrow> \<not> sf_ready c s"
  by (erule sf_producer_step.cases) (auto simp: sf_ready_def)

section \<open>The consumer keeps the invariant\<close>

lemma sf_null_consume:
  assumes "sf_consumer_step c s s'" and "sf_inv_all c s" and "sf_null c s"
  shows "sf_inv_all c s' \<and> (sf_null c s' \<or> sf_waiting s' \<or> sf_left c s')"
  using assms(1)
  by cases (use assms(2,3) in \<open>auto simp: sf_inv_all_def sf_null_def sf_early_def sf_waiting_def sf_left_def sf_withdrawn_def sf_other_def sf_touch_def sf_require_def sf_send_def\<close>)

lemma sf_cancelled_consume:
  assumes "sf_consumer_step c s s'" and "sf_inv_all c s" and "sf_cancelled c s"
  shows "sf_inv_all c s' \<and> (sf_cancelled c s' \<or> sf_left c s')"
  using assms(1)
  by cases (use assms(2,3) in \<open>auto simp: sf_inv_all_def sf_cancelled_def sf_early_def sf_left_def sf_withdrawn_def sf_touch_def sf_require_def sf_send_def\<close>)

lemmas sf_ready_defs = sf_inv_all_def sf_ready_def sf_early_def sf_quiet_def sf_touch_def sf_require_def

lemma sf_ready_consume:
  assumes "sf_consumer_step c s s'" and "sf_inv_all c s" and "sf_ready c s"
  shows "sf_inv_all c s' \<and> sf_ready c s'"
  using assms(1)
proof cases
  case co_send_result
  obtain k where k: "sf_result s = Some k" using assms(2,3) by (cases "sf_result s") (simp_all add: sf_inv_all_def sf_ready_def)
  have q: "sf_started s" "sf_sent s = []" "sf_quiet s" "\<not> sf_stop_callback s"
    using assms(3) co_send_result(2) by (simp_all add: sf_ready_def sf_early_def)
  then have "sf_sent s' = [the (sf_result s')]" "sf_started s'" "sf_quiet s'" "\<not> sf_stop_callback s'" "sf_consumer s' = CoDestroy"
    using co_send_result k by (simp_all add: sf_do_consume_def sf_send_def sf_touch_def sf_quiet_def)
  moreover have "sf_word s' = SfSelf" "sf_producer s' = PrDone" "sf_alive s'" "sf_canceller s' = sf_canceller s"
    using co_send_result assms(3) k by (simp_all add: sf_ready_def sf_do_consume_def sf_send_def sf_touch_def)
  moreover have "sf_inv_all c s'"
    using co_send_result assms(2,3) k by (simp add: sf_inv_all_def sf_ready_def sf_do_consume_def sf_send_def sf_touch_def)
  ultimately show ?thesis by (auto simp: sf_ready_def sf_quiet_def)
next
  case co_leave
  have w: "sf_word s = SfSelf" "sf_producer s = PrDone" "sf_alive s" "sf_early c s" "sf_canceller s = CaIdle" "\<not> sf_stop_callback s"
    using assms(3) co_leave(2) by (simp_all add: sf_ready_def sf_early_def)
  have "sf_other c s" using w(4) co_leave(2) by (auto simp: sf_early_def sf_other_def)
  then have "sf_other c s'" using co_leave by (simp add: sf_other_def sf_touch_def sf_require_def)
  then have "sf_ready c s'" using co_leave w by (simp add: sf_ready_def sf_quiet_def sf_touch_def sf_require_def)
  then show ?thesis using co_leave assms(2) w by (simp add: sf_inv_all_def sf_touch_def sf_require_def)
next
  case co_destroy
  then have w: "sf_word s = SfSelf" "sf_producer s = PrDone" "sf_alive s" "sf_quiet s" "\<not> sf_stop_callback s"
    "sf_other c s \<or> sf_started s \<and> sf_sent s = [the (sf_result s)]"
    using assms(3) by (simp_all add: sf_ready_def sf_early_def)
  moreover have "sf_other c s' = sf_other c s" using co_destroy by (simp add: sf_other_def sf_destroy_def sf_touch_def)
  ultimately have "sf_ready c s'" using co_destroy
    by (auto simp: sf_ready_def sf_quiet_def sf_destroy_def sf_touch_def)
  then show ?thesis using co_destroy assms(2) w by (simp add: sf_inv_all_def sf_destroy_def sf_touch_def)
next
  case co_abandon
  then show ?thesis using assms(2,3) by (auto simp: sf_ready_defs)
next
  case co_abandon_thrown
  then show ?thesis using assms(2,3) by (auto simp: sf_ready_defs)
next
  case (co_throw e)
  have w: "sf_early c s" "sf_word s = SfSelf" "sf_producer s = PrDone" "sf_alive s" "sf_canceller s = CaIdle"
    using assms(3) co_throw(2) by (simp_all add: sf_ready_def sf_early_def)
  then have "sf_early c s'" using co_throw by (simp add: sf_early_def sf_send_def)
  then have "sf_ready c s'" using w co_throw by (simp add: sf_ready_def sf_send_def)
  then show ?thesis using co_throw assms(2) by (simp add: sf_inv_all_def sf_send_def)
next
  case co_register
  then show ?thesis using assms(2,3) by (auto simp: sf_ready_defs)
next
  case co_register_stopped
  then show ?thesis using assms(2,3) by (auto simp: sf_ready_defs)
next
  case co_registered
  then show ?thesis using assms(2,3) by (auto simp: sf_ready_defs)
next
  case co_publish
  then show ?thesis using assms(2,3) by (auto simp: sf_ready_defs)
next
  case co_cas
  then show ?thesis using assms(2,3) by (auto simp: sf_ready_defs)
next
  case co_cas_fails
  then show ?thesis using assms(2,3) by (auto simp: sf_ready_defs)
next
  case co_withdraw
  then show ?thesis using assms(2,3) by (auto simp: sf_ready_defs)
next
  case co_other
  then show ?thesis using assms(2,3) by (auto simp: sf_ready_defs)
next
  case co_ready
  then show ?thesis using assms(2,3) by (auto simp: sf_ready_defs)
next
  case co_too_late
  then show ?thesis using assms(2,3) by (auto simp: sf_ready_defs)
next
  case co_drop
  then show ?thesis using assms(2,3) by (auto simp: sf_ready_defs)
next
  case co_send_stopped
  then show ?thesis using assms(2,3) by (auto simp: sf_ready_defs)
qed

lemma sf_left_consume:
  assumes "sf_consumer_step c s s'" and "sf_inv_all c s" and "sf_left c s"
  shows "sf_inv_all c s' \<and> sf_left c s'"
  using assms(1)
  by cases (use assms(2,3) in \<open>auto simp: sf_inv_all_def sf_left_def sf_withdrawn_def sf_other_def sf_quiet_def sf_touch_def sf_require_def sf_send_def\<close>)

lemma sf_waiting_consume: "sf_consumer_step c s s' \<Longrightarrow> \<not> sf_waiting s"
  by (erule sf_consumer_step.cases) (auto simp: sf_waiting_def)

lemma sf_serving_consume: "sf_consumer_step c s s' \<Longrightarrow> \<not> sf_serving s"
  by (erule sf_consumer_step.cases) (auto simp: sf_serving_def)

section \<open>The canceller keeps the invariant\<close>

lemma sf_null_cancel:
  assumes "sf_cancel_step c s s'" and "sf_inv_all c s" and "sf_null c s"
  shows "sf_inv_all c s' \<and> (sf_null c s' \<or> sf_cancelled c s')"
  using assms(1)
  by cases (use assms(2,3) in \<open>auto simp: sf_inv_all_def sf_null_def sf_early_def sf_cancelled_def sf_touch_def split: sf_consumer.splits\<close>)

lemma sf_cancelled_cancel:
  assumes "sf_cancel_step c s s'" and "sf_inv_all c s" and "sf_cancelled c s"
  shows "sf_inv_all c s' \<and> sf_cancelled c s'"
  using assms(1)
  by cases (use assms(2,3) in \<open>auto simp: sf_inv_all_def sf_cancelled_def sf_early_def sf_touch_def split: sf_consumer.splits\<close>)

lemma sf_waiting_cancel:
  assumes "sf_cancel_step c s s'" and "sf_inv_all c s" and "sf_waiting s"
  shows "sf_inv_all c s' \<and> (sf_waiting s' \<or> sf_left c s')"
  using assms(1)
  by cases (use assms(2,3) in \<open>auto simp: sf_inv_all_def sf_waiting_def sf_left_def sf_withdrawn_def sf_touch_def sf_require_def sf_send_def\<close>)

lemma sf_ready_cancel:
  assumes "sf_cancel_step c s s'" and "sf_inv_all c s" and "sf_ready c s"
  shows "sf_inv_all c s' \<and> sf_ready c s'"
  using assms(1)
  by cases (use assms(2,3) in \<open>auto simp: sf_inv_all_def sf_ready_def sf_early_def sf_other_def sf_quiet_def sf_touch_def split: sf_consumer.splits\<close>)

lemma sf_serving_cancel:
  assumes "sf_cancel_step c s s'" and "sf_inv_all c s" and "sf_serving s"
  shows "sf_inv_all c s' \<and> sf_serving s'"
  using assms(1)
  by cases (use assms(2,3) in \<open>auto simp: sf_inv_all_def sf_serving_def sf_quiet_def sf_touch_def sf_require_def sf_send_def\<close>)

lemma sf_other_goto: "sf_other c (s\<lparr>sf_canceller := k\<rparr>) = sf_other c s"
  by (simp add: sf_other_def)

lemma sf_left_cancel:
  assumes "sf_cancel_step c s s'" and "sf_inv_all c s" and "sf_left c s"
  shows "sf_inv_all c s' \<and> sf_left c s'"
  using assms(1)
proof cases
  case ca_send
  then have "sf_withdrawn c s'" using assms(2,3)
    by (auto simp: sf_withdrawn_def sf_left_def sf_inv_all_def sf_other_def sf_send_def)
  then show ?thesis using ca_send assms(2,3) by (simp add: sf_inv_all_def sf_left_def sf_send_def)
next
  case ca_return
  then have "sf_withdrawn c s'" using assms(3) by (auto simp: sf_withdrawn_def sf_left_def sf_other_goto)
  then show ?thesis using ca_return assms(2,3) by (simp add: sf_inv_all_def sf_left_def)
next
  case ca_invoke
  then have "sf_withdrawn c s'" using assms(3) by (auto simp: sf_withdrawn_def sf_left_def)
  then show ?thesis using ca_invoke assms(2,3) by (simp add: sf_inv_all_def sf_left_def)
qed (use assms(2,3) in \<open>auto simp: sf_inv_all_def sf_left_def sf_withdrawn_def sf_touch_def\<close>)

lemma sf_inv_step: "sf_step c s s' \<Longrightarrow> sf_inv c s \<Longrightarrow> sf_inv c s'"
  unfolding sf_inv_def
  by (erule sf_step.cases)
    (blast dest: sf_null_produce sf_cancelled_produce sf_waiting_produce sf_serving_produce sf_left_produce
      sf_null_consume sf_cancelled_consume sf_ready_consume sf_left_consume
      sf_null_cancel sf_cancelled_cancel sf_waiting_cancel sf_ready_cancel sf_serving_cancel sf_left_cancel
      sf_ready_produce sf_waiting_consume sf_serving_consume)+

interpretation sf: safe_system "\<lambda>s. \<not> sf_sync c \<and> sf_init c s" "sf_step c" "sf_inv c" for c
  by unfold_locales (auto intro: sf_inv_init sf_inv_step)

section \<open>What the receiver is told, and when all is done\<close>

definition sf_told :: "sf_cfg \<Rightarrow> sf_state \<Rightarrow> compl \<Rightarrow> bool" where
  "sf_told c s k \<longleftrightarrow> sf_result s = Some k \<or> sf_stop s \<and> k = SetStopped \<or> (\<exists>e. sf_ctor c = Some e \<and> k = SetError (Exn e))"

definition sf_answered :: "sf_cfg \<Rightarrow> sf_state \<Rightarrow> bool" where
  "sf_answered c s \<longleftrightarrow> (if sf_started s then sf_sent s = [] \<or> (\<exists>k. sf_sent s = [k] \<and> sf_told c s k) else sf_sent s = [])"

lemma sf_early_answered: "sf_early c s \<Longrightarrow> sf_answered c s"
  by (auto simp: sf_early_def sf_answered_def sf_told_def split: sf_consumer.splits if_splits)

lemma sf_other_answered: "sf_other c s \<Longrightarrow> sf_answered c s"
  by (auto simp: sf_other_def sf_answered_def sf_told_def)

lemma sf_empty_answered: "sf_sent s = [] \<Longrightarrow> sf_answered c s"
  by (simp add: sf_answered_def)

lemma sf_result_answered:
  "sf_started s \<Longrightarrow> sf_sent s = [the (sf_result s)] \<Longrightarrow> sf_result s \<noteq> None \<Longrightarrow> sf_answered c s"
  by (auto simp: sf_answered_def sf_told_def)

lemma sf_inv_answered:
  assumes "sf_inv c s"
  shows "sf_answered c s"
proof -
  have a: "sf_inv_all c s" using assms by (simp add: sf_inv_def)
  from assms consider "sf_null c s" | "sf_cancelled c s" | "sf_waiting s" | "sf_ready c s" | "sf_serving s" | "sf_left c s"
    unfolding sf_inv_def by blast
  then show ?thesis
  proof cases
    case 4
    then have "sf_result s \<noteq> None" using a by (simp add: sf_ready_def sf_inv_all_def)
    then show ?thesis using 4 sf_early_answered sf_other_answered sf_empty_answered sf_result_answered
      unfolding sf_ready_def by blast
  next
    case 5
    then have "sf_result s \<noteq> None" using a by (auto simp: sf_serving_def sf_inv_all_def)
    then show ?thesis using 5 sf_empty_answered sf_result_answered unfolding sf_serving_def by blast
  next
    case 6
    then show ?thesis using sf_other_answered sf_empty_answered unfolding sf_left_def sf_withdrawn_def by blast
  next
    case 2
    then show ?thesis using sf_early_answered sf_empty_answered unfolding sf_cancelled_def by blast
  qed (simp_all add: sf_null_def sf_waiting_def sf_early_answered sf_empty_answered)
qed

lemma sf_inv_done:
  assumes "sf_inv c s" and "sf_producer s = PrDone" and "sf_consumer s = CoDone" and "sf_quiet s"
  shows "\<not> sf_alive s" and "sf_sent s = [] \<longleftrightarrow> \<not> sf_started s"
proof -
  have o: "sf_other c s \<Longrightarrow> sf_sent s = [] \<longleftrightarrow> \<not> sf_started s" by (auto simp: sf_other_def split: if_splits)
  from assms consider "sf_ready c s" | "sf_serving s" | "sf_left c s"
    unfolding sf_inv_def by (auto simp: sf_null_def sf_cancelled_def sf_waiting_def)
  then have "\<not> sf_alive s \<and> (sf_sent s = [] \<longleftrightarrow> \<not> sf_started s)"
  proof cases
    case 1
    then show ?thesis using assms(3) o by (auto simp: sf_ready_def sf_early_def)
  next
    case 2
    then show ?thesis using assms(2) by (auto simp: sf_serving_def)
  next
    case 3
    then show ?thesis using assms(2-4) o by (auto simp: sf_left_def sf_withdrawn_def sf_quiet_def)
  qed
  then show "\<not> sf_alive s" and "sf_sent s = [] \<longleftrightarrow> \<not> sf_started s" by simp_all
qed

text \<open>A call in progress is never stuck.\<close>

definition sf_moves_on :: "sf_cfg \<Rightarrow> sf_state \<Rightarrow> bool" where
  "sf_moves_on c s \<longleftrightarrow> (\<exists>s'. sf_producer s \<noteq> PrRunning \<and> sf_producer_step c s s' \<or>
     sf_consumer s \<noteq> CoHolds \<and> sf_consumer s \<noteq> CoThrown \<and> sf_consumer_step c s s' \<or>
     sf_canceller s \<noteq> CaIdle \<and> sf_cancel_step c s s')"

text \<open>The steps as functions.\<close>

definition sf_producer_next :: "sf_cfg \<Rightarrow> compl \<Rightarrow> bool \<Rightarrow> sf_state \<Rightarrow> sf_state" where
  "sf_producer_next c k n s = (case sf_producer s of
     PrRunning \<Rightarrow> (sf_touch s)\<lparr>sf_result := Some (sf_stored c k), sf_nested := n, sf_producer := PrExchange\<rparr>
   | PrExchange \<Rightarrow> (sf_touch s)\<lparr>sf_word := SfSelf, sf_producer := sf_complete_next (sf_word s)\<rparr>
   | PrInvoke \<Rightarrow> (sf_require (sf_callback s) (sf_touch s))\<lparr>sf_producer := PrDrop\<rparr>
   | PrDrop \<Rightarrow> s\<lparr>sf_stop_callback := False, sf_producer := PrSend\<rparr>
   | PrSend \<Rightarrow> (sf_do_consume s)\<lparr>sf_producer := PrDestroy\<rparr>
   | PrDestroy \<Rightarrow> (sf_destroy s)\<lparr>sf_producer := PrDone\<rparr>
   | PrDone \<Rightarrow> s)"

definition sf_consumer_next :: "sf_state \<Rightarrow> sf_state" where
  "sf_consumer_next s = (case sf_consumer s of
     CoHolds \<Rightarrow> s\<lparr>sf_started := True, sf_stop_callback := True, sf_consumer := CoConsume\<rparr>
   | CoThrown \<Rightarrow> (sf_touch s)\<lparr>sf_stop := True, sf_consumer := CoLeave\<rparr>
   | CoLeave \<Rightarrow> (sf_require (sf_word s = SfNull \<or> sf_word s = SfSelf) (sf_touch s))
       \<lparr>sf_word := SfSelf, sf_consumer := if sf_word s = SfNull then CoDone else CoDestroy\<rparr>
   | CoRegister \<Rightarrow> s\<lparr>sf_consumer := CoConsume\<rparr>
   | CoConsume \<Rightarrow> (sf_touch s)\<lparr>sf_callback := True, sf_consumer := CoCas\<rparr>
   | CoCas \<Rightarrow> if sf_word s = SfNull then (sf_touch s)\<lparr>sf_word := SfReceiver, sf_consumer := CoDone\<rparr>
       else (sf_touch s)\<lparr>sf_consumer := CoSaw (sf_word s)\<rparr>
   | CoSaw w \<Rightarrow> if w = SfCancelled then (sf_touch s)\<lparr>sf_word := SfSelf, sf_consumer := CoJudge (sf_word s)\<rparr>
       else s\<lparr>sf_consumer := CoJudge w\<rparr>
   | CoJudge w \<Rightarrow> if w = SfSelf then s\<lparr>sf_consumer := CoDrop True\<rparr>
       else (sf_require (w = SfCancelled) s)\<lparr>sf_consumer := CoDrop False\<rparr>
   | CoDrop b \<Rightarrow> s\<lparr>sf_stop_callback := False, sf_consumer := CoSend b\<rparr>
   | CoSend b \<Rightarrow> if b then (sf_do_consume s)\<lparr>sf_consumer := CoDestroy\<rparr> else (sf_send SetStopped s)\<lparr>sf_consumer := CoDone\<rparr>
   | CoDestroy \<Rightarrow> (sf_destroy s)\<lparr>sf_consumer := CoDone\<rparr>
   | CoDone \<Rightarrow> s)"

definition sf_cancel_next :: "sf_state \<Rightarrow> sf_state" where
  "sf_cancel_next s = (case sf_canceller s of
     CaIdle \<Rightarrow> s\<lparr>sf_canceller := CaBegin\<rparr>
   | CaBegin \<Rightarrow> (sf_touch s)\<lparr>sf_stop := True, sf_canceller := CaRequest\<rparr>
   | CaRequest \<Rightarrow> (sf_touch s)\<lparr>sf_canceller := CaCas\<rparr>
   | CaCas \<Rightarrow> (case sf_word s of
         SfNull \<Rightarrow> (sf_touch s)\<lparr>sf_word := SfCancelled, sf_canceller := CaReturn\<rparr>
       | SfSelf \<Rightarrow> (sf_touch s)\<lparr>sf_canceller := CaReturn\<rparr>
       | _ \<Rightarrow> (sf_require (sf_word s = SfReceiver) (sf_touch s))\<lparr>sf_canceller := CaCopy\<rparr>)
   | CaCopy \<Rightarrow> (sf_require (sf_callback s) (sf_touch s))\<lparr>sf_canceller := CaExchange\<rparr>
   | CaExchange \<Rightarrow> (sf_require (sf_word s = SfReceiver \<or> sf_word s = SfSelf) (sf_touch s))
       \<lparr>sf_word := SfSelf, sf_canceller := if sf_word s = SfReceiver then CaInvoke else CaReturn\<rparr>
   | CaInvoke \<Rightarrow> s\<lparr>sf_stop_callback := False, sf_canceller := CaSend\<rparr>
   | CaSend \<Rightarrow> (sf_send SetStopped s)\<lparr>sf_canceller := CaReturn\<rparr>
   | CaReturn \<Rightarrow> s\<lparr>sf_canceller := CaDone\<rparr>
   | CaDone \<Rightarrow> s)"

definition sf_can_produce :: "sf_cfg \<Rightarrow> compl \<Rightarrow> bool \<Rightarrow> sf_state \<Rightarrow> bool" where
  "sf_can_produce c k n s \<longleftrightarrow> (case sf_producer s of
     PrRunning \<Rightarrow> (sf_associated c \<or> k = SetStopped) \<and> (n \<longrightarrow> sf_sync c \<and> sf_canceller s = CaRequest)
   | PrDrop \<Rightarrow> sf_nested s \<or> sf_quiet s
   | PrDone \<Rightarrow> False
   | _ \<Rightarrow> True)"

definition sf_can_consume :: "sf_cfg \<Rightarrow> sf_state \<Rightarrow> bool" where
  "sf_can_consume c s \<longleftrightarrow> (case sf_consumer s of
     CoHolds \<Rightarrow> sf_ctor c = None
   | CoRegister \<Rightarrow> sf_canceller s = CaDone
   | CoDrop b \<Rightarrow> sf_quiet s
   | CoDone \<Rightarrow> False
   | _ \<Rightarrow> True)"

definition sf_can_cancel :: "sf_state \<Rightarrow> bool" where
  "sf_can_cancel s \<longleftrightarrow> (case sf_canceller s of
     CaIdle \<Rightarrow> sf_stop_callback s
   | CaRequest \<Rightarrow> \<not> sf_nested s \<or> sf_producer s = PrDone
   | CaDone \<Rightarrow> False
   | _ \<Rightarrow> True)"

lemma sf_producer_next_step: "sf_can_produce c k n s \<Longrightarrow> sf_producer_step c s (sf_producer_next c k n s)"
  by (cases "sf_producer s")
    (auto simp: sf_can_produce_def sf_producer_next_def
      intro: pr_complete pr_exchange pr_invoke pr_drop pr_send pr_destroy)

lemma sf_consumer_next_step: "sf_can_consume c s \<Longrightarrow> sf_consumer_step c s (sf_consumer_next s)"
proof (cases "sf_consumer s")
  case CoLeave
  then show ?thesis using co_leave [of s c] by (simp add: sf_consumer_next_def)
next
  case (CoJudge w)
  then show ?thesis using co_too_late [of s w c] by (auto simp: sf_consumer_next_def intro: co_ready)
qed (auto simp: sf_can_consume_def sf_consumer_next_def
    intro: co_register co_abandon_thrown co_registered co_publish co_cas co_cas_fails co_withdraw co_other co_drop
      co_send_result co_send_stopped co_destroy)

lemma sf_cancel_next_step: "sf_can_cancel s \<Longrightarrow> sf_cancel_step c s (sf_cancel_next s)"
proof (cases "sf_canceller s")
  case CaCas
  then show ?thesis using ca_cas_receiver [OF CaCas, of c]
    by (cases "sf_word s") (simp_all add: sf_cancel_next_def ca_cas ca_cas_complete)
next
  case CaExchange
  then show ?thesis using ca_exchange [OF CaExchange, of c] by (simp add: sf_cancel_next_def)
qed (auto simp: sf_can_cancel_def sf_cancel_next_def
    intro: ca_start ca_request ca_requested ca_copy ca_invoke ca_send ca_return)

lemma sf_inv_moves_on:
  assumes "sf_inv c s" and "sf_producer s \<noteq> PrRunning \<and> sf_producer s \<noteq> PrDone \<or>
    sf_consumer s \<noteq> CoHolds \<and> sf_consumer s \<noteq> CoThrown \<and> sf_consumer s \<noteq> CoDone \<or> \<not> sf_quiet s"
  shows "sf_moves_on c s"
proof (cases "sf_quiet s")
  case False
  moreover have "\<not> sf_nested s" using assms(1) by (simp add: sf_inv_def sf_inv_all_def)
  ultimately have "sf_can_cancel s" "sf_canceller s \<noteq> CaIdle"
    by (auto simp: sf_can_cancel_def sf_quiet_def split: sf_canceller.split)
  then show ?thesis using sf_cancel_next_step unfolding sf_moves_on_def by blast
next
  case True
  have reg: "sf_consumer s = CoRegister \<Longrightarrow> sf_canceller s \<noteq> CaIdle"
    using assms(1) by (auto simp: sf_inv_def sf_null_def sf_cancelled_def sf_waiting_def sf_ready_def sf_serving_def
        sf_left_def sf_withdrawn_def sf_early_def)
  show ?thesis
  proof (cases "sf_producer s = PrRunning \<or> sf_producer s = PrDone")
    case False
    then have "sf_can_produce c SetStopped False s" using True by (simp add: sf_can_produce_def split: sf_producer.split)
    then show ?thesis using False sf_producer_next_step unfolding sf_moves_on_def by blast
  next
    case over: True
    then have "sf_consumer s \<noteq> CoHolds" "sf_consumer s \<noteq> CoThrown" "sf_consumer s \<noteq> CoDone"
      using assms(2) \<open>sf_quiet s\<close> by auto
    moreover from this have "sf_can_consume c s" using reg \<open>sf_quiet s\<close>
      by (auto simp: sf_can_consume_def sf_quiet_def split: sf_consumer.split)
    ultimately show ?thesis using sf_consumer_next_step unfolding sf_moves_on_def by blast
  qed
qed

section \<open>Properties\<close>

text \<open>
  Claim C39.  Unless a stop request completes the spawned work on the spot, \<open>spawn_future\<close> is safe under
  any interleaving of the work's completion, the future and its stop callback: nothing touches the
  state after it was destroyed, no result is read before it is stored, no assertion fails, the
  future's receiver is completed at most once, and with the result of the work, or as stopped after a stop was
  requested of the work, or with the exception of a callback that could not be constructed.  No
  call in progress gets stuck; and when all calls are over the state has been destroyed exactly once, its
  association with the scope is released, and the receiver is completed if the future was started.
\<close>

theorem sf_settles:
  assumes "reach (\<lambda>s. \<not> sf_sync c \<and> sf_init c s) (sf_step c) s"
  shows "\<not> sf_bad s \<and> sf_destroyed s = of_bool (\<not> sf_alive s) \<and> sf_answered c s \<and>
    (sf_producer s \<noteq> PrRunning \<and> sf_producer s \<noteq> PrDone \<or>
       sf_consumer s \<noteq> CoHolds \<and> sf_consumer s \<noteq> CoThrown \<and> sf_consumer s \<noteq> CoDone \<or> \<not> sf_quiet s \<longrightarrow> sf_moves_on c s) \<and>
    (sf_producer s = PrDone \<and> sf_consumer s = CoDone \<and> sf_quiet s \<longrightarrow>
       sf_destroyed s = 1 \<and> \<not> sf_assoc s \<and> (sf_sent s = [] \<longleftrightarrow> \<not> sf_started s))"
proof -
  have i: "sf_inv c s" using assms by (rule sf.reach_inv)
  then have a: "sf_inv_all c s" by (simp add: sf_inv_def)
  have "sf_destroyed s = 1 \<and> \<not> sf_assoc s \<and> (sf_sent s = [] \<longleftrightarrow> \<not> sf_started s)"
    if "sf_producer s = PrDone" "sf_consumer s = CoDone" "sf_quiet s"
    using sf_inv_done [OF i that] a by (simp add: sf_inv_all_def)
  with a sf_inv_answered [OF i] sf_inv_moves_on [OF i] show ?thesis by (simp add: sf_inv_all_def)
qed

text \<open>Runs: who moves, and for the completion of the work how, and whether inside the stop request.\<close>

datatype sf_move = Produce compl bool | Consume | Cancel

fun sf_play :: "sf_cfg \<Rightarrow> sf_move list \<Rightarrow> sf_state \<Rightarrow> sf_state option" where
  "sf_play c [] s = Some s"
| "sf_play c (Produce k n # ms) s =
     (if sf_can_produce c k n s then sf_play c ms (sf_producer_next c k n s) else None)"
| "sf_play c (Consume # ms) s = (if sf_can_consume c s then sf_play c ms (sf_consumer_next s) else None)"
| "sf_play c (Cancel # ms) s = (if sf_can_cancel s then sf_play c ms (sf_cancel_next s) else None)"

lemma sf_play_reach: "sf_play c ms s = Some s' \<Longrightarrow> reach init (sf_step c) s \<Longrightarrow> reach init (sf_step c) s'"
  by (induction c ms s rule: sf_play.induct)
    (auto split: if_splits intro: reach_step sf_produce sf_consume sf_cancel
      sf_producer_next_step sf_consumer_next_step sf_cancel_next_step)

definition sf_example :: sf_cfg where
  "sf_example = \<lparr>sf_associated = True, sf_sync = False, sf_ctor = None, sf_copy = (\<lambda>_. None)\<rparr>"

text \<open>The future waits, is stopped and told so; the work completes later and cleans up.\<close>

lemma sf_stopped_run:
  "map_option (\<lambda>s. (sf_sent s, sf_started s, sf_producer s, sf_consumer s, sf_canceller s))
    (sf_play sf_example (replicate 3 Consume @ replicate 9 Cancel @ replicate 3 (Produce (SetValue [Obj 1 2]) False))
      (sf_new sf_example)) = Some ([SetStopped], True, PrDone, CoDone, CaDone)"
  by code_simp

theorem sf_settles_witness:
  "\<exists>s. reach (\<lambda>s. \<not> sf_sync sf_example \<and> sf_init sf_example s) (sf_step sf_example) s \<and>
     sf_sent s = [SetStopped] \<and> sf_destroyed s = 1 \<and> \<not> sf_bad s \<and> \<not> sf_assoc s"
proof -
  have new: "reach (\<lambda>s. \<not> sf_sync sf_example \<and> sf_init sf_example s) (sf_step sf_example)
      (sf_new sf_example)"
    by (rule reach_init) (simp add: sf_init_def sf_example_def)
  obtain s where s: "sf_play sf_example
      (replicate 3 Consume @ replicate 9 Cancel @ replicate 3 (Produce (SetValue [Obj 1 2]) False))
      (sf_new sf_example) = Some s" "sf_sent s = [SetStopped]" "sf_producer s = PrDone" "sf_consumer s = CoDone"
      "sf_canceller s = CaDone" using sf_stopped_run by auto
  note r = sf_play_reach [OF s(1) new]
  from sf_settles [OF r] s(2-5) have "sf_destroyed s = 1 \<and> \<not> sf_bad s \<and> \<not> sf_assoc s" by (simp add: sf_quiet_def)
  with r s(2) show ?thesis by (intro exI [of _ s]) simp
qed

definition sf_sync_cfg :: "(compl \<Rightarrow> int option) \<Rightarrow> sf_cfg" where
  "sf_sync_cfg copy = \<lparr>sf_associated = True, sf_sync = True, sf_ctor = None, sf_copy = copy\<rparr>"

lemma sf_sync_run:
  "\<exists>s. sf_play (sf_sync_cfg copy) (replicate 3 Consume @ replicate 2 Cancel @ replicate 6 (Produce k True))
      (sf_new (sf_sync_cfg copy)) = Some s \<and>
    sf_sent s = [sf_stored (sf_sync_cfg copy) k] \<and> sf_destroyed s = 1 \<and> \<not> sf_alive s \<and> sf_producer s = PrDone \<and>
    sf_canceller s = CaRequest"
  by (simp add: eval_nat_numeral sf_sync_cfg_def sf_new_def sf_can_consume_def sf_consumer_next_def sf_can_cancel_def
      sf_cancel_next_def sf_can_produce_def sf_producer_next_def sf_defs)

text \<open>
  Claim C40.  If a stop request completes the spawned work on the spot, a stop of the waiting future
  destroys the state while \<open>__try_cancel\<close> is still inside \<open>request_stop\<close> of the stop source that is
  part of the state, and which it goes on to use: the destruction of the stop callback does not wait on
  the thread that is running it.
\<close>

theorem sf_sync_stop_destroys:
  "\<exists>s s'. reach (sf_init (sf_sync_cfg copy)) (sf_step (sf_sync_cfg copy)) s \<and>
     sf_sent s = [sf_stored (sf_sync_cfg copy) k] \<and> sf_destroyed s = 1 \<and> sf_canceller s = CaRequest \<and>
     sf_cancel_step (sf_sync_cfg copy) s s' \<and> sf_bad s'"
proof -
  let ?c = "sf_sync_cfg copy"
  have new: "reach (sf_init ?c) (sf_step ?c) (sf_new ?c)" by (rule reach_init) (simp add: sf_init_def)
  from sf_sync_run [of copy k] obtain s where
    s: "sf_play ?c (replicate 3 Consume @ replicate 2 Cancel @ replicate 6 (Produce k True)) (sf_new ?c) = Some s"
    "sf_sent s = [sf_stored ?c k] \<and> sf_destroyed s = 1" "\<not> sf_alive s" "sf_producer s = PrDone" "sf_canceller s = CaRequest"
    by blast
  have "sf_cancel_step ?c s ((sf_touch s)\<lparr>sf_canceller := CaCas\<rparr>)" using s(4,5) by (intro ca_requested) simp_all
  moreover have "sf_bad ((sf_touch s)\<lparr>sf_canceller := CaCas\<rparr>)" using s(3) by (simp add: sf_touch_def)
  ultimately show ?thesis using sf_play_reach [OF s(1) new] s(2,5) by blast
qed

end
