(* ===== verification/Spec2Isabelle.thy ===== *)
theory Spec2Isabelle
  imports IntrusiveQueue IntrusiveSlist AtomicQueue CountingScope StopToken SenderLaws WhenAll TimerHeap MpscQueue TimedRuns SyncWait
    Trampoline PoolBulk SpawnFuture
begin

text \<open>
  A model of stdexec, the reference implementation of the C++ sender/receiver model of
  asynchronous execution, and of the \<^verbatim>\<open>exec\<close> extensions that live beside it.

  The program.  A sender describes work; connecting it to a receiver gives an operation state;
  starting that state runs the work, which completes the receiver exactly once, with values, an
  error or as stopped.  The library is (1) algorithms that build senders from senders, described
  by completion signatures and attributes; (2) the concurrent algorithms and scopes whose
  operation states several threads touch; (3) stop sources, through which cancellation is
  requested; (4) execution contexts, threads that take operations from queues; and (5) the
  intrusive containers that all of these use.  Groups (1) to (5) are modelled in theories of
  their own, bottom up; the theories import what the code includes.

  Shared ground: \<^verbatim>\<open>Prelude\<close>.  Nodes are addresses, a pointer is an \<open>addr option\<close>, a pointer
  member of all nodes is a map; \<open>chain\<close> relates such a map to a list.  Concurrent code is a step
  relation, one atomic access per step, over a record that holds the shared memory, a program
  counter with the local variables of every thread, and ghost history.  The locale \<open>safe_system\<close>
  is the contract of such a component (an invariant that holds initially and is kept by every
  step) and \<open>refined_system\<close> adds an abstract system that simulates it; each component
  interprets one of them on its own definitions.

  Containers.
  \<^item> \<^verbatim>\<open>IntrusiveQueue\<close>: every operation of \<^verbatim>\<open>stdexec/__detail/__intrusive_queue.hpp\<close> over a links
    map, loops as partial functions into options.  The locale \<open>fifo_queue\<close> is what clients use;
    it is interpreted on the code's operations and gives the refinement of a list.  A splice of
    a suffix leaves the source's tail stale.
  \<^item> \<^verbatim>\<open>IntrusiveSlist\<close>: \<^verbatim>\<open>stdexec/__detail/__intrusive_slist.hpp\<close>, removal of an inner node included.
  \<^item> \<^verbatim>\<open>AtomicQueue\<close>: the two lock-free stacks with reversal, \<^verbatim>\<open>stdexec/__detail/__atomic_intrusive_queue.hpp\<close>
    and \<^verbatim>\<open>exec/detail/atomic_intrusive_queue.hpp\<close>, for any number of threads; refines an atomic
    batch queue.
  \<^item> \<^verbatim>\<open>MpscQueue\<close>: \<^verbatim>\<open>stdexec/__detail/__intrusive_mpsc_queue.hpp\<close>, exchange and link as two steps,
    the stub node included; first in, first out, and what a consumer may miss.
  \<^item> \<^verbatim>\<open>IntrusiveHeap\<close>, \<^verbatim>\<open>HeapSift\<close>, \<^verbatim>\<open>TimerHeap\<close>: \<^verbatim>\<open>exec/detail/intrusive_heap.hpp\<close> over pointer maps.
    The first has the code's definitions, the shape (\<open>tree_at\<close>, positions addressed by the bits
    of the insertion count) and the swap of a parent with its child; the second proves that
    sifting ends and restores the order; the third adds erasing and the locale \<open>timer_queue\<close>,
    the priority queue that the timed scheduler relies on, interpreted on the heap.

  Cancellation.
  \<^item> \<^verbatim>\<open>StopToken\<close>: \<open>inplace_stop_source\<close> of \<^verbatim>\<open>stdexec/stop_token.hpp\<close>: \<open>request_stop\<close>, registration
    and removal of callbacks with the byte lock and the doubly linked list, callbacks that run
    nested operations (a stack of frames per thread), removal of a callback by itself and from
    another thread, the spin wait on 32-bit words.

  Senders.
  \<^item> \<^verbatim>\<open>Completions\<close>: completions, signatures and their transformations
    (\<^verbatim>\<open>__completion_signatures\<close>, \<^verbatim>\<open>__transform_completion_signatures\<close>).
  \<^item> \<^verbatim>\<open>Senders\<close> and \<^verbatim>\<open>SenderLoops\<close>: one definition per algorithm (\<^verbatim>\<open>just\<close>, \<^verbatim>\<open>read_env\<close>, \<^verbatim>\<open>then\<close> and its
    kin, \<^verbatim>\<open>let_value\<close> and its kin, \<^verbatim>\<open>sequence\<close>, \<^verbatim>\<open>finally\<close>, \<^verbatim>\<open>into_variant\<close>, \<^verbatim>\<open>continues_on\<close>,
    \<^verbatim>\<open>starts_on\<close>, \<^verbatim>\<open>on\<close>, \<^verbatim>\<open>bulk\<close>, \<^verbatim>\<open>repeat_n\<close>, \<^verbatim>\<open>repeat_until\<close>, \<^verbatim>\<open>materialize\<close> and others).  A sender is
    a record of functions of the receiver's environment: its signatures, its attributes,
    whether connecting may throw and its run, which takes the world and gives a completion with
    the world after it, or \<open>None\<close> if it never completes.  User functions are parameters that may
    throw.
  \<^item> \<^verbatim>\<open>SenderLaws\<close>: every expression built from these completes with a signature computed for it
    (typing by induction), the algebraic laws, and the divergences found.
  \<^item> \<^verbatim>\<open>WhenAll\<close>: \<^verbatim>\<open>stdexec/__detail/__when_all.hpp\<close>: the operation state under any interleaving of
    the starter, the children and the receiver's stop callback, its result and its signatures.

  Scopes and contexts.
  \<^item> \<^verbatim>\<open>CountingScope\<close>: \<^verbatim>\<open>stdexec/__detail/__counting_scopes.hpp\<close>: the packed word bit by bit and its
    refinement of (count, phase), then association, close and join as steps of any number of
    threads with the list of waiting joins.
  \<^item> \<^verbatim>\<open>TimedThread\<close> and \<^verbatim>\<open>TimedRuns\<close>: \<^verbatim>\<open>exec/timed_thread_scheduler.hpp\<close>: the reference count that
    \<open>start\<close>, the stop callback and the context's thread share, the submission counter, the
    command queue (the state and the steps of \<^verbatim>\<open>MpscQueue\<close>) and the heap (through \<open>timer_queue\<close>).  \<^verbatim>\<open>TimedRuns\<close> gives the steps as functions,
    with which concrete interleavings are evaluated.
  \<^item> \<^verbatim>\<open>RunLoop\<close>: \<^verbatim>\<open>stdexec/__detail/__run_loop.hpp\<close>: \<open>run\<close>, \<open>finish\<close>, \<open>start\<close> and the execution of
    batches, with the state and the steps of \<^verbatim>\<open>AtomicQueue\<close> inside, so that the iteration over a taken
    batch and the reuse of nodes are as concrete as in the code; blocking and notification of
    the queue's head are steps too.  A decreasing cost shows that \<open>run\<close> returns.
  \<^item> \<^verbatim>\<open>SyncWait\<close>: \<^verbatim>\<open>stdexec/__detail/__sync_wait.hpp\<close>: the receiver's storage and the consumer, over
    the run loop.
  \<^item> \<^verbatim>\<open>Trampoline\<close>: \<^verbatim>\<open>exec/trampoline_scheduler.hpp\<close>: \<open>start\<close>, \<open>__execute\<close> and \<open>__drain\<close> as one
    partial function over the list of deferred operations; the outermost \<open>start\<close> returns, with the
    nesting bounded.
  \<^item> \<^verbatim>\<open>PoolBulk\<close>: \<^verbatim>\<open>bulk\<close> of \<^verbatim>\<open>exec/static_thread_pool.hpp\<close>: \<open>even_share\<close> on 64-bit words, the tasks, their
    counters and the receiver that enqueues them, under any interleaving of the workers.
  \<^item> \<^verbatim>\<open>SpawnFuture\<close>: \<^verbatim>\<open>stdexec/__detail/__spawn_future.hpp\<close>: the atomic word through which the spawned
    work, the future and its stop callback decide who completes the receiver and who destroys
    the state; safe unless a stop request completes the work on the spot, which is shown to be a use after
    destruction.

  What the lemmas show.  The properties are numbered C1 to C40; each is stated in words
  before its theorem.  For containers they are refinements of lists, multisets and orders; for
  concurrent components safety under every interleaving (once only completion, no access after
  destruction, bounds of counters) and absence of lost completions in quiescent states; for
  senders typing and equations.  Several properties prove what the code does where that is not
  what it means to do; the manifest lists these as findings.

  Bounds and assumptions.
  \<^item> Atomic accesses are sequentially consistent, so the model does not show that the memory orders
    chosen are strong enough.  A weak compare-exchange may fail spuriously.
  \<^item> Numbers of threads, nodes, callbacks, children and operations are unbounded.  Counters are
    words where the code packs bits or compares them after wrap-around (the scope word, the
    source's state byte, the heap's paths, the spin count), otherwise \<open>int\<close> or \<open>nat\<close>.
  \<^item> Loops that may not end (\<open>repeat_until\<close>, walks over links) are partial functions into options
    with theorems that they return where they do; no fuel is used.  Compare-exchange loops are steps
    that may be repeated.
  \<^item> Times are integers read from a clock that only moves forward; a timed wait ends when its predicate
    holds or its deadline has come (a spurious wake-up goes back to waiting).
  \<^item> A copy or a user function that throws is a value of a sum; the values, errors and exceptions
    themselves are opaque.  Connecting a sender may throw; moving anything and copying a sender does
    not.  An exception that escapes from a \<^verbatim>\<open>noexcept\<close> function (the children's connect of
    \<^verbatim>\<open>finally\<close>) terminates the program, which is a sender that does not complete.
  \<^item> A child of \<^verbatim>\<open>when_all\<close> completes with any of its signatures in the environment it is connected
    in, which need not be related to those in the receiver's environment.  Two ghost flags record
    the two situations in which the code goes wrong: a stop callback that begins when the counter is
    zero, and a stopped completion that the receiver's environment does not show.  The theorems
    about completion exclude them by name, and show what happens otherwise.
  \<^item> What completions start on the trampoline scheduler is a finite tree of operations.

  Not modelled.  Compile-time dispatch (customisation points, domains, concepts and diagnostics)
  has no run-time state; what the algorithms use of it is part of their definitions.  Coroutine
  frames are generated by the compiler.  The wrappers of operating-system and third-party
  executors, sockets and TLS (\<^verbatim>\<open>netexec\<close>) and CUDA streams (\<^verbatim>\<open>nvexec\<close>) are glue over code outside the
  repository.  Of the library's own logic the following has no model: the queues of the static thread
  pool (the correctness of their work stealing rests on weak memory orders that a sequentially
  consistent model hides), other spawned and shared work (\<^verbatim>\<open>spawn\<close>, \<^verbatim>\<open>split\<close>, \<^verbatim>\<open>async_scope\<close>), \<^verbatim>\<open>when_any\<close>,
  \<^verbatim>\<open>fork_join\<close> and \<^verbatim>\<open>stop_when\<close>, sequence senders and type-erased storage.
\<close>

end
